(* ===== verification/C_Prelude.thy ===== *)
theory C_Prelude
  imports Main "HOL-Library.Monad_Syntax" "HOL-Library.Char_ord"
begin

text \<open>
  Shared vocabulary of the development.

  Undefined behaviour of C (an access outside an object, a read of an uninitialised byte,
  a dereference of NULL) is the value \<^term>\<open>None\<close> of an option type, and the
  operations of the program are sequenced with \<^term>\<open>Option.bind\<close>; a theorem that
  a function returns \<^term>\<open>Some x\<close> therefore says, among other things, that it has
  no undefined behaviour on that input.

  A C string is the list of its characters before the terminating NUL. A heap buffer is a
  list of cells, one per byte, where \<^term>\<open>None\<close> is a byte that was never written.
\<close>

named_theorems cbuf_simps \<open>facts about buffers that are filled from the left\<close>

section \<open>Results\<close>

text \<open>Steps of a program that may be undefined (\<open>None\<close>) or may end it (\<open>Inl\<close>).\<close>

definition andthen :: "('e + 'a) option \<Rightarrow> ('a \<Rightarrow> ('e + 'b) option) \<Rightarrow> ('e + 'b) option" where
  "andthen m f = (case m of None \<Rightarrow> None | Some (Inl e) \<Rightarrow> Some (Inl e) | Some (Inr x) \<Rightarrow> f x)"

lemma andthen_simps [simp]:
  "andthen None f = None" "andthen (Some (Inl e)) f = Some (Inl e)" "andthen (Some (Inr x)) f = f x"
  by (simp_all add: andthen_def)

section \<open>Buffers and C strings\<close>

definition NUL :: char where
  "NUL = CHR 0x00"

type_synonym cbuf = "char option list"

definition nul_free :: "string \<Rightarrow> bool" where
  "nul_free s \<longleftrightarrow> NUL \<notin> set s"

text \<open>\<open>malloc(n)\<close>: \<open>n\<close> bytes with no contents yet.\<close>

definition malloc_buf :: "nat \<Rightarrow> cbuf" where
  "malloc_buf n = replicate n None"

text \<open>\<open>buf[i] = c\<close>\<close>

definition cput :: "cbuf \<Rightarrow> nat \<Rightarrow> char \<Rightarrow> cbuf option" where
  "cput buf i c = (if i < length buf then Some (buf[i := Some c]) else None)"

text \<open>\<open>memcpy(buf + pos, s, strlen(s))\<close>\<close>

fun cmemcpy :: "cbuf \<Rightarrow> nat \<Rightarrow> string \<Rightarrow> cbuf option" where
  "cmemcpy buf pos [] = Some buf"
| "cmemcpy buf pos (c # s) = Option.bind (cput buf pos c) (\<lambda>buf'. cmemcpy buf' (Suc pos) s)"

text \<open>The string a buffer holds: the bytes before the first NUL. Reading an
  uninitialised byte, or running off the end, is undefined.\<close>

fun cstr :: "cbuf \<Rightarrow> string option" where
  "cstr [] = None"
| "cstr (None # r) = None"
| "cstr (Some c # r) = (if c = NUL then Some [] else map_option ((#) c) (cstr r))"

text \<open>A buffer whose first bytes hold \<open>s\<close> and whose last \<open>n\<close> bytes are unwritten.\<close>

definition filled :: "string \<Rightarrow> nat \<Rightarrow> cbuf" where
  "filled s n = map Some s @ replicate n None"

lemma nul_free_simps [simp]:
  "nul_free []"
  "nul_free (c # s) \<longleftrightarrow> c \<noteq> NUL \<and> nul_free s"
  "nul_free (s @ t) \<longleftrightarrow> nul_free s \<and> nul_free t"
  by (auto simp: nul_free_def)

lemma nul_free_subset: "nul_free s \<Longrightarrow> set t \<subseteq> set s \<Longrightarrow> nul_free t"
  by (auto simp: nul_free_def)

lemma nul_free_take [intro]: "nul_free s \<Longrightarrow> nul_free (take n s)"
  by (meson nul_free_subset set_take_subset)

lemma nul_free_drop [intro]: "nul_free s \<Longrightarrow> nul_free (drop n s)"
  by (meson nul_free_subset set_drop_subset)

lemma nul_free_takeWhile [intro]: "nul_free s \<Longrightarrow> nul_free (takeWhile P s)"
  by (auto simp: nul_free_def dest: set_takeWhileD)

lemma nul_free_dropWhile [intro]: "nul_free s \<Longrightarrow> nul_free (dropWhile P s)"
  by (auto simp: nul_free_def dest: set_dropWhileD)

lemma nul_free_rev [simp]: "nul_free (rev s) \<longleftrightarrow> nul_free s"
  by (simp add: nul_free_def)

lemma malloc_filled [cbuf_simps]: "malloc_buf n = filled [] n"
  by (simp add: malloc_buf_def filled_def)

lemma cput_filled [cbuf_simps]:
  "cput (filled s (Suc n)) (length s) c = Some (filled (s @ [c]) n)"
  by (simp add: cput_def filled_def list_update_append)

lemma cput_filled_full [cbuf_simps]: "cput (filled s 0) (length s) c = None"
  by (simp add: cput_def filled_def)

lemma length_filled [cbuf_simps]: "length (filled s n) = length s + n"
  by (simp add: filled_def)

lemma cmemcpy_filled [cbuf_simps]:
  "length t \<le> n \<Longrightarrow> cmemcpy (filled s n) (length s) t = Some (filled (s @ t) (n - length t))"
proof (induction t arbitrary: s n)
  case Nil
  then show ?case by simp
next
  case (Cons c t)
  then obtain m where n: "n = Suc m" by (cases n) auto
  have "cmemcpy (filled (s @ [c]) m) (length (s @ [c])) t
      = Some (filled ((s @ [c]) @ t) (m - length t))"
    using Cons.prems n by (intro Cons.IH) simp
  then show ?case by (simp add: n cput_filled)
qed

lemma cstr_app: "nul_free s \<Longrightarrow> cstr (map Some s @ b) = map_option ((@) s) (cstr b)"
  by (induction s) (cases "cstr b"; auto)+

text \<open>A buffer that was filled and closed by a NUL reads back as what was written, cut at
  the first NUL among it.\<close>

lemma cstr_filled_NUL [cbuf_simps]:
  "cstr (filled (s @ [NUL]) n) = Some (takeWhile (\<lambda>c. c \<noteq> NUL) s)"
  by (induction s) (auto simp: filled_def)

lemma takeWhile_nul_free [simp]: "nul_free s \<Longrightarrow> takeWhile (\<lambda>c. c \<noteq> NUL) s = s"
  by (induction s) auto

section \<open>Characters\<close>

text \<open>The predicates of \<open>ctype.h\<close> in the C locale, on single bytes.\<close>

definition isdigit :: "char \<Rightarrow> bool" where
  "isdigit c \<longleftrightarrow> CHR ''0'' \<le> c \<and> c \<le> CHR ''9''"

definition isupper :: "char \<Rightarrow> bool" where
  "isupper c \<longleftrightarrow> CHR ''A'' \<le> c \<and> c \<le> CHR ''Z''"

definition islower :: "char \<Rightarrow> bool" where
  "islower c \<longleftrightarrow> CHR ''a'' \<le> c \<and> c \<le> CHR ''z''"

definition isalpha :: "char \<Rightarrow> bool" where
  "isalpha c \<longleftrightarrow> isupper c \<or> islower c"

definition isspace :: "char \<Rightarrow> bool" where
  "isspace c \<longleftrightarrow> c \<in> {CHR '' '', CHR 0x09, CHR 0x0A, CHR 0x0B, CHR 0x0C, CHR 0x0D}"

definition tolower :: "char \<Rightarrow> char" where
  "tolower c = (if isupper c then char_of (of_char c + 32 :: nat) else c)"

lemma less_eq_char_code: "c \<le> d \<longleftrightarrow> (of_char c :: nat) \<le> of_char d"
  by (rule less_eq_char_def)

lemma NUL_class [simp]:
  "\<not> isdigit NUL" "\<not> isupper NUL" "\<not> islower NUL" "\<not> isalpha NUL" "\<not> isspace NUL"
  by (simp_all add: isdigit_def isupper_def islower_def isalpha_def isspace_def NUL_def
      less_eq_char_code)

definition crlf :: string where
  "crlf = [CHR 0x0D, CHR 0x0A]"

lemma nul_free_crlf [simp]: "nul_free crlf"
  by (simp add: crlf_def NUL_def)

section \<open>Functions of \<open>string.h\<close>\<close>

text \<open>\<open>strchr\<close>, as the offset of the first occurrence.\<close>

fun strchr :: "string \<Rightarrow> char \<Rightarrow> nat option" where
  "strchr [] c = None"
| "strchr (d # s) c = (if d = c then Some 0 else map_option Suc (strchr s c))"

text \<open>\<open>strncmp(a, b, n) == 0\<close> on strings without NUL.\<close>

definition strneq :: "string \<Rightarrow> string \<Rightarrow> nat \<Rightarrow> bool" where
  "strneq a b n \<longleftrightarrow> take n a = take n b"

text \<open>\<open>strcasecmp(a, b) == 0\<close>\<close>

definition strcaseeq :: "string \<Rightarrow> string \<Rightarrow> bool" where
  "strcaseeq a b \<longleftrightarrow> map tolower a = map tolower b"

lemma strchr_None_iff: "strchr s c = None \<longleftrightarrow> c \<notin> set s"
  by (induction s) auto

lemma strchr_Some:
  "strchr s c = Some i \<Longrightarrow> i < length s \<and> s ! i = c \<and> c \<notin> set (take i s)"
  by (induction s arbitrary: i) (auto split: if_splits)

lemma strchr_append: "c \<notin> set a \<Longrightarrow> strchr (a @ c # b) c = Some (length a)"
  by (induction a) auto

lemma strchr_SomeD: "strchr s c = Some i \<Longrightarrow> s = take i s @ c # drop (Suc i) s"
  using strchr_Some [of s c i] by (metis id_take_nth_drop)

section \<open>Machine sizes\<close>

text \<open>\<open>size_t\<close> subtraction wraps at 64 bits.\<close>

definition sz_sub :: "nat \<Rightarrow> nat \<Rightarrow> nat" where
  "sz_sub a b = (a + 2 ^ 64 - b) mod 2 ^ 64"

lemma sz_sub_exact: "b \<le> a \<Longrightarrow> a < 2 ^ 64 \<Longrightarrow> sz_sub a b = a - b"
proof -
  assume h: "b \<le> a" "a < 2 ^ 64"
  have 1: "a + 2 ^ 64 - b = (a - b) + 2 ^ 64" using h(1) by (rule Nat.add_diff_assoc2 [symmetric])
  have 2: "(a - b) mod 2 ^ 64 = a - b" using h(2) by (intro mod_less) (rule less_imp_diff_less)
  show ?thesis unfolding sz_sub_def 1 mod_add_self2 by (rule 2)
qed

definition INT_MAX :: int where
  "INT_MAX = 2147483647"

section \<open>Decimal numbers\<close>

definition digit_char :: "nat \<Rightarrow> char" where
  "digit_char n = char_of (48 + n)"

definition digit_val :: "char \<Rightarrow> int" where
  "digit_val c = int (of_char c) - 48"

fun dec_nat :: "nat \<Rightarrow> string" where
  "dec_nat n = (if n < 10 then [digit_char n] else dec_nat (n div 10) @ [digit_char (n mod 10)])"

declare dec_nat.simps [simp del]

definition dec_int :: "int \<Rightarrow> string" where
  "dec_int i = (if i < 0 then CHR ''-'' # dec_nat (nat (- i)) else dec_nat (nat i))"

lemma of_char_digit: "n < 10 \<Longrightarrow> of_char (digit_char n) = 48 + n"
  by (simp add: digit_char_def)

lemma digit_char_props [simp]:
  "n < 10 \<Longrightarrow> isdigit (digit_char n)"
  "n < 10 \<Longrightarrow> digit_val (digit_char n) = int n"
  "n < 10 \<Longrightarrow> digit_char n \<noteq> NUL"
proof -
  assume n: "n < 10"
  show "isdigit (digit_char n)"
    using n by (simp add: isdigit_def less_eq_char_code of_char_digit)
  show "digit_val (digit_char n) = int n" by (simp add: digit_val_def of_char_digit n)
  have "of_char (digit_char n) \<noteq> (of_char NUL :: nat)" by (simp add: of_char_digit n NUL_def)
  then show "digit_char n \<noteq> NUL" by auto
qed

lemma dec_nat_digits: "\<forall>c \<in> set (dec_nat n). isdigit c"
proof (induction n rule: dec_nat.induct)
  case (1 n)
  have "n mod 10 < 10" by simp
  with 1 show ?case by (subst dec_nat.simps) (auto simp del: mod_less_divisor)
qed

lemma dec_nat_nonempty: "dec_nat n \<noteq> []"
  by (subst dec_nat.simps) auto

lemma dec_nat_nul_free [simp]: "nul_free (dec_nat n)"
proof -
  have "NUL \<notin> set (dec_nat n)" using dec_nat_digits [of n] by fastforce
  then show ?thesis by (simp add: nul_free_def)
qed

lemma dec_int_nul_free [simp]: "nul_free (dec_int i)"
  by (simp add: dec_int_def NUL_def)

text \<open>Reading a decimal number, most significant digit first, from an accumulator.\<close>

definition read_digits :: "int \<Rightarrow> string \<Rightarrow> int" where
  "read_digits acc s = foldl (\<lambda>a c. a * 10 + digit_val c) acc s"

lemma read_digits_dec_nat: "read_digits 0 (dec_nat n) = int n"
proof (induction n rule: dec_nat.induct)
  case (1 n)
  have "int (n div 10) * 10 + int (n mod 10) = int n" by presburger
  with 1 show ?case
    by (subst dec_nat.simps) (auto simp: read_digits_def)
qed

text \<open>\<open>atoi\<close>: white space, a sign, digits. A number that is no \<open>int\<close> is undefined.\<close>

definition atoi :: "string \<Rightarrow> int option" where
  "atoi s =
    (let s = dropWhile isspace s;
         neg = (s \<noteq> [] \<and> hd s = CHR ''-'');
         ds = takeWhile isdigit (if s \<noteq> [] \<and> hd s \<in> {CHR ''-'', CHR ''+''} then tl s else s);
         v = foldl (\<lambda>n c. 10 * n + digit_val c) 0 ds;
         v = (if neg then - v else v)
     in if - INT_MAX - 1 \<le> v \<and> v \<le> INT_MAX then Some v else None)"

section \<open>Input by lines\<close>

text \<open>\<open>fgets\<close>: up to \<open>n\<close> characters, or up to and with a newline.\<close>

fun fgets :: "nat \<Rightarrow> string \<Rightarrow> string \<times> string" where
  "fgets 0 s = ([], s)"
| "fgets (Suc n) [] = ([], [])"
| "fgets (Suc n) (c # s) =
     (if c = CHR 10 then ([c], s) else case fgets n s of (line, rest) \<Rightarrow> (c # line, rest))"

lemma fgets_append: "fgets n s = (line, rest) \<Longrightarrow> s = line @ rest"
  by (induction n s arbitrary: line rest rule: fgets.induct) (auto split: if_splits prod.splits)

lemma fgets_progress: "fgets (Suc n) (c # s) = (line, rest) \<Longrightarrow> length rest \<le> length s"
  using fgets_append [of "Suc n" "c # s" line rest] by (cases line) (auto split: if_splits prod.splits)

lemma fgets_line: "CHR 10 \<notin> set l \<Longrightarrow> length l < n \<Longrightarrow> fgets n (l @ CHR 10 # rest) = (l @ [CHR 10], rest)"
proof (induction l arbitrary: n)
  case Nil
  then show ?case by (cases n) auto
next
  case (Cons c l)
  then show ?case by (cases n) auto
qed

end
