(* ===== verification/Csapp.thy ===== *)
theory Csapp
  imports C_Prelude
begin

text \<open>
  The parts of \<open>Serverlab/csapp.c\<close> with logic of their own: the robust I/O package, the signal safe
  output routines and the error exits; the wrappers of system functions are in \<open>Wrappers\<close>, the sockets in \<open>Net\<close>. The descriptor is a parameter: the bytes that are still to
  arrive, and a schedule that says for each of the next system calls whether it is short,
  interrupted or fails; when the schedule is used up every call transfers all it can.
\<close>

section \<open>Error exits\<close>

definition error_exit :: "bool \<Rightarrow> int \<Rightarrow> int option" where
  "error_exit do_exit_on_error code = (if do_exit_on_error then Some code else None)"

definition unix_error :: "bool \<Rightarrow> int option" where
  "unix_error do_exit_on_error = error_exit do_exit_on_error 0"

text \<open>A wrapper ends the process with \<open>Inl\<close> a code, or returns \<open>Inr\<close> what the call returned.\<close>

definition wrapped :: "bool \<Rightarrow> bool \<Rightarrow> 'a \<Rightarrow> int + 'a" where
  "wrapped do_exit_on_error failed r =
    (if failed then (case unix_error do_exit_on_error of Some code \<Rightarrow> Inl code | None \<Rightarrow> Inr r) else Inr r)"

section \<open>The system calls\<close>

datatype event = Chunk nat | Interrupted | Failed

record conn =
  pending :: string
  sched :: "event list"
  sent :: string

datatype xfer = Got string | Eintr | Err

definition sys_read :: "conn \<Rightarrow> nat \<Rightarrow> xfer \<times> conn" where
  "sys_read c n =
    (case sched c of
       [] \<Rightarrow> (Got (take n (pending c)), c\<lparr>pending := drop n (pending c)\<rparr>)
     | Chunk k # es \<Rightarrow>
         (let m = min n (Suc k) in (Got (take m (pending c)), c\<lparr>pending := drop m (pending c), sched := es\<rparr>))
     | Interrupted # es \<Rightarrow> (Eintr, c\<lparr>sched := es\<rparr>)
     | Failed # es \<Rightarrow> (Err, c\<lparr>sched := es\<rparr>))"

text \<open>\<open>write\<close> of a string; what it accepted is added to \<open>sent\<close>.\<close>

definition sys_write :: "conn \<Rightarrow> string \<Rightarrow> xfer \<times> conn" where
  "sys_write c s =
    (case sched c of
       [] \<Rightarrow> (Got s, c\<lparr>sent := sent c @ s\<rparr>)
     | Chunk k # es \<Rightarrow>
         (let t = take (Suc k) s in (Got t, c\<lparr>sent := sent c @ t, sched := es\<rparr>))
     | Interrupted # es \<Rightarrow> (Eintr, c\<lparr>sched := es\<rparr>)
     | Failed # es \<Rightarrow> (Err, c\<lparr>sched := es\<rparr>))"

lemma sys_read_sched: "sys_read c n = (r, c') \<Longrightarrow> length (sched c') \<le> length (sched c)"
  by (auto simp: sys_read_def Let_def split: list.splits event.splits)

lemma sys_read_Eintr: "sys_read c n = (Eintr, c') \<Longrightarrow> length (sched c') < length (sched c)"
  by (auto simp: sys_read_def Let_def split: list.splits event.splits)

lemma sys_write_sched: "sys_write c s = (r, c') \<Longrightarrow> length (sched c') \<le> length (sched c)"
  by (auto simp: sys_write_def Let_def split: list.splits event.splits)

lemma sys_write_Eintr: "sys_write c s = (Eintr, c') \<Longrightarrow> length (sched c') < length (sched c)"
  by (auto simp: sys_write_def Let_def split: list.splits event.splits)

lemma sys_write_Got: "sys_write c s = (Got t, c') \<Longrightarrow> s \<noteq> [] \<Longrightarrow> t \<noteq> [] \<and> s = t @ drop (length t) s \<and> sent c' = sent c @ t"
  by (auto simp: sys_write_def Let_def min_def split: list.splits event.splits)

section \<open>Unbuffered reads and writes\<close>

text \<open>The loops return the result of the function, what was transferred, and the descriptor.\<close>

function readn_loop :: "conn \<Rightarrow> nat \<Rightarrow> nat \<Rightarrow> string \<Rightarrow> int \<times> string \<times> conn" where
  "readn_loop c n nleft usrbuf =
    (if 0 < nleft then
       (case sys_read c nleft of
          (Err, c') \<Rightarrow> (-1, usrbuf, c')
        | (Eintr, c') \<Rightarrow> readn_loop c' n nleft usrbuf
        | (Got s, c') \<Rightarrow>
            if s = [] then (int n - int nleft, usrbuf, c')
            else readn_loop c' n (nleft - length s) (usrbuf @ s))
     else (int n - int nleft, usrbuf, c))"
  by pat_completeness auto
termination
  by (relation "measures [\<lambda>(c, n, nleft, usrbuf). nleft, \<lambda>(c, n, nleft, usrbuf). length (sched c)]")
    (auto dest: sys_read_Eintr [OF sym])

declare readn_loop.simps [simp del]

definition rio_readn :: "conn \<Rightarrow> nat \<Rightarrow> int \<times> string \<times> conn" where
  "rio_readn c n = readn_loop c n n ''''"

function writen_loop :: "conn \<Rightarrow> nat \<Rightarrow> string \<Rightarrow> int \<times> conn" where
  "writen_loop c n bufp =
    (if bufp \<noteq> [] then
       (case sys_write c bufp of
          (Err, c') \<Rightarrow> (-1, c')
        | (Eintr, c') \<Rightarrow> writen_loop c' n bufp
        | (Got s, c') \<Rightarrow> writen_loop c' n (drop (length s) bufp))
     else (int n, c))"
  by pat_completeness auto
termination
  by (relation "measures [\<lambda>(c, n, bufp). length bufp, \<lambda>(c, n, bufp). length (sched c)]")
    (auto dest: sys_write_Eintr [OF sym] sys_write_Got [OF sym])

declare writen_loop.simps [simp del]

definition rio_writen :: "conn \<Rightarrow> string \<Rightarrow> int \<times> conn" where
  "rio_writen c usrbuf = writen_loop c (length usrbuf) usrbuf"

section \<open>Buffered reads\<close>

definition RIO_BUFSIZE :: nat where
  "RIO_BUFSIZE = 8192"

record rio_t =
  rio_cnt :: int
  rio_bufptr :: nat
  rio_buf :: string

text \<open>The copy out of the internal buffer.\<close>

definition rio_copy :: "rio_t \<Rightarrow> conn \<Rightarrow> nat \<Rightarrow> int \<times> string \<times> rio_t \<times> conn" where
  "rio_copy rp c n =
    (let cnt = min n (nat (rio_cnt rp)) in
     (int cnt, take cnt (drop (rio_bufptr rp) (rio_buf rp)),
      rp\<lparr>rio_bufptr := rio_bufptr rp + cnt, rio_cnt := rio_cnt rp - int cnt\<rparr>, c))"

function rio_read :: "rio_t \<Rightarrow> conn \<Rightarrow> nat \<Rightarrow> int \<times> string \<times> rio_t \<times> conn" where
  "rio_read rp c n =
    (if rio_cnt rp \<le> 0 then
       (case sys_read c RIO_BUFSIZE of
          (Err, c') \<Rightarrow> (-1, '''', rp\<lparr>rio_cnt := -1\<rparr>, c')
        | (Eintr, c') \<Rightarrow> rio_read (rp\<lparr>rio_cnt := -1\<rparr>) c' n
        | (Got s, c') \<Rightarrow>
            if s = [] then (0, '''', rp\<lparr>rio_cnt := 0\<rparr>, c')
            else rio_copy (rp\<lparr>rio_cnt := int (length s), rio_buf := s @ drop (length s) (rio_buf rp), rio_bufptr := 0\<rparr>) c' n)
     else rio_copy rp c n)"
  by pat_completeness auto
termination
  by (relation "measure (\<lambda>(rp, c, n). length (sched c))") (auto dest: sys_read_Eintr [OF sym])

declare rio_read.simps [simp del]

definition rio_readinitb :: "string \<Rightarrow> rio_t" where
  "rio_readinitb buf = \<lparr>rio_cnt = 0, rio_bufptr = 0, rio_buf = buf\<rparr>"

function readnb_loop :: "rio_t \<Rightarrow> conn \<Rightarrow> nat \<Rightarrow> nat \<Rightarrow> string \<Rightarrow> int \<times> string \<times> rio_t \<times> conn" where
  "readnb_loop rp c n nleft usrbuf =
    (if 0 < nleft then
       (case rio_read rp c nleft of (nread, s, rp', c') \<Rightarrow>
          if nread < 0 then (-1, usrbuf, rp', c')
          else if nread = 0 then (int n - int nleft, usrbuf, rp', c')
          else readnb_loop rp' c' n (nleft - nat nread) (usrbuf @ s))
     else (int n - int nleft, usrbuf, rp, c))"
  by pat_completeness auto
termination
  by (relation "measure (\<lambda>(rp, c, n, nleft, usrbuf). nleft)") auto

declare readnb_loop.simps [simp del]

definition rio_readnb :: "rio_t \<Rightarrow> conn \<Rightarrow> nat \<Rightarrow> int \<times> string \<times> rio_t \<times> conn" where
  "rio_readnb rp c n = readnb_loop rp c n n ''''"

text \<open>\<open>usrbuf\<close> is the caller's buffer; a write outside it is undefined.\<close>

definition line_end :: "rio_t \<Rightarrow> conn \<Rightarrow> cbuf \<Rightarrow> nat \<Rightarrow> (int \<times> cbuf \<times> rio_t \<times> conn) option" where
  "line_end rp c usrbuf n = do { usrbuf \<leftarrow> cput usrbuf (n - 1) NUL; Some (int n - 1, usrbuf, rp, c) }"

function line_loop :: "rio_t \<Rightarrow> conn \<Rightarrow> cbuf \<Rightarrow> nat \<Rightarrow> nat \<Rightarrow> (int \<times> cbuf \<times> rio_t \<times> conn) option" where
  "line_loop rp c usrbuf maxlen n =
    (if n < maxlen then
       (case rio_read rp c 1 of (rc, s, rp', c') \<Rightarrow>
          if rc = 1 then
            (case cput usrbuf (n - 1) (hd s) of
               None \<Rightarrow> None
             | Some usrbuf' \<Rightarrow>
                 if hd s = CHR 0x0A then line_end rp' c' usrbuf' (n + 1)
                 else line_loop rp' c' usrbuf' maxlen (n + 1))
          else if rc = 0 then
            (if n = 1 then Some (0, usrbuf, rp', c') else line_end rp' c' usrbuf n)
          else Some (-1, usrbuf, rp', c'))
     else line_end rp c usrbuf n)"
  by pat_completeness auto
termination
  by (relation "measure (\<lambda>(rp, c, usrbuf, maxlen, n). maxlen - n)") auto

declare line_loop.simps [simp del]

definition rio_readlineb :: "rio_t \<Rightarrow> conn \<Rightarrow> cbuf \<Rightarrow> nat \<Rightarrow> (int \<times> cbuf \<times> rio_t \<times> conn) option" where
  "rio_readlineb rp c usrbuf maxlen = line_loop rp c usrbuf maxlen 1"

section \<open>The wrappers\<close>

definition Rio_readn :: "bool \<Rightarrow> conn \<Rightarrow> nat \<Rightarrow> int + int \<times> string \<times> conn" where
  "Rio_readn ex c nbytes = (let r = rio_readn c nbytes in wrapped ex (fst r < 0) r)"

definition Rio_writen :: "bool \<Rightarrow> conn \<Rightarrow> string \<Rightarrow> int + conn" where
  "Rio_writen ex c usrbuf = (case rio_writen c usrbuf of (n, c) \<Rightarrow> wrapped ex (n \<noteq> int (length usrbuf)) c)"

definition Rio_readnb :: "bool \<Rightarrow> rio_t \<Rightarrow> conn \<Rightarrow> nat \<Rightarrow> int + int \<times> string \<times> rio_t \<times> conn" where
  "Rio_readnb ex rp c n = (let r = rio_readnb rp c n in wrapped ex (fst r < 0) r)"

definition Rio_readlineb ::
  "bool \<Rightarrow> rio_t \<Rightarrow> conn \<Rightarrow> cbuf \<Rightarrow> nat \<Rightarrow> (int + int \<times> cbuf \<times> rio_t \<times> conn) option" where
  "Rio_readlineb ex rp c usrbuf maxlen =
    map_option (\<lambda>r. wrapped ex (fst r < 0) r) (rio_readlineb rp c usrbuf maxlen)"

section \<open>Signal safe output\<close>

function sio_reverse_loop :: "int \<Rightarrow> int \<Rightarrow> string \<Rightarrow> string" where
  "sio_reverse_loop i j s =
    (if i < j then sio_reverse_loop (i + 1) (j - 1) (s[nat i := s ! nat j, nat j := s ! nat i]) else s)"
  by pat_completeness auto
termination
  by (relation "measure (\<lambda>(i, j, s). nat (j - i))") auto

declare sio_reverse_loop.simps [simp del]

definition sio_reverse :: "string \<Rightarrow> string" where
  "sio_reverse s = sio_reverse_loop 0 (int (length s) - 1) s"

text \<open>\<open>/\<close> and \<open>%\<close> of C round towards zero. Digits are produced from the last one on. The base
  is 10 in every call; the guard \<open>1 < b\<close> makes the loop total.\<close>

definition cdiv :: "int \<Rightarrow> int \<Rightarrow> int" where
  "cdiv a b = sgn a * sgn b * (\<bar>a\<bar> div \<bar>b\<bar>)"

definition cmod :: "int \<Rightarrow> int \<Rightarrow> int" where
  "cmod a b = a - cdiv a b * b"

definition sio_digit :: "int \<Rightarrow> char" where
  "sio_digit c = char_of (nat (if c < 10 then c + 48 else c - 10 + 97))"

function sio_ltoa_loop :: "int \<Rightarrow> int \<Rightarrow> string \<Rightarrow> string" where
  "sio_ltoa_loop v b s =
    (let s = s @ [sio_digit (cmod v b)]; v' = cdiv v b in
     if 0 < v' \<and> 1 < b then sio_ltoa_loop v' b s else s)"
  by pat_completeness auto
termination
proof (relation "measure (\<lambda>(v, b, s). nat v)", goal_cases)
  case (2 v b s x v')
  then have "0 < cdiv v b" "1 < b" by auto
  then have v: "0 < v"
    using pos_imp_zdiv_nonneg_iff [of b "- v"] by (cases v "0 :: int" rule: linorder_cases) (auto simp: cdiv_def sgn_if)
  then have "cdiv v b = v div b" using 2 by (simp add: cdiv_def sgn_if)
  moreover have "v div b < v" using v \<open>1 < b\<close> by (intro int_div_less_self)
  ultimately show ?case using 2 v by simp
qed simp

declare sio_ltoa_loop.simps [simp del]

definition sio_ltoa :: "int \<Rightarrow> int \<Rightarrow> string" where
  "sio_ltoa v b = sio_reverse (sio_ltoa_loop v b '''')"

fun sio_strlen :: "string \<Rightarrow> int \<Rightarrow> int" where
  "sio_strlen [] i = i"
| "sio_strlen (c # s) i = sio_strlen s (i + 1)"

definition sio_puts :: "conn \<Rightarrow> string \<Rightarrow> xfer \<times> conn" where
  "sio_puts out s = sys_write out (take (nat (sio_strlen s 0)) s)"

text \<open>\<open>char s[128]\<close>: a longer number would overrun it.\<close>

definition sio_putl :: "conn \<Rightarrow> int \<Rightarrow> (xfer \<times> conn) option" where
  "sio_putl out v = (let s = sio_ltoa v 10 in if length s < 128 then Some (sio_puts out s) else None)"

section \<open>Robustness: the schedule does not matter\<close>

definition calm :: "conn \<Rightarrow> bool" where
  "calm c \<longleftrightarrow> Failed \<notin> set (sched c)"

definition rio_ok :: "rio_t \<Rightarrow> bool" where
  "rio_ok rp \<longleftrightarrow> length (rio_buf rp) = RIO_BUFSIZE \<and> rio_bufptr rp + nat (rio_cnt rp) \<le> RIO_BUFSIZE"

text \<open>What the client of the buffered functions has still to read.\<close>

definition stream :: "rio_t \<Rightarrow> conn \<Rightarrow> string" where
  "stream rp c = take (nat (rio_cnt rp)) (drop (rio_bufptr rp) (rio_buf rp)) @ pending c"

lemma rio_ok_init [simp]: "length buf = RIO_BUFSIZE \<Longrightarrow> rio_ok (rio_readinitb buf)"
  by (simp add: rio_ok_def rio_readinitb_def)

lemma stream_init [simp]: "stream (rio_readinitb buf) c = pending c"
  by (simp add: stream_def rio_readinitb_def)

lemma sys_read_calm:
  assumes "sys_read c n = (r, c')" "calm c" "0 < n"
  shows "calm c' \<and> sent c' = sent c \<and> r \<noteq> Err \<and> (r = Eintr \<longrightarrow> pending c' = pending c) \<and>
    (\<forall>s. r = Got s \<longrightarrow> pending c = s @ pending c' \<and> length s \<le> n \<and> (s = [] \<longrightarrow> pending c = []))"
  using assms by (auto simp: sys_read_def calm_def Let_def split: list.splits event.splits)

lemma sys_write_calm:
  assumes "sys_write c s = (r, c')" "calm c"
  shows "calm c' \<and> pending c' = pending c \<and> r \<noteq> Err \<and> (r = Eintr \<longrightarrow> sent c' = sent c)"
  using assms by (auto simp: sys_write_def calm_def Let_def split: list.splits event.splits)

lemma rio_copy_ok:
  assumes "rio_ok rp" "rio_copy rp c n = (r, s, rp', c')" "0 < n" "0 < rio_cnt rp"
  shows "c' = c \<and> rio_ok rp' \<and> stream rp c = s @ stream rp' c \<and> r = int (length s) \<and> length s \<le> n \<and> s \<noteq> []"
proof -
  define k where "k = min n (nat (rio_cnt rp))"
  have k: "0 < k" "k \<le> nat (rio_cnt rp)" "k \<le> n" using assms(3,4) by (auto simp: k_def)
  have res: "r = int k" "s = take k (drop (rio_bufptr rp) (rio_buf rp))" "c' = c"
      "rp' = rp\<lparr>rio_bufptr := rio_bufptr rp + k, rio_cnt := rio_cnt rp - int k\<rparr>"
    using assms(2) by (auto simp: rio_copy_def Let_def k_def)
  define b where "b = drop (rio_bufptr rp) (rio_buf rp)"
  have b: "nat (rio_cnt rp) \<le> length b" using assms(1) by (auto simp: rio_ok_def b_def)
  have "take (nat (rio_cnt rp)) b = take k b @ take (nat (rio_cnt rp) - k) (drop k b)"
    using k(2) by (metis le_add_diff_inverse take_add)
  moreover have "nat (rio_cnt rp - int k) = nat (rio_cnt rp) - k" by (simp add: nat_diff_distrib')
  ultimately show ?thesis
    using assms(1) k b unfolding res
    by (auto simp: rio_ok_def stream_def b_def [symmetric] drop_drop [symmetric] simp del: drop_drop)
      (auto simp: b_def add.commute)
qed

lemma rio_read_ok:
  assumes "rio_ok rp" "calm c" "0 < n" "rio_read rp c n = (r, s, rp', c')"
  shows "rio_ok rp' \<and> calm c' \<and> sent c' = sent c \<and> stream rp c = s @ stream rp' c' \<and> r = int (length s) \<and> length s \<le> n \<and>
    (s = [] \<longrightarrow> stream rp c = [])"
  using assms
proof (induction rp c n rule: rio_read.induct)
  case (1 rp c n)
  show ?case
  proof (cases "rio_cnt rp \<le> 0")
    case False
    then have copy: "rio_copy rp c n = (r, s, rp', c')" using 1(5) by (simp add: rio_read.simps)
    have "0 < rio_cnt rp" using False by simp
    note ok = rio_copy_ok [OF 1(2) copy 1(4) this]
    have "c' = c" "s \<noteq> []" using ok by blast+
    moreover have "stream rp c \<noteq> []" using ok by (metis append_is_Nil_conv)
    ultimately show ?thesis using ok 1(3) by blast
  next
    case True
    obtain x c1 where x: "sys_read c RIO_BUFSIZE = (x, c1)" by (cases "sys_read c RIO_BUFSIZE")
    note calm = sys_read_calm [OF x 1(3)]
    have st: "stream rp c = pending c" using True by (simp add: stream_def)
    show ?thesis
    proof (cases x)
      case (Got t)
      note got = calm [unfolded Got, simplified RIO_BUFSIZE_def, simplified]
      show ?thesis
      proof (cases "t = []")
        case t: True
        then have "rio_read rp c n = (0, [], rp\<lparr>rio_cnt := 0\<rparr>, c1)"
          using x Got True by (simp add: rio_read.simps [of rp])
        then have res: "r = 0" "s = []" "rp' = rp\<lparr>rio_cnt := 0\<rparr>" "c' = c1" using 1(5) by auto
        have "pending c = []" "pending c1 = []" using got t by auto
        then show ?thesis using 1(2) got st unfolding res by (simp add: rio_ok_def stream_def)
      next
        case False
        define rp1 where "rp1 = rp\<lparr>rio_cnt := int (length t), rio_buf := t @ drop (length t) (rio_buf rp), rio_bufptr := 0\<rparr>"
        have "rio_copy rp1 c1 n = (r, s, rp', c')"
          using 1(5) x Got True False by (simp add: rio_read.simps [of rp] rp1_def)
        moreover have "rio_ok rp1" using 1(2) got by (auto simp: rio_ok_def rp1_def RIO_BUFSIZE_def)
        moreover have "stream rp1 c1 = pending c" using got by (simp add: stream_def rp1_def)
        ultimately show ?thesis using rio_copy_ok [of rp1 c1 n r s rp' c'] 1(4) False got st by (auto simp: rp1_def)
      qed
    next
      case Eintr
      have "rio_read (rp\<lparr>rio_cnt := - 1\<rparr>) c1 n = (r, s, rp', c')"
        using 1(5) x Eintr True by (simp add: rio_read.simps [of rp])
      moreover have "rio_ok (rp\<lparr>rio_cnt := - 1\<rparr>)" using 1(2) True by (auto simp: rio_ok_def)
      moreover have "stream (rp\<lparr>rio_cnt := - 1\<rparr>) c1 = pending c" using calm Eintr by (simp add: stream_def RIO_BUFSIZE_def)
      ultimately show ?thesis using 1(1) [OF True x [symmetric] Eintr] calm Eintr 1(4) st by (auto simp: RIO_BUFSIZE_def)
    next
      case Err
      then show ?thesis using calm by (simp add: RIO_BUFSIZE_def)
    qed
  qed
qed

fun next_line :: "string \<Rightarrow> nat \<Rightarrow> string" where
  "next_line s 0 = ''''"
| "next_line [] (Suc k) = ''''"
| "next_line (c # s) (Suc k) = c # (if c = CHR 0x0A then '''' else next_line s k)"

lemma next_line_Nil [simp]: "next_line [] k = []"
  by (cases k) auto

lemma cput_app: "cput (map Some d @ x # r) (length d) c = Some (map Some (d @ [c]) @ r)"
  by (simp add: cput_def list_update_append)

lemma line_end_app:
  "r \<noteq> [] \<Longrightarrow> line_end rp c (map Some d @ r) (length d + 1) = Some (int (length d), map Some (d @ [NUL]) @ drop 1 r, rp, c)"
  by (cases r) (auto simp: line_end_def cput_app [simplified])

lemma line_loop_line:
  assumes "rio_ok rp" "calm c" "k < length r" "d \<noteq> [] \<or> stream rp c \<noteq> []" "0 < k \<or> d \<noteq> []"
  shows "\<exists>rp' c'. line_loop rp c (map Some d @ r) (length d + 1 + k) (length d + 1) =
      Some (int (length (d @ next_line (stream rp c) k)),
        map Some (d @ next_line (stream rp c) k @ [NUL]) @ drop (length (next_line (stream rp c) k) + 1) r, rp', c') \<and>
    rio_ok rp' \<and> calm c' \<and> sent c' = sent c \<and> stream rp c = next_line (stream rp c) k @ stream rp' c'"
  using assms
proof (induction k arbitrary: rp c d r)
  case 0
  then have "r \<noteq> []" by auto
  then show ?case using line_end_app [of r rp c d] 0 by (simp add: line_loop.simps [of rp c "map Some d @ r"])
next
  case (Suc k)
  obtain x r' where r: "r = x # r'" using Suc.prems(3) by (cases r) auto
  obtain rc s rp1 c1 where rd: "rio_read rp c 1 = (rc, s, rp1, c1)" by (cases "rio_read rp c 1")
  have ok: "rio_ok rp1" "calm c1" "sent c1 = sent c" "stream rp c = s @ stream rp1 c1" "rc = int (length s)" "length s \<le> 1"
      "s = [] \<longrightarrow> stream rp c = []"
    using rio_read_ok [OF Suc.prems(1,2) zero_less_one rd] by blast+
  have unf: "line_loop rp c (map Some d @ r) (length d + 1 + Suc k) (length d + 1) =
      (if rc = 1 then
         (case cput (map Some d @ r) (length d) (hd s) of
            None \<Rightarrow> None
          | Some u \<Rightarrow> if hd s = CHR 0x0A then line_end rp1 c1 u (length d + 2)
              else line_loop rp1 c1 u (length d + 1 + Suc k) (length d + 2))
       else if rc = 0 then (if d = [] then Some (0, map Some d @ r, rp1, c1) else line_end rp1 c1 (map Some d @ r) (length d + 1))
       else Some (-1, map Some d @ r, rp1, c1))"
    using rd by (simp add: line_loop.simps [of rp c "map Some d @ r"] cong: option.case_cong if_cong)
  show ?case
  proof (cases s)
    case Nil
    then have "d \<noteq> []" "stream rp c = []" "stream rp1 c1 = []" "rc = 0" using ok Suc.prems(4) by auto
    then show ?thesis unfolding unf using ok(1-3) line_end_app [of r rp1 c1 d] r by simp
  next
    case (Cons ch s')
    then have s: "s = [ch]" using ok(6) by simp
    have rc: "rc = 1" using ok(5) s by simp
    have put: "cput (map Some d @ r) (length d) ch = Some (map Some (d @ [ch]) @ r')" unfolding r by (rule cput_app)
    have st: "stream rp c = ch # stream rp1 c1" using ok(4) s by simp
    show ?thesis
    proof (cases "ch = CHR 0x0A")
      case True
      have "r' \<noteq> []" using Suc.prems(3) r by auto
      then have "line_end rp1 c1 (map Some (d @ [ch]) @ r') (length d + 2) =
          Some (int (length (d @ [ch])), map Some ((d @ [ch]) @ [NUL]) @ drop 1 r', rp1, c1)"
        using line_end_app [of r' rp1 c1 "d @ [ch]"] by simp
      then show ?thesis unfolding unf st using rc s put True r ok(1-3) by simp
    next
      case False
      have 1: "line_loop rp c (map Some d @ r) (length d + 1 + Suc k) (length d + 1) =
          line_loop rp1 c1 (map Some (d @ [ch]) @ r') (length (d @ [ch]) + 1 + k) (length (d @ [ch]) + 1)"
        unfolding unf using rc s put False by simp
      have 2: "next_line (stream rp c) (Suc k) = ch # next_line (stream rp1 c1) k" using st False by simp
      have 3: "\<exists>rp' c'. line_loop rp1 c1 (map Some (d @ [ch]) @ r') (length (d @ [ch]) + 1 + k) (length (d @ [ch]) + 1) =
          Some (int (length ((d @ [ch]) @ next_line (stream rp1 c1) k)),
            map Some ((d @ [ch]) @ next_line (stream rp1 c1) k @ [NUL]) @ drop (length (next_line (stream rp1 c1) k) + 1) r', rp', c') \<and>
          rio_ok rp' \<and> calm c' \<and> sent c' = sent c1 \<and> stream rp1 c1 = next_line (stream rp1 c1) k @ stream rp' c'"
        using Suc.prems(3) r by (intro Suc.IH [OF ok(1,2)]) simp_all
      from 3 obtain rp' c' where 4: "line_loop rp1 c1 (map Some (d @ [ch]) @ r') (length (d @ [ch]) + 1 + k) (length (d @ [ch]) + 1) =
          Some (int (length ((d @ [ch]) @ next_line (stream rp1 c1) k)),
            map Some ((d @ [ch]) @ next_line (stream rp1 c1) k @ [NUL]) @ drop (length (next_line (stream rp1 c1) k) + 1) r', rp', c')"
          "rio_ok rp'" "calm c'" "sent c' = sent c1" "stream rp1 c1 = next_line (stream rp1 c1) k @ stream rp' c'"
        by blast
      have "line_loop rp c (map Some d @ r) (length d + 1 + Suc k) (length d + 1) =
          Some (int (length (d @ next_line (stream rp c) (Suc k))),
            map Some (d @ next_line (stream rp c) (Suc k) @ [NUL]) @ drop (length (next_line (stream rp c) (Suc k)) + 1) r, rp', c')"
        unfolding 1 4(1) 2 by (simp add: r)
      moreover have "stream rp c = next_line (stream rp c) (Suc k) @ stream rp' c'" unfolding 2 using st 4(5) by simp
      ultimately show ?thesis using 4(2-4) ok(3) by metis
    qed
  qed
qed

lemma readlineb_line:
  assumes "rio_ok rp" "calm c" "1 < maxlen" "maxlen \<le> length usrbuf" "stream rp c \<noteq> []"
  obtains rp' c' where "rio_readlineb rp c usrbuf maxlen = Some (int (length (next_line (stream rp c) (maxlen - 1))),
      map Some (next_line (stream rp c) (maxlen - 1) @ [NUL]) @ drop (length (next_line (stream rp c) (maxlen - 1)) + 1) usrbuf, rp', c')"
    "rio_ok rp'" "calm c'" "sent c' = sent c" "stream rp c = next_line (stream rp c) (maxlen - 1) @ stream rp' c'"
proof -
  have "\<exists>rp' c'. line_loop rp c (map Some [] @ usrbuf) (length ([] :: string) + 1 + (maxlen - 1)) (length ([] :: string) + 1) =
      Some (int (length ([] @ next_line (stream rp c) (maxlen - 1))),
        map Some ([] @ next_line (stream rp c) (maxlen - 1) @ [NUL]) @ drop (length (next_line (stream rp c) (maxlen - 1)) + 1) usrbuf, rp', c') \<and>
      rio_ok rp' \<and> calm c' \<and> sent c' = sent c \<and> stream rp c = next_line (stream rp c) (maxlen - 1) @ stream rp' c'"
    using assms(3-5) by (intro line_loop_line [OF assms(1,2)]) auto
  then obtain rp' c' where "line_loop rp c usrbuf maxlen 1 = Some (int (length (next_line (stream rp c) (maxlen - 1))),
        map Some (next_line (stream rp c) (maxlen - 1) @ [NUL]) @ drop (length (next_line (stream rp c) (maxlen - 1)) + 1) usrbuf, rp', c')"
      "rio_ok rp'" "calm c'" "sent c' = sent c" "stream rp c = next_line (stream rp c) (maxlen - 1) @ stream rp' c'"
    using assms(3) by auto
  then show thesis using that [of rp' c'] by (simp only: rio_readlineb_def)
qed

lemma readlineb_eof:
  assumes "rio_ok rp" "calm c" "1 < maxlen" "stream rp c = []"
  obtains rp' c' where "rio_readlineb rp c usrbuf maxlen = Some (0, usrbuf, rp', c')"
    "rio_ok rp'" "calm c'" "sent c' = sent c" "stream rp' c' = []"
proof -
  obtain rc s rp1 c1 where rd: "rio_read rp c 1 = (rc, s, rp1, c1)" by (cases "rio_read rp c 1")
  have "rio_ok rp1" "calm c1" "sent c1 = sent c" "stream rp1 c1 = []" "s = []" "rc = 0"
    using rio_read_ok [OF assms(1,2) _ rd] assms(4) by auto
  moreover from this have "rio_readlineb rp c usrbuf maxlen = Some (0, usrbuf, rp1, c1)"
    using rd assms(3) by (simp add: rio_readlineb_def line_loop.simps [of rp c usrbuf maxlen])
  ultimately show thesis using that by blast
qed

lemma readnb_loop_exact:
  assumes "rio_ok rp" "calm c"
  shows "\<exists>rp' c'. readnb_loop rp c n nleft d =
      (int n - int (nleft - length (take nleft (stream rp c))), d @ take nleft (stream rp c), rp', c') \<and>
    rio_ok rp' \<and> calm c' \<and> sent c' = sent c \<and> stream rp' c' = drop nleft (stream rp c)"
  using assms
proof (induction nleft arbitrary: rp c d rule: less_induct)
  case (less nleft)
  show ?case
  proof (cases "nleft = 0")
    case True
    then show ?thesis using less.prems by (simp add: readnb_loop.simps [of rp])
  next
    case False
    then have nl: "0 < nleft" by simp
    obtain rc s rp1 c1 where rd: "rio_read rp c nleft = (rc, s, rp1, c1)" by (cases "rio_read rp c nleft")
    have ok: "rio_ok rp1" "calm c1" "sent c1 = sent c" "stream rp c = s @ stream rp1 c1" "rc = int (length s)" "length s \<le> nleft"
        "s = [] \<longrightarrow> stream rp c = []"
      using rio_read_ok [OF less.prems nl rd] by blast+
    show ?thesis
    proof (cases "s = []")
      case True
      then have "stream rp c = []" "stream rp1 c1 = []" using ok by auto
      then show ?thesis using rd ok(1-3,5) nl True by (simp add: readnb_loop.simps [of rp])
    next
      case s: False
      then have 1: "readnb_loop rp c n nleft d = readnb_loop rp1 c1 n (nleft - length s) (d @ s)"
        using rd nl ok(5) by (simp add: readnb_loop.simps [of rp])
      have "nleft - length s < nleft" using s nl by (cases s) auto
      from less.IH [OF this ok(1,2), of "d @ s"] obtain rp' c' where
        2: "readnb_loop rp1 c1 n (nleft - length s) (d @ s) = (int n - int (nleft - length s - length (take (nleft - length s) (stream rp1 c1))),
            (d @ s) @ take (nleft - length s) (stream rp1 c1), rp', c')"
          "rio_ok rp'" "calm c'" "sent c' = sent c1" "stream rp' c' = drop (nleft - length s) (stream rp1 c1)"
        by blast
      have "take nleft (stream rp c) = s @ take (nleft - length s) (stream rp1 c1)"
          "drop nleft (stream rp c) = drop (nleft - length s) (stream rp1 c1)"
        using ok(4,6) by simp_all
      then show ?thesis using 1 2 ok(3) by simp
    qed
  qed
qed

lemma readnb_exact:
  assumes "rio_ok rp" "calm c"
  obtains rp' c' where "rio_readnb rp c n = (int (length (take n (stream rp c))), take n (stream rp c), rp', c')"
    "rio_ok rp'" "calm c'" "sent c' = sent c" "stream rp' c' = drop n (stream rp c)"
proof -
  obtain rp' c' where "readnb_loop rp c n n [] =
      (int n - int (n - length (take n (stream rp c))), [] @ take n (stream rp c), rp', c')"
      "rio_ok rp'" "calm c'" "sent c' = sent c" "stream rp' c' = drop n (stream rp c)"
    using readnb_loop_exact [OF assms] by metis
  moreover have "int n - int (n - length (take n (stream rp c))) = int (length (take n (stream rp c)))" by simp
  ultimately show thesis using that [of rp' c'] by (simp only: rio_readnb_def append_Nil)
qed

lemma writen_loop_all: "calm c \<Longrightarrow> \<exists>c'. writen_loop c n s = (int n, c') \<and> sent c' = sent c @ s \<and> pending c' = pending c \<and> calm c'"
proof (induction c n s rule: writen_loop.induct)
  case (1 c n s)
  show ?case
  proof (cases "s = []")
    case True
    then show ?thesis using 1(3) by (simp add: writen_loop.simps [of c])
  next
    case False
    obtain x c1 where x: "sys_write c s = (x, c1)" by (cases "sys_write c s")
    have calm: "calm c1" "pending c1 = pending c" "x \<noteq> Err" "x = Eintr \<Longrightarrow> sent c1 = sent c"
      using sys_write_calm [OF x 1(3)] by blast+
    show ?thesis
    proof (cases x)
      case (Got t)
      have t: "s = t @ drop (length t) s" "sent c1 = sent c @ t" using sys_write_Got [OF x [unfolded Got] False] by auto
      have "writen_loop c n s = writen_loop c1 n (drop (length t) s)"
        using x Got False by (simp add: writen_loop.simps [of c])
      moreover obtain c2 where "writen_loop c1 n (drop (length t) s) = (int n, c2)" "sent c2 = sent c1 @ drop (length t) s"
          "pending c2 = pending c1" "calm c2"
        using 1(1) [OF False x [symmetric] Got calm(1)] by blast
      ultimately show ?thesis using calm(2) t by (metis append.assoc)
    next
      case Eintr
      have "writen_loop c n s = writen_loop c1 n s" using x Eintr False by (simp add: writen_loop.simps [of c])
      then show ?thesis using 1(2) [OF False x [symmetric] Eintr calm(1)] calm Eintr by auto
    qed (use calm in auto)
  qed
qed

lemma writen_all:
  assumes "calm c"
  obtains c' where "rio_writen c s = (int (length s), c')" "sent c' = sent c @ s" "pending c' = pending c" "calm c'"
  using writen_loop_all [OF assms, of "length s" s] that by (auto simp: rio_writen_def)

section \<open>The digits of \<open>sio_ltoa\<close>\<close>

lemma sio_reverse_loop_mid: "sio_reverse_loop (int (length p)) (int (length p + length m) - 1) (p @ m @ q) = p @ rev m @ q"
proof (induction m arbitrary: p q rule: length_induct)
  case (1 m)
  show ?case
  proof (cases m)
    case Nil
    then show ?thesis by (simp add: sio_reverse_loop.simps)
  next
    case (Cons x m')
    show ?thesis
    proof (cases m' rule: rev_cases)
      case Nil
      then show ?thesis using Cons by (simp add: sio_reverse_loop.simps)
    next
      case (snoc m1 y)
      have j: "int (length p + length m) - 1 = int (length p + length m1 + 1)" using Cons snoc by simp
      have "(p @ m @ q) ! (length p + length m1 + 1) = y" "(p @ m @ q) ! length p = x"
        using Cons snoc by (simp_all add: nth_append)
      moreover have "(p @ m @ q)[length p := y, length p + length m1 + 1 := x] = (p @ [y]) @ m1 @ (x # q)"
        using Cons snoc by (simp add: list_update_append)
      ultimately have "sio_reverse_loop (int (length p)) (int (length p + length m) - 1) (p @ m @ q) =
          sio_reverse_loop (int (length (p @ [y]))) (int (length (p @ [y]) + length m1) - 1) ((p @ [y]) @ m1 @ (x # q))"
        unfolding j by (subst sio_reverse_loop.simps) (simp add: nat_add_distrib add.commute)
      also have "\<dots> = (p @ [y]) @ rev m1 @ (x # q)"
        by (rule 1 [rule_format]) (simp add: Cons snoc)
      finally show ?thesis using Cons snoc by simp
    qed
  qed
qed

lemma sio_reverse_rev [simp]: "sio_reverse s = rev s"
  using sio_reverse_loop_mid [of "[]" s "[]"] by (simp add: sio_reverse_def)

lemma sio_strlen_length [simp]: "sio_strlen s i = i + int (length s)"
  by (induction s arbitrary: i) auto

lemma sio_digit_dec: "0 \<le> c \<Longrightarrow> c < 10 \<Longrightarrow> sio_digit c = digit_char (nat c)"
proof -
  assume c: "0 \<le> c" "c < 10"
  then obtain n where "c = int n" by (metis nonneg_int_cases)
  then show ?thesis using c by (simp add: sio_digit_def digit_char_def nat_add_distrib add.commute)
qed

lemma cdiv_pos: "0 \<le> a \<Longrightarrow> 0 < b \<Longrightarrow> cdiv a b = a div b" and cmod_pos: "0 \<le> a \<Longrightarrow> 0 < b \<Longrightarrow> cmod a b = a mod b"
  by (auto simp: cmod_def cdiv_def sgn_if minus_div_mult_eq_mod)

lemma ltoa_loop_dec: "0 \<le> v \<Longrightarrow> sio_ltoa_loop v 10 s = s @ rev (dec_nat (nat v))"
proof (induction "nat v" arbitrary: v s rule: less_induct)
  case less
  have d: "sio_digit (cmod v 10) = digit_char (nat v mod 10)"
    using less.prems by (simp add: cmod_pos sio_digit_dec nat_mod_distrib)
  have v': "cdiv v 10 = v div 10" using less.prems by (simp add: cdiv_pos)
  show ?case
  proof (cases "0 < v div 10")
    case True
    then have "0 < v" "v div 10 < v" by presburger+
    then have "nat (v div 10) < nat v" by simp
    then have "sio_ltoa_loop (v div 10) 10 (s @ [digit_char (nat v mod 10)]) =
        (s @ [digit_char (nat v mod 10)]) @ rev (dec_nat (nat (v div 10)))"
      using True by (intro less.hyps) simp_all
    moreover have "dec_nat (nat v) = dec_nat (nat (v div 10)) @ [digit_char (nat v mod 10)]"
    proof -
      have "\<not> nat v < 10" using True by (simp add: nat_less_iff)
      then show ?thesis by (subst dec_nat.simps) (simp add: nat_div_distrib)
    qed
    ultimately show ?thesis using True d v' by (subst sio_ltoa_loop.simps) (simp add: Let_def)
  next
    case False
    then have "v < 10" by linarith
    then have lt: "nat v < 10" using less.prems by simp
    then have "dec_nat (nat v) = [digit_char (nat v)]" "nat v mod 10 = nat v"
      by (simp_all add: dec_nat.simps [of "nat v"])
    then show ?thesis using False d v' by (subst sio_ltoa_loop.simps) (simp add: Let_def)
  qed
qed

lemma length_dec_nat: "n < 10 ^ Suc k \<Longrightarrow> length (dec_nat n) \<le> Suc k"
proof (induction k arbitrary: n)
  case 0
  then show ?case by (subst dec_nat.simps) simp
next
  case (Suc k)
  then have "n div 10 < 10 ^ Suc k" by (simp add: less_mult_imp_div_less)
  from Suc.IH [OF this] show ?case by (subst dec_nat.simps) auto
qed

lemma sio_ltoa_neg:
  assumes "v < 0"
  shows "sio_ltoa v 10 = [char_of (nat (48 - (- v) mod 10))]"
proof -
  have d: "cdiv v 10 = - ((- v) div 10)" using assms by (simp add: cdiv_def sgn_if)
  then have "cmod v 10 = - ((- v) mod 10)" unfolding cmod_def using minus_div_mult_eq_mod [of "- v" 10] by simp
  moreover have "\<not> 0 < cdiv v 10" unfolding d using assms by (simp add: pos_imp_zdiv_nonneg_iff)
  moreover have "- ((- v) mod 10) < 10" using pos_mod_sign [of 10 "- v"] by linarith
  ultimately show ?thesis
    by (simp add: sio_ltoa_def sio_ltoa_loop.simps [of v] Let_def sio_digit_def)
qed

section \<open>The properties\<close>

text \<open>C32. However the bytes arrive (short reads, interrupted calls), \<open>rio_readlineb\<close> returns the next line
  of the stream with its newline, cut at \<open>maxlen - 1\<close> bytes, terminates it inside the buffer, and
  leaves the rest of the stream for the next call; at the end of the stream it returns 0 and does not
  touch the buffer.\<close>

theorem rio_readlineb_line:
  assumes "rio_ok rp" "calm c" "1 < maxlen" "maxlen \<le> length usrbuf"
  shows "\<exists>rp' c'. rio_readlineb rp c usrbuf maxlen =
      (let l = next_line (stream rp c) (maxlen - 1) in
       if l = [] then Some (0, usrbuf, rp', c')
       else Some (int (length l), map Some (l @ [NUL]) @ drop (length l + 1) usrbuf, rp', c')) \<and>
    rio_ok rp' \<and> calm c' \<and> stream rp c = next_line (stream rp c) (maxlen - 1) @ stream rp' c'"
proof (cases "stream rp c = []")
  case True
  obtain rp' c' where "rio_readlineb rp c usrbuf maxlen = Some (0, usrbuf, rp', c')" "rio_ok rp'" "calm c'" "stream rp' c' = []"
    using readlineb_eof [OF assms(1-3) True] by blast
  then show ?thesis using True by (intro exI [of _ rp'] exI [of _ c']) simp
next
  case False
  obtain a s where s: "stream rp c = a # s" using False by (cases "stream rp c") auto
  obtain m where m: "maxlen - 1 = Suc m" using assms(3) by (cases "maxlen - 1") auto
  have ne: "next_line (stream rp c) (maxlen - 1) \<noteq> []" unfolding m s by simp
  obtain rp' c' where 1: "rio_readlineb rp c usrbuf maxlen = Some (int (length (next_line (stream rp c) (maxlen - 1))),
      map Some (next_line (stream rp c) (maxlen - 1) @ [NUL]) @ drop (length (next_line (stream rp c) (maxlen - 1)) + 1) usrbuf, rp', c')"
    "rio_ok rp'" "calm c'" and 2: "stream rp c = next_line (stream rp c) (maxlen - 1) @ stream rp' c'"
    using readlineb_line [OF assms False] by blast
  show ?thesis
    using 1 2 ne by (intro exI [of _ rp'] exI [of _ c'] conjI) (simp_all only: Let_def if_False)
qed

theorem rio_readlineb_line_witness:
  "\<exists>rp' c'. rio_readlineb (rio_readinitb (replicate 8192 NUL)) \<lparr>pending = ''ab'' @ crlf @ ''c'', sched = [Chunk 0, Interrupted, Chunk 1], sent = []\<rparr>
      (replicate 8192 None) 8192 =
    Some (4, map Some (''ab'' @ crlf @ [NUL]) @ replicate 8187 None, rp', c') \<and> stream rp' c' = ''c''"
proof -
  let ?c = "\<lparr>pending = ''ab'' @ crlf @ ''c'', sched = [Chunk 0, Interrupted, Chunk 1], sent = []\<rparr>"
  let ?rp = "rio_readinitb (replicate 8192 NUL)"
  have l: "next_line (''ab'' @ crlf @ ''c'') (8192 - 1) = ''ab'' @ crlf"
    by (simp add: eval_nat_numeral crlf_def)
  have "rio_ok ?rp" by (simp add: RIO_BUFSIZE_def)
  moreover have "calm ?c" by (simp add: calm_def)
  ultimately show ?thesis
    using rio_readlineb_line [of ?rp ?c 8192 "replicate 8192 None"]
    unfolding stream_init conn.simps l Let_def by (auto simp: crlf_def)
qed

text \<open>C34. \<open>sio_putl\<close> writes the decimal representation of a number that is not negative, within its
  buffer; for a negative one the loop of \<open>sio_ltoa\<close> ends after one step, and what is written is the
  single byte \<open>'0'\<close> less the last digit.\<close>

theorem sio_putl_prints:
  assumes "- (2 ^ 63) \<le> v" "v < 2 ^ 63"
  shows "sio_putl out v = Some (sys_write out (if 0 \<le> v then dec_int v else [char_of (nat (48 - (- v) mod 10))]))"
proof (cases "0 \<le> v")
  case True
  have "nat v < 10 ^ Suc 18" using assms(2) by simp
  then have "length (dec_nat (nat v)) < 128" using length_dec_nat by fastforce
  then show ?thesis using True ltoa_loop_dec [OF True, of "[]"] by (simp add: sio_putl_def sio_puts_def sio_ltoa_def dec_int_def)
next
  case False
  then show ?thesis by (simp add: sio_putl_def sio_puts_def sio_ltoa_neg)
qed

theorem sio_putl_prints_witness:
  "sio_putl \<lparr>pending = [], sched = [], sent = []\<rparr> 4400 = Some (sys_write \<lparr>pending = [], sched = [], sent = []\<rparr> ''4400'') \<and>
   sio_putl \<lparr>pending = [], sched = [], sent = []\<rparr> (- 12) = Some (sys_write \<lparr>pending = [], sched = [], sent = []\<rparr> ''.'')"
  using sio_putl_prints [of 4400 "\<lparr>pending = [], sched = [], sent = []\<rparr>"] sio_putl_prints [of "- 12" "\<lparr>pending = [], sched = [], sent = []\<rparr>"]
  by (simp add: dec_int_def dec_nat.simps digit_char_def char_of_def bit_iff_odd)

end
