(* ===== verification/Semaphore.thy ===== *)
theory Semaphore
  imports Csapp
begin

text \<open>
  The counting semaphore that \<open>Serverlab/csapp.c\<close> builds from a mutex and a condition variable
  where the system has no usable \<open>sem_t\<close>, and the threads of \<open>tinychat.c\<close> as its clients: each calls
  \<open>P\<close>, is inside, calls \<open>V\<close>, any number of times. A thread is the place in the code where it stands;
  the interleavings are the step relation \<open>sem_step\<close>. The calls of the thread library act as POSIX says:
  a lock is granted when nobody has it, \<open>pthread_cond_wait\<close> gives the lock back and blocks in one step,
  \<open>pthread_cond_signal\<close> wakes a blocked thread if there is one, and a blocked thread may also wake by itself.
  On the mutex and the condition of an initialised semaphore these calls do not fail.
\<close>

section \<open>Threads and state\<close>

text \<open>\<open>Out\<close> and \<open>In\<close> are outside the two functions, \<open>PTest\<close> is the head of the loop and \<open>PWait\<close>, \<open>PWake\<close> are inside
  \<open>pthread_cond_wait\<close>, blocked and waiting for the lock.\<close>

datatype pc = Out | PLock | PTest | PWait | PWake | PDec | PUnlock | In | VLock | VInc | VSignal | VUnlock

record sem =
  ready :: int
  owner :: "nat option"
  pcs :: "pc list"

text \<open>\<open>sem->ready\<close> is an \<open>int\<close> and the initial value is \<open>unsigned\<close>. \<open>mrc\<close> and \<open>crc\<close> are what the two
  initialisations return, \<open>n\<close> the number of threads.\<close>

definition Sem_init :: "bool \<Rightarrow> int \<Rightarrow> int \<Rightarrow> nat \<Rightarrow> nat \<Rightarrow> int + sem" where
  "Sem_init ex mrc crc v n =
    wrapped ex (mrc \<noteq> 0 \<or> crc \<noteq> 0)
      \<lparr>ready = (int v + 2 ^ 31) mod 2 ^ 32 - 2 ^ 31, owner = None, pcs = replicate n Out\<rparr>"

abbreviation goto :: "sem \<Rightarrow> nat \<Rightarrow> pc \<Rightarrow> sem" where
  "goto s i p \<equiv> s\<lparr>pcs := (pcs s)[i := p]\<rparr>"

definition at_pc :: "sem \<Rightarrow> nat \<Rightarrow> pc \<Rightarrow> bool" where
  "at_pc s i p \<longleftrightarrow> i < length (pcs s) \<and> pcs s ! i = p"

inductive P_step :: "nat \<Rightarrow> sem \<Rightarrow> sem \<Rightarrow> bool" where
  P_lock: "at_pc s i PLock \<Longrightarrow> owner s = None \<Longrightarrow> P_step i s (goto (s\<lparr>owner := Some i\<rparr>) i PTest)"
| P_wait: "at_pc s i PTest \<Longrightarrow> ready s = 0 \<Longrightarrow> P_step i s (goto (s\<lparr>owner := None\<rparr>) i PWait)"
| P_again: "at_pc s i PWake \<Longrightarrow> owner s = None \<Longrightarrow> P_step i s (goto (s\<lparr>owner := Some i\<rparr>) i PTest)"
| P_pass: "at_pc s i PTest \<Longrightarrow> ready s \<noteq> 0 \<Longrightarrow> P_step i s (goto s i PDec)"
| P_dec: "at_pc s i PDec \<Longrightarrow> P_step i s (goto (s\<lparr>ready := ready s - 1\<rparr>) i PUnlock)"
| P_unlock: "at_pc s i PUnlock \<Longrightarrow> P_step i s (goto (s\<lparr>owner := None\<rparr>) i In)"

inductive V_step :: "nat \<Rightarrow> sem \<Rightarrow> sem \<Rightarrow> bool" where
  V_lock: "at_pc s i VLock \<Longrightarrow> owner s = None \<Longrightarrow> V_step i s (goto (s\<lparr>owner := Some i\<rparr>) i VInc)"
| V_inc: "at_pc s i VInc \<Longrightarrow> V_step i s (goto (s\<lparr>ready := ready s + 1\<rparr>) i VSignal)"
| V_signal: "at_pc s i VSignal \<Longrightarrow> at_pc s j PWait \<Longrightarrow> V_step i s (goto (goto s i VUnlock) j PWake)"
| V_nobody: "at_pc s i VSignal \<Longrightarrow> PWait \<notin> set (pcs s) \<Longrightarrow> V_step i s (goto s i VUnlock)"
| V_unlock: "at_pc s i VUnlock \<Longrightarrow> V_step i s (goto (s\<lparr>owner := None\<rparr>) i Out)"

text \<open>A thread goes on inside \<open>P\<close> or \<open>V\<close>; or it calls one of them, or wakes for no reason.\<close>

definition goes_on :: "sem \<Rightarrow> sem \<Rightarrow> bool" where
  "goes_on s t \<longleftrightarrow> (\<exists>i. P_step i s t \<or> V_step i s t)"

inductive sem_step :: "sem \<Rightarrow> sem \<Rightarrow> bool" where
  inner: "goes_on s t \<Longrightarrow> sem_step s t"
| P_call: "at_pc s i Out \<Longrightarrow> sem_step s (goto s i PLock)"
| V_call: "at_pc s i In \<Longrightarrow> sem_step s (goto s i VLock)"
| spurious: "at_pc s i PWait \<Longrightarrow> sem_step s (goto s i PWake)"

inductive sem_run :: "nat \<Rightarrow> nat \<Rightarrow> sem \<Rightarrow> bool" for v n where
  start: "Sem_init ex 0 0 v n = Inr s \<Longrightarrow> sem_run v n s"
| step: "sem_run v n s \<Longrightarrow> sem_step s t \<Longrightarrow> sem_run v n t"

section \<open>Counting threads\<close>

definition num :: "('a \<Rightarrow> bool) \<Rightarrow> 'a list \<Rightarrow> int" where
  "num Q xs = int (length (filter Q xs))"

lemma num_simps [simp]: "num Q [] = 0" "num Q (x # xs) = of_bool (Q x) + num Q xs" "0 \<le> num Q xs"
  by (auto simp: num_def)

lemma num_update: "i < length xs \<Longrightarrow> num Q (xs[i := x]) = num Q xs - of_bool (Q (xs ! i)) + of_bool (Q x)"
proof (induction xs arbitrary: i)
  case (Cons y ys)
  then show ?case by (cases i) auto
qed simp

lemma num_pos: "i < length xs \<Longrightarrow> Q (xs ! i) \<Longrightarrow> 0 < num Q xs"
  by (auto simp: num_def filter_empty_conv)

lemma num_eq_0: "num Q xs = 0 \<longleftrightarrow> (\<forall>x\<in>set xs. \<not> Q x)"
  by (auto simp: num_def filter_empty_conv)

lemma num_two:
  assumes "i < length xs" "j < length xs" "i \<noteq> j" "Q (xs ! i)" "Q (xs ! j)"
  shows "2 \<le> num Q xs"
proof -
  have "{i, j} \<subseteq> {k. k < length xs \<and> Q (xs ! k)}" using assms by auto
  then have "card {i, j} \<le> length (filter Q xs)" unfolding length_filter_conv_card by (rule card_mono [rotated]) simp
  then show ?thesis using assms(3) by (simp add: num_def)
qed

section \<open>The invariant\<close>

definition locked :: "pc \<Rightarrow> bool" where
  "locked p \<longleftrightarrow> p \<in> {PTest, PDec, PUnlock, VInc, VSignal, VUnlock}"

text \<open>Threads that will look at \<open>ready\<close> again, or are about to wake one that does.\<close>

definition alert :: "pc \<Rightarrow> bool" where
  "alert p \<longleftrightarrow> p \<in> {PWake, PTest, PDec, VSignal}"

definition sem_ok :: "nat \<Rightarrow> sem \<Rightarrow> bool" where
  "sem_ok n s \<longleftrightarrow> length (pcs s) = n \<and> 0 \<le> ready s \<and>
    (\<forall>i. owner s = Some i \<longrightarrow> i < n) \<and> (\<forall>i<n. locked (pcs s ! i) \<longleftrightarrow> owner s = Some i) \<and>
    (\<forall>i<n. pcs s ! i = PDec \<longrightarrow> 0 < ready s) \<and>
    (0 < num ((=) PWait) (pcs s) \<longrightarrow> ready s \<le> num alert (pcs s))"

lemma locked_simps [simp]:
  "locked PTest" "locked PDec" "locked PUnlock" "locked VInc" "locked VSignal" "locked VUnlock"
  "\<not> locked Out" "\<not> locked PLock" "\<not> locked PWait" "\<not> locked PWake" "\<not> locked In" "\<not> locked VLock"
  by (simp_all add: locked_def)

lemma alert_simps [simp]:
  "alert PWake" "alert PTest" "alert PDec" "alert VSignal" "\<not> alert VInc" "\<not> alert PUnlock" "\<not> alert VUnlock"
  "\<not> alert Out" "\<not> alert PLock" "\<not> alert PWait" "\<not> alert In" "\<not> alert VLock"
  by (simp_all add: alert_def)

lemma nobody_num: "PWait \<notin> set ps \<Longrightarrow> num ((=) PWait) ps = 0"
  by (auto simp: num_eq_0)

lemma one_owner:
  "sem_ok n s \<Longrightarrow> i < n \<Longrightarrow> j < n \<Longrightarrow> locked (pcs s ! i) \<Longrightarrow> locked (pcs s ! j) \<Longrightarrow> i = j"
  by (auto simp: sem_ok_def)

lemmas step_simps = sem_ok_def at_pc_def nth_list_update num_update

lemma P_step_ok: "P_step i s t \<Longrightarrow> sem_ok n s \<Longrightarrow> sem_ok n t"
proof (induction rule: P_step.induct)
  case (P_lock s i)
  then show ?case by (auto simp: step_simps)
next
  case (P_wait s i)
  then show ?case using num_pos [of i "pcs s" alert] by (auto simp: step_simps)
next
  case (P_again s i)
  then show ?case by (auto simp: step_simps)
next
  case (P_pass s i)
  then show ?case by (auto simp: step_simps)
next
  case (P_dec s i)
  then have "0 < ready s" "\<forall>j<n. j \<noteq> i \<longrightarrow> pcs s ! j \<noteq> PDec"
    using one_owner [OF P_dec(2), of i] by (auto simp: sem_ok_def at_pc_def)
  then show ?case using P_dec by (auto simp: step_simps)
next
  case (P_unlock s i)
  then show ?case by (auto simp: step_simps)
qed

lemma V_step_ok: "V_step i s t \<Longrightarrow> sem_ok n s \<Longrightarrow> sem_ok n t"
proof (induction rule: V_step.induct)
  case (V_signal s i j)
  then show ?case by (auto simp: step_simps)
next
  case (V_unlock s i)
  then show ?case by (auto simp: step_simps)
next
  case (V_inc s i)
  then show ?case by (auto simp: step_simps)
next
  case (V_lock s i)
  then show ?case by (auto simp: step_simps)
next
  case (V_nobody s i)
  then show ?case by (auto simp: step_simps nobody_num)
qed

lemma sem_step_ok: "sem_step s t \<Longrightarrow> sem_ok n s \<Longrightarrow> sem_ok n t"
proof (induction rule: sem_step.induct)
  case (inner s t)
  then show ?case by (auto simp: goes_on_def dest: P_step_ok V_step_ok)
next
  case (P_call s i)
  then show ?case by (auto simp: step_simps)
next
  case (V_call s i)
  then show ?case by (auto simp: step_simps)
next
  case (spurious s i)
  then show ?case by (auto simp: step_simps)
qed


section \<open>A counting semaphore\<close>

text \<open>What the two functions promise: \<open>P\<close> takes a unit when there is one, \<open>V\<close> gives it back.\<close>

record asem =
  units :: int
  holds :: "bool list"

inductive asem_step :: "asem \<Rightarrow> asem \<Rightarrow> bool" where
  acquire: "i < length (holds a) \<Longrightarrow> \<not> holds a ! i \<Longrightarrow> 0 < units a \<Longrightarrow>
    asem_step a (a\<lparr>units := units a - 1, holds := (holds a)[i := True]\<rparr>)"
| release: "i < length (holds a) \<Longrightarrow> holds a ! i \<Longrightarrow>
    asem_step a (a\<lparr>units := units a + 1, holds := (holds a)[i := False]\<rparr>)"

definition has_unit :: "pc \<Rightarrow> bool" where
  "has_unit p \<longleftrightarrow> p \<in> {PUnlock, In, VLock, VInc}"

definition absem :: "sem \<Rightarrow> asem" where
  "absem s = \<lparr>units = ready s, holds = map has_unit (pcs s)\<rparr>"

lemma has_unit_simps [simp]:
  "has_unit PUnlock" "has_unit In" "has_unit VLock" "has_unit VInc" "\<not> has_unit Out" "\<not> has_unit PLock" "\<not> has_unit PTest"
  "\<not> has_unit PWait" "\<not> has_unit PWake" "\<not> has_unit PDec" "\<not> has_unit VSignal" "\<not> has_unit VUnlock"
  by (simp_all add: has_unit_def)

lemma absem_simps [simp]:
  "units (absem s) = ready s" "length (holds (absem s)) = length (pcs s)"
  "i < length (pcs s) \<Longrightarrow> holds (absem s) ! i = has_unit (pcs s ! i)"
  by (simp_all add: absem_def)

lemma absem_goto:
  "absem (goto s i p) = absem s\<lparr>holds := (holds (absem s))[i := has_unit p]\<rparr>"
  "absem (s\<lparr>owner := x\<rparr>) = absem s" "absem (s\<lparr>ready := r\<rparr>) = absem s\<lparr>units := r\<rparr>"
  by (simp_all add: absem_def map_update)

lemma absem_same:
  "at_pc s i q \<Longrightarrow> has_unit q = has_unit p \<Longrightarrow> absem (goto s i p) = absem s"
  "at_pc s i q \<Longrightarrow> has_unit q = has_unit p \<Longrightarrow> absem (s\<lparr>owner := x, pcs := (pcs s)[i := p]\<rparr>) = absem s"
  by (auto simp: at_pc_def absem_def map_update list_update_same_conv)

lemma absem_acquire:
  "at_pc s i q \<Longrightarrow> \<not> has_unit q \<Longrightarrow> has_unit p \<Longrightarrow> 0 < ready s \<Longrightarrow> asem_step (absem s) (absem (goto (s\<lparr>ready := ready s - 1\<rparr>) i p))"
  using acquire [of i "absem s"] by (simp add: at_pc_def absem_def map_update)

lemma absem_release:
  "at_pc s i q \<Longrightarrow> has_unit q \<Longrightarrow> \<not> has_unit p \<Longrightarrow> asem_step (absem s) (absem (goto (s\<lparr>ready := ready s + 1\<rparr>) i p))"
  using release [of i "absem s"] by (simp add: at_pc_def absem_def map_update)

lemma at_pc_more [simp]: "at_pc (s\<lparr>owner := x\<rparr>) i p = at_pc s i p" "at_pc (s\<lparr>ready := r\<rparr>) i p = at_pc s i p"
  by (simp_all add: at_pc_def)

lemma P_step_refines: "P_step i s t \<Longrightarrow> sem_ok n s \<Longrightarrow> absem t = absem s \<or> asem_step (absem s) (absem t)"
proof (induction rule: P_step.induct)
  case (P_dec s i)
  then have "0 < ready s" by (auto simp: sem_ok_def at_pc_def)
  then show ?case using absem_acquire [OF P_dec(1)] by simp
qed (simp_all add: absem_same)

lemma V_step_refines: "V_step i s t \<Longrightarrow> absem t = absem s \<or> asem_step (absem s) (absem t)"
proof (induction rule: V_step.induct)
  case (V_inc s i)
  then show ?case using absem_release [of s i VInc] by simp
next
  case (V_signal s i j)
  then have "at_pc (goto s i VUnlock) j PWait" by (auto simp: at_pc_def nth_list_update)
  then have "absem (goto (goto s i VUnlock) j PWake) = absem (goto s i VUnlock)" by (rule absem_same(1)) simp
  also have "\<dots> = absem s" using V_signal(1) by (rule absem_same(1)) simp
  finally show ?case ..
qed (simp_all add: absem_same)

text \<open>The mutex and the condition variable implement the counting semaphore.\<close>

lemma sem_step_refines: "sem_step s t \<Longrightarrow> sem_ok n s \<Longrightarrow> absem t = absem s \<or> asem_step (absem s) (absem t)"
  by (induction rule: sem_step.induct) (auto simp: goes_on_def absem_same dest: P_step_refines V_step_refines)

definition asem_ok :: "nat \<Rightarrow> asem \<Rightarrow> bool" where
  "asem_ok v a \<longleftrightarrow> 0 \<le> units a \<and> units a + num id (holds a) = int v"

lemma asem_step_ok: "asem_step a b \<Longrightarrow> asem_ok v a \<Longrightarrow> asem_ok v b"
  by (induction rule: asem_step.induct) (auto simp: asem_ok_def num_update)

lemma num_map: "num Q (map f xs) = num (Q \<circ> f) xs"
  by (induction xs) auto

lemma num_replicate [simp]: "num Q (replicate n x) = (if Q x then int n else 0)"
  by (induction n) auto

lemma num_mono: "(\<And>x. Q x \<Longrightarrow> R x) \<Longrightarrow> num Q xs \<le> num R xs"
  by (induction xs) (auto simp: of_bool_def)

lemma sem_run_ok:
  assumes "sem_run v n s" "v < 2 ^ 31"
  shows "sem_ok n s \<and> asem_ok v (absem s)"
  using assms(1)
proof induction
  case (start ex s)
  then have "s = \<lparr>ready = int v, owner = None, pcs = replicate n Out\<rparr>"
    using assms(2) by (auto simp: Sem_init_def wrapped_def)
  then show ?case by (simp add: sem_ok_def asem_ok_def absem_def num_map comp_def)
next
  case (step s t)
  then show ?case using sem_step_ok sem_step_refines asem_step_ok by metis
qed


section \<open>Every call comes to an end or waits for a unit\<close>

fun rank :: "pc \<Rightarrow> nat" where
  "rank VLock = 8"
| "rank VInc = 7"
| "rank VSignal = 6"
| "rank PLock = 6"
| "rank PWake = 5"
| "rank PTest = 4"
| "rank PDec = 3"
| "rank PUnlock = 2"
| "rank VUnlock = 1"
| "rank PWait = 1"
| "rank _ = 0"

definition work :: "sem \<Rightarrow> nat" where
  "work s = sum_list (map rank (pcs s))"

lemma work_goto: "at_pc s i q \<Longrightarrow> work (goto s i p) + rank q = work s + rank p"
proof -
  assume q: "at_pc s i q"
  then have "rank q \<le> sum_list (map rank (pcs s))" by (auto simp: at_pc_def intro: member_le_sum_list)
  then show ?thesis using q by (simp add: at_pc_def work_def map_update sum_list_update)
qed

lemma work_more [simp]: "work (s\<lparr>owner := x\<rparr>) = work s" "work (s\<lparr>ready := r\<rparr>) = work s"
  "work (s\<lparr>owner := x, pcs := ps\<rparr>) = work (s\<lparr>pcs := ps\<rparr>)" "work (s\<lparr>ready := r, pcs := ps\<rparr>) = work (s\<lparr>pcs := ps\<rparr>)"
  by (simp_all add: work_def)

lemma work_less: "at_pc s i q \<Longrightarrow> rank p < rank q \<Longrightarrow> work (goto s i p) < work s"
  using work_goto [of s i q p] by simp

lemma P_step_work: "P_step i s t \<Longrightarrow> work t < work s"
  by (induction rule: P_step.induct) (auto intro: work_less)

lemma V_step_work: "V_step i s t \<Longrightarrow> work t < work s"
proof (induction rule: V_step.induct)
  case (V_signal s i j)
  then have "at_pc (goto s i VUnlock) j PWait" by (auto simp: at_pc_def nth_list_update)
  then show ?case using work_goto [of s i VSignal VUnlock] work_goto [of "goto s i VUnlock" j PWait PWake] V_signal by simp
qed (auto intro: work_less)

lemma goes_on_work: "goes_on s t \<Longrightarrow> work t < work s"
  by (auto simp: goes_on_def P_step_work V_step_work)

lemma goes_on_run: "goes_on\<^sup>*\<^sup>* s t \<Longrightarrow> sem_run v n s \<Longrightarrow> sem_run v n t"
  by (induction rule: rtranclp_induct) (auto intro: inner sem_run.step)

lemma locked_goes_on: "at_pc s i p \<Longrightarrow> locked p \<Longrightarrow> \<exists>t. goes_on s t"
proof (cases "p = VSignal")
  case True
  assume "at_pc s i p"
  then show ?thesis using True V_signal [of s i] V_nobody [of s i] unfolding goes_on_def
    by (metis at_pc_def in_set_conv_nth)
next
  case False
  assume "at_pc s i p" "locked p"
  then show ?thesis using False P_wait [of s i] P_pass [of s i] P_dec [of s i] P_unlock [of s i] V_inc [of s i] V_unlock [of s i]
    unfolding goes_on_def locked_def by blast
qed

lemma waits_goes_on: "at_pc s i p \<Longrightarrow> p \<in> {PLock, PWake, VLock} \<Longrightarrow> owner s = None \<Longrightarrow> \<exists>t. goes_on s t"
  using P_lock [of s i] P_again [of s i] V_lock [of s i] unfolding goes_on_def by blast

lemma stuck_pcs:
  assumes "sem_ok n s" "\<nexists>t. goes_on s t" "i < n"
  shows "pcs s ! i \<in> {Out, In, PWait}"
proof -
  have free: "\<not> locked (pcs s ! j)" if "j < n" for j
    using assms(1,2) that locked_goes_on [of s j "pcs s ! j"] by (auto simp: at_pc_def sem_ok_def)
  show ?thesis
  proof (cases "owner s")
    case None
    then show ?thesis
      using free [OF assms(3)] waits_goes_on [of s i "pcs s ! i"] assms by (cases "pcs s ! i") (auto simp: at_pc_def sem_ok_def)
  next
    case (Some j)
    then show ?thesis using free [of j] assms(1) by (auto simp: sem_ok_def)
  qed
qed


lemma stuck_full:
  assumes "sem_ok n s" "asem_ok v (absem s)" "\<nexists>t. goes_on s t" "PWait \<in> set (pcs s)"
  shows "num ((=) In) (pcs s) = int v"
proof -
  have pcs: "p \<in> {Out, In, PWait}" if "p \<in> set (pcs s)" for p
    using stuck_pcs [OF assms(1,3)] that assms(1) by (auto simp: in_set_conv_nth sem_ok_def)
  have "num alert (pcs s) = 0" using pcs by (force simp: num_eq_0)
  moreover have "0 < num ((=) PWait) (pcs s)" using assms(4) by (auto simp: in_set_conv_nth intro: num_pos)
  ultimately have "ready s = 0" using assms(1) by (auto simp: sem_ok_def)
  moreover have "num has_unit (pcs s) = num ((=) In) (pcs s)"
    using pcs unfolding num_def by (intro arg_cong [where f = int] arg_cong [where f = length] filter_cong) force+
  ultimately show ?thesis using assms(2) by (simp add: asem_ok_def absem_def num_map comp_def)
qed

lemma sem_bounds:
  assumes "sem_run v n s" "v < 2 ^ 31"
  shows "0 \<le> ready s" "ready s \<le> int v" "num ((=) In) (pcs s) \<le> int v"
proof -
  have "asem_ok v (absem s)" using sem_run_ok [OF assms] ..
  then have v: "0 \<le> ready s" "ready s + num has_unit (pcs s) = int v"
    by (simp_all add: asem_ok_def absem_def num_map comp_def)
  have "num ((=) In) (pcs s) \<le> num has_unit (pcs s)" by (rule num_mono) auto
  then show "0 \<le> ready s" "ready s \<le> int v" "num ((=) In) (pcs s) \<le> int v"
    using v num_simps(3) [of has_unit "pcs s"] by linarith+
qed

lemma at_most_one: "sem_run 1 n s \<Longrightarrow> at_pc s i In \<Longrightarrow> at_pc s j In \<Longrightarrow> i = j"
  using sem_bounds(3) [of 1 n s] num_two [of i "pcs s" j "(=) In"] by (fastforce simp: at_pc_def)

section \<open>Properties\<close>

text \<open>C11. 
  However the threads interleave, at most \<open>v\<close> of them are between \<open>P\<close> and \<open>V\<close>, and \<open>ready\<close> stays between 0 and
  \<open>v\<close>, so its increment cannot overflow. With the initial value 1 that \<open>tinychat.c\<close> uses the sections exclude
  each other.
\<close>
theorem sem_excludes:
  assumes "sem_run v n s" "v < 2 ^ 31"
  shows "num ((=) In) (pcs s) \<le> int v \<and> 0 \<le> ready s \<and> ready s \<le> int v \<and>
    (v = 1 \<longrightarrow> (\<forall>i j. at_pc s i In \<longrightarrow> at_pc s j In \<longrightarrow> i = j))"
  using sem_bounds [OF assms] at_most_one [of n s] assms(1) by blast

text \<open>Of two threads one is inside and the other blocked.\<close>

definition one_waits :: sem where
  "one_waits = \<lparr>ready = 0, owner = None, pcs = [In, PWait]\<rparr>"

lemma one_waits_run: "sem_run 1 2 one_waits"
proof -
  let ?s = "\<lambda>r w a b. \<lparr>ready = r, owner = w, pcs = [a, b]\<rparr>"
  have P: "sem_run 1 2 t" if "sem_run 1 2 s" "P_step i s t" for s t i
    using that by (blast intro: sem_run.step inner goes_on_def [THEN iffD2])
  have "sem_run 1 2 (?s 1 None Out Out)"
    by (rule sem_run.start [of True]) (simp add: Sem_init_def wrapped_def numeral_2_eq_2)
  then have "sem_run 1 2 (?s 1 None PLock Out)"
    by (rule sem_run.step) (use P_call [of "?s 1 None Out Out" 0] in \<open>simp add: at_pc_def\<close>)
  then have "sem_run 1 2 (?s 1 (Some 0) PTest Out)"
    by (rule P) (use P_lock [of "?s 1 None PLock Out" 0] in \<open>simp add: at_pc_def\<close>)
  then have "sem_run 1 2 (?s 1 (Some 0) PDec Out)"
    by (rule P) (use P_pass [of "?s 1 (Some 0) PTest Out" 0] in \<open>simp add: at_pc_def\<close>)
  then have "sem_run 1 2 (?s 0 (Some 0) PUnlock Out)"
    by (rule P) (use P_dec [of "?s 1 (Some 0) PDec Out" 0] in \<open>simp add: at_pc_def\<close>)
  then have "sem_run 1 2 (?s 0 None In Out)"
    by (rule P) (use P_unlock [of "?s 0 (Some 0) PUnlock Out" 0] in \<open>simp add: at_pc_def\<close>)
  then have "sem_run 1 2 (?s 0 None In PLock)"
    by (rule sem_run.step) (use P_call [of "?s 0 None In Out" 1] in \<open>simp add: at_pc_def\<close>)
  then have "sem_run 1 2 (?s 0 (Some 1) In PTest)"
    by (rule P) (use P_lock [of "?s 0 None In PLock" 1] in \<open>simp add: at_pc_def\<close>)
  then show ?thesis unfolding one_waits_def
    by (rule P) (use P_wait [of "?s 0 (Some 1) In PTest" 1] in \<open>simp add: at_pc_def\<close>)
qed

theorem sem_excludes_witness: "num ((=) In) (pcs one_waits) = 1 \<and> at_pc one_waits 0 In \<and> \<not> at_pc one_waits 1 In"
  using sem_excludes [OF one_waits_run] by (auto simp: one_waits_def at_pc_def)

text \<open>C12. 
  The calls that are under way, left alone, come to an end after finitely many steps; then every thread is outside the
  two functions or blocked, and a thread is blocked only if \<open>v\<close> others are inside: no wake-up is lost.
\<close>
theorem sem_waits:
  assumes "sem_run v n s" "v < 2 ^ 31"
  shows "\<not> (\<exists>f. f 0 = s \<and> (\<forall>k. goes_on (f k) (f (Suc k)))) \<and>
    (\<forall>t. goes_on\<^sup>*\<^sup>* s t \<longrightarrow> (\<nexists>u. goes_on t u) \<longrightarrow>
      set (pcs t) \<subseteq> {Out, In, PWait} \<and> (PWait \<in> set (pcs t) \<longrightarrow> num ((=) In) (pcs t) = int v))"
proof (intro conjI notI allI impI)
  assume "\<exists>f. f 0 = s \<and> (\<forall>k. goes_on (f k) (f (Suc k)))"
  then obtain f where "\<forall>k. goes_on (f k) (f (Suc k))" by blast
  then have "\<forall>k. (f (Suc k), f k) \<in> measure work" by (simp add: goes_on_work)
  then show False using wf_measure [of work] unfolding wf_iff_no_infinite_down_chain by blast
next
  fix t assume t: "goes_on\<^sup>*\<^sup>* s t" "\<nexists>u. goes_on t u"
  note ok = sem_run_ok [OF goes_on_run [OF t(1) assms(1)] assms(2)]
  show "set (pcs t) \<subseteq> {Out, In, PWait}"
    using stuck_pcs [OF _ t(2)] ok by (fastforce simp: in_set_conv_nth sem_ok_def)
  assume "PWait \<in> set (pcs t)"
  then show "num ((=) In) (pcs t) = int v" using stuck_full ok t(2) by blast
qed


theorem sem_waits_witness:
  "PWait \<in> set (pcs one_waits) \<and> num ((=) In) (pcs one_waits) = 1 \<and> \<not> (\<exists>f. f 0 = one_waits \<and> (\<forall>k. goes_on (f k) (f (Suc k))))"
proof -
  have "\<nexists>u. goes_on one_waits u"
    by (auto simp: goes_on_def one_waits_def at_pc_def nth_Cons' elim!: P_step.cases V_step.cases split: if_splits)
  then show ?thesis using sem_waits [OF one_waits_run] by (auto simp: one_waits_def)
qed

end
