(* ===== verification/Fcyc.thy ===== *)
theory Fcyc
  imports Complex_Main "HOL-Library.Multiset" C_Prelude
begin

text \<open>
  The K-best measurement scheme of \<open>Performancelab/fcyc.c\<close>: a function is run until the \<open>kbest\<close>
  smallest measurements agree within \<open>epsilon\<close>, or \<open>maxsamples\<close> were taken, and the smallest one is the
  result. What the cycle counter (\<open>clock.c\<close>) measures for the \<open>t\<close>-th run is the parameter \<open>counter\<close>, for
  the counter in use; \<open>double\<close> is read as the real numbers. \<open>clear\<close> reads and writes memory of its own and
  is modelled in \<open>Timing\<close>, where the scheme runs on the counters of \<open>Clock\<close>.
\<close>

section \<open>State\<close>

text \<open>The parameters and the sampler, \<open>values\<close> as long as it is allocated.\<close>

record fcyc_state =
  kbest :: nat
  compensate :: bool
  clear_cache :: bool
  maxsamples :: nat
  epsilon :: real
  cache_bytes :: int
  cache_block :: int
  vals :: "real list"
  samplecount :: nat

definition fcyc0 :: fcyc_state where
  "fcyc0 = \<lparr>kbest = 3, compensate = False, clear_cache = False, maxsamples = 20, epsilon = 1 / 100,
     cache_bytes = 2 ^ 19, cache_block = 32, vals = [], samplecount = 0\<rparr>"

definition set_fcyc_clear_cache :: "bool \<Rightarrow> fcyc_state \<Rightarrow> fcyc_state" where
  "set_fcyc_clear_cache clear s = s\<lparr>clear_cache := clear\<rparr>"

definition set_fcyc_cache_size :: "int \<Rightarrow> fcyc_state \<Rightarrow> fcyc_state" where
  "set_fcyc_cache_size bytes s = (if bytes \<noteq> cache_bytes s then s\<lparr>cache_bytes := bytes\<rparr> else s)"

definition set_fcyc_cache_block :: "int \<Rightarrow> fcyc_state \<Rightarrow> fcyc_state" where
  "set_fcyc_cache_block bytes s = s\<lparr>cache_block := bytes\<rparr>"

definition set_fcyc_compensate :: "bool \<Rightarrow> fcyc_state \<Rightarrow> fcyc_state" where
  "set_fcyc_compensate compensate_arg s = s\<lparr>compensate := compensate_arg\<rparr>"

definition set_fcyc_k :: "nat \<Rightarrow> fcyc_state \<Rightarrow> fcyc_state" where
  "set_fcyc_k k s = s\<lparr>kbest := k\<rparr>"

definition set_fcyc_maxsamples :: "nat \<Rightarrow> fcyc_state \<Rightarrow> fcyc_state" where
  "set_fcyc_maxsamples maxsamples_arg s = s\<lparr>maxsamples := maxsamples_arg\<rparr>"

definition set_fcyc_epsilon :: "real \<Rightarrow> fcyc_state \<Rightarrow> fcyc_state" where
  "set_fcyc_epsilon epsilon_arg s = s\<lparr>epsilon := epsilon_arg\<rparr>"

section \<open>The sampler\<close>

definition init_sampler :: "fcyc_state \<Rightarrow> fcyc_state" where
  "init_sampler s = s\<lparr>vals := replicate (kbest s) 0, samplecount := 0\<rparr>"

text \<open>The insertion sort of \<open>add_sample\<close>, from position \<open>pos\<close> down.\<close>

fun sift :: "nat \<Rightarrow> real list \<Rightarrow> real list" where
  "sift 0 vs = vs"
| "sift (Suc p) vs = (if vs ! p > vs ! Suc p then sift p (vs[p := vs ! Suc p, Suc p := vs ! p]) else vs)"

text \<open>With \<open>kbest = 0\<close> the array has no last element to compare with.\<close>

definition add_sample :: "real \<Rightarrow> fcyc_state \<Rightarrow> fcyc_state option" where
  "add_sample val s =
    (if kbest s = 0 then None
     else
       let (pos, vs) =
         (if samplecount s < kbest s then (samplecount s, (vals s)[samplecount s := val])
          else if val < vals s ! (kbest s - 1) then (kbest s - 1, (vals s)[kbest s - 1 := val])
          else (0, vals s))
       in Some (s\<lparr>samplecount := Suc (samplecount s), vals := sift pos vs\<rparr>))"

definition has_converged :: "fcyc_state \<Rightarrow> bool" where
  "has_converged s \<longleftrightarrow> kbest s \<le> samplecount s \<and> vals s ! (kbest s - 1) \<le> (1 + epsilon s) * vals s ! 0"

text \<open>The loop, for either counter: \<open>f\<close> changes the memory \<open>m\<close>, \<open>t\<close> counts the runs.\<close>

function fcyc_loop :: "(nat \<Rightarrow> real) \<Rightarrow> ('m \<Rightarrow> 'm) \<Rightarrow> fcyc_state \<Rightarrow> nat \<Rightarrow> 'm \<Rightarrow> (fcyc_state \<times> nat \<times> 'm) option" where
  "fcyc_loop counter f s t m =
    (let m = f m in
     case add_sample (counter t) s of
       None \<Rightarrow> None
     | Some s' \<Rightarrow>
         if \<not> has_converged s' \<and> samplecount s' < maxsamples s' then fcyc_loop counter f s' (Suc t) m
         else Some (s', Suc t, m))"
  by pat_completeness auto
termination
  by (relation "measure (\<lambda>(counter, f, s, t, m). maxsamples s - samplecount s)")
    (auto simp: add_sample_def Let_def split: if_splits)

declare fcyc_loop.simps [simp del]

definition fcyc_v :: "(bool \<Rightarrow> nat \<Rightarrow> real) \<Rightarrow> ('m \<Rightarrow> 'm) \<Rightarrow> fcyc_state \<Rightarrow> nat \<Rightarrow> 'm \<Rightarrow> (real \<times> fcyc_state \<times> nat \<times> 'm) option" where
  "fcyc_v counter f s t m =
    (case fcyc_loop (counter (compensate s)) f (init_sampler s) t m of
       None \<Rightarrow> None
     | Some (s, t, m) \<Rightarrow> Some (vals s ! 0, s\<lparr>vals := []\<rparr>, t, m))"

section \<open>Sorting\<close>

lemma sorted_same: "sorted xs \<Longrightarrow> sorted ys \<Longrightarrow> mset xs = mset ys \<Longrightarrow> xs = ys"
  by (metis properties_for_sort)

lemma insort_before: "sorted (ys @ [y]) \<Longrightarrow> x < y \<Longrightarrow> insort x (ys @ [y]) = insort x ys @ [y]"
  by (rule sorted_same) (auto simp: sorted_append sorted_insort set_insort_key)

lemma insort_after: "sorted ys \<Longrightarrow> \<forall>y\<in>set ys. y \<le> x \<Longrightarrow> insort x ys = ys @ [x]"
  by (rule sorted_same) (auto simp: sorted_append sorted_insort)

lemma sift_insort: "sorted ys \<Longrightarrow> sift (length ys) (ys @ x # zs) = insort x ys @ zs"
proof (induction ys arbitrary: zs rule: rev_induct)
  case (snoc y ys)
  then have ys: "sorted ys"
    by (simp add: sorted_append)
  show ?case
  proof (cases "x < y")
    case True
    then show ?thesis
      using snoc.IH [OF ys, of "y # zs"] insort_before [OF snoc.prems True]
      by (simp add: nth_append list_update_append)
  next
    case False
    then have "\<forall>z\<in>set (ys @ [y]). z \<le> x"
      using snoc.prems by (auto simp: sorted_append)
    then show ?thesis
      using insort_after [OF snoc.prems] False by (simp add: nth_append)
  qed
qed simp

lemma take_insort_small:
  "sorted xs \<Longrightarrow> k < length xs \<Longrightarrow> x < xs ! k \<Longrightarrow> take (Suc k) (insort x xs) = insort x (take k xs)"
proof (induction xs arbitrary: k)
  case (Cons y ys)
  then show ?case
    by (cases k) (auto simp: not_le)
qed simp

lemma take_insort_large:
  "sorted xs \<Longrightarrow> k < length xs \<Longrightarrow> xs ! k \<le> x \<Longrightarrow> take (Suc k) (insort x xs) = take (Suc k) xs"
proof (induction xs arbitrary: k)
  case (Cons y ys)
  show ?case
  proof (cases "x \<le> y")
    case True
    have same: "(y # ys) ! i = y" if "i \<le> k" for i
    proof -
      have "(y # ys) ! 0 \<le> (y # ys) ! i" "(y # ys) ! i \<le> (y # ys) ! k"
        using Cons.prems that by (intro sorted_nth_mono; simp)+
      then show ?thesis using Cons.prems(3) True by simp
    qed
    then have "x = y"
      using same [of k] Cons.prems(3) True by simp
    then have "(x # y # ys) ! i = (y # ys) ! i" if "i \<le> k" for i
      using same [of i] same [of "i - 1"] that by (cases i) auto
    then have "take (Suc k) (x # y # ys) = take (Suc k) (y # ys)"
      using Cons.prems(2) by (intro nth_take_lemma) (auto simp: less_Suc_eq_le)
    then show ?thesis
      using True by simp
  next
    case False
    then show ?thesis
      using Cons by (cases k) auto
  qed
qed simp

section \<open>The smallest samples\<close>

text \<open>After the samples \<open>xs\<close> the array holds the \<open>kbest\<close> smallest of them in order.\<close>

definition holds :: "fcyc_state \<Rightarrow> real list \<Rightarrow> bool" where
  "holds s xs \<longleftrightarrow> samplecount s = length xs \<and> vals s = take (kbest s) (sort xs) @ replicate (kbest s - length xs) 0"

text \<open>The parameters are the same.\<close>

definition same_setup :: "fcyc_state \<Rightarrow> fcyc_state \<Rightarrow> bool" where
  "same_setup s s' \<longleftrightarrow> s'\<lparr>vals := [], samplecount := 0\<rparr> = s\<lparr>vals := [], samplecount := 0\<rparr>"

lemma same_setup_fields:
  "same_setup s s' \<Longrightarrow> kbest s' = kbest s \<and> epsilon s' = epsilon s \<and> maxsamples s' = maxsamples s \<and> compensate s' = compensate s"
  by (cases s; cases s') (simp add: same_setup_def)

lemma same_setup_trans: "same_setup s s' \<Longrightarrow> same_setup s' s'' \<Longrightarrow> same_setup s s''"
  by (simp add: same_setup_def)

lemma holds_init: "holds (init_sampler s) []"
  by (simp add: holds_def init_sampler_def)

lemma add_sample_holds:
  assumes "holds s xs" "0 < kbest s"
  shows "\<exists>s'. add_sample x s = Some s' \<and> holds s' (xs @ [x]) \<and>
    same_setup s s'"
proof -
  have sort: "sort (xs @ [x]) = insort x (sort xs)"
    by (rule sorted_same) (simp_all add: sorted_insort)
  consider (fill) "length xs < kbest s" | (better) "kbest s \<le> length xs" "x < sort xs ! (kbest s - 1)"
    | (skip) "kbest s \<le> length xs" "sort xs ! (kbest s - 1) \<le> x"
    by linarith
  then show ?thesis
  proof cases
    case fill
    then have "replicate (kbest s - length xs) (0 :: real) = 0 # replicate (kbest s - Suc (length xs)) 0"
      by (simp add: Suc_diff_Suc [symmetric])
    then have "sift (length xs) ((sort xs @ replicate (kbest s - length xs) 0)[length xs := x]) =
        insort x (sort xs) @ replicate (kbest s - Suc (length xs)) 0"
      using sift_insort [of "sort xs" x "replicate (kbest s - Suc (length xs)) 0"] by (simp add: list_update_append)
    then show ?thesis
      using assms fill by (simp add: add_sample_def holds_def sort same_setup_def)
  next
    case better
    let ?k = "kbest s - 1"
    have "(take (kbest s) (sort xs))[?k := x] = take ?k (sort xs) @ [x]"
      using better assms(2) by (cases "kbest s") (simp_all add: take_Suc_conv_app_nth list_update_append)
    moreover have "sift ?k (take ?k (sort xs) @ [x]) = insort x (take ?k (sort xs))"
      using sift_insort [of "take ?k (sort xs)" x "[]"] better by (simp add: sorted_wrt_take)
    moreover have "take (kbest s) (insort x (sort xs)) = insort x (take ?k (sort xs))"
      using take_insort_small [of "sort xs" ?k x] better assms(2) by simp
    ultimately show ?thesis
      using assms better by (simp add: add_sample_def holds_def sort same_setup_def)
  next
    case skip
    then have "take (kbest s) (insort x (sort xs)) = take (kbest s) (sort xs)"
      using take_insort_large [of "sort xs" "kbest s - 1" x] assms(2) by simp
    then show ?thesis
      using assms skip by (simp add: add_sample_def holds_def sort same_setup_def)
  qed
qed

text \<open>When the samples \<open>xs\<close> are enough.\<close>

definition enough :: "nat \<Rightarrow> real \<Rightarrow> real list \<Rightarrow> bool" where
  "enough k eps xs \<longleftrightarrow> k \<le> length xs \<and> sort xs ! (k - 1) \<le> (1 + eps) * sort xs ! 0"

lemma has_converged_enough:
  assumes "holds s xs" "0 < kbest s"
  shows "has_converged s \<longleftrightarrow> enough (kbest s) (epsilon s) xs"
  using assms by (auto simp: has_converged_def enough_def holds_def nth_append)

lemma fcyc_loop_samples:
  assumes "holds s xs" "0 < kbest s"
  shows "\<exists>n s'. fcyc_loop counter f s t m = Some (s', t + n, (f ^^ n) m) \<and> 0 < n \<and>
    holds s' (xs @ map counter [t..<t + n]) \<and> same_setup s s' \<and>
    (enough (kbest s) (epsilon s) (xs @ map counter [t..<t + n]) \<or> maxsamples s \<le> length xs + n) \<and>
    (\<forall>j. 0 < j \<and> j < n \<longrightarrow> \<not> enough (kbest s) (epsilon s) (xs @ map counter [t..<t + j]) \<and> length xs + j < maxsamples s)"
  using assms
proof (induction counter f s t m arbitrary: xs rule: fcyc_loop.induct)
  case (1 counter f s t m)
  obtain s1 where s1: "add_sample (counter t) s = Some s1" "holds s1 (xs @ [counter t])"
    "same_setup s s1"
    using add_sample_holds [OF 1(2,3)] by blast
  then have k: "kbest s1 = kbest s" "epsilon s1 = epsilon s" "maxsamples s1 = maxsamples s"
    using same_setup_fields by blast+
  have conv: "has_converged s1 \<longleftrightarrow> enough (kbest s) (epsilon s) (xs @ [counter t])"
    using has_converged_enough [OF s1(2)] 1(3) k by simp
  have count: "samplecount s1 = Suc (length xs)"
    using s1(2) by (simp add: holds_def)
  show ?case
  proof (cases "\<not> has_converged s1 \<and> samplecount s1 < maxsamples s1")
    case False
    then have "fcyc_loop counter f s t m = Some (s1, t + 1, (f ^^ 1) m)"
      using s1(1) by (subst fcyc_loop.simps) auto
    then show ?thesis
      using False s1 conv count k by (intro exI [of _ 1] exI [of _ s1]) auto
  next
    case True
    obtain n s' where IH: "fcyc_loop counter f s1 (Suc t) (f m) = Some (s', Suc t + n, (f ^^ n) (f m))" "0 < n"
      "holds s' ((xs @ [counter t]) @ map counter [Suc t..<Suc t + n])" "same_setup s1 s'"
      "enough (kbest s) (epsilon s) ((xs @ [counter t]) @ map counter [Suc t..<Suc t + n]) \<or> maxsamples s \<le> Suc (length xs) + n"
      "\<forall>j. 0 < j \<and> j < n \<longrightarrow> \<not> enough (kbest s) (epsilon s) ((xs @ [counter t]) @ map counter [Suc t..<Suc t + j]) \<and>
        Suc (length xs) + j < maxsamples s"
      using 1(1) [OF refl s1(1) True s1(2)] 1(3) k by auto
    have upt: "map counter [t..<t + Suc j] = counter t # map counter [Suc t..<Suc t + j]" for j
      by (simp add: upt_conv_Cons del: upt_Suc)
    have first: "\<not> enough (kbest s) (epsilon s) (xs @ map counter [t..<t + j]) \<and> length xs + j < maxsamples s"
      if j: "0 < j" "j < Suc n" for j
    proof (cases "j = 1")
      case True
      then show ?thesis
        using \<open>\<not> has_converged s1 \<and> samplecount s1 < maxsamples s1\<close> conv count k by simp
    next
      case False
      then obtain i where i: "j = Suc i" "0 < i" "i < n"
        using j by (cases j) auto
      then show ?thesis
        using IH(6) upt [of i] by (simp del: upt_Suc)
    qed
    have "fcyc_loop counter f s t m = Some (s', t + Suc n, (f ^^ Suc n) m)"
      using s1(1) True IH(1) by (subst fcyc_loop.simps) (auto simp: funpow_swap1)
    moreover have "same_setup s s'"
      using IH(4) s1(3) same_setup_trans by blast
    ultimately show ?thesis
      using IH upt [of n] first by (intro exI [of _ "Suc n"] exI [of _ s']) auto
  qed
qed

section \<open>The result\<close>

lemma sort_first: "xs \<noteq> [] \<Longrightarrow> sort xs ! 0 = Min (set xs)"
proof -
  assume "xs \<noteq> []"
  then have "sort xs ! 0 \<in> set xs"
    by (metis length_greater_0_conv length_sort nth_mem set_sort)
  moreover have "sort xs ! 0 \<le> x" if x: "x \<in> set xs" for x
  proof -
    obtain i where "i < length (sort xs)" "sort xs ! i = x"
      using x by (metis in_set_conv_nth set_sort)
    then show ?thesis
      using sorted_nth_mono [of "sort xs" 0 i] by simp
  qed
  ultimately show ?thesis
    by (metis Min_eqI List.finite_set)
qed

text \<open>The number \<open>n\<close> of runs of a measurement that starts with the reading \<open>t\<close>.\<close>

definition runs :: "fcyc_state \<Rightarrow> (nat \<Rightarrow> real) \<Rightarrow> nat \<Rightarrow> nat \<Rightarrow> bool" where
  "runs s counter t n \<longleftrightarrow> 0 < n \<and> n \<le> max 1 (maxsamples s) \<and>
    (enough (kbest s) (epsilon s) (map counter [t..<t + n]) \<or> n = max 1 (maxsamples s)) \<and>
    (\<forall>j. 0 < j \<and> j < n \<longrightarrow> \<not> enough (kbest s) (epsilon s) (map counter [t..<t + j]))"

lemma runs_same_setup: "same_setup s s' \<Longrightarrow> runs s' = runs s"
  by (simp add: runs_def fun_eq_iff same_setup_fields)

lemma fcyc_best_lemma:
  assumes "0 < kbest s"
  shows "\<exists>n s'. fcyc_v counter f s t m = Some (Min (counter (compensate s) ` {t..<t + n}), s', t + n, (f ^^ n) m) \<and>
    same_setup s s' \<and> runs s (counter (compensate s)) t n"
proof -
  let ?c = "counter (compensate s)" and ?s = "init_sampler s"
  have init: "same_setup s ?s" "0 < kbest ?s"
    using assms by (simp_all add: same_setup_def init_sampler_def)
  then have fields: "kbest ?s = kbest s" "epsilon ?s = epsilon s" "maxsamples ?s = maxsamples s"
    using same_setup_fields by blast+
  obtain n s1 where n: "fcyc_loop ?c f ?s t m = Some (s1, t + n, (f ^^ n) m)" "0 < n"
      "holds s1 (map ?c [t..<t + n])" "same_setup ?s s1"
      "enough (kbest s) (epsilon s) (map ?c [t..<t + n]) \<or> maxsamples s \<le> n"
      "\<forall>j. 0 < j \<and> j < n \<longrightarrow> \<not> enough (kbest s) (epsilon s) (map ?c [t..<t + j]) \<and> j < maxsamples s"
    using fcyc_loop_samples [OF holds_init init(2), of ?c f t m] fields by auto
  have "kbest s1 = kbest s"
    using n(4) fields same_setup_fields by metis
  then have "vals s1 ! 0 = sort (map ?c [t..<t + n]) ! 0"
    using n(2,3) assms by (simp add: holds_def nth_append)
  then have "vals s1 ! 0 = Min (?c ` {t..<t + n})"
    using n(2) sort_first [of "map ?c [t..<t + n]"] by simp
  moreover have "same_setup s (s1\<lparr>vals := []\<rparr>)"
    using same_setup_trans [OF init(1) n(4)] by (simp add: same_setup_def)
  moreover have "n \<le> max 1 (maxsamples s)"
    using n(6) [rule_format, of "n - 1"] n(2) by (cases "n = 1") auto
  moreover have "maxsamples s \<le> n \<Longrightarrow> n = max 1 (maxsamples s)"
    using calculation(3) n(2) by linarith
  ultimately show ?thesis
    using n by (intro exI [of _ n] exI [of _ "s1\<lparr>vals := []\<rparr>"]) (auto simp: fcyc_v_def runs_def)
qed

end
