(* ===== verification/Clock.thy ===== *)
theory Clock
  imports Complex_Main "HOL-Library.Word" "HOL-Library.Log_Nat" "HOL-Library.Monad_Syntax"
begin

text \<open>
  The cycle counters of \<open>Malloclab/clock.c\<close>. The hardware is two parameters: \<open>tsc i\<close> is what the \<open>i\<close>-th
  reading of the time stamp counter yields (\<open>rdtsc\<close> delivers its halves), \<open>utime i\<close> the user time, in clock
  ticks, that the \<open>i\<close>-th call of \<open>times\<close> reports. The count itself is a \<open>double\<close>, rounded as the machine rounds it
  (\<open>to_double\<close>); the arithmetic on counts after that is read as that of the real numbers.
\<close>

section \<open>Rounding\<close>

text \<open>A whole number as a \<open>double\<close>: 53 bits are kept, to the nearest, to the even one of two that are as near.\<close>

definition to_double :: "nat \<Rightarrow> nat" where
  "to_double n =
    (let u = 2 ^ (floorlog 2 n - 53); m = n div u; r = n mod u
     in if 2 * r < u \<or> 2 * r = u \<and> even m then m * u else (m + 1) * u)"

text \<open>What a \<open>double\<close> can be, whatever its exponent.\<close>

definition is_double :: "real \<Rightarrow> bool" where
  "is_double d \<longleftrightarrow> (\<exists>k e :: int. \<bar>k\<bar> < 2 ^ 53 \<and> d = of_int k * 2 powi e)"

lemma to_double_exact: "n \<le> 2 ^ 53 \<Longrightarrow> to_double n = n"
proof (cases "n = 2 ^ 53")
  case True
  moreover have "floorlog 2 (2 ^ 53) = 54" using floorlog_power [of 1 2 53] by (simp add: compute_floorlog)
  ultimately show ?thesis by (simp add: to_double_def)
next
  case False
  assume "n \<le> 2 ^ 53"
  with False have "n < 2 ^ 53" by simp
  then have "floorlog 2 n \<le> 53" by (intro floorlog_leI) simp_all
  then show ?thesis by (simp add: to_double_def)
qed

text \<open>The two neighbours of a number that is too long: no \<open>double\<close> lies between them.\<close>

lemma double_gap:
  assumes "is_double d" "0 < e" "2 ^ 52 \<le> m"
  shows "d \<le> real (m * 2 ^ e) \<or> real ((m + 1) * 2 ^ e) \<le> d"
proof -
  obtain k f where d: "\<bar>k\<bar> < 2 ^ 53" "d = of_int k * 2 powi f" using assms(1) by (auto simp: is_double_def)
  show ?thesis
  proof (cases "int e \<le> f")
    case True
    then have "f = int e + int (nat (f - int e))" by simp
    then have "(2 :: real) powi f = 2 ^ nat (f - int e) * 2 ^ e"
      by (metis mult.commute power_int_add power_int_of_nat zero_neq_numeral)
    then have j: "d = of_int (k * 2 ^ nat (f - int e)) * 2 ^ e" by (simp add: d(2))
    define j where "j = k * 2 ^ nat (f - int e)"
    have "j \<le> int m \<or> int m + 1 \<le> j" by linarith
    then have "of_int j \<le> real m \<or> real m + 1 \<le> of_int j" by linarith
    then have "of_int j * 2 ^ e \<le> real m * 2 ^ e \<or> (real m + 1) * 2 ^ e \<le> of_int j * 2 ^ e"
      by (auto simp del: mult_le_cancel_right intro!: mult_right_mono)
    then show ?thesis unfolding j j_def [symmetric] by (simp add: algebra_simps)
  next
    case False
    then have "(2 :: real) powi f \<le> 2 powi (int e - 1)" by (intro power_int_increasing) simp_all
    moreover have "(2 :: real) powi (int e - 1) = 2 ^ (e - 1)" using assms(2) by (simp add: power_int_def nat_diff_distrib)
    ultimately have "(2 :: real) powi f \<le> 2 ^ (e - 1)" by simp
    moreover have "of_int k \<le> (2 ^ 53 :: real)"
      using d(1) by (metis abs_le_D1 less_le_not_le of_int_le_iff of_int_numeral of_int_power)
    moreover have "(0 :: real) \<le> 2 powi f" by simp
    ultimately have "d \<le> 2 ^ 53 * 2 ^ (e - 1)" unfolding d(2) by (meson mult_mono zero_le_numeral zero_le_power)
    also have "(2 ^ 53 * 2 ^ (e - 1) :: real) = 2 ^ 52 * 2 ^ e" using assms(2) by (cases e) simp_all
    also have "\<dots> \<le> real m * 2 ^ e" using assms(3) by (intro mult_right_mono) (metis of_nat_le_iff of_nat_numeral of_nat_power, simp)
    finally show ?thesis by simp
  qed
qed

lemma to_double_bits:
  assumes "0 < n"
  obtains e m r where "n = m * 2 ^ e + r" "r < 2 ^ e" "m < 2 ^ 53" "0 < e \<Longrightarrow> 2 ^ 52 \<le> m"
    "to_double n = (if 2 * r < 2 ^ e \<or> 2 * r = 2 ^ e \<and> even m then m * 2 ^ e else (m + 1) * 2 ^ e)"
proof -
  define e where "e = floorlog 2 n - 53"
  have b: "2 ^ (floorlog 2 n - 1) \<le> n" "n < 2 ^ floorlog 2 n" using floorlog_bounds [of n 2] assms by auto
  have "n < 2 ^ (53 + e)" using b(2) by (rule less_le_trans) (simp add: e_def)
  then have "n div 2 ^ e < 2 ^ 53" by (simp add: less_mult_imp_div_less power_add)
  moreover have "2 ^ 52 \<le> n div 2 ^ e" if "0 < e"
  proof -
    have "floorlog 2 n - 1 = 52 + e" using that by (simp add: e_def)
    then have "2 ^ 52 * 2 ^ e \<le> n" using b(1) by (simp only: power_add)
    then show ?thesis by (simp add: less_eq_div_iff_mult_less_eq)
  qed
  ultimately show thesis
    by (intro that [OF div_mult_mod_eq [symmetric]]) (simp_all add: to_double_def Let_def e_def)
qed

lemma to_double_is_double: "is_double (real (to_double n))"
proof (cases "n = 0")
  case True
  then show ?thesis by (simp add: to_double_exact is_double_def)
next
  case False
  then obtain e m r where n: "m < 2 ^ 53" "to_double n = m * 2 ^ e \<or> to_double n = (m + 1) * 2 ^ e"
    using to_double_bits [of n] by (metis neq0_conv)
  have d: "is_double (real (k * 2 ^ e))" if "k < 2 ^ 53" for k :: nat
  proof -
    have "\<bar>int k\<bar> < 2 ^ 53" using that by (metis abs_of_nat of_nat_less_iff of_nat_numeral of_nat_power)
    moreover have "real (k * 2 ^ e) = of_int (int k) * 2 powi int e" by simp
    ultimately show ?thesis unfolding is_double_def by blast
  qed
  have "is_double (real ((m + 1) * 2 ^ e))"
  proof (cases "m + 1 < 2 ^ 53")
    case False
    then have m: "m + 1 = 2 ^ 53" using n(1) by linarith
    have "real ((m + 1) * 2 ^ e) = of_int (2 ^ 52) * 2 ^ (e + 1)" unfolding m by simp
    then have "real ((m + 1) * 2 ^ e) = of_int (2 ^ 52) * 2 powi int (e + 1)" unfolding power_int_of_nat .
    moreover have "\<bar>2 ^ 52 :: int\<bar> < 2 ^ 53" by simp
    ultimately show ?thesis unfolding is_double_def by blast
  qed (rule d)
  then show ?thesis using n d by metis
qed

lemma to_double_nearest:
  assumes "is_double d"
  shows "\<bar>real (to_double n) - real n\<bar> \<le> \<bar>d - real n\<bar>"
proof (cases "n \<le> 2 ^ 53")
  case True
  then show ?thesis by (simp add: to_double_exact)
next
  case False
  then obtain e m r where n: "n = m * 2 ^ e + r" "r < 2 ^ e" "m < 2 ^ 53" "0 < e \<Longrightarrow> 2 ^ 52 \<le> m"
    "to_double n = (if 2 * r < 2 ^ e \<or> 2 * r = 2 ^ e \<and> even m then m * 2 ^ e else (m + 1) * 2 ^ e)"
    using to_double_bits [of n] by (metis neq0_conv not_le zero_le)
  have "0 < e" using False n(1-3) by (cases e) auto
  from double_gap [OF assms this n(4) [OF this]]
  have gap: "d \<le> real (m * 2 ^ e) \<or> real (m * 2 ^ e) + 2 ^ e \<le> d" by (simp add: algebra_simps)
  have r: "real n = real (m * 2 ^ e) + real r" "real r \<le> 2 ^ e"
    using n(1,2) by (simp_all add: less_imp_le)
  show ?thesis
  proof (cases "2 * r < 2 ^ e \<or> 2 * r = 2 ^ e \<and> even m")
    case True
    then have "2 * r \<le> 2 ^ e" by auto
    then have "2 * real r \<le> 2 ^ e" by (metis of_nat_le_iff of_nat_mult of_nat_numeral of_nat_power)
    then show ?thesis using gap r n(5) True by auto
  next
    case False
    then have "2 ^ e \<le> 2 * r" by auto
    then have "2 ^ e \<le> 2 * real r" by (metis of_nat_le_iff of_nat_mult of_nat_numeral of_nat_power)
    moreover have "real (to_double n) = real (m * 2 ^ e) + 2 ^ e" using n(5) False by (simp add: algebra_simps)
    ultimately show ?thesis using gap r by auto
  qed
qed

section \<open>State\<close>

text \<open>The static variables, and how many readings and calls there have been.\<close>

record clock =
  cyc_hi :: "32 word"
  cyc_lo :: "32 word"
  cyc_per_tick :: real
  start_tick :: int
  reads :: nat
  calls :: nat

definition clock0 :: clock where
  "clock0 = \<lparr>cyc_hi = 0, cyc_lo = 0, cyc_per_tick = 0, start_tick = 0, reads = 0, calls = 0\<rparr>"

definition sys_times :: "(nat \<Rightarrow> int) \<Rightarrow> clock \<Rightarrow> int \<times> clock" where
  "sys_times utime s = (utime (calls s), s\<lparr>calls := Suc (calls s)\<rparr>)"

section \<open>The counter of the Pentium\<close>

definition access_counter :: "(nat \<Rightarrow> 64 word) \<Rightarrow> clock \<Rightarrow> 32 word \<times> 32 word \<times> clock" where
  "access_counter tsc s =
    (ucast (drop_bit 32 (tsc (reads s))), ucast (tsc (reads s)), s\<lparr>reads := Suc (reads s)\<rparr>)"

definition start_counter :: "(nat \<Rightarrow> 64 word) \<Rightarrow> clock \<Rightarrow> clock" where
  "start_counter tsc s = (case access_counter tsc s of (hi, low, s) \<Rightarrow> s\<lparr>cyc_hi := hi, cyc_lo := low\<rparr>)"

text \<open>The subtraction in two words. The products are exact, the sum is rounded. A reading below zero would be reported
  on \<open>stderr\<close>; there is none.\<close>

definition sub_counter :: "32 word \<Rightarrow> 32 word \<Rightarrow> 32 word \<Rightarrow> 32 word \<Rightarrow> real" where
  "sub_counter chi clo ncyc_hi ncyc_lo =
    (let low = ncyc_lo - clo;
         borrow = (if ncyc_lo < low then 1 else 0);
         hi = ncyc_hi - chi - borrow
     in real (to_double (unat hi * 2 ^ 30 * 4 + unat low)))"

definition get_counter :: "(nat \<Rightarrow> 64 word) \<Rightarrow> clock \<Rightarrow> real \<times> clock" where
  "get_counter tsc s =
    (case access_counter tsc s of (ncyc_hi, ncyc_lo, s) \<Rightarrow> (sub_counter (cyc_hi s) (cyc_lo s) ncyc_hi ncyc_lo, s))"

section \<open>The counter of the Alpha\<close>

text \<open>The 32 bits of the counter that belong to the process.\<close>

definition start_counter_alpha :: "(nat \<Rightarrow> 32 word) \<Rightarrow> clock \<Rightarrow> clock" where
  "start_counter_alpha counter s = s\<lparr>cyc_hi := 0, cyc_lo := counter (reads s), reads := Suc (reads s)\<rparr>"

definition get_counter_alpha :: "(nat \<Rightarrow> 32 word) \<Rightarrow> clock \<Rightarrow> real \<times> clock" where
  "get_counter_alpha counter s =
    (sub_counter (cyc_hi s) (cyc_lo s) 0 (counter (reads s)), s\<lparr>reads := Suc (reads s)\<rparr>)"

text \<open>On other platforms the two functions print a message and end the program.\<close>

definition start_counter_other :: "clock \<Rightarrow> int + clock" where
  "start_counter_other s = Inl 1"

definition get_counter_other :: "clock \<Rightarrow> int + real \<times> clock" where
  "get_counter_other s = Inl 1"

section \<open>Overhead and clock rate\<close>

text \<open>The second of two rounds counts.\<close>

definition ovhd :: "(nat \<Rightarrow> 64 word) \<Rightarrow> clock \<Rightarrow> real \<times> clock" where
  "ovhd tsc s = (let (_, s) = get_counter tsc (start_counter tsc s) in get_counter tsc (start_counter tsc s))"

text \<open>With \<open>sleeptime = 0\<close> the quotient is no number.\<close>

definition mhz_full :: "(nat \<Rightarrow> 64 word) \<Rightarrow> int \<Rightarrow> clock \<Rightarrow> (real \<times> clock) option" where
  "mhz_full tsc sleeptime s =
    (case get_counter tsc (start_counter tsc s) of (c, s) \<Rightarrow>
       if sleeptime = 0 then None else Some (c / (10 ^ 6 * real_of_int sleeptime), s))"

definition mhz :: "(nat \<Rightarrow> 64 word) \<Rightarrow> clock \<Rightarrow> (real \<times> clock) option" where
  "mhz tsc s = mhz_full tsc 2 s"

section \<open>Compensation for timer interrupts\<close>

definition NEVENT :: nat where "NEVENT = 100"
definition THRESHOLD :: real where "THRESHOLD = 1000"
definition RECORDTHRESH :: real where "RECORDTHRESH = 3000"

definition note_ratio :: "real \<Rightarrow> clock \<Rightarrow> clock" where
  "note_ratio cpt s =
    (if (cyc_per_tick s = 0 \<or> cpt < cyc_per_tick s) \<and> RECORDTHRESH < cpt then s\<lparr>cyc_per_tick := cpt\<rparr> else s)"

text \<open>The loop ends only when the user time has advanced often enough.\<close>

partial_function (option) callib_loop ::
  "(nat \<Rightarrow> 64 word) \<Rightarrow> (nat \<Rightarrow> int) \<Rightarrow> nat \<Rightarrow> real \<Rightarrow> int \<Rightarrow> clock \<Rightarrow> clock option" where
  "callib_loop tsc utime e oldt oldc s =
    (if e < NEVENT then
       let (newt, s) = get_counter tsc s in
       if THRESHOLD \<le> newt - oldt then
         let (newc, s) = sys_times utime s in
         if oldc < newc then
           callib_loop tsc utime (e + 1) newt newc (note_ratio ((newt - oldt) / real_of_int (newc - oldc)) s)
         else callib_loop tsc utime e newt oldc s
       else callib_loop tsc utime e oldt oldc s
     else Some s)"

definition callibrate :: "(nat \<Rightarrow> 64 word) \<Rightarrow> (nat \<Rightarrow> int) \<Rightarrow> clock \<Rightarrow> clock option" where
  "callibrate tsc utime s =
    (let (oldc, s) = sys_times utime s;
         (oldt, s) = get_counter tsc (start_counter tsc s)
     in callib_loop tsc utime 0 oldt oldc s)"

definition start_comp_counter :: "(nat \<Rightarrow> 64 word) \<Rightarrow> (nat \<Rightarrow> int) \<Rightarrow> clock \<Rightarrow> clock option" where
  "start_comp_counter tsc utime s =
    do { s \<leftarrow> if cyc_per_tick s = 0 then callibrate tsc utime s else Some s;
         let (t, s) = sys_times utime s;
         Some (start_counter tsc (s\<lparr>start_tick := t\<rparr>)) }"

definition get_comp_counter :: "(nat \<Rightarrow> 64 word) \<Rightarrow> (nat \<Rightarrow> int) \<Rightarrow> clock \<Rightarrow> real \<times> clock" where
  "get_comp_counter tsc utime s =
    (let (time, s) = get_counter tsc s;
         (t, s) = sys_times utime s;
         ticks = t - start_tick s
     in (time - real_of_int ticks * cyc_per_tick s, s))"

section \<open>The two-word subtraction\<close>

lemma uint_high: "uint (ucast (drop_bit 32 w) :: 32 word) = uint w div 2 ^ 32" for w :: "64 word"
proof -
  have "uint w div 2 ^ 32 < 2 ^ 32" using uint_lt2p [of w] by simp
  moreover have "uint (drop_bit 32 w) = uint w div 2 ^ 32" by (simp add: drop_bit_eq_div uint_div_distrib)
  moreover have "uint w div 2 ^ 32 mod 2 ^ 32 = uint w div 2 ^ 32"
    by (rule mod_pos_pos_trivial) (use \<open>uint w div 2 ^ 32 < 2 ^ 32\<close> in \<open>simp_all add: pos_imp_zdiv_nonneg_iff\<close>)
  ultimately show ?thesis by (simp add: unsigned_ucast_eq take_bit_eq_mod)
qed

lemma uint_low: "uint (ucast w :: 32 word) = uint w mod 2 ^ 32" for w :: "64 word"
  by (simp add: unsigned_ucast_eq take_bit_eq_mod)

lemma uint_minus: "uint (a - b) = (uint a - uint b) mod 2 ^ 32" for a b :: "32 word"
  by (simp add: uint_word_ariths)

lemma borrow_iff: "ncyc_lo < ncyc_lo - clo \<longleftrightarrow> ncyc_lo < clo" for ncyc_lo clo :: "32 word"
proof -
  have b: "0 \<le> uint clo" "uint clo < 2 ^ 32" "0 \<le> uint ncyc_lo" "uint ncyc_lo < 2 ^ 32"
    using uint_lt2p [of clo] uint_lt2p [of ncyc_lo] by simp_all
  show ?thesis
  proof (cases "uint ncyc_lo < uint clo")
    case True
    have "(uint ncyc_lo - uint clo) mod 2 ^ 32 = (uint ncyc_lo - uint clo + 2 ^ 32) mod 2 ^ 32" by (rule mod_add_self2 [symmetric])
    also have "\<dots> = uint ncyc_lo - uint clo + 2 ^ 32" using True b by (intro mod_pos_pos_trivial) linarith+
    finally show ?thesis using True b by (simp add: word_less_def uint_minus)
  next
    case False
    then have "(uint ncyc_lo - uint clo) mod 2 ^ 32 = uint ncyc_lo - uint clo"
      using b by (intro mod_pos_pos_trivial) linarith+
    then show ?thesis using False b unfolding word_less_def uint_minus by linarith
  qed
qed


lemma sub_counter_eq:
  "sub_counter chi clo nhi nlo =
    real (to_double (nat ((uint nhi - uint chi - (if uint nlo < uint clo then 1 else 0)) mod 2 ^ 32 * 2 ^ 32 + (uint nlo - uint clo) mod 2 ^ 32)))"
proof -
  have u: "unat v * 2 ^ 30 * 4 + unat w = nat (uint v * 2 ^ 32 + uint w)" for v w :: "32 word"
    by (simp add: nat_add_distrib nat_mult_distrib)
  have "uint (if nlo < clo then 1 else 0 :: 32 word) = (if uint nlo < uint clo then 1 else 0)" by (simp add: word_less_def)
  then have h: "uint (nhi - chi - (if nlo < clo then 1 else 0)) = (uint nhi - uint chi - (if uint nlo < uint clo then 1 else 0)) mod 2 ^ 32"
    unfolding uint_minus by (simp only: mod_diff_left_eq)
  show ?thesis unfolding sub_counter_def Let_def borrow_iff u h unfolding uint_minus ..
qed

text \<open>Two halves subtracted with a borrow are the whole subtracted.\<close>

lemma halves_diff:
  fixes a b :: int
  shows "(b div 2 ^ 32 - a div 2 ^ 32 - (if b mod 2 ^ 32 < a mod 2 ^ 32 then 1 else 0)) mod 2 ^ 32 * 2 ^ 32 + (b mod 2 ^ 32 - a mod 2 ^ 32) mod 2 ^ 32
    = (b - a) mod 2 ^ 64"
proof -
  define m :: int where "m = 2 ^ 32"
  define q r where "q = b div m - a div m - (if b mod m < a mod m then 1 else 0)" and "r = (b mod m - a mod m) mod m"
  have m: "0 < m" by (simp add: m_def)
  have r: "r = b mod m - a mod m + (if b mod m < a mod m then m else 0)"
  proof (cases "b mod m < a mod m")
    case True
    have "r = (b mod m - a mod m + m) mod m" by (simp add: r_def)
    also have "\<dots> = b mod m - a mod m + m"
      using True pos_mod_bound [OF m, of a] pos_mod_sign [OF m, of b] by (intro mod_pos_pos_trivial) auto
    finally show ?thesis using True by simp
  next
    case False
    then show ?thesis
      using pos_mod_bound [OF m, of b] pos_mod_sign [OF m, of a] unfolding r_def by (simp add: mod_pos_pos_trivial)
  qed
  have e: "b - a = m * q + r"
  proof -
    have "m * q = m * (b div m) - m * (a div m) - (if b mod m < a mod m then m else 0)"
      by (simp add: q_def right_diff_distrib)
    then show ?thesis using mult_div_mod_eq [of m a] mult_div_mod_eq [of m b] unfolding r by linarith
  qed
  have "0 \<le> r" "r < m" using m by (simp_all add: r_def)
  then have "(b - a) div m = q" "(b - a) mod m = r"
    using int_div_pos_eq [OF e] int_mod_pos_eq [OF e] by blast+
  then have "(b - a) mod (m * m) = q mod m * m + r" using m zmod_zmult2_eq [of m "b - a" m] by simp
  moreover have "2 ^ 64 = m * m" by (simp add: m_def)
  ultimately show ?thesis by (simp only: m_def [symmetric] q_def [symmetric] r_def [symmetric])
qed


text \<open>What a reading yields, as a function of the number of the reading.\<close>

definition reading :: "(nat \<Rightarrow> 64 word) \<Rightarrow> clock \<Rightarrow> nat \<Rightarrow> real" where
  "reading tsc s i = sub_counter (cyc_hi s) (cyc_lo s) (ucast (drop_bit 32 (tsc i))) (ucast (tsc i))"

lemma get_counter_reading: "get_counter tsc s = (reading tsc s (reads s), s\<lparr>reads := Suc (reads s)\<rparr>)"
  by (simp add: get_counter_def access_counter_def reading_def)

lemma start_counter_simps [simp]:
  "reads (start_counter tsc s) = Suc (reads s)" "calls (start_counter tsc s) = calls s"
  "cyc_per_tick (start_counter tsc s) = cyc_per_tick s" "start_tick (start_counter tsc s) = start_tick s"
  "cyc_hi (start_counter tsc s) = ucast (drop_bit 32 (tsc (reads s)))" "cyc_lo (start_counter tsc s) = ucast (tsc (reads s))"
  by (simp_all add: start_counter_def access_counter_def)

lemma reading_start:
  "reading tsc (start_counter tsc s) i = real (to_double (nat ((uint (tsc i) - uint (tsc (reads s))) mod 2 ^ 64)))"
  unfolding reading_def sub_counter_eq start_counter_simps uint_high unfolding uint_low halves_diff ..

lemma reading_cycles:
  assumes "tsc i = word_of_nat t" "tsc (reads s) = word_of_nat t0" "t0 \<le> t" "t - t0 < 2 ^ 64"
  shows "reading tsc (start_counter tsc s) i = real (to_double (t - t0))"
proof -
  have "(uint (tsc i) - uint (tsc (reads s))) mod 2 ^ 64 = (int t - int t0) mod 2 ^ 64"
    using assms(1,2) by (simp add: uint_word_of_int mod_diff_eq take_bit_eq_mod of_nat_mod unsigned_of_nat)
  also have "\<dots> = int (t - t0)" using assms(3,4) by (simp add: of_nat_diff mod_pos_pos_trivial)
  finally show ?thesis by (simp only: reading_start nat_int)
qed


text \<open>Two readings less than \<open>m\<close> apart: the smaller remainder is the earlier one if and only if the quotients agree.\<close>

lemma wrapped_mod:
  fixes m t t0 :: nat
  assumes "t0 \<le> t" "t - t0 < m"
  shows "int (t mod m) - int (t0 mod m) = int (t - t0) - (if t div m = t0 div m then 0 else int m)"
    and "t mod m < t0 mod m \<longleftrightarrow> t div m \<noteq> t0 div m"
proof -
  have m: "0 < m" using assms by simp
  have e: "int t = int m * int (t div m) + int (t mod m)" "int t0 = int m * int (t0 div m) + int (t0 mod m)"
    by (simp_all flip: of_nat_mult of_nat_add)
  have "t0 div m \<le> t div m" using assms(1) by (rule div_le_mono)
  moreover have "t div m \<le> t0 div m + 1"
  proof -
    have "t \<le> t0 + m" using assms by simp
    then have "t div m \<le> (t0 + m) div m" by (rule div_le_mono)
    then show ?thesis using m by simp
  qed
  ultimately consider "t div m = t0 div m" | "t div m = t0 div m + 1" by linarith
  then show "int (t mod m) - int (t0 mod m) = int (t - t0) - (if t div m = t0 div m then 0 else int m)"
    using e assms(1) by cases (simp_all add: of_nat_diff distrib_left)
  then show "t mod m < t0 mod m \<longleftrightarrow> t div m \<noteq> t0 div m" using assms by (auto split: if_splits)
qed

lemma alpha_count:
  assumes "counter (reads s) = word_of_nat t0" "counter (Suc (reads s)) = word_of_nat t" "t0 \<le> t" "t - t0 < 2 ^ 32"
  shows "fst (get_counter_alpha counter (start_counter_alpha counter s)) =
    real (to_double (if t div 2 ^ 32 = t0 div 2 ^ 32 then t - t0 else 2 ^ 64 - 2 ^ 32 + (t - t0)))"
proof -
  have u: "uint (counter (reads s)) = int (t0 mod 2 ^ 32)" "uint (counter (Suc (reads s))) = int (t mod 2 ^ 32)"
    using assms(1,2) by (simp_all add: take_bit_eq_mod of_nat_mod unsigned_of_nat)
  note w = wrapped_mod [OF assms(3,4)]
  have d: "(int (t mod 2 ^ 32) - int (t0 mod 2 ^ 32)) mod 2 ^ 32 = int (t - t0)"
  proof (cases "t div 2 ^ 32 = t0 div 2 ^ 32")
    case True
    then show ?thesis using w(1) assms(4) by (simp add: mod_pos_pos_trivial)
  next
    case False
    then have "(int (t mod 2 ^ 32) - int (t0 mod 2 ^ 32)) mod 2 ^ 32 = (int (t - t0) - 2 ^ 32) mod 2 ^ 32" using w(1) by simp
    also have "\<dots> = int (t - t0)" using assms(4) by (simp add: mod_pos_pos_trivial)
    finally show ?thesis .
  qed
  have b: "int (t mod 2 ^ 32) < int (t0 mod 2 ^ 32) \<longleftrightarrow> t div 2 ^ 32 \<noteq> t0 div 2 ^ 32" using w(2) by simp
  have "fst (get_counter_alpha counter (start_counter_alpha counter s)) = sub_counter 0 (counter (reads s)) 0 (counter (Suc (reads s)))"
    by (simp add: get_counter_alpha_def start_counter_alpha_def)
  then show ?thesis unfolding sub_counter_eq u d b by (simp add: nat_add_distrib)
qed

text \<open>C37. 
  On a Pentium the count is the number of cycles from \<open>start_counter\<close> to \<open>get_counter\<close> up to \<open>2 ^ 53\<close> cycles, and
  below \<open>2 ^ 64\<close> it is the \<open>double\<close> nearest to that number, although the halves of the counter are subtracted apart.
  The Alpha's routine keeps the borrow of a counter that has 32 bits only: it is exact until that counter wraps, and after
  that it gives the cycles plus \<open>2 ^ 64 - 2 ^ 32\<close>, rounded.
\<close>
theorem counter_exact:
  assumes "t0 \<le> t" "t - t0 < 2 ^ 64"
    and "tsc (reads s) = word_of_nat t0" "tsc (Suc (reads s)) = word_of_nat t"
    and "counter (reads s) = word_of_nat t0" "counter (Suc (reads s)) = word_of_nat t"
  defines "count \<equiv> fst (get_counter tsc (start_counter tsc s))"
  shows "(t - t0 \<le> 2 ^ 53 \<longrightarrow> count = real (t - t0)) \<and>
    is_double count \<and> (\<forall>d. is_double d \<longrightarrow> \<bar>count - real (t - t0)\<bar> \<le> \<bar>d - real (t - t0)\<bar>) \<and>
    (t - t0 < 2 ^ 32 \<longrightarrow> fst (get_counter_alpha counter (start_counter_alpha counter s)) =
      (if t div 2 ^ 32 = t0 div 2 ^ 32 then real (t - t0) else real (to_double (2 ^ 64 - 2 ^ 32 + (t - t0)))))"
  using assms(1-6) alpha_count [of counter s t0 t] to_double_is_double [of "t - t0"] to_double_nearest [of _ "t - t0"]
  by (simp add: count_def get_counter_reading reading_cycles to_double_exact)

lemma alpha_wrapped: "to_double (2 ^ 64 - 2 ^ 32 + 20) = 2 ^ 64 - 2 ^ 32"
proof -
  have "floorlog 2 (2 ^ 64 - 2 ^ 32 + 20) \<le> 64" by (rule floorlog_leI) simp_all
  moreover have "64 \<le> floorlog 2 (2 ^ 64 - 2 ^ 32 + 20)" by (rule floorlog_geI) simp_all
  ultimately have "floorlog 2 (2 ^ 64 - 2 ^ 32 + 20) = 64" by simp
  then show ?thesis by (simp add: to_double_def Let_def)
qed

theorem counter_exact_witness:
  "fst (get_counter (\<lambda>i. word_of_nat (2 ^ 32 - 10 + 20 * i)) (start_counter (\<lambda>i. word_of_nat (2 ^ 32 - 10 + 20 * i)) clock0)) = 20 \<and>
   fst (get_counter_alpha (\<lambda>i. word_of_nat (2 ^ 32 - 10 + 20 * i)) (start_counter_alpha (\<lambda>i. word_of_nat (2 ^ 32 - 10 + 20 * i)) clock0))
     = 2 ^ 64 - 2 ^ 32"
  using counter_exact [of "2 ^ 32 - 10" "2 ^ 32 + 10" "\<lambda>i. word_of_nat (2 ^ 32 - 10 + 20 * i)" clock0
      "\<lambda>i. word_of_nat (2 ^ 32 - 10 + 20 * i)"] alpha_wrapped
  by (simp add: clock0_def)


lemma ovhd_second:
  "fst (ovhd tsc s) = real (to_double (nat ((uint (tsc (reads s + 3)) - uint (tsc (reads s + 2))) mod 2 ^ 64)))"
  by (simp add: ovhd_def get_counter_reading reading_start numeral_2_eq_2 numeral_3_eq_3)

text \<open>Once calibrated, the compensated count is the plain one less \<open>cyc_per_tick\<close> for each tick.\<close>

lemma comp_counter_value:
  assumes "cyc_per_tick s \<noteq> 0"
  shows "\<exists>s'. start_comp_counter tsc utime s = Some s' \<and>
    fst (get_comp_counter tsc utime s') =
      real (to_double (nat ((uint (tsc (Suc (reads s))) - uint (tsc (reads s))) mod 2 ^ 64))) -
      of_int (utime (Suc (calls s)) - utime (calls s)) * cyc_per_tick s"
  using assms reading_start [of tsc "s\<lparr>calls := Suc (calls s), start_tick := utime (calls s)\<rparr>"]
  by (simp add: start_comp_counter_def get_comp_counter_def sys_times_def get_counter_reading Let_def)

section \<open>Calibration\<close>

text \<open>The ratios the loop sees in \<open>n\<close> readings from the \<open>i\<close>-th on: a gap of at least \<open>THRESHOLD\<close> cycles during which
  the user time, asked for the \<open>u\<close>-th time, has advanced. \<open>g\<close> gives the readings.\<close>

fun tick_events :: "(nat \<Rightarrow> real) \<Rightarrow> (nat \<Rightarrow> int) \<Rightarrow> nat \<Rightarrow> nat \<Rightarrow> real \<Rightarrow> int \<Rightarrow> nat \<Rightarrow> real list" where
  "tick_events g utime i u oldt oldc 0 = []"
| "tick_events g utime i u oldt oldc (Suc n) =
    (if THRESHOLD \<le> g i - oldt then
       if oldc < utime u then
         (g i - oldt) / real_of_int (utime u - oldc) # tick_events g utime (Suc i) (Suc u) (g i) (utime u) n
       else tick_events g utime (Suc i) (Suc u) (g i) oldc n
     else tick_events g utime (Suc i) u oldt oldc n)"

definition least_ratio :: "real \<Rightarrow> real \<Rightarrow> real" where
  "least_ratio cpt c = (if (c = 0 \<or> cpt < c) \<and> RECORDTHRESH < cpt then cpt else c)"

lemma note_ratio_simps [simp]:
  "cyc_per_tick (note_ratio cpt s) = least_ratio cpt (cyc_per_tick s)"
  "reads (note_ratio cpt s) = reads s" "calls (note_ratio cpt s) = calls s"
  "reading tsc (note_ratio cpt s) = reading tsc s"
  by (auto simp: note_ratio_def least_ratio_def reading_def fun_eq_iff)

lemma reading_more [simp]: "reading tsc (s\<lparr>reads := i\<rparr>) = reading tsc s" "reading tsc (s\<lparr>calls := u\<rparr>) = reading tsc s"
  by (auto simp: reading_def fun_eq_iff)

lemmas callib_step = get_counter_reading sys_times_def Let_def

lemma callib_loop_returns:
  assumes "NEVENT - e \<le> length (tick_events (reading tsc s) utime (reads s) (calls s) oldt oldc n)"
  shows "\<exists>s'. callib_loop tsc utime e oldt oldc s = Some s' \<and>
    cyc_per_tick s' =
      fold least_ratio (take (NEVENT - e) (tick_events (reading tsc s) utime (reads s) (calls s) oldt oldc n)) (cyc_per_tick s)"
  using assms
proof (induction n arbitrary: e oldt oldc s)
  case 0
  then show ?case by (simp add: callib_loop.simps)
next
  case (Suc n)
  show ?case
  proof (cases "e < NEVENT")
    case False
    then show ?thesis by (simp add: callib_loop.simps)
  next
    case True
    then have Suc_e: "NEVENT - e = Suc (NEVENT - Suc e)" by simp
    let ?t = "reading tsc s (reads s)"
    show ?thesis
    proof (cases "THRESHOLD \<le> ?t - oldt")
      case False
      then show ?thesis
        using Suc.prems True Suc.IH [of e "s\<lparr>reads := Suc (reads s)\<rparr>" oldt oldc]
        by (simp add: callib_loop.simps [of tsc utime e oldt oldc s] callib_step)
    next
      case gap: True
      define s1 where "s1 = s\<lparr>reads := Suc (reads s), calls := Suc (calls s)\<rparr>"
      have s1: "reading tsc s1 = reading tsc s" "reads s1 = Suc (reads s)" "calls s1 = Suc (calls s)" "cyc_per_tick s1 = cyc_per_tick s"
        by (auto simp: s1_def reading_def fun_eq_iff)
      have step: "callib_loop tsc utime e oldt oldc s =
        (if oldc < utime (calls s) then
           callib_loop tsc utime (Suc e) ?t (utime (calls s)) (note_ratio ((?t - oldt) / real_of_int (utime (calls s) - oldc)) s1)
         else callib_loop tsc utime e ?t oldc s1)"
        using True gap by (simp add: callib_loop.simps [of tsc utime e oldt oldc s] callib_step s1_def)
      show ?thesis
      proof (cases "oldc < utime (calls s)")
        case False
        then show ?thesis using Suc.prems gap Suc.IH [of e s1 ?t oldc] unfolding step by (simp add: s1)
      next
        case adv: True
        show ?thesis
          using Suc.prems gap adv Suc_e
            Suc.IH [of "Suc e" "note_ratio ((?t - oldt) / real_of_int (utime (calls s) - oldc)) s1" ?t "utime (calls s)"]
          unfolding step by (simp add: s1)
      qed
    qed
  qed
qed

lemma callib_loop_events:
  assumes "callib_loop tsc utime e oldt oldc s = Some s'"
  shows "\<exists>n. NEVENT - e \<le> length (tick_events (reading tsc s) utime (reads s) (calls s) oldt oldc n)"
proof (rule callib_loop.raw_induct [where P = "\<lambda>tsc utime e oldt oldc s s'.
    \<exists>n. NEVENT - e \<le> length (tick_events (reading tsc s) utime (reads s) (calls s) oldt oldc n)", OF _ assms], goal_cases)
  case (1 f tsc utime e oldt oldc s s')
  note step = 1
  show ?case
  proof (cases "e < NEVENT")
    case False
    then show ?thesis by simp
  next
    case True
    let ?t = "reading tsc s (reads s)"
    define s1 where "s1 = s\<lparr>reads := Suc (reads s), calls := Suc (calls s)\<rparr>"
    have s1: "reading tsc s1 = reading tsc s" "reads s1 = Suc (reads s)" "calls s1 = Suc (calls s)"
      by (auto simp: s1_def reading_def fun_eq_iff)
    consider (near) "\<not> THRESHOLD \<le> ?t - oldt" | (same) "THRESHOLD \<le> ?t - oldt" "\<not> oldc < utime (calls s)"
      | (event) "THRESHOLD \<le> ?t - oldt" "oldc < utime (calls s)" by blast
    then show ?thesis
    proof cases
      case near
      then have "f tsc utime e oldt oldc (s\<lparr>reads := Suc (reads s)\<rparr>) = Some s'"
        using step(2) True by (simp add: callib_step)
      then obtain n where "NEVENT - e \<le> length (tick_events (reading tsc s) utime (Suc (reads s)) (calls s) oldt oldc n)"
        using step(1) by fastforce
      then show ?thesis using near by (intro exI [of _ "Suc n"]) simp
    next
      case same
      then have "f tsc utime e ?t oldc s1 = Some s'" using step(2) True by (simp add: callib_step s1_def)
      then obtain n where "NEVENT - e \<le> length (tick_events (reading tsc s) utime (Suc (reads s)) (Suc (calls s)) ?t oldc n)"
        using step(1) s1 by metis
      then show ?thesis using same by (intro exI [of _ "Suc n"]) simp
    next
      case event
      then have "f tsc utime (Suc e) ?t (utime (calls s)) (note_ratio ((?t - oldt) / real_of_int (utime (calls s) - oldc)) s1) = Some s'"
        using step(2) True by (simp add: callib_step s1_def)
      then obtain n where "NEVENT - Suc e \<le> length (tick_events (reading tsc s) utime (Suc (reads s)) (Suc (calls s)) ?t (utime (calls s)) n)"
        using step(1) s1 note_ratio_simps by metis
      then show ?thesis using event by (intro exI [of _ "Suc n"]) auto
    qed
  qed
qed


lemma fold_least_ratio:
  assumes "c = 0 \<or> RECORDTHRESH < c"
  shows "fold least_ratio rs c =
    (let big = {r \<in> set rs. RECORDTHRESH < r} \<union> (if c = 0 then {} else {c}) in if big = {} then 0 else Min big)"
  using assms
proof (induction rs arbitrary: c)
  case (Cons r rs)
  have "RECORDTHRESH > 0" by (simp add: RECORDTHRESH_def)
  then have r: "least_ratio r c = 0 \<or> RECORDTHRESH < least_ratio r c" using Cons.prems by (auto simp: least_ratio_def)
  define b where "b = {x \<in> set rs. RECORDTHRESH < x}"
  have fin: "finite b" by (simp add: b_def)
  consider (small) "\<not> RECORDTHRESH < r" | (first) "RECORDTHRESH < r" "c = 0" | (less) "RECORDTHRESH < r" "c \<noteq> 0" "r < c"
    | (keep) "RECORDTHRESH < r" "c \<noteq> 0" "\<not> r < c" by blast
  then show ?case
  proof cases
    case small
    then have "{x \<in> set (r # rs). RECORDTHRESH < x} = {x \<in> set rs. RECORDTHRESH < x}" "least_ratio r c = c"
      by (auto simp: least_ratio_def)
    then show ?thesis using Cons.IH [OF Cons.prems] by (simp only: fold.simps comp_apply)
  next
    case first
    then have "{x \<in> set (r # rs). RECORDTHRESH < x} = insert r b" "r \<noteq> 0" using \<open>RECORDTHRESH > 0\<close> by (auto simp: b_def)
    then show ?thesis using first Cons.IH [OF r] by (simp add: least_ratio_def b_def [symmetric] Let_def)
  next
    case less
    then have s: "{x \<in> set (r # rs). RECORDTHRESH < x} = insert r b" "r \<noteq> 0" using \<open>RECORDTHRESH > 0\<close> by (auto simp: b_def)
    have "Min (insert c (insert r b)) = Min (insert r b)"
      using less(3) fin by (cases "b = {}") (auto simp: min_def)
    then show ?thesis using less s Cons.IH [OF r] by (simp add: least_ratio_def b_def [symmetric] Let_def insert_commute)
  next
    case keep
    then have s: "{x \<in> set (r # rs). RECORDTHRESH < x} = insert r b" by (auto simp: b_def)
    have "Min (insert c (insert r b)) = Min (insert c b)"
      using keep(3) fin by (cases "b = {}") (auto simp: min_def)
    then show ?thesis using keep s Cons.IH [OF r] by (simp add: least_ratio_def b_def [symmetric] Let_def insert_commute)
  qed
qed simp

definition calib_events :: "(nat \<Rightarrow> 64 word) \<Rightarrow> (nat \<Rightarrow> int) \<Rightarrow> clock \<Rightarrow> nat \<Rightarrow> real list" where
  "calib_events tsc utime s n =
    (let g = reading tsc (start_counter tsc s)
     in tick_events g utime (reads s + 2) (calls s + 1) (g (reads s + 1)) (utime (calls s)) n)"

lemma callibrate_loop:
  "\<exists>s1. callibrate tsc utime s = callib_loop tsc utime 0 (reading tsc (start_counter tsc s) (reads s + 1)) (utime (calls s)) s1 \<and>
    reading tsc s1 = reading tsc (start_counter tsc s) \<and> reads s1 = reads s + 2 \<and> calls s1 = calls s + 1 \<and>
    cyc_per_tick s1 = cyc_per_tick s"
proof -
  define s1 where "s1 = (start_counter tsc (s\<lparr>calls := Suc (calls s)\<rparr>))\<lparr>reads := reads s + 2\<rparr>"
  have "reading tsc (start_counter tsc (s\<lparr>calls := Suc (calls s)\<rparr>)) = reading tsc (start_counter tsc s)"
    by (simp add: reading_def fun_eq_iff)
  then show ?thesis
    by (intro exI [of _ s1]) (simp add: callibrate_def sys_times_def Let_def get_counter_reading s1_def)
qed

lemma tick_events_same: "(\<And>u. utime u \<le> oldc) \<Longrightarrow> tick_events g utime i u oldt oldc n = []"
proof (induction n arbitrary: i u oldt)
  case (Suc n)
  then show ?case using Suc.prems [of u] by (simp add: not_less [symmetric])
qed simp

text \<open>C38. 
  Calibration returns if and only if 100 gaps with an advance of the user time occur, and then \<open>cyc_per_tick\<close>
  is the least of their ratios above 3000, or still 0 when there is none. If the process is given no user time, it
  does not return.
\<close>
theorem callibrate_least:
  assumes "cyc_per_tick s = 0"
  shows "(callibrate tsc utime s \<noteq> None) = (\<exists>n. NEVENT \<le> length (calib_events tsc utime s n)) \<and>
    (\<forall>n. NEVENT \<le> length (calib_events tsc utime s n) \<longrightarrow>
      (let big = {r \<in> set (take NEVENT (calib_events tsc utime s n)). RECORDTHRESH < r}
       in map_option cyc_per_tick (callibrate tsc utime s) = Some (if big = {} then 0 else Min big))) \<and>
    ((\<forall>u. utime u \<le> utime (calls s)) \<longrightarrow> callibrate tsc utime s = None)"
proof -
  obtain s1 where s1: "callibrate tsc utime s = callib_loop tsc utime 0 (reading tsc (start_counter tsc s) (reads s + 1)) (utime (calls s)) s1"
    "reading tsc s1 = reading tsc (start_counter tsc s)" "reads s1 = reads s + 2" "calls s1 = calls s + 1" "cyc_per_tick s1 = cyc_per_tick s"
    using callibrate_loop by blast
  have events: "tick_events (reading tsc s1) utime (reads s1) (calls s1) (reading tsc (start_counter tsc s) (reads s + 1)) (utime (calls s)) n
    = calib_events tsc utime s n" for n
    by (simp add: s1 calib_events_def Let_def)
  have val: "\<exists>s'. callibrate tsc utime s = Some s' \<and> cyc_per_tick s' = fold least_ratio (take NEVENT (calib_events tsc utime s n)) 0"
    if "NEVENT \<le> length (calib_events tsc utime s n)" for n
    using callib_loop_returns [of 0 tsc s1 utime "reading tsc (start_counter tsc s) (reads s + 1)" "utime (calls s)" n]
      that assms unfolding events s1(1,5) by simp
  have ret: "\<exists>n. NEVENT \<le> length (calib_events tsc utime s n)" if "callibrate tsc utime s \<noteq> None"
    using that callib_loop_events [of tsc utime 0 "reading tsc (start_counter tsc s) (reads s + 1)" "utime (calls s)" s1]
    unfolding events s1(1) by auto
  have "callibrate tsc utime s = None" if "\<forall>u. utime u \<le> utime (calls s)"
    using ret that by (fastforce simp: calib_events_def tick_events_same NEVENT_def)
  then show ?thesis
    using val ret by (auto simp: fold_least_ratio Let_def)
qed

lemma tick_events_steady:
  assumes "\<And>j. j < Suc i + n \<Longrightarrow> g j = 4000 * real j"
  shows "tick_events g int (Suc i) (Suc u) (4000 * real i) (int u) n = replicate n 4000"
  using assms
proof (induction n arbitrary: i u)
  case (Suc n)
  then have "g (Suc i) = 4000 * real (Suc i)" by simp
  moreover have "tick_events g int (Suc (Suc i)) (Suc (Suc u)) (4000 * real (Suc i)) (int (Suc u)) n = replicate n 4000"
    by (rule Suc.IH) (use Suc.prems in simp)
  ultimately show ?case by (simp add: THRESHOLD_def algebra_simps)
qed simp

theorem callibrate_least_witness:
  "map_option cyc_per_tick (callibrate (\<lambda>i. word_of_nat (4000 * i)) int clock0) = Some 4000 \<and>
   callibrate (\<lambda>i. word_of_nat (4000 * i)) (\<lambda>u. 0) clock0 = None"
proof -
  have g: "reading (\<lambda>i. word_of_nat (4000 * i)) (start_counter (\<lambda>i. word_of_nat (4000 * i)) clock0) j = 4000 * real j" if "j < 200" for j
    by (subst reading_cycles [of _ _ "4000 * j" _ 0]) (use that in \<open>auto simp: clock0_def to_double_exact\<close>)
  have "calib_events (\<lambda>i. word_of_nat (4000 * i)) int clock0 100 = replicate 100 4000"
    using tick_events_steady [of 1 100 _ 0] g by (simp add: calib_events_def Let_def clock0_def numeral_2_eq_2)
  moreover have "{r \<in> set (take NEVENT (replicate 100 4000)). RECORDTHRESH < r} = {4000}"
    by (auto simp: NEVENT_def RECORDTHRESH_def)
  moreover have "cyc_per_tick clock0 = 0" by (simp add: clock0_def)
  note callibrate_least [OF this, of "\<lambda>i. word_of_nat (4000 * i)" int, THEN conjunct2, THEN conjunct1, rule_format, of 100]
  ultimately have "map_option cyc_per_tick (callibrate (\<lambda>i. word_of_nat (4000 * i)) int clock0) = Some 4000"
    by (simp add: NEVENT_def Let_def)
  moreover have "callibrate (\<lambda>i. word_of_nat (4000 * i)) (\<lambda>u. 0) clock0 = None"
    using callibrate_least [of clock0 "\<lambda>i. word_of_nat (4000 * i)" "\<lambda>u. 0"] by (simp add: clock0_def)
  ultimately show ?thesis ..
qed

end
