(* ===== verification/Timing.thy ===== *)
theory Timing
  imports Fcyc Clock
begin

text \<open>
  The K-best scheme on the cycle counter: \<open>fcyc\<close> of \<open>Malloclab/fcyc.c\<close> with the counters of \<open>clock.c\<close>, and
  the timing of \<open>fsecs.c\<close> when it is configured to use them. The sampler (\<open>init_sampler\<close>, \<open>add_sample\<close>,
  \<open>has_converged\<close>) is that of \<open>Fcyc\<close>: the malloc lab and the performance lab have the same code. The measured
  function changes the memory \<open>m\<close> and reads no counter.
\<close>

section \<open>Clearing the cache\<close>

text \<open>The elements of the buffer that are read; what they hold does not matter. The buffer of \<open>cache_bytes\<close>, which is not
  negative, can be allocated. With blocks shorter than an
  \<open>int\<close> the step is 0 and the loop does not end.\<close>

function clear_loop :: "nat \<Rightarrow> nat \<Rightarrow> nat \<Rightarrow> nat list option" where
  "clear_loop incr cptr cend =
    (if cptr < cend then
       (if incr = 0 then None else map_option ((#) cptr) (clear_loop incr (cptr + incr) cend))
     else Some [])"
  by pat_completeness auto
termination
  by (relation "measure (\<lambda>(incr, cptr, cend). cend - cptr)") auto

declare clear_loop.simps [simp del]

definition clear :: "fcyc_state \<Rightarrow> nat list option" where
  "clear s = clear_loop (nat (cache_block s) div 4) 0 (nat (cache_bytes s) div 4)"

section \<open>Sampling\<close>

definition sample ::
  "(nat \<Rightarrow> 64 word) \<Rightarrow> (nat \<Rightarrow> int) \<Rightarrow> ('m \<Rightarrow> 'm) \<Rightarrow> fcyc_state \<Rightarrow> clock \<Rightarrow> 'm \<Rightarrow> (real \<times> clock \<times> 'm) option" where
  "sample tsc utime f s clk m =
    do { _ \<leftarrow> if clear_cache s then clear s else Some [];
         if compensate s then
           do { clk \<leftarrow> start_comp_counter tsc utime clk;
                let m = f m;
                let (cyc, clk) = get_comp_counter tsc utime clk;
                Some (cyc, clk, m) }
         else
           let clk = start_counter tsc clk;
               m = f m;
               (cyc, clk) = get_counter tsc clk
           in Some (cyc, clk, m) }"

function fcyc_run ::
  "(nat \<Rightarrow> 64 word) \<Rightarrow> (nat \<Rightarrow> int) \<Rightarrow> ('m \<Rightarrow> 'm) \<Rightarrow> fcyc_state \<Rightarrow> clock \<Rightarrow> 'm \<Rightarrow> (fcyc_state \<times> clock \<times> 'm) option" where
  "fcyc_run tsc utime f s clk m =
    (case sample tsc utime f s clk m of
       None \<Rightarrow> None
     | Some (cyc, clk, m) \<Rightarrow>
         (case add_sample cyc s of
            None \<Rightarrow> None
          | Some s' \<Rightarrow>
              if \<not> has_converged s' \<and> samplecount s' < maxsamples s' then fcyc_run tsc utime f s' clk m
              else Some (s', clk, m)))"
  by pat_completeness auto
termination
  by (relation "measure (\<lambda>(tsc, utime, f, s, clk, m). maxsamples s - samplecount s)")
    (auto simp: add_sample_def Let_def split: if_splits)

declare fcyc_run.simps [simp del]

definition fcyc ::
  "(nat \<Rightarrow> 64 word) \<Rightarrow> (nat \<Rightarrow> int) \<Rightarrow> ('m \<Rightarrow> 'm) \<Rightarrow> fcyc_state \<Rightarrow> clock \<Rightarrow> 'm \<Rightarrow> (real \<times> fcyc_state \<times> clock \<times> 'm) option" where
  "fcyc tsc utime f s clk m =
    (case fcyc_run tsc utime f (init_sampler s) clk m of
       None \<Rightarrow> None
     | Some (s, clk, m) \<Rightarrow> Some (vals s ! 0, s\<lparr>vals := []\<rparr>, clk, m))"

section \<open>Seconds\<close>

text \<open>\<open>USE_FCYC\<close>: the parameters and the clock rate, in MHz.\<close>

definition init_fsecs_fcyc :: "(nat \<Rightarrow> 64 word) \<Rightarrow> fcyc_state \<Rightarrow> clock \<Rightarrow> (real \<times> fcyc_state \<times> clock) option" where
  "init_fsecs_fcyc tsc s clk =
    (let s = set_fcyc_k 3 (set_fcyc_epsilon (1 / 100) (set_fcyc_compensate True (set_fcyc_clear_cache True (set_fcyc_maxsamples 20 s))))
     in map_option (\<lambda>(Mhz, clk). (Mhz, s, clk)) (mhz tsc clk))"

text \<open>A clock rate of 0 gives no number.\<close>

definition fsecs_fcyc ::
  "(nat \<Rightarrow> 64 word) \<Rightarrow> (nat \<Rightarrow> int) \<Rightarrow> ('m \<Rightarrow> 'm) \<Rightarrow> real \<Rightarrow> fcyc_state \<Rightarrow> clock \<Rightarrow> 'm \<Rightarrow> (real \<times> fcyc_state \<times> clock \<times> 'm) option" where
  "fsecs_fcyc tsc utime f Mhz s clk m =
    (case fcyc tsc utime f s clk m of
       None \<Rightarrow> None
     | Some (cycles, r) \<Rightarrow> if Mhz = 0 then None else Some (cycles / (Mhz * 10 ^ 6), r))"

section \<open>Facts\<close>

text \<open>Every block of the buffer is touched.\<close>

lemma clear_loop_covers:
  "0 < incr \<Longrightarrow> \<exists>ps. clear_loop incr p n = Some ps \<and> (\<forall>q. p \<le> q \<and> q < n \<longrightarrow> (\<exists>p'\<in>set ps. p' \<le> q \<and> q < p' + incr)) \<and> (\<forall>p'\<in>set ps. p' < n)"
proof (induction incr p n rule: clear_loop.induct)
  case (1 incr p n)
  show ?case
  proof (cases "p < n")
    case True
    moreover have "incr \<noteq> 0" using 1(2) by simp
    ultimately obtain ps where ps: "clear_loop incr (p + incr) n = Some ps"
      "\<forall>q. p + incr \<le> q \<and> q < n \<longrightarrow> (\<exists>p'\<in>set ps. p' \<le> q \<and> q < p' + incr)" "\<forall>p'\<in>set ps. p' < n"
      using 1(1) 1(2) by blast
    have "clear_loop incr p n = Some (p # ps)"
      using ps(1) True 1(2) by (subst clear_loop.simps) simp
    moreover have "\<exists>p'\<in>set (p # ps). p' \<le> q \<and> q < p' + incr" if "p \<le> q" "q < n" for q
      using ps(2) that by (cases "q < p + incr") auto
    ultimately show ?thesis using ps(3) True by (intro exI [of _ "p # ps"]) auto
  next
    case False
    then show ?thesis by (simp add: clear_loop.simps)
  qed
qed

lemma clear_ends: "4 \<le> cache_block s \<Longrightarrow> \<exists>ps. clear s = Some ps"
  using clear_loop_covers [of "nat (cache_block s) div 4" 0 "nat (cache_bytes s) div 4"]
  by (auto simp: clear_def div_greater_zero_iff le_nat_iff)

lemma clear_init [simp]: "clear (init_sampler s) = clear s"
  by (simp add: clear_def init_sampler_def)

text \<open>What the \<open>t\<close>-th run is measured at, from the clock \<open>clk\<close> on.\<close>

definition measured :: "(nat \<Rightarrow> 64 word) \<Rightarrow> (nat \<Rightarrow> int) \<Rightarrow> clock \<Rightarrow> bool \<Rightarrow> nat \<Rightarrow> real" where
  "measured tsc utime clk cps t =
    real (to_double (nat ((uint (tsc (reads clk + 2 * t + 1)) - uint (tsc (reads clk + 2 * t))) mod 2 ^ 64))) -
    (if cps then of_int (utime (calls clk + 2 * t + 1) - utime (calls clk + 2 * t)) * cyc_per_tick clk else 0)"

definition clock_at :: "clock \<Rightarrow> bool \<Rightarrow> nat \<Rightarrow> clock \<Rightarrow> bool" where
  "clock_at clk cps t clk' \<longleftrightarrow>
    reads clk' = reads clk + 2 * t \<and> cyc_per_tick clk' = cyc_per_tick clk \<and> (cps \<longrightarrow> calls clk' = calls clk + 2 * t)"

lemma comp_counter_step:
  assumes "cyc_per_tick clk \<noteq> 0"
  shows "\<exists>clk'. start_comp_counter tsc utime clk = Some clk' \<and>
    fst (get_comp_counter tsc utime clk') = measured tsc utime clk True 0 \<and> clock_at clk True 1 (snd (get_comp_counter tsc utime clk'))"
  using assms reading_start [of tsc "clk\<lparr>calls := Suc (calls clk), start_tick := utime (calls clk)\<rparr>"]
  by (simp add: start_comp_counter_def get_comp_counter_def sys_times_def get_counter_reading Let_def measured_def clock_at_def)

lemma counter_step:
  "get_counter tsc (start_counter tsc clk) = (measured tsc utime clk False 0, (start_counter tsc clk)\<lparr>reads := reads clk + 2\<rparr>)"
  by (simp add: get_counter_reading reading_start measured_def)

lemma measured_shift: "clock_at clk cps t clk' \<Longrightarrow> measured tsc utime clk' cps j = measured tsc utime clk cps (t + j)"
  by (auto simp: measured_def clock_at_def algebra_simps)

lemma sample_measured:
  assumes "clear_cache s \<longrightarrow> 4 \<le> cache_block s" "compensate s \<longrightarrow> cyc_per_tick clk \<noteq> 0" "clock_at clk (compensate s) t clk'"
  shows "\<exists>clk''. sample tsc utime f s clk' m = Some (measured tsc utime clk (compensate s) t, clk'', f m) \<and>
    clock_at clk (compensate s) (Suc t) clk''"
proof -
  obtain ps where ps: "(if clear_cache s then clear s else Some []) = Some ps" using assms(1) clear_ends by fastforce
  note shift = measured_shift [OF assms(3), of tsc utime 0, simplified]
  show ?thesis
  proof (cases "compensate s")
    case True
    then have "cyc_per_tick clk' \<noteq> 0" using assms(2,3) by (simp add: clock_at_def)
    from comp_counter_step [OF this, of tsc utime] True shift show ?thesis
      using assms(3) ps by (auto simp: sample_def clock_at_def Let_def split: prod.splits)
  next
    case False
    then show ?thesis
      using counter_step [of tsc clk' utime] shift assms(3) ps by (auto simp: sample_def clock_at_def Let_def)
  qed
qed


text \<open>The loop on the clock is the loop over the sequence of measurements.\<close>

lemma fcyc_run_loop:
  assumes "fcyc_loop counter f s t m = Some (s', t', m')" "counter = measured tsc utime clk (compensate s)"
    "clear_cache s \<longrightarrow> 4 \<le> cache_block s" "compensate s \<longrightarrow> cyc_per_tick clk \<noteq> 0" "clock_at clk (compensate s) t clk1"
  shows "\<exists>clk'. fcyc_run tsc utime f s clk1 m = Some (s', clk', m') \<and> clock_at clk (compensate s) t' clk'"
  using assms
proof (induction counter f s t m arbitrary: clk1 rule: fcyc_loop.induct)
  case (1 counter f s t m)
  obtain clk2 where clk2: "sample tsc utime f s clk1 m = Some (counter t, clk2, f m)" "clock_at clk (compensate s) (Suc t) clk2"
    using sample_measured [OF 1(4-6), of tsc utime f m] unfolding 1(3) by blast
  have loop: "fcyc_loop counter f s t m = Some (s', t', m')" by (rule 1(2))
  then obtain s1 where s1: "add_sample (counter t) s = Some s1" by (subst (asm) fcyc_loop.simps) (auto simp: Let_def split: option.splits)
  have same: "clear_cache s1 = clear_cache s" "cache_block s1 = cache_block s" "compensate s1 = compensate s"
    using s1 by (auto simp: add_sample_def Let_def split: if_splits)
  show ?case
  proof (cases "\<not> has_converged s1 \<and> samplecount s1 < maxsamples s1")
    case True
    then have "fcyc_loop counter f s1 (Suc t) (f m) = Some (s', t', m')"
      using loop s1 by (subst (asm) fcyc_loop.simps) (simp add: Let_def)
    from 1(1) [OF refl s1 True this] 1(3,4,5) clk2(2) same
    obtain clk' where "fcyc_run tsc utime f s1 clk2 (f m) = Some (s', clk', m')" "clock_at clk (compensate s) t' clk'" by auto
    then show ?thesis using True clk2(1) s1 by (subst fcyc_run.simps) simp
  next
    case False
    then have "s' = s1 \<and> t' = Suc t \<and> m' = f m"
      using loop s1 by (subst (asm) fcyc_loop.simps) (simp add: Let_def split: if_splits)
    then show ?thesis using False clk2 s1 by (subst fcyc_run.simps) auto
  qed
qed

text \<open>C14. 
  The whole measurement on a counter that does not run backwards. Every run is measured at the cycles it took, as a
  \<open>double\<close> (up to \<open>2 ^ 53\<close> these are the cycles exactly), less \<open>cyc_per_tick\<close> for each clock tick when the overhead is compensated and the clock is calibrated; \<open>fcyc\<close> returns the
  least over the \<open>n\<close> runs it makes, where \<open>n\<close> is the first number for which the best measurements agree, or the limit.
\<close>
theorem fcyc_cycles:
  assumes "0 < kbest s" "clear_cache s \<longrightarrow> 4 \<le> cache_block s" "compensate s \<longrightarrow> cyc_per_tick clk \<noteq> 0"
    and "mono T" "\<And>i. T (Suc i) - T i < 2 ^ 64" "tsc = (\<lambda>i. word_of_nat (T i))"
    and "cycles = (\<lambda>t. real (to_double (T (reads clk + 2 * t + 1) - T (reads clk + 2 * t))) -
      (if compensate s then of_int (utime (calls clk + 2 * t + 1) - utime (calls clk + 2 * t)) * cyc_per_tick clk else 0))"
  shows "\<exists>n s' clk'. fcyc tsc utime f s clk m = Some (Min (cycles ` {0..<n}), s', clk', (f ^^ n) m) \<and>
    same_setup s s' \<and> runs s cycles 0 n \<and> reads clk' = reads clk + 2 * n"
proof -
  have "measured tsc utime clk (compensate s) t = cycles t" for t
  proof -
    have "T (reads clk + 2 * t) \<le> T (reads clk + 2 * t + 1)" using assms(4) by (simp add: monoD)
    then have "reading tsc (start_counter tsc (clk\<lparr>reads := reads clk + 2 * t\<rparr>)) (reads clk + 2 * t + 1) =
        real (to_double (T (reads clk + 2 * t + 1) - T (reads clk + 2 * t)))"
      using assms(5) [of "reads clk + 2 * t"] by (intro reading_cycles) (simp_all add: assms(6))
    then show ?thesis by (simp add: assms(7) measured_def reading_start)
  qed
  then have c: "measured tsc utime clk (compensate s) = cycles" by blast
  obtain n s' where n: "fcyc_v (\<lambda>_. cycles) f s 0 m = Some (Min (cycles ` {0..<0 + n}), s', 0 + n, (f ^^ n) m)"
    "same_setup s s'" "runs s cycles 0 n"
    using fcyc_best_lemma [OF assms(1), of "\<lambda>_. cycles" f 0 m] by blast
  then obtain s1 where s1: "fcyc_loop cycles f (init_sampler s) 0 m = Some (s1, n, (f ^^ n) m)"
    "vals s1 ! 0 = Min (cycles ` {0..<n})" "s' = s1\<lparr>vals := []\<rparr>"
    by (auto simp: fcyc_v_def split: option.splits)
  have same: "compensate (init_sampler s) = compensate s" "clear_cache (init_sampler s) = clear_cache s"
    "cache_block (init_sampler s) = cache_block s"
    by (simp_all add: init_sampler_def)
  obtain clk' where "fcyc_run tsc utime f (init_sampler s) clk m = Some (s1, clk', (f ^^ n) m)" "clock_at clk (compensate s) n clk'"
    using fcyc_run_loop [OF s1(1), of tsc utime clk clk] assms(2,3) c unfolding same by (auto simp: clock_at_def)
  then show ?thesis
    using n(2,3) s1(2,3) by (intro exI [of _ n] exI [of _ s'] exI [of _ clk']) (simp add: fcyc_def clock_at_def)
qed


theorem fcyc_cycles_witness:
  "\<exists>n s' clk'. fcyc (\<lambda>i. word_of_nat (5 * i)) int Suc fcyc0 clock0 (0 :: nat) = Some (5, s', clk', n) \<and> 0 < n"
proof -
  have "mono (\<lambda>i. 5 * i :: nat)" by (simp add: mono_def)
  moreover have "5 * Suc i - 5 * i < (2 :: nat) ^ 64" for i by simp
  ultimately obtain n s' clk' where n: "fcyc (\<lambda>i. word_of_nat (5 * i)) int Suc fcyc0 clock0 0 =
      Some (Min ((\<lambda>_. 5) ` {0..<n}), s', clk', (Suc ^^ n) 0)" "runs fcyc0 (\<lambda>_. 5) 0 n"
    using fcyc_cycles [of fcyc0 clock0 "\<lambda>i. 5 * i" "\<lambda>i. word_of_nat (5 * i)" "\<lambda>_. 5" int Suc "0 :: nat"]
    by (auto simp: fcyc0_def clock0_def to_double_exact)
  then have "0 < n" by (simp add: runs_def)
  then have "Min ((\<lambda>_. 5 :: real) ` {0..<n}) = 5" by (simp add: image_constant_conv)
  moreover have "(Suc ^^ n) 0 = n" by (induction n) simp_all
  ultimately show ?thesis using n(1) \<open>0 < n\<close> by auto
qed

end
