(* ===== verification/Wrappers.thy ===== *)
theory Wrappers
  imports Csapp
begin

text \<open>
  The wrappers of \<open>Serverlab/csapp.c\<close> around one function of the system each. That function is the
  argument \<open>sys\<close>, applied to what the wrapper passes on; the wrapper returns \<open>Inr\<close> its result, or ends the process with \<open>Inl\<close> a status. Pointers
  are options, \<open>NULL\<close> is \<open>None\<close>. \<open>ex\<close> is the flag that \<open>exit_on_error\<close> sets. The wrappers without a test
  (\<open>Pause\<close>, \<open>Sleep\<close>, \<open>Alarm\<close>, \<open>Getpgrp\<close>, \<open>Free\<close>, \<open>Freeaddrinfo\<close>, \<open>Pthread_exit\<close>, \<open>Pthread_self\<close>,
  \<open>Pthread_once\<close>) return what the function returns; \<open>Wait\<close>, \<open>Waitpid\<close> and \<open>Kill\<close> are in \<open>Whoosh\<close>, the semaphores without
  \<open>sem_t\<close> in \<open>Semaphore\<close>.
\<close>

section \<open>Errors\<close>

definition posix_error :: "bool \<Rightarrow> int option" where
  "posix_error ex = error_exit ex 0"

definition dns_error :: "bool \<Rightarrow> int option" where
  "dns_error ex = error_exit ex 0"

definition gai_error :: "bool \<Rightarrow> int option" where
  "gai_error ex = error_exit ex 0"

text \<open>This one does not look at the flag.\<close>

definition app_error :: int where
  "app_error = 0"

definition with_error :: "int option \<Rightarrow> bool \<Rightarrow> 'a \<Rightarrow> int + 'a" where
  "with_error e failed r = (if failed then (case e of Some code \<Rightarrow> Inl code | None \<Rightarrow> Inr r) else Inr r)"

definition EOF :: int where
  "EOF = -1"

section \<open>Processes\<close>

definition Fork where
  "Fork ex sys = (let rc = sys () in wrapped ex (rc < (0 :: int)) rc)"

definition Execve where
  "Execve ex sys filename argv envp = (let rc = sys filename argv envp in wrapped ex (rc < (0 :: int)) ())"

definition Setpgid where
  "Setpgid ex sys pid pgid = (let rc = sys pid pgid in wrapped ex (rc < (0 :: int)) ())"

section \<open>Signals\<close>

text \<open>The action blocks no other signals and restarts system calls; \<open>sys\<close> also returns the old action's handler.\<close>

record 'h sigaction =
  sa_handler :: 'h
  sa_mask :: "int set"
  sa_restart :: bool

definition Signal where
  "Signal ex sys signum handler =
    (case sys signum \<lparr>sa_handler = handler, sa_mask = {}, sa_restart = True\<rparr> of (rc :: int, old_action) \<Rightarrow> wrapped ex (rc < 0) (sa_handler old_action))"

definition Sigprocmask where
  "Sigprocmask ex sys how sigs oldset = (let rc = sys how sigs oldset in wrapped ex (rc < (0 :: int)) ())"

definition Sigemptyset where
  "Sigemptyset ex sys sigs = (let rc = sys sigs in wrapped ex (rc < (0 :: int)) ())"

definition Sigfillset where
  "Sigfillset ex sys sigs = (let rc = sys sigs in wrapped ex (rc < (0 :: int)) ())"

definition Sigaddset where
  "Sigaddset ex sys sigs signum = (let rc = sys sigs signum in wrapped ex (rc < (0 :: int)) ())"

definition Sigdelset where
  "Sigdelset ex sys sigs signum = (let rc = sys sigs signum in wrapped ex (rc < (0 :: int)) ())"

definition Sigismember where
  "Sigismember ex sys sigs signum = (let rc = sys sigs signum in wrapped ex (rc < (0 :: int)) rc)"

text \<open>\<open>sys\<close> also returns \<open>errno\<close>, which should be \<open>EINTR\<close>.\<close>

definition Sigsuspend where
  "Sigsuspend ex sys EINTR sigs =
    (case sys sigs of (rc :: int, errno :: int) \<Rightarrow> wrapped ex (errno \<noteq> EINTR) rc)"

section \<open>Output from signal handlers\<close>

text \<open>These end the process whatever \<open>exit_on_error\<close> says.\<close>

definition sio_error :: "conn \<Rightarrow> string \<Rightarrow> int \<times> conn" where
  "sio_error out s = (1, snd (sio_puts out s))"

definition Sio_putl :: "conn \<Rightarrow> int \<Rightarrow> ((int \<times> conn) + (nat \<times> conn)) option" where
  "Sio_putl out v =
    map_option (\<lambda>(r, out).
      case r of Got t \<Rightarrow> Inr (length t, out) | _ \<Rightarrow> Inl (sio_error out ''Sio_putl error'')) (sio_putl out v)"

definition Sio_puts :: "conn \<Rightarrow> string \<Rightarrow> (int \<times> conn) + (nat \<times> conn)" where
  "Sio_puts out s =
    (case sio_puts out s of
       (Got t, out) \<Rightarrow> Inr (length t, out)
     | (_, out) \<Rightarrow> Inl (sio_error out ''Sio_puts error''))"

section \<open>Files and directories\<close>

definition Open where
  "Open ex sys pathname flags mode = (let rc = sys pathname flags mode in wrapped ex (rc < (0 :: int)) rc)"

definition Read where
  "Read ex sys fd buf count = (let rc = sys fd buf count in wrapped ex (rc < (0 :: int)) rc)"

definition Write where
  "Write ex sys fd buf count = (let rc = sys fd buf count in wrapped ex (rc < (0 :: int)) rc)"

definition Lseek where
  "Lseek ex sys fildes offset whence = (let rc = sys fildes offset whence in wrapped ex (rc < (0 :: int)) rc)"

definition Close where
  "Close ex sys fd = (let rc = sys fd in wrapped ex (rc < (0 :: int)) ())"

definition Select where
  "Select ex sys n readfds writefds exceptfds timeout =
    (let rc = sys n readfds writefds exceptfds timeout in wrapped ex (rc < (0 :: int)) rc)"

definition Dup2 where
  "Dup2 ex sys fd1 fd2 = (let rc = sys fd1 fd2 in wrapped ex (rc < (0 :: int)) rc)"

definition Stat where
  "Stat ex sys filename buf = (let rc = sys filename buf in wrapped ex (rc < (0 :: int)) ())"

definition Fstat where
  "Fstat ex sys fd buf = (let rc = sys fd buf in wrapped ex (rc < (0 :: int)) ())"

definition Pipe where
  "Pipe ex sys fds = (let rc = sys fds in wrapped ex (rc < (0 :: int)) ())"

definition Opendir where
  "Opendir ex sys name = (let p = sys name in wrapped ex (p = None) p)"

text \<open>\<open>NULL\<close> is also the end of the directory; \<open>errno\<close>, set to 0 before the call, tells.\<close>

definition Readdir where
  "Readdir ex sys dirp =
    (case sys dirp of (dep, errno :: int) \<Rightarrow> wrapped ex (dep = None \<and> errno \<noteq> 0) dep)"

definition Closedir where
  "Closedir ex sys dirp = (let rc = sys dirp in wrapped ex (rc < (0 :: int)) rc)"

section \<open>Memory\<close>

definition Mmap where
  "Mmap ex sys addr len prot flags fd offset =
    (let ptr = sys addr len prot flags fd offset in wrapped ex (ptr = (-1 :: int)) ptr)"

definition Munmap where
  "Munmap ex sys start len = (let rc = sys start len in wrapped ex (rc < (0 :: int)) ())"

definition Mprotect where
  "Mprotect ex sys start len prot = (let rc = sys start len prot in wrapped ex (rc < (0 :: int)) ())"

definition Malloc where
  "Malloc ex sys sz = (let p = sys sz in wrapped ex (p = None) p)"

definition Realloc where
  "Realloc ex sys ptr sz = (let p = sys ptr sz in wrapped ex (p = None) p)"

definition Calloc where
  "Calloc ex sys nmemb sz = (let p = sys nmemb sz in wrapped ex (p = None) p)"

section \<open>Standard I/O\<close>

definition Fclose where
  "Fclose ex sys fp = (let rc = sys fp in wrapped ex (rc \<noteq> (0 :: int)) ())"

definition Fdopen where
  "Fdopen ex sys fd type = (let p = sys fd type in wrapped ex (p = None) p)"

definition Fgets where
  "Fgets sys ferror ptr n fp =
    (let rptr = sys ptr n fp in if rptr = None \<and> ferror fp then Inl app_error else Inr rptr)"

definition Fopen where
  "Fopen ex sys filename mode = (let p = sys filename mode in wrapped ex (p = None) p)"

definition Fputs where
  "Fputs ex sys ptr fp = (let rc = sys ptr fp in wrapped ex (rc = EOF) ())"

definition Fread where
  "Fread ex sys ferror ptr sz nmemb fp =
    (let n = sys ptr sz nmemb fp in wrapped ex (n < (nmemb :: nat) \<and> ferror fp) n)"

definition Fwrite where
  "Fwrite ex sys ptr sz nmemb fp = (let n = sys ptr sz nmemb fp in wrapped ex (n < (nmemb :: nat)) ())"

section \<open>Sockets\<close>

definition Socket where
  "Socket ex sys domain type protocol = (let rc = sys domain type protocol in wrapped ex (rc < (0 :: int)) rc)"

definition Setsockopt where
  "Setsockopt ex sys s level optname optval optlen =
    (let rc = sys s level optname optval optlen in wrapped ex (rc < (0 :: int)) ())"

definition Bind where
  "Bind ex sys sockfd my_addr addrlen = (let rc = sys sockfd my_addr addrlen in wrapped ex (rc < (0 :: int)) ())"

definition Listen where
  "Listen ex sys s backlog = (let rc = sys s backlog in wrapped ex (rc < (0 :: int)) ())"

definition Accept where
  "Accept ex sys s addr addrlen = (let rc = sys s addr addrlen in wrapped ex (rc < (0 :: int)) rc)"

definition Connect where
  "Connect ex sys sockfd serv_addr addrlen =
    (let rc = sys sockfd serv_addr addrlen in wrapped ex (rc < (0 :: int)) ())"

definition Send where
  "Send ex sys socket buffer len flags = (let rc = sys socket buffer len flags in wrapped ex (rc < (0 :: int)) rc)"

definition Sendto where
  "Sendto ex sys socket buffer len flags dest_addr dest_len =
    (let rc = sys socket buffer len flags dest_addr dest_len in wrapped ex (rc < (0 :: int)) rc)"

definition Recv where
  "Recv ex sys socket buffer len flags = (let rc = sys socket buffer len flags in wrapped ex (rc < (0 :: int)) rc)"

definition Recvfrom where
  "Recvfrom ex sys socket buffer len flags address address_len =
    (let rc = sys socket buffer len flags address address_len in wrapped ex (rc < (0 :: int)) rc)"

definition Shutdown where
  "Shutdown ex sys s how = (let rc = sys s how in wrapped ex (rc < (0 :: int)) ())"

text \<open>The list of addresses is a second result of \<open>sys\<close>; after an error it means nothing.\<close>

definition Getaddrinfo where
  "Getaddrinfo ex sys node service hints =
    (case sys node service hints of (rc, res) \<Rightarrow> with_error (gai_error ex) (rc \<noteq> (0 :: int)) res)"

definition Getnameinfo where
  "Getnameinfo ex sys sa salen host hostlen serv servlen flags =
    (let rc = sys sa salen host hostlen serv servlen flags in with_error (gai_error ex) (rc \<noteq> (0 :: int)) ())"

definition Inet_ntop where
  "Inet_ntop ex sys af src dst sz = (let p = sys af src dst sz in wrapped ex (p = None) ())"

definition Inet_pton where
  "Inet_pton ex sys af src dst =
    (let rc = sys af src dst in if rc = 0 then Inl app_error else wrapped ex (rc < (0 :: int)) ())"

definition Gethostbyname where
  "Gethostbyname ex sys name = (let p = sys name in with_error (dns_error ex) (p = None) p)"

definition Gethostbyaddr where
  "Gethostbyaddr ex sys addr len type = (let p = sys addr len type in with_error (dns_error ex) (p = None) p)"

section \<open>Threads\<close>

definition Pthread_create where
  "Pthread_create ex sys tidp attrp routine argp =
    (let rc = sys tidp attrp routine argp in with_error (posix_error ex) (rc \<noteq> (0 :: int)) ())"

definition Pthread_cancel where
  "Pthread_cancel ex sys tid = (let rc = sys tid in with_error (posix_error ex) (rc \<noteq> (0 :: int)) ())"

definition Pthread_join where
  "Pthread_join ex sys tid thread_return =
    (let rc = sys tid thread_return in with_error (posix_error ex) (rc \<noteq> (0 :: int)) ())"

definition Pthread_detach where
  "Pthread_detach ex sys tid = (let rc = sys tid in with_error (posix_error ex) (rc \<noteq> (0 :: int)) ())"

section \<open>Semaphores of the system\<close>

text \<open>Where there is \<open>sem_t\<close>; \<open>P\<close> and \<open>V\<close> wrap \<open>sem_wait\<close> and \<open>sem_post\<close>.\<close>

definition Sem_init where
  "Sem_init ex sys sem pshared v = (let rc = sys sem pshared v in wrapped ex (rc < (0 :: int)) ())"

definition Sem_destroy where
  "Sem_destroy ex sys sem = (let rc = sys sem in wrapped ex (rc < (0 :: int)) ())"

definition P_sem where
  "P_sem ex sys sem = (let rc = sys sem in wrapped ex (rc < (0 :: int)) ())"

definition V_sem where
  "V_sem ex sys sem = (let rc = sys sem in wrapped ex (rc < (0 :: int)) ())"

end
