(* ===== verification/Shell_Csapp.thy ===== *)
theory Shell_Csapp
  imports Wrappers
begin

text \<open>
  The wrappers of \<open>Shelllab/csapp.c\<close>, an older copy of the file in the server lab: there is no
  \<open>exit_on_error\<close>, every error ends the process. As in \<open>Wrappers\<close> the wrapped function is the argument
  \<open>sys\<close>. Those that the shell calls (\<open>Execve\<close>, \<open>Wait\<close>, \<open>Waitpid\<close>, \<open>Kill\<close>, \<open>Close\<close>) are in \<open>Whoosh\<close>, with what
  they do to a process; the rio and sio packages are those of \<open>Csapp\<close>.
\<close>

text \<open>\<open>unix_error\<close>, \<open>posix_error\<close>, \<open>dns_error\<close>, \<open>gai_error\<close> and \<open>app_error\<close> print a message and exit with status 0.\<close>

definition exits :: "bool \<Rightarrow> 'a \<Rightarrow> int + 'a" where
  "exits failed r = (if failed then Inl 0 else Inr r)"

definition Fork where
  "Fork sys = (let rc = sys () in exits (rc < (0 :: int)) rc)"

definition Sleep where
  "Sleep sys secs = (let rc = sys secs in exits (rc < (0 :: nat)) rc)"

definition Setpgid where
  "Setpgid sys pid pgid = (let rc = sys pid pgid in exits (rc < (0 :: int)) ())"

definition Signal where
  "Signal sys signum handler =
    (case sys signum \<lparr>sa_handler = handler, sa_mask = {}, sa_restart = True\<rparr> of (rc :: int, old_action) \<Rightarrow> exits (rc < 0) (sa_handler old_action))"

definition Sigprocmask where
  "Sigprocmask sys how sigs oldset = (let rc = sys how sigs oldset in exits (rc < (0 :: int)) ())"

definition Sigemptyset where
  "Sigemptyset sys sigs = (let rc = sys sigs in exits (rc < (0 :: int)) ())"

definition Sigfillset where
  "Sigfillset sys sigs = (let rc = sys sigs in exits (rc < (0 :: int)) ())"

definition Sigaddset where
  "Sigaddset sys sigs signum = (let rc = sys sigs signum in exits (rc < (0 :: int)) ())"

definition Sigdelset where
  "Sigdelset sys sigs signum = (let rc = sys sigs signum in exits (rc < (0 :: int)) ())"

definition Sigismember where
  "Sigismember sys sigs signum = (let rc = sys sigs signum in exits (rc < (0 :: int)) rc)"

definition Sigsuspend where
  "Sigsuspend sys EINTR sigs =
    (case sys sigs of (rc :: int, errno :: int) \<Rightarrow> exits (errno \<noteq> EINTR) rc)"

definition Open where
  "Open sys pathname flags mode = (let rc = sys pathname flags mode in exits (rc < (0 :: int)) rc)"

definition Read where
  "Read sys fd buf count = (let rc = sys fd buf count in exits (rc < (0 :: int)) rc)"

definition Write where
  "Write sys fd buf count = (let rc = sys fd buf count in exits (rc < (0 :: int)) rc)"

definition Lseek where
  "Lseek sys fildes offset whence = (let rc = sys fildes offset whence in exits (rc < (0 :: int)) rc)"

definition Select where
  "Select sys n readfds writefds exceptfds timeout =
    (let rc = sys n readfds writefds exceptfds timeout in exits (rc < (0 :: int)) rc)"

definition Dup2 where
  "Dup2 sys fd1 fd2 = (let rc = sys fd1 fd2 in exits (rc < (0 :: int)) rc)"

definition Stat where
  "Stat sys filename buf = (let rc = sys filename buf in exits (rc < (0 :: int)) ())"

definition Fstat where
  "Fstat sys fd buf = (let rc = sys fd buf in exits (rc < (0 :: int)) ())"

definition Opendir where
  "Opendir sys name = (let p = sys name in exits (p = None) p)"

definition Readdir where
  "Readdir sys dirp =
    (case sys dirp of (dep, errno :: int) \<Rightarrow> exits (dep = None \<and> errno \<noteq> 0) dep)"

definition Closedir where
  "Closedir sys dirp = (let rc = sys dirp in exits (rc < (0 :: int)) rc)"

definition Mmap where
  "Mmap sys addr len prot flags fd offset =
    (let ptr = sys addr len prot flags fd offset in exits (ptr = (-1 :: int)) ptr)"

definition Munmap where
  "Munmap sys start len = (let rc = sys start len in exits (rc < (0 :: int)) ())"

definition Malloc where
  "Malloc sys sz = (let p = sys sz in exits (p = None) p)"

definition Realloc where
  "Realloc sys ptr sz = (let p = sys ptr sz in exits (p = None) p)"

definition Calloc where
  "Calloc sys nmemb sz = (let p = sys nmemb sz in exits (p = None) p)"

definition Fclose where
  "Fclose sys fp = (let rc = sys fp in exits (rc \<noteq> (0 :: int)) ())"

definition Fdopen where
  "Fdopen sys fd type = (let p = sys fd type in exits (p = None) p)"

definition Fgets where
  "Fgets sys ferror ptr n fp =
    (let rptr = sys ptr n fp in if rptr = None \<and> ferror fp then Inl 0 else Inr rptr)"

definition Fopen where
  "Fopen sys filename mode = (let p = sys filename mode in exits (p = None) p)"

definition Fputs where
  "Fputs sys ptr fp = (let rc = sys ptr fp in exits (rc = EOF) ())"

definition Fread where
  "Fread sys ferror ptr sz nmemb fp =
    (let n = sys ptr sz nmemb fp in exits (n < (nmemb :: nat) \<and> ferror fp) n)"

definition Fwrite where
  "Fwrite sys ptr sz nmemb fp = (let n = sys ptr sz nmemb fp in exits (n < (nmemb :: nat)) ())"

definition Socket where
  "Socket sys domain type protocol = (let rc = sys domain type protocol in exits (rc < (0 :: int)) rc)"

definition Setsockopt where
  "Setsockopt sys s level optname optval optlen =
    (let rc = sys s level optname optval optlen in exits (rc < (0 :: int)) ())"

definition Bind where
  "Bind sys sockfd my_addr addrlen = (let rc = sys sockfd my_addr addrlen in exits (rc < (0 :: int)) ())"

definition Listen where
  "Listen sys s backlog = (let rc = sys s backlog in exits (rc < (0 :: int)) ())"

definition Accept where
  "Accept sys s addr addrlen = (let rc = sys s addr addrlen in exits (rc < (0 :: int)) rc)"

definition Connect where
  "Connect sys sockfd serv_addr addrlen =
    (let rc = sys sockfd serv_addr addrlen in exits (rc < (0 :: int)) ())"

definition Getaddrinfo where
  "Getaddrinfo sys node service hints =
    (case sys node service hints of (rc, res) \<Rightarrow> exits (rc \<noteq> (0 :: int)) res)"

definition Getnameinfo where
  "Getnameinfo sys sa salen host hostlen serv servlen flags =
    (let rc = sys sa salen host hostlen serv servlen flags in exits (rc \<noteq> (0 :: int)) ())"

definition Inet_ntop where
  "Inet_ntop sys af src dst sz = (let p = sys af src dst sz in exits (p = None) ())"

definition Inet_pton where
  "Inet_pton sys af src dst =
    (let rc = sys af src dst in if rc = 0 then Inl 0 else exits (rc < (0 :: int)) ())"

definition Gethostbyname where
  "Gethostbyname sys name = (let p = sys name in exits (p = None) p)"

definition Gethostbyaddr where
  "Gethostbyaddr sys addr len type = (let p = sys addr len type in exits (p = None) p)"

definition Pthread_create where
  "Pthread_create sys tidp attrp routine argp =
    (let rc = sys tidp attrp routine argp in exits (rc \<noteq> (0 :: int)) ())"

definition Pthread_cancel where
  "Pthread_cancel sys tid = (let rc = sys tid in exits (rc \<noteq> (0 :: int)) ())"

definition Pthread_join where
  "Pthread_join sys tid thread_return =
    (let rc = sys tid thread_return in exits (rc \<noteq> (0 :: int)) ())"

definition Pthread_detach where
  "Pthread_detach sys tid = (let rc = sys tid in exits (rc \<noteq> (0 :: int)) ())"

definition Sem_init where
  "Sem_init sys sem pshared v = (let rc = sys sem pshared v in exits (rc < (0 :: int)) ())"

definition P_sem where
  "P_sem sys sem = (let rc = sys sem in exits (rc < (0 :: int)) ())"

definition V_sem where
  "V_sem sys sem = (let rc = sys sem in exits (rc < (0 :: int)) ())"

text \<open>The two copies agree when errors end the process, which is how the server starts.\<close>

lemma exits_agree:
  "wrapped True = exits" "with_error (gai_error True) = exits" "with_error (dns_error True) = exits"
  "with_error (posix_error True) = exits"
  by (simp_all add: fun_eq_iff exits_def wrapped_def with_error_def unix_error_def gai_error_def dns_error_def
      posix_error_def error_exit_def)

lemmas wrapper_defs =
  Fork_def Wrappers.Fork_def Setpgid_def Wrappers.Setpgid_def Signal_def Wrappers.Signal_def Sigprocmask_def
  Wrappers.Sigprocmask_def Sigemptyset_def Wrappers.Sigemptyset_def Sigfillset_def Wrappers.Sigfillset_def
  Sigaddset_def Wrappers.Sigaddset_def Sigdelset_def Wrappers.Sigdelset_def Sigismember_def
  Wrappers.Sigismember_def Sigsuspend_def Wrappers.Sigsuspend_def Open_def Wrappers.Open_def Read_def
  Wrappers.Read_def Write_def Wrappers.Write_def Lseek_def Wrappers.Lseek_def Select_def Wrappers.Select_def
  Dup2_def Wrappers.Dup2_def Stat_def Wrappers.Stat_def Fstat_def Wrappers.Fstat_def Opendir_def
  Wrappers.Opendir_def Readdir_def Wrappers.Readdir_def Closedir_def Wrappers.Closedir_def Mmap_def
  Wrappers.Mmap_def Munmap_def Wrappers.Munmap_def Malloc_def Wrappers.Malloc_def Realloc_def
  Wrappers.Realloc_def Calloc_def Wrappers.Calloc_def Fclose_def Wrappers.Fclose_def Fdopen_def
  Wrappers.Fdopen_def Fgets_def Wrappers.Fgets_def Fopen_def Wrappers.Fopen_def Fputs_def Wrappers.Fputs_def
  Fread_def Wrappers.Fread_def Fwrite_def Wrappers.Fwrite_def Socket_def Wrappers.Socket_def Setsockopt_def
  Wrappers.Setsockopt_def Bind_def Wrappers.Bind_def Listen_def Wrappers.Listen_def Accept_def
  Wrappers.Accept_def Connect_def Wrappers.Connect_def Getaddrinfo_def Wrappers.Getaddrinfo_def
  Getnameinfo_def Wrappers.Getnameinfo_def Inet_ntop_def Wrappers.Inet_ntop_def Inet_pton_def
  Wrappers.Inet_pton_def Gethostbyname_def Wrappers.Gethostbyname_def Gethostbyaddr_def
  Wrappers.Gethostbyaddr_def Pthread_create_def Wrappers.Pthread_create_def Pthread_cancel_def
  Wrappers.Pthread_cancel_def Pthread_join_def Wrappers.Pthread_join_def Pthread_detach_def
  Wrappers.Pthread_detach_def Sem_init_def Wrappers.Sem_init_def P_sem_def Wrappers.P_sem_def V_sem_def
  Wrappers.V_sem_def

lemma wrappers_agree:
  "Fork = Wrappers.Fork True" "Setpgid = Wrappers.Setpgid True" "Signal = Wrappers.Signal True"
  "Sigprocmask = Wrappers.Sigprocmask True" "Sigemptyset = Wrappers.Sigemptyset True"
  "Sigfillset = Wrappers.Sigfillset True" "Sigaddset = Wrappers.Sigaddset True"
  "Sigdelset = Wrappers.Sigdelset True" "Sigismember = Wrappers.Sigismember True"
  "Sigsuspend = Wrappers.Sigsuspend True" "Open = Wrappers.Open True" "Read = Wrappers.Read True"
  "Write = Wrappers.Write True" "Lseek = Wrappers.Lseek True" "Select = Wrappers.Select True"
  "Dup2 = Wrappers.Dup2 True" "Stat = Wrappers.Stat True" "Fstat = Wrappers.Fstat True"
  "Opendir = Wrappers.Opendir True" "Readdir = Wrappers.Readdir True" "Closedir = Wrappers.Closedir True"
  "Mmap = Wrappers.Mmap True" "Munmap = Wrappers.Munmap True" "Malloc = Wrappers.Malloc True"
  "Realloc = Wrappers.Realloc True" "Calloc = Wrappers.Calloc True" "Fclose = Wrappers.Fclose True"
  "Fdopen = Wrappers.Fdopen True" "Fgets = Wrappers.Fgets" "Fopen = Wrappers.Fopen True"
  "Fputs = Wrappers.Fputs True" "Fread = Wrappers.Fread True" "Fwrite = Wrappers.Fwrite True"
  "Socket = Wrappers.Socket True" "Setsockopt = Wrappers.Setsockopt True" "Bind = Wrappers.Bind True"
  "Listen = Wrappers.Listen True" "Accept = Wrappers.Accept True" "Connect = Wrappers.Connect True"
  "Getaddrinfo = Wrappers.Getaddrinfo True" "Getnameinfo = Wrappers.Getnameinfo True"
  "Inet_ntop = Wrappers.Inet_ntop True" "Inet_pton = Wrappers.Inet_pton True"
  "Gethostbyname = Wrappers.Gethostbyname True" "Gethostbyaddr = Wrappers.Gethostbyaddr True"
  "Pthread_create = Wrappers.Pthread_create True" "Pthread_cancel = Wrappers.Pthread_cancel True"
  "Pthread_join = Wrappers.Pthread_join True" "Pthread_detach = Wrappers.Pthread_detach True"
  "Sem_init = Wrappers.Sem_init True" "P_sem = Wrappers.P_sem True" "V_sem = Wrappers.V_sem True"
  by (simp_all add: wrapper_defs fun_eq_iff exits_agree app_error_def cong: if_cong)

end
