(* ===== verification/Bomb.thy ===== *)
theory Bomb
  imports C_Prelude
begin

text \<open>
  The main program of the two bombs, \<open>bomb.c\<close>. The repository holds the phases and \<open>support.h\<close> as
  binaries only, so they are the parameter \<open>bomb\<close>: a phase maps the line it is given and the world to the world
  after it, or to \<open>None\<close> when the bomb explodes, which ends the process.
\<close>

record 'w bomb =
  initialize_bomb :: "'w \<Rightarrow> 'w"
  read_line :: "'w \<Rightarrow> string \<times> 'w"
  phase :: "nat \<Rightarrow> string \<Rightarrow> 'w \<Rightarrow> 'w option"
  phase_defused :: "'w \<Rightarrow> 'w"

text \<open>How the program ends: with a status, or in the explosion of a phase.\<close>

datatype ending = Exit int | Explosion nat

text \<open>One phase, and the message that follows it. The output is a list of messages.\<close>

definition run_phase :: "'w bomb \<Rightarrow> nat \<Rightarrow> string list \<Rightarrow> 'w \<times> string list \<Rightarrow> ending \<times> string list + 'w \<times> string list" where
  "run_phase b k message = (\<lambda>(w, outp).
    (case read_line b w of (ln, w) \<Rightarrow>
       (case phase b k ln w of
          None \<Rightarrow> Inl (Explosion k, outp)
        | Some w \<Rightarrow> Inr (phase_defused b w, outp @ message))))"

definition proceed :: "'e + 'a \<Rightarrow> ('a \<Rightarrow> 'e + 'b) \<Rightarrow> 'e + 'b" where
  "proceed r f = (case r of Inl e \<Rightarrow> Inl e | Inr x \<Rightarrow> f x)"

definition greeting :: "string list" where
  "greeting = [''Welcome to my fiendish little bomb. You have 6 phases with'', ''which to blow yourself up. Have a nice day!'']"

definition messages :: "string list" where
  "messages = [''Phase 1 defused. How about the next one?'', ''That'' @ [CHR 0x27] @ ''s number 2.  Keep going!'', ''Halfway there!'',
    ''So you got that one.  Try this one.'', ''Good work!  On to the next...'']"

text \<open>\<open>argv\<close> are the arguments and \<open>fopen\<close> tells whether the file can be opened; opening selects the
  world that the lines come from.\<close>

definition main :: "string list \<Rightarrow> (string \<Rightarrow> 'w option) \<Rightarrow> 'w \<Rightarrow> 'w bomb \<Rightarrow> ending \<times> string list" where
  "main argv fopen stdin b =
    (let start =
       (if length argv = 1 then Inr stdin
        else if length argv = 2 then
          (case fopen (argv ! 1) of
             None \<Rightarrow> Inl (Exit 8, [argv ! 0 @ '': Error: Couldn't open '' @ argv ! 1])
           | Some w \<Rightarrow> Inr w)
        else Inl (Exit 8, [''Usage: '' @ argv ! 0 @ '' [<input_file>]'']))
     in case
       proceed start (\<lambda>w.
       proceed (run_phase b 1 [messages ! 0] (initialize_bomb b w, greeting)) (\<lambda>s.
       proceed (run_phase b 2 [messages ! 1] s) (\<lambda>s.
       proceed (run_phase b 3 [messages ! 2] s) (\<lambda>s.
       proceed (run_phase b 4 [messages ! 3] s) (\<lambda>s.
       proceed (run_phase b 5 [messages ! 4] s) (\<lambda>s.
       run_phase b 6 [] s))))))
       of Inl r \<Rightarrow> r | Inr (w, outp) \<Rightarrow> (Exit 0, outp))"

section \<open>Defusing\<close>

text \<open>A bomb whose phases look at their line only, fed with the lines \<open>ls\<close>.\<close>

definition pure_bomb :: "(nat \<Rightarrow> string \<Rightarrow> bool) \<Rightarrow> string list bomb" where
  "pure_bomb accepts =
    \<lparr>initialize_bomb = id, read_line = (\<lambda>w. (hd w, tl w)),
     phase = (\<lambda>k line w. if accepts k line then Some w else None), phase_defused = id\<rparr>"

lemma run_phase_pure:
  "run_phase (pure_bomb accepts) k message (l # ls, outp) =
    (if accepts k l then Inr (ls, outp @ message) else Inl (Explosion k, outp))"
  by (simp add: run_phase_def pure_bomb_def)

text \<open>The bomb is defused if and only if every phase accepts its line; otherwise the first one that does not
  blows it up, after the messages of those before.\<close>

lemma bomb_defused:
  assumes "ls = [l1, l2, l3, l4, l5, l6]"
  shows "main [prog] fopen ls (pure_bomb accepts) =
    (case find (\<lambda>k. \<not> accepts k (ls ! (k - 1))) [1..<7] of
       None \<Rightarrow> (Exit 0, greeting @ messages)
     | Some k \<Rightarrow> (Explosion k, greeting @ take (k - 1) messages))"
proof -
  have "[1..<7] = [1, 2, 3, 4, 5, 6]" by (simp add: upt_rec)
  moreover have "initialize_bomb (pure_bomb accepts) = id" by (simp add: pure_bomb_def)
  ultimately show ?thesis
    by (simp add: assms main_def proceed_def run_phase_pure messages_def numeral_eq_Suc split: if_splits)
qed

end
