(* ===== verification/Dictionary.thy ===== *)
theory Dictionary
  imports C_Prelude "HOL-Library.Multiset"
begin

text \<open>
  The string dictionary of \<open>Serverlab/dictionary.c\<close>: two parallel growable arrays of
  keys and values with a comparison mode. The invariant, the refinement of every operation
  to a finite map from (case-folded) keys, the absence of undefined behaviour, and the
  ownership discipline of the values: whatever is stored is either still held or was handed
  to \<open>free_value\<close> exactly once.
\<close>

section \<open>The data structure\<close>

definition COMPARE_CASE_SENS :: int where "COMPARE_CASE_SENS = 0"
definition COMPARE_CASE_INSENS :: int where "COMPARE_CASE_INSENS = 1"

text \<open>\<open>keys\<close> and \<open>values\<close> are the heap arrays of \<open>alloc\<close> slots; a slot that
  \<open>realloc\<close> added and nobody wrote is \<^term>\<open>None\<close>. The pointer \<open>free_value\<close> is
  represented by what it is called on: the operations return the destroyed values.\<close>

record 'v dictionary_t =
  compare_mode :: int
  dcount :: nat
  alloc :: nat
  keys :: "string option list"
  vals :: "'v option list"

definition cell :: "'a option list \<Rightarrow> nat \<Rightarrow> 'a option" where
  "cell xs i = (if i < length xs then xs ! i else None)"

definition cell_put :: "'a option list \<Rightarrow> nat \<Rightarrow> 'a \<Rightarrow> 'a option list option" where
  "cell_put xs i x = (if i < length xs then Some (xs[i := Some x]) else None)"

text \<open>\<open>realloc\<close> to \<open>n\<close> slots keeps the old contents.\<close>

definition cell_realloc :: "'a option list \<Rightarrow> nat \<Rightarrow> 'a option list" where
  "cell_realloc xs n = take n xs @ replicate (n - length xs) None"

definition make_dictionary :: "int \<Rightarrow> 'v dictionary_t" where
  "make_dictionary mode = \<lparr>compare_mode = mode, dcount = 0, alloc = 0, keys = [], vals = []\<rparr>"

text \<open>The caller's key may be NULL (\<^term>\<open>None\<close>); comparing NULL is undefined.\<close>

definition same_key :: "string option \<Rightarrow> string \<Rightarrow> int \<Rightarrow> bool option" where
  "same_key key1 key2 mode =
     (case key1 of None \<Rightarrow> None
      | Some k \<Rightarrow> Some (if mode = COMPARE_CASE_INSENS then strcaseeq k key2 else k = key2))"

text \<open>The scan \<open>for (i = 0; i < d->count; i++)\<close> that both \<open>dictionary_set\<close> and
  \<open>dictionary_get\<close> start with: the first index whose key matches, if any.\<close>

function dict_scan :: "'v dictionary_t \<Rightarrow> string option \<Rightarrow> nat \<Rightarrow> nat option option" where
  "dict_scan d key i =
     (if i < dcount d then
        do { k \<leftarrow> cell (keys d) i;
             b \<leftarrow> same_key key k (compare_mode d);
             (if b then Some (Some i) else dict_scan d key (Suc i)) }
      else Some None)"
  by pat_completeness auto
termination
  by (relation "measure (\<lambda>(d, key, i). dcount d - i)") auto

declare dict_scan.simps [simp del]

definition dict_grow :: "'v dictionary_t \<Rightarrow> 'v dictionary_t" where
  "dict_grow d =
     (if dcount d = alloc d
      then let n = 2 * (alloc d + 1)
           in d\<lparr>alloc := n, keys := cell_realloc (keys d) n, vals := cell_realloc (vals d) n\<rparr>
      else d)"

text \<open>\<open>dictionary_set\<close>: the new dictionary and the values passed to
  \<open>d->free_value\<close>. \<open>strdup(NULL)\<close> is undefined.\<close>

definition dictionary_set :: "'v dictionary_t \<Rightarrow> string option \<Rightarrow> 'v \<Rightarrow> ('v dictionary_t \<times> 'v list) option"
  where
  "dictionary_set d key value =
     do { r \<leftarrow> dict_scan d key 0;
          (case r of
             Some i \<Rightarrow>
               do { old \<leftarrow> cell (vals d) i;
                    vs \<leftarrow> cell_put (vals d) i value;
                    Some (d\<lparr>vals := vs\<rparr>, [old]) }
           | None \<Rightarrow>
               (let d1 = dict_grow d in
                do { k \<leftarrow> key;
                     ks \<leftarrow> cell_put (keys d1) (dcount d1) k;
                     vs \<leftarrow> cell_put (vals d1) (dcount d1) value;
                     Some (d1\<lparr>keys := ks, vals := vs, dcount := Suc (dcount d1)\<rparr>, []) })) }"

text \<open>\<open>dictionary_get\<close>: \<^term>\<open>Some None\<close> is the NULL result.\<close>

definition dictionary_get :: "'v dictionary_t \<Rightarrow> string option \<Rightarrow> 'v option option" where
  "dictionary_get d key =
     do { r \<leftarrow> dict_scan d key 0;
          (case r of Some i \<Rightarrow> map_option Some (cell (vals d) i) | None \<Rightarrow> Some None) }"

definition dictionary_count :: "'v dictionary_t \<Rightarrow> nat" where
  "dictionary_count d = dcount d"

definition dictionary_key :: "'v dictionary_t \<Rightarrow> nat \<Rightarrow> string option" where
  "dictionary_key d i = cell (keys d) i"

definition dictionary_value :: "'v dictionary_t \<Rightarrow> nat \<Rightarrow> 'v option" where
  "dictionary_value d i = cell (vals d) i"

text \<open>\<open>free_dictionary\<close>: the keys passed to \<open>free\<close> and the values passed to
  \<open>free_value\<close>, in order.\<close>

function free_from :: "'v dictionary_t \<Rightarrow> nat \<Rightarrow> (string list \<times> 'v list) option" where
  "free_from d i =
     (if i < dcount d then
        do { k \<leftarrow> cell (keys d) i;
             v \<leftarrow> cell (vals d) i;
             (ks, vs) \<leftarrow> free_from d (Suc i);
             Some (k # ks, v # vs) }
      else Some ([], []))"
  by pat_completeness auto
termination
  by (relation "measure (\<lambda>(d, i). dcount d - i)") auto

declare free_from.simps [simp del]

definition free_dictionary :: "'v dictionary_t \<Rightarrow> (string list \<times> 'v list) option" where
  "free_dictionary d = free_from d 0"

section \<open>Invariant and abstraction\<close>

definition canon :: "int \<Rightarrow> string \<Rightarrow> string" where
  "canon mode k = (if mode = COMPARE_CASE_INSENS then map tolower k else k)"

definition key_list :: "'v dictionary_t \<Rightarrow> string list" where
  "key_list d = map the (take (dcount d) (keys d))"

definition val_list :: "'v dictionary_t \<Rightarrow> 'v list" where
  "val_list d = map the (take (dcount d) (vals d))"

definition dict_ok :: "'v dictionary_t \<Rightarrow> bool" where
  "dict_ok d \<longleftrightarrow>
     dcount d \<le> alloc d \<and> length (keys d) = alloc d \<and> length (vals d) = alloc d \<and>
     None \<notin> set (take (dcount d) (keys d)) \<and> None \<notin> set (take (dcount d) (vals d)) \<and>
     distinct (map (canon (compare_mode d)) (key_list d))"

definition dict_map :: "'v dictionary_t \<Rightarrow> string \<rightharpoonup> 'v" where
  "dict_map d = map_of (zip (map (canon (compare_mode d)) (key_list d)) (val_list d))"

text \<open>The values the dictionary owns.\<close>

definition held :: "'v dictionary_t \<Rightarrow> 'v multiset" where
  "held d = mset (val_list d)"

lemma same_key_canon: "same_key (Some k) k2 m = Some (canon m k = canon m k2)"
  by (simp add: same_key_def canon_def strcaseeq_def)

lemma canon_sens [simp]: "canon COMPARE_CASE_SENS k = k"
  by (simp add: canon_def COMPARE_CASE_SENS_def COMPARE_CASE_INSENS_def)

lemma take_map_Some: "None \<notin> set xs \<Longrightarrow> map Some (map the xs) = xs"
proof -
  assume h: "None \<notin> set xs"
  have "map (\<lambda>x. Some (the x)) xs = map (\<lambda>x. x) xs"
  proof (rule map_cong [OF refl])
    fix x assume "x \<in> set xs"
    with h show "Some (the x) = x" by (cases x) auto
  qed
  then show ?thesis by (simp add: comp_def)
qed

lemma length_lists [simp]:
  "dict_ok d \<Longrightarrow> length (key_list d) = dcount d"
  "dict_ok d \<Longrightarrow> length (val_list d) = dcount d"
  by (auto simp: dict_ok_def key_list_def val_list_def)

lemma cell_take: "i < n \<Longrightarrow> n \<le> length xs \<Longrightarrow> None \<notin> set (take n xs) \<Longrightarrow>
    cell xs i = Some (map the (take n xs) ! i)"
proof -
  assume h: "i < n" "n \<le> length xs" "None \<notin> set (take n xs)"
  then have "take n xs ! i \<in> set (take n xs)" by (intro nth_mem) simp
  with h show ?thesis by (cases "xs ! i") (auto simp: cell_def)
qed

lemma cell_keys [simp]: "dict_ok d \<Longrightarrow> i < dcount d \<Longrightarrow> cell (keys d) i = Some (key_list d ! i)"
  unfolding key_list_def by (rule cell_take) (auto simp: dict_ok_def)

lemma cell_vals [simp]: "dict_ok d \<Longrightarrow> i < dcount d \<Longrightarrow> cell (vals d) i = Some (val_list d ! i)"
  unfolding val_list_def by (rule cell_take) (auto simp: dict_ok_def)

text \<open>The scan returns the first matching index at or after where it starts.\<close>

lemma dict_scan_Some:
  assumes "dict_ok d" and "i \<le> j" and "j < dcount d"
    and "canon (compare_mode d) k = canon (compare_mode d) (key_list d ! j)"
    and "\<And>l. i \<le> l \<Longrightarrow> l < j \<Longrightarrow> canon (compare_mode d) k \<noteq> canon (compare_mode d) (key_list d ! l)"
  shows "dict_scan d (Some k) i = Some (Some j)"
  using assms
proof (induction "j - i" arbitrary: i)
  case 0
  then have "i = j" by simp
  with "0.prems" show ?case by (subst dict_scan.simps) (simp add: same_key_canon)
next
  case (Suc n)
  then have lt: "i < j" by simp
  have IH: "dict_scan d (Some k) (Suc i) = Some (Some j)"
    using Suc lt by (intro Suc.hyps(1)) auto
  have ne: "canon (compare_mode d) k \<noteq> canon (compare_mode d) (key_list d ! i)"
    using Suc.prems(5) lt by blast
  show ?case
    using Suc.prems lt IH ne by (subst dict_scan.simps) (simp add: same_key_canon)
qed

lemma dict_scan_None:
  assumes "dict_ok d" and "i \<le> dcount d"
    and "\<And>l. i \<le> l \<Longrightarrow> l < dcount d \<Longrightarrow> canon (compare_mode d) k \<noteq> canon (compare_mode d) (key_list d ! l)"
  shows "dict_scan d (Some k) i = Some None"
  using assms
proof (induction "dcount d - i" arbitrary: i)
  case 0
  then show ?case by (subst dict_scan.simps) simp
next
  case (Suc n)
  have IH: "dict_scan d (Some k) (Suc i) = Some None"
    using Suc by (intro Suc.hyps(1)) auto
  have ne: "canon (compare_mode d) k \<noteq> canon (compare_mode d) (key_list d ! i)"
    using Suc.prems Suc.hyps(2) by auto
  show ?case
    using Suc.prems IH ne by (subst dict_scan.simps) (simp add: same_key_canon)
qed

lemma scan_cases:
  assumes ok: "dict_ok d"
  obtains (found) j where "j < dcount d" "dict_scan d (Some k) 0 = Some (Some j)"
      "canon (compare_mode d) (key_list d ! j) = canon (compare_mode d) k"
      "dict_map d (canon (compare_mode d) k) = Some (val_list d ! j)"
  | (absent) "dict_scan d (Some k) 0 = Some None"
      "canon (compare_mode d) k \<notin> set (map (canon (compare_mode d)) (key_list d))"
      "dict_map d (canon (compare_mode d) k) = None"
proof -
  let ?ck = "canon (compare_mode d) k" and ?cs = "map (canon (compare_mode d)) (key_list d)"
  have dist: "distinct ?cs" and len: "length ?cs = dcount d" "length (val_list d) = dcount d"
    using ok by (auto simp: dict_ok_def)
  show ?thesis
  proof (cases "?ck \<in> set ?cs")
    case True
    then obtain j where j: "j < dcount d" "?cs ! j = ?ck" using len by (auto simp: in_set_conv_nth)
    have first: "?ck \<noteq> canon (compare_mode d) (key_list d ! l)" if "l < j" for l
    proof
      assume "?ck = canon (compare_mode d) (key_list d ! l)"
      then have "?cs ! l = ?cs ! j" using j that len ok by simp
      then show False using nth_eq_iff_index_eq [OF dist, of l j] j that len by simp
    qed
    have m: "dict_map d ?ck = Some (val_list d ! j)"
      using map_of_zip_nth [of ?cs "val_list d" j] dist len j unfolding dict_map_def by metis
    show ?thesis
      by (rule found [of j]) (use j first m ok dict_scan_Some [of d 0 j k] in auto)
  next
    case False
    have "dict_scan d (Some k) 0 = Some None"
    proof (rule dict_scan_None [OF ok])
      fix l assume "l < dcount d"
      then have "canon (compare_mode d) (key_list d ! l) \<in> set ?cs" using ok by simp
      with False show "?ck \<noteq> canon (compare_mode d) (key_list d ! l)" by metis
    qed simp
    moreover have "dict_map d ?ck = None"
      using False len unfolding dict_map_def by (simp add: map_of_zip_is_None)
    ultimately show ?thesis using False by (intro absent)
  qed
qed

lemma set_takeD: "x \<in> set (take n (xs[i := y])) \<Longrightarrow> x = y \<or> x \<in> set (take n xs)"
  by (metis insert_iff set_update_subset_insert subsetD take_update_swap)

lemma map_of_zip_update:
  "distinct ks \<Longrightarrow> length ks = length vs \<Longrightarrow> i < length ks \<Longrightarrow>
    map_of (zip ks (vs[i := v])) = (map_of (zip ks vs))(ks ! i \<mapsto> v)"
proof (induction ks vs arbitrary: i rule: list_induct2')
  case (4 k ks w ws)
  show ?case
  proof (cases i)
    case (Suc j)
    with 4 have "k \<noteq> ks ! j" by (auto simp: nth_mem)
    with 4 Suc show ?thesis by (auto simp: fun_upd_twist)
  qed (use 4 in \<open>simp add: fun_eq_iff\<close>)
qed (auto simp: fun_eq_iff)

lemma map_of_zip_snoc:
  "length ks = length vs \<Longrightarrow> k \<notin> set ks \<Longrightarrow>
    map_of (zip (ks @ [k]) (vs @ [v])) = (map_of (zip ks vs))(k \<mapsto> v)"
  by (induction ks vs rule: list_induct2) (auto simp: fun_upd_twist)

lemma mset_list_update:
  "i < length xs \<Longrightarrow> add_mset (xs ! i) (mset (xs[i := x])) = add_mset x (mset xs)"
  by (simp add: mset_update)

section \<open>Refinement to a finite map\<close>

lemma dict_ok_make [simp]: "dict_ok (make_dictionary mode)"
  by (simp add: dict_ok_def make_dictionary_def key_list_def)

lemma compare_mode_make [simp]: "compare_mode (make_dictionary mode) = mode"
  by (simp add: make_dictionary_def)

lemma dict_map_make [simp]: "dict_map (make_dictionary mode) = Map.empty"
  by (simp add: dict_map_def make_dictionary_def key_list_def)

lemma held_make [simp]: "held (make_dictionary mode) = {#}"
  by (simp add: held_def make_dictionary_def val_list_def)

lemma dictionary_get_map:
  "dict_ok d \<Longrightarrow> dictionary_get d (Some k) = Some (dict_map d (canon (compare_mode d) k))"
  by (rule scan_cases [of d k]) (auto simp: dictionary_get_def)

text \<open>Growing keeps the contents and leaves room for one more entry.\<close>

lemma dict_grow_ok:
  assumes "dict_ok d"
  shows "dict_ok (dict_grow d)" "key_list (dict_grow d) = key_list d"
    "val_list (dict_grow d) = val_list d" "compare_mode (dict_grow d) = compare_mode d"
    "dcount (dict_grow d) = dcount d" "dcount (dict_grow d) < alloc (dict_grow d)"
  using assms
  by (auto simp: dict_grow_def dict_ok_def key_list_def val_list_def cell_realloc_def Let_def)

lemma dictionary_set_replace:
  fixes v :: 'v
  assumes ok: "dict_ok d" and j: "j < dcount d"
    and ck: "canon (compare_mode d) (key_list d ! j) = canon (compare_mode d) k"
  defines "d' \<equiv> d\<lparr>vals := (vals d)[j := Some v]\<rparr>"
  shows "dict_ok d'" "dict_map d' = (dict_map d)(canon (compare_mode d) k \<mapsto> v)"
    "add_mset (val_list d ! j) (held d') = add_mset v (held d)"
proof -
  have vl: "val_list d' = (val_list d)[j := v]" and kl: "key_list d' = key_list d"
    using j by (simp_all add: d'_def val_list_def key_list_def take_update_swap map_update)
  show "dict_ok d'"
    using ok unfolding dict_ok_def kl by (auto simp: d'_def dest: set_takeD)
  show "dict_map d' = (dict_map d)(canon (compare_mode d) k \<mapsto> v)"
  proof -
    have "map_of (zip (map (canon (compare_mode d)) (key_list d)) ((val_list d)[j := v]))
      = (map_of (zip (map (canon (compare_mode d)) (key_list d)) (val_list d)))
          (map (canon (compare_mode d)) (key_list d) ! j \<mapsto> v)"
      by (rule map_of_zip_update) (use ok j in \<open>auto simp: dict_ok_def\<close>)
    then show ?thesis using ok j ck unfolding dict_map_def vl kl by (simp add: d'_def)
  qed
  show "add_mset (val_list d ! j) (held d') = add_mset v (held d)"
    using ok j by (simp add: held_def vl mset_list_update)
qed

lemma dictionary_set_append:
  fixes v :: 'v and k :: string
  assumes ok: "dict_ok d" and room: "dcount d < alloc d"
    and new: "canon (compare_mode d) k \<notin> set (map (canon (compare_mode d)) (key_list d))"
  defines "d' \<equiv> d\<lparr>keys := (keys d)[dcount d := Some k], vals := (vals d)[dcount d := Some v],
                 dcount := Suc (dcount d)\<rparr>"
  shows "dict_ok d'" "dict_map d' = (dict_map d)(canon (compare_mode d) k \<mapsto> v)"
    "held d' = add_mset v (held d)"
proof -
  have len: "length (keys d) = alloc d" "length (vals d) = alloc d" using ok by (auto simp: dict_ok_def)
  have kl: "key_list d' = key_list d @ [k]" and vl: "val_list d' = val_list d @ [v]"
    using room len by (simp_all add: d'_def key_list_def val_list_def take_Suc_conv_app_nth)
  have "None \<notin> set (take (Suc (dcount d)) ((keys d)[dcount d := Some k]))"
    "None \<notin> set (take (Suc (dcount d)) ((vals d)[dcount d := Some v]))"
    using ok room len by (simp_all add: take_Suc_conv_app_nth dict_ok_def)
  then show "dict_ok d'"
    using ok room new unfolding dict_ok_def kl by (auto simp: d'_def)
  show "held d' = add_mset v (held d)" by (simp add: held_def vl)
  show "dict_map d' = (dict_map d)(canon (compare_mode d) k \<mapsto> v)"
    using map_of_zip_snoc [of "map (canon (compare_mode d)) (key_list d)" "val_list d"
        "canon (compare_mode d) k" v] new ok
    unfolding dict_map_def kl vl by (simp add: d'_def)
qed

text \<open>The operation as a whole: it never has undefined behaviour on a non-NULL key, it
  updates the map, and the values it destroys are exactly the one it replaces.\<close>

lemma dictionary_set_cases:
  assumes ok: "dict_ok d"
  obtains d' fr where "dictionary_set d (Some k) v = Some (d', fr)" "dict_ok d'"
    "compare_mode d' = compare_mode d"
    "dict_map d' = (dict_map d)(canon (compare_mode d) k \<mapsto> v)"
    "mset fr + held d' = add_mset v (held d)"
    "fr = (case dict_map d (canon (compare_mode d) k) of Some w \<Rightarrow> [w] | None \<Rightarrow> [])"
proof (rule scan_cases [OF ok, of k])
  fix j
  assume j: "j < dcount d" "dict_scan d (Some k) 0 = Some (Some j)"
    "canon (compare_mode d) (key_list d ! j) = canon (compare_mode d) k"
    "dict_map d (canon (compare_mode d) k) = Some (val_list d ! j)"
  have len: "j < length (vals d)" using ok j(1) by (simp add: dict_ok_def)
  show ?thesis
    by (rule that [of "d\<lparr>vals := (vals d)[j := Some v]\<rparr>" "[val_list d ! j]"])
      (use j len ok dictionary_set_replace [OF ok j(1) j(3), of v]
        in \<open>auto simp: dictionary_set_def cell_put_def\<close>)
next
  assume a: "dict_scan d (Some k) 0 = Some None"
    "canon (compare_mode d) k \<notin> set (map (canon (compare_mode d)) (key_list d))"
    "dict_map d (canon (compare_mode d) k) = None"
  note g = dict_grow_ok [OF ok]
  have len: "length (keys (dict_grow d)) = alloc (dict_grow d)"
    "length (vals (dict_grow d)) = alloc (dict_grow d)"
    using g(1) by (auto simp: dict_ok_def)
  have same: "dict_map (dict_grow d) = dict_map d" "held (dict_grow d) = held d"
    using g by (simp_all add: dict_map_def held_def)
  let ?d1 = "dict_grow d"
  let ?d' = "?d1\<lparr>keys := (keys ?d1)[dcount ?d1 := Some k], vals := (vals ?d1)[dcount ?d1 := Some v],
               dcount := Suc (dcount ?d1)\<rparr>"
  have set: "dictionary_set d (Some k) v = Some (?d', [])"
    using a(1) g(5,6) len by (simp add: dictionary_set_def cell_put_def Let_def)
  show ?thesis
    by (rule that [of ?d' "[]"])
      (use set a g same dictionary_set_append [OF g(1), of k v] in \<open>simp_all\<close>)
qed

lemma free_from_all:
  "dict_ok d \<Longrightarrow> i \<le> dcount d \<Longrightarrow> free_from d i = Some (drop i (key_list d), drop i (val_list d))"
proof (induction "dcount d - i" arbitrary: i)
  case 0
  then show ?case by (subst free_from.simps) simp
next
  case (Suc n)
  then have "free_from d (Suc i) = Some (drop (Suc i) (key_list d), drop (Suc i) (val_list d))"
    by (intro Suc.hyps(1)) auto
  with Suc show ?case by (subst free_from.simps) (simp add: Cons_nth_drop_Suc)
qed

section \<open>The interface clients rely on\<close>

text \<open>A store of owned values: what a client of \<open>dictionary_set\<close> and \<open>dictionary_get\<close>
  may assume. \<open>canon\<close> says which keys a given dictionary identifies.\<close>

locale owned_store =
  fixes get :: "'d \<Rightarrow> 'k \<Rightarrow> 'v option option"
    and set_value :: "'d \<Rightarrow> 'k \<Rightarrow> 'v \<Rightarrow> ('d \<times> 'v list) option"
    and inv :: "'d \<Rightarrow> bool"
    and same :: "'d \<Rightarrow> 'k \<Rightarrow> 'k \<Rightarrow> bool"
    and owned :: "'d \<Rightarrow> 'v multiset"
  assumes get_defined: "inv d \<Longrightarrow> \<exists>r. get d k = Some r"
    and set_defined: "inv d \<Longrightarrow> \<exists>d' fr. set_value d k v = Some (d', fr)"
    and set_inv: "inv d \<Longrightarrow> set_value d k v = Some (d', fr) \<Longrightarrow> inv d'"
    and set_same: "inv d \<Longrightarrow> set_value d k v = Some (d', fr) \<Longrightarrow> same d' = same d"
    and get_set: "inv d \<Longrightarrow> set_value d k v = Some (d', fr) \<Longrightarrow>
        get d' j = (if same d k j then Some (Some v) else get d j)"
    and set_owned: "inv d \<Longrightarrow> set_value d k v = Some (d', fr) \<Longrightarrow>
        mset fr + owned d' = add_mset v (owned d)"

fun set_all :: "('d \<Rightarrow> 'k \<Rightarrow> 'v \<Rightarrow> ('d \<times> 'v list) option) \<Rightarrow> 'd \<Rightarrow> ('k \<times> 'v) list \<Rightarrow> ('d \<times> 'v list) option"
  where
  "set_all f d [] = Some (d, [])"
| "set_all f d ((k, v) # kvs) =
     do { (d1, fr1) \<leftarrow> f d k v;
          (d2, fr2) \<leftarrow> set_all f d1 kvs;
          Some (d2, fr1 @ fr2) }"

text \<open>The binding a sequence of stores leaves behind: the last one whose key matches.\<close>

fun last_binding :: "('k \<Rightarrow> bool) \<Rightarrow> ('k \<times> 'v) list \<Rightarrow> 'v option" where
  "last_binding p [] = None"
| "last_binding p ((k, v) # kvs) =
     (case last_binding p kvs of Some w \<Rightarrow> Some w | None \<Rightarrow> if p k then Some v else None)"

context owned_store
begin

lemma set_all_ok:
  assumes "inv d"
  shows "\<exists>d' fr. set_all set_value d kvs = Some (d', fr) \<and> inv d' \<and> same d' = same d \<and>
     mset fr + owned d' = mset (map snd kvs) + owned d \<and>
     (\<forall>j. get d' j = (case last_binding (\<lambda>k. same d k j) kvs of
                        Some v \<Rightarrow> Some (Some v) | None \<Rightarrow> get d j))"
  using assms
proof (induction kvs arbitrary: d)
  case Nil
  then show ?case by simp
next
  case (Cons kv kvs)
  obtain k v where kv: "kv = (k, v)" by force
  obtain d1 fr1 where s1: "set_value d k v = Some (d1, fr1)" using set_defined Cons.prems by blast
  note f = set_inv [OF Cons.prems s1] set_same [OF Cons.prems s1] set_owned [OF Cons.prems s1]
    get_set [OF Cons.prems s1]
  obtain d2 fr2 where s2: "set_all set_value d1 kvs = Some (d2, fr2)" "inv d2" "same d2 = same d1"
      "mset fr2 + owned d2 = mset (map snd kvs) + owned d1"
      "\<And>j. get d2 j = (case last_binding (\<lambda>k. same d1 k j) kvs of
                        Some v \<Rightarrow> Some (Some v) | None \<Rightarrow> get d1 j)"
    using Cons.IH [OF f(1)] by blast
  have "mset (fr1 @ fr2) + owned d2 = mset (map snd (kv # kvs)) + owned d"
    using s2(4) f(3) kv by (simp add: union_assoc)
  with s1 s2 f kv show ?case by (auto split: option.splits)
qed

end

interpretation dict: owned_store
  "\<lambda>d k. dictionary_get d (Some k)" "\<lambda>d k v. dictionary_set d (Some k) v" dict_ok
  "\<lambda>d j k. canon (compare_mode d) j = canon (compare_mode d) k" held
proof unfold_locales
  fix d :: "'v dictionary_t" and k j v d' fr
  assume ok: "dict_ok d"
  show "\<exists>r. dictionary_get d (Some k) = Some r" using dictionary_get_map [OF ok] by blast
  obtain d1 fr1 where s: "dictionary_set d (Some k) v = Some (d1, fr1)" "dict_ok d1"
      "compare_mode d1 = compare_mode d"
      "dict_map d1 = (dict_map d)(canon (compare_mode d) k \<mapsto> v)"
      "mset fr1 + held d1 = add_mset v (held d)"
    using dictionary_set_cases [OF ok] by metis
  show "\<exists>d' fr. dictionary_set d (Some k) v = Some (d', fr)" using s(1) by blast
  assume "dictionary_set d (Some k) v = Some (d', fr)"
  with s(1) have e: "d' = d1" "fr = fr1" by auto
  show "dict_ok d'" using s e by simp
  show "(\<lambda>j k. canon (compare_mode d') j = canon (compare_mode d') k)
      = (\<lambda>j k. canon (compare_mode d) j = canon (compare_mode d) k)" using s e by simp
  show "mset fr + held d' = add_mset v (held d)" using s e by simp
  show "dictionary_get d' (Some j) =
      (if canon (compare_mode d) k = canon (compare_mode d) j then Some (Some v)
       else dictionary_get d (Some j))"
    using s e ok by (auto simp: dictionary_get_map)
qed

section \<open>Correctness of the dictionary\<close>

text \<open>C5. A dictionary that satisfies its invariant behaves as a finite map from
  canonical keys: after \<open>dictionary_set\<close> a \<open>dictionary_get\<close> of any key that compares
  equal returns the new value, every other key keeps what it had, and neither call has
  undefined behaviour.\<close>

theorem dictionary_set_get:
  assumes "dict_ok d"
  shows "\<exists>d' fr. dictionary_set d (Some k) v = Some (d', fr) \<and> dict_ok d' \<and>
    (\<forall>j. dictionary_get d' (Some j) =
      (if canon (compare_mode d) k = canon (compare_mode d) j then Some (Some v)
       else dictionary_get d (Some j)))"
proof -
  obtain d' fr where s: "dictionary_set d (Some k) v = Some (d', fr)"
    using dict.set_defined [OF assms] by blast
  with dict.set_inv [OF assms s] dict.get_set [OF assms s] show ?thesis by blast
qed

theorem dictionary_set_get_witness:
  "\<exists>d' fr. dictionary_set (make_dictionary COMPARE_CASE_INSENS) (Some ''Host'') (7 :: nat) = Some (d', fr) \<and>
     dict_ok d' \<and> dictionary_get d' (Some ''HOST'') = Some (Some 7)"
proof -
  have "canon COMPARE_CASE_INSENS ''Host'' = canon COMPARE_CASE_INSENS ''HOST''"
    by code_simp
  then show ?thesis
    using dictionary_set_get [of "make_dictionary COMPARE_CASE_INSENS :: nat dictionary_t" "''Host''" 7]
    by auto
qed

text \<open>C17. Ownership: over any sequence of \<open>dictionary_set\<close> calls on a fresh dictionary
  followed by \<open>free_dictionary\<close>, every stored value is handed to \<open>free_value\<close> exactly
  once, either when it was replaced or at the end.\<close>

theorem dictionary_no_leak_no_double_free:
  "\<exists>d fr ks vs. set_all (\<lambda>d k v. dictionary_set d (Some k) v) (make_dictionary mode) kvs = Some (d, fr) \<and>
     free_dictionary d = Some (ks, vs) \<and> mset fr + mset vs = mset (map snd kvs)"
proof -
  obtain d fr where s: "set_all (\<lambda>d k v. dictionary_set d (Some k) v) (make_dictionary mode) kvs = Some (d, fr)"
      "dict_ok d" "mset fr + held d = mset (map snd kvs)"
    using dict.set_all_ok [OF dict_ok_make, of mode kvs] by (auto simp: held_make)
  have "free_dictionary d = Some (key_list d, val_list d)"
    using free_from_all [OF s(2), of 0] by (simp add: free_dictionary_def)
  with s show ?thesis by (auto simp: held_def)
qed

end
