(* ===== verification/More_String.thy ===== *)
theory More_String
  imports Dictionary
begin

text \<open>
  The string helpers of \<open>Serverlab/more_string.c\<close>: concatenation, request-line, header and
  query parsing, and the query and entity codecs. The codecs keep the two passes of the
  code: a first pass without a destination counts, a second one writes into a buffer of
  exactly that size, and every write is bounds checked, so that a result
  \<^term>\<open>Some s\<close> includes that no byte is written outside the buffer. The counters of the codecs are of type
  \<open>int\<close>; where one of them would overflow, the result is \<^term>\<open>None\<close>.
\<close>

section \<open>Appending strings\<close>

text \<open>The arguments of \<open>append_strings\<close> up to and including the NULL that ends them; running
  off the list without a NULL is undefined. The first pass adds up the lengths.\<close>

fun append_len :: "string option list \<Rightarrow> nat \<Rightarrow> nat option" where
  "append_len [] len = None"
| "append_len (None # ap) len = Some len"
| "append_len (Some s2 # ap) len = append_len ap (len + length s2)"

fun append_copy :: "string option list \<Rightarrow> cbuf \<Rightarrow> nat \<Rightarrow> (cbuf \<times> nat) option" where
  "append_copy [] buf pos = None"
| "append_copy (None # ap) buf pos = Some (buf, pos)"
| "append_copy (Some s2 # ap) buf pos =
     do { buf' \<leftarrow> cmemcpy buf pos s2; append_copy ap buf' (pos + length s2) }"

definition append_strings :: "string option list \<Rightarrow> string option" where
  "append_strings args =
     do { len \<leftarrow> append_len args 0;
          (result, pos) \<leftarrow> append_copy args (malloc_buf (len + 1)) 0;
          result' \<leftarrow> cput result pos NUL;
          cstr result' }"

text \<open>\<open>to_string\<close>: \<open>snprintf\<close> into 64 bytes with \<open>%ld\<close>; it truncates at 63.\<close>

definition to_string :: "int \<Rightarrow> string" where
  "to_string v = take 63 (dec_int v)"

definition starts_with :: "string \<Rightarrow> string \<Rightarrow> bool" where
  "starts_with starts s = strneq starts s (length starts)"

section \<open>Request and status lines\<close>

definition parse_three :: "string \<Rightarrow> bool \<Rightarrow> (string \<times> string \<times> string) option" where
  "parse_three buf extra_space_ok =
    (let len = length buf in
     if len < 2 \<or> buf ! (len - 2) \<noteq> CHR 0x0D \<or> buf ! (len - 1) \<noteq> CHR 0x0A then None
     else
       let len = sz_sub len 2 in
       case strchr buf (CHR '' '') of
         None \<Rightarrow> None
       | Some s1 \<Rightarrow>
         (case strchr (drop (s1 + 1) buf) (CHR '' '') of
            None \<Rightarrow> None
          | Some off \<Rightarrow>
              let s2 = s1 + 1 + off in
              if \<not> extra_space_ok \<and> strchr (drop (s2 + 1) buf) (CHR '' '') \<noteq> None then None
              else
                let len1 = s1;
                    len2 = sz_sub s2 (s1 + 1);
                    len3 = sz_sub (sz_sub (sz_sub len len1) len2) 2
                in Some (take len1 buf, take len2 (drop (s1 + 1) buf), take len3 (drop (s2 + 1) buf))))"

definition parse_request_line :: "string \<Rightarrow> (string \<times> string \<times> string) option" where
  "parse_request_line buf = parse_three buf False"

definition parse_status_line :: "string \<Rightarrow> (string \<times> string \<times> string) option" where
  "parse_status_line buf = parse_three buf True"

section \<open>Header lines\<close>

text \<open>\<open>while (len && isspace(s[len-1])) --len\<close>\<close>

fun strip_trailing :: "string \<Rightarrow> nat \<Rightarrow> nat" where
  "strip_trailing s 0 = 0"
| "strip_trailing s (Suc n) = (if isspace (s ! n) then strip_trailing s n else Suc n)"

definition parse_header_line :: "string \<Rightarrow> string dictionary_t \<Rightarrow> (string dictionary_t \<times> string list) option"
  where
  "parse_header_line buf d =
     (case strchr buf (CHR '':'') of
        None \<Rightarrow> Some (d, [])
      | Some i \<Rightarrow>
          let name = take i buf;
              s = dropWhile isspace (drop (i + 1) buf);
              len = strip_trailing s (length s)
          in dictionary_set d (Some name) (take len s))"

section \<open>Query strings\<close>

definition IS_QSEP :: "char \<Rightarrow> bool" where
  "IS_QSEP c \<longleftrightarrow> c = CHR ''&'' \<or> c = CHR '';''"

text \<open>The end of the query: the terminator, or a fragment.\<close>

fun IS_END :: "string \<Rightarrow> bool" where
  "IS_END [] = True"
| "IS_END (c # s) = (c = CHR ''#'')"

definition ishexdigit :: "char \<Rightarrow> bool" where
  "ishexdigit v \<longleftrightarrow>
     (CHR ''0'' \<le> v \<and> v \<le> CHR ''9'') \<or> (CHR ''A'' \<le> v \<and> v \<le> CHR ''F'') \<or>
     (CHR ''a'' \<le> v \<and> v \<le> CHR ''f'')"

definition hex_value :: "char \<Rightarrow> nat" where
  "hex_value v =
     (if CHR ''0'' \<le> v \<and> v \<le> CHR ''9'' then of_char v - of_char (CHR ''0'')
      else if CHR ''A'' \<le> v \<and> v \<le> CHR ''F'' then of_char v - of_char (CHR ''A'') + 10
      else of_char v - of_char (CHR ''a'') + 10)"

text \<open>Storing into \<open>dest\<close> when there is one: the first pass has \<^term>\<open>None\<close>.\<close>

definition dput :: "cbuf option \<Rightarrow> nat \<Rightarrow> char \<Rightarrow> cbuf option option" where
  "dput dest j c = (case dest of None \<Rightarrow> Some None | Some b \<Rightarrow> map_option Some (cput b j c))"

fun dputs :: "cbuf option \<Rightarrow> nat \<Rightarrow> string \<Rightarrow> cbuf option option" where
  "dputs dest j [] = Some dest"
| "dputs dest j (c # cs) = Option.bind (dput dest j c) (\<lambda>dest'. dputs dest' (Suc j) cs)"

text \<open>The body of the \<open>for\<close> loop of \<open>query_decode\<close>, on the rest of the data.\<close>

fun decode_loop :: "string \<Rightarrow> cbuf option \<Rightarrow> nat \<Rightarrow> (cbuf option \<times> nat) option" where
  "decode_loop [] dest j = Some (dest, j)"
| "decode_loop (c # data) dest j =
     (case data of
        h1 # h2 # rest \<Rightarrow>
          if c = CHR ''%'' \<and> ishexdigit h1 \<and> ishexdigit h2
          then do { dest' \<leftarrow> dput dest j (char_of (hex_value h1 * 16 + hex_value h2));
                    decode_loop rest dest' (Suc j) }
          else do { dest' \<leftarrow> dput dest j (if c = CHR ''+'' then CHR '' '' else c);
                    decode_loop data dest' (Suc j) }
      | _ \<Rightarrow> do { dest' \<leftarrow> dput dest j (if c = CHR ''+'' then CHR '' '' else c);
                   decode_loop data dest' (Suc j) })"

text \<open>The two turns of \<open>while (1)\<close> that every codec of the file makes. \<open>j\<close> is an \<open>int\<close>: it grows up to the value that the
  first turn ends with, which the second turn reaches again, and \<open>malloc\<close> is called with \<open>j + 1\<close>; so none of the
  sums overflows if and only if that last one does not.\<close>

definition two_pass :: "(cbuf option \<Rightarrow> (cbuf option \<times> nat) option) \<Rightarrow> string option" where
  "two_pass loop =
     do { (dest, j) \<leftarrow> loop None;
          if int j < INT_MAX then
            do { (dest, j) \<leftarrow> loop (Some (malloc_buf (j + 1)));
                 b \<leftarrow> dest;
                 b' \<leftarrow> cput b j NUL;
                 cstr b' }
          else None }"

text \<open>Here \<open>i\<close>, which ends at the length of the data, is ahead of \<open>j\<close>.\<close>

definition query_decode :: "string \<Rightarrow> string option" where
  "query_decode data = (if int (length data) \<le> INT_MAX then two_pass (\<lambda>dest. decode_loop data dest 0) else None)"

definition hex_digit :: "nat \<Rightarrow> char" where
  "hex_digit v = (if v < 10 then char_of (of_char (CHR ''0'') + v)
                  else char_of (of_char (CHR ''a'') + (v - 10)))"

definition unreserved :: "char \<Rightarrow> bool" where
  "unreserved c \<longleftrightarrow>
     (CHR ''a'' \<le> c \<and> c \<le> CHR ''z'') \<or> (CHR ''A'' \<le> c \<and> c \<le> CHR ''Z'') \<or>
     (CHR ''0'' \<le> c \<and> c \<le> CHR ''9'')"

fun encode_loop :: "string \<Rightarrow> cbuf option \<Rightarrow> nat \<Rightarrow> (cbuf option \<times> nat) option" where
  "encode_loop [] dest j = Some (dest, j)"
| "encode_loop (c # data) dest j =
     (if unreserved c
      then do { dest' \<leftarrow> dput dest j c; encode_loop data dest' (Suc j) }
      else do { dest' \<leftarrow> dputs dest j [CHR ''%'', hex_digit (of_char c div 16), hex_digit (of_char c mod 16)];
                encode_loop data dest' (Suc (j + 2)) })"

definition query_encode :: "string \<Rightarrow> string option" where
  "query_encode data = two_pass (\<lambda>dest. encode_loop data dest 0)"

fun entity_loop :: "string \<Rightarrow> cbuf option \<Rightarrow> nat \<Rightarrow> (cbuf option \<times> nat) option" where
  "entity_loop [] dest j = Some (dest, j)"
| "entity_loop (c # data) dest j =
     (if c = CHR ''<'' \<or> c = CHR ''>''
      then do { dest' \<leftarrow> dputs dest j [CHR ''&'', if c = CHR ''<'' then CHR ''l'' else CHR ''g'', CHR ''t'', CHR '';''];
                entity_loop data dest' (Suc (j + 3)) }
      else if c = CHR ''&''
      then do { dest' \<leftarrow> dputs dest j ''&amp;''; entity_loop data dest' (Suc (j + 4)) }
      else if c = CHR 0x22
      then do { dest' \<leftarrow> dputs dest j ''&quot;''; entity_loop data dest' (Suc (j + 5)) }
      else do { dest' \<leftarrow> dput dest j c; entity_loop data dest' (Suc j) })"

definition entity_encode :: "string \<Rightarrow> string option" where
  "entity_encode data = two_pass (\<lambda>dest. entity_loop data dest 0)"

text \<open>One turn of the loop of \<open>parse_query\<close> on the rest of the buffer: the raw name, the raw
  data and what is left.\<close>

definition query_field :: "string \<Rightarrow> string \<times> string \<times> string" where
  "query_field buf =
     (let in_name = (\<lambda>c. c \<noteq> CHR ''#'' \<and> c \<noteq> CHR ''='' \<and> \<not> IS_QSEP c);
          in_data = (\<lambda>c. c \<noteq> CHR ''#'' \<and> \<not> IS_QSEP c);
          name = takeWhile in_name buf;
          buf = dropWhile in_name buf;
          buf = (if \<not> IS_END buf \<and> \<not> IS_QSEP (hd buf) then tl buf else buf);
          data = takeWhile in_data buf;
          buf = dropWhile in_data buf
      in (name, data, if \<not> IS_END buf then tl buf else buf))"

lemma query_field_shorter:
  assumes "\<not> IS_END buf" and "query_field buf = (name, data, rest)"
  shows "length rest < length buf"
proof -
  let ?in_name = "\<lambda>c. c \<noteq> CHR ''#'' \<and> c \<noteq> CHR ''='' \<and> \<not> IS_QSEP c"
  let ?in_data = "\<lambda>c. c \<noteq> CHR ''#'' \<and> \<not> IS_QSEP c"
  let ?b1 = "dropWhile ?in_name buf"
  let ?b2 = "if \<not> IS_END ?b1 \<and> \<not> IS_QSEP (hd ?b1) then tl ?b1 else ?b1"
  let ?b3 = "dropWhile ?in_data ?b2"
  have rest: "rest = (if \<not> IS_END ?b3 then tl ?b3 else ?b3)"
    using assms(2) by (simp add: query_field_def Let_def)
  have "length ?b2 \<le> length ?b1" and "length ?b3 \<le> length ?b2" and "length rest \<le> length ?b3"
    by (simp_all add: length_dropWhile_le rest)
  moreover obtain c s where buf: "buf = c # s" and c: "c \<noteq> CHR ''#''"
    using assms(1) by (cases buf) auto
  consider "?in_name c" | "c = CHR ''=''" | "IS_QSEP c" using c by blast
  then have "length ?b1 < length buf \<or> length ?b2 < length ?b1 \<or> length rest < length ?b3"
  proof cases
    case 1
    then show ?thesis by (simp add: buf less_Suc_eq_le length_dropWhile_le)
  next
    case 2
    then show ?thesis by (simp add: buf IS_QSEP_def)
  next
    case 3
    with c show ?thesis by (simp add: rest buf)
  qed
  moreover have "length ?b1 \<le> length buf" by (rule length_dropWhile_le)
  ultimately show ?thesis by linarith
qed

text \<open>\<open>parse_query\<close>: the dictionary and the values it destroyed. The decoded name is
  computed and discarded; the key that is stored is the raw one.\<close>

function parse_query :: "string \<Rightarrow> string dictionary_t \<Rightarrow> (string dictionary_t \<times> string list) option"
  where
  "parse_query buf d =
     (if IS_END buf then Some (d, [])
      else
        (let (name, data, rest) = query_field buf in
         do { d_name \<leftarrow> query_decode name;
              d_data \<leftarrow> query_decode data;
              (d1, fr1) \<leftarrow> dictionary_set d (Some name) d_data;
              (d2, fr2) \<leftarrow> parse_query rest d1;
              Some (d2, fr1 @ fr2) }))"
  by pat_completeness auto
termination
  by (relation "measure (\<lambda>(buf, d). length buf)") (auto dest: query_field_shorter [OF _ sym])

declare parse_query.simps [simp del]

definition parse_uriquery :: "string \<Rightarrow> string dictionary_t \<Rightarrow> (string dictionary_t \<times> string list) option"
  where
  "parse_uriquery buf d =
     (case strchr buf (CHR ''?'') of None \<Rightarrow> Some (d, []) | Some s \<Rightarrow> parse_query (drop (s + 1) buf) d)"

section \<open>Appending never overruns its buffer\<close>

lemma append_len_args:
  "append_len (map Some ss @ None # rest) len = Some (len + length (concat ss))"
  by (induction ss arbitrary: len) auto

lemma append_copy_args:
  "length (concat ss) \<le> n \<Longrightarrow>
    append_copy (map Some ss @ None # rest) (filled p n) (length p)
      = Some (filled (p @ concat ss) (n - length (concat ss)), length p + length (concat ss))"
proof (induction ss arbitrary: p n)
  case Nil
  then show ?case by simp
next
  case (Cons s ss)
  then have "append_copy (map Some ss @ None # rest) (filled (p @ s) (n - length s)) (length (p @ s))
      = Some (filled ((p @ s) @ concat ss) (n - length s - length (concat ss)),
              length (p @ s) + length (concat ss))"
    by (intro Cons.IH) simp
  with Cons.prems show ?case by (simp add: cbuf_simps)
qed

lemma append_strings_eq:
  assumes "\<forall>s \<in> set ss. nul_free s"
  shows "append_strings (map Some ss @ None # rest) = Some (concat ss)"
proof -
  let ?n = "length (concat ss)"
  have nf: "nul_free (concat ss)" using assms by (induction ss) auto
  have "append_copy (map Some ss @ None # rest) (filled [] (?n + 1)) 0 = Some (filled (concat ss) 1, ?n)"
    using append_copy_args [of ss "?n + 1" rest "[]"] by simp
  moreover have "cput (filled (concat ss) 1) ?n NUL = Some (filled (concat ss @ [NUL]) 0)"
    using cput_filled [of "concat ss" 0 NUL] by simp
  ultimately show ?thesis
    using nf by (simp add: append_strings_def append_len_args cbuf_simps)
qed

lemmas append_strings_simps =
  append_strings_eq [where ss = "[]", simplified]
  append_strings_eq [where ss = "s1 # ss" for s1 ss, simplified]

section \<open>Two passes over the data\<close>

lemma dput_simps [cbuf_simps]:
  "dput None j c = Some None"
  "dput (Some (filled p (Suc n))) (length p) c = Some (Some (filled (p @ [c]) n))"
  by (simp_all add: dput_def cput_filled)

lemma dputs_None [cbuf_simps]: "dputs None j cs = Some None"
  by (induction cs arbitrary: j) (auto simp: dput_simps)

lemma dputs_filled [cbuf_simps]:
  "length cs \<le> n \<Longrightarrow> dputs (Some (filled p n)) (length p) cs = Some (Some (filled (p @ cs) (n - length cs)))"
proof (induction cs arbitrary: p n)
  case Nil
  then show ?case by simp
next
  case (Cons c cs)
  then obtain m where n: "n = Suc m" by (cases n) auto
  have "dputs (Some (filled (p @ [c]) m)) (length (p @ [c])) cs
      = Some (Some (filled ((p @ [c]) @ cs) (m - length cs)))"
    using Cons.prems n by (intro Cons.IH) simp
  then show ?case by (simp add: n dput_simps)
qed

text \<open>A loop emits \<open>out\<close> when its counting pass counts it and its filling pass appends it.\<close>

definition emits :: "(cbuf option \<Rightarrow> nat \<Rightarrow> (cbuf option \<times> nat) option) \<Rightarrow> string \<Rightarrow> bool" where
  "emits loop out \<longleftrightarrow>
     (\<forall>j. loop None j = Some (None, j + length out)) \<and>
     (\<forall>p n. length out \<le> n \<longrightarrow>
        loop (Some (filled p n)) (length p)
          = Some (Some (filled (p @ out) (n - length out)), length p + length out))"

lemma two_pass_emits:
  assumes "emits loop out"
  shows "two_pass (\<lambda>dest. loop dest 0) = (if int (length out) < INT_MAX then Some (takeWhile (\<lambda>c. c \<noteq> NUL) out) else None)"
proof -
  have 1: "loop None 0 = Some (None, length out)" using assms by (simp add: emits_def)
  have "loop (Some (filled [] (length out + 1))) (length ([] :: string))
      = Some (Some (filled ([] @ out) (length out + 1 - length out)), length ([] :: string) + length out)"
    using assms unfolding emits_def by (meson le_add1)
  then have 2: "loop (Some (filled [] (Suc (length out)))) 0 = Some (Some (filled out (Suc 0)), length out)"
    by simp
  show ?thesis by (simp add: two_pass_def 1 2 cbuf_simps)
qed

lemma emits_Nil: "emits (\<lambda>dest j. Some (dest, j)) []"
  by (simp add: emits_def)

lemma emits_step:
  assumes "emits rest out"
  shows "emits (\<lambda>dest j. Option.bind (dputs dest j cs) (\<lambda>dest'. rest dest' (j + length cs))) (cs @ out)"
  unfolding emits_def
proof (intro conjI allI impI)
  fix j
  show "Option.bind (dputs None j cs) (\<lambda>dest'. rest dest' (j + length cs)) = Some (None, j + length (cs @ out))"
    using assms by (simp add: emits_def cbuf_simps)
next
  fix p n assume n: "length (cs @ out) \<le> n"
  have "rest (Some (filled q m)) (length q) = Some (Some (filled (q @ out) (m - length out)), length q + length out)"
    if "length out \<le> m" for q m
    using assms that by (simp add: emits_def)
  from this [of "n - length cs" "p @ cs"] n
  show "Option.bind (dputs (Some (filled p n)) (length p) cs) (\<lambda>dest'. rest dest' (length p + length cs))
      = Some (Some (filled (p @ cs @ out) (n - length (cs @ out))), length p + length (cs @ out))"
    by (simp add: cbuf_simps add.assoc)
qed

lemma emits_step1:
  "emits rest out \<Longrightarrow> emits (\<lambda>dest j. Option.bind (dput dest j c) (\<lambda>dest'. rest dest' (Suc j))) (c # out)"
  using emits_step [of rest out "[c]"] by simp

section \<open>What the codecs compute\<close>

fun decode_ref :: "string \<Rightarrow> string" where
  "decode_ref (c # h1 # h2 # s) =
     (if c = CHR ''%'' \<and> ishexdigit h1 \<and> ishexdigit h2
      then char_of (hex_value h1 * 16 + hex_value h2) # decode_ref s
      else (if c = CHR ''+'' then CHR '' '' else c) # decode_ref (h1 # h2 # s))"
| "decode_ref (c # s) = (if c = CHR ''+'' then CHR '' '' else c) # decode_ref s"
| "decode_ref [] = []"

definition encode_char :: "char \<Rightarrow> string" where
  "encode_char c =
     (if unreserved c then [c]
      else [CHR ''%'', hex_digit (of_char c div 16), hex_digit (of_char c mod 16)])"

definition encode_ref :: "string \<Rightarrow> string" where
  "encode_ref s = concat (map encode_char s)"

definition entity_char :: "char \<Rightarrow> string" where
  "entity_char c =
     (if c = CHR ''<'' then ''&lt;'' else if c = CHR ''>'' then ''&gt;''
      else if c = CHR ''&'' then ''&amp;'' else if c = CHR 0x22 then ''&quot;'' else [c])"

lemma decode_loop_emits: "emits (decode_loop data) (decode_ref data)"
proof (induction data rule: decode_ref.induct, goal_cases)
  case (1 c h1 h2 s)
  show ?case
  proof (cases "c = CHR ''%'' \<and> ishexdigit h1 \<and> ishexdigit h2")
    case True
    then have "decode_loop (c # h1 # h2 # s) = (\<lambda>dest j.
        Option.bind (dput dest j (char_of (hex_value h1 * 16 + hex_value h2))) (\<lambda>dest'. decode_loop s dest' (Suc j)))"
      by (simp add: fun_eq_iff)
    then show ?thesis using True emits_step1 [OF 1(1) [OF True]] by simp
  next
    case False
    then have "decode_loop (c # h1 # h2 # s) = (\<lambda>dest j.
        Option.bind (dput dest j (if c = CHR ''+'' then CHR '' '' else c))
          (\<lambda>dest'. decode_loop (h1 # h2 # s) dest' (Suc j)))"
      by (intro ext) (simp only: decode_loop.simps(2) [of c "h1 # h2 # s"] list.case if_False simp_thms)
    moreover have "decode_ref (c # h1 # h2 # s) = (if c = CHR ''+'' then CHR '' '' else c) # decode_ref (h1 # h2 # s)"
      using False by auto
    ultimately show ?thesis using emits_step1 [OF 1(2) [OF False]] by (simp only:)
  qed
next
  case (2 c)
  have "decode_loop [c] = (\<lambda>dest j.
      Option.bind (dput dest j (if c = CHR ''+'' then CHR '' '' else c)) (\<lambda>dest'. decode_loop [] dest' (Suc j)))"
    by (intro ext) (simp only: decode_loop.simps(2) [of c "[]"] list.case)
  then show ?case using emits_step1 [OF 2] by (simp only: decode_ref.simps)
next
  case (3 c d)
  have "decode_loop [c, d] = (\<lambda>dest j.
      Option.bind (dput dest j (if c = CHR ''+'' then CHR '' '' else c)) (\<lambda>dest'. decode_loop [d] dest' (Suc j)))"
    by (intro ext) (simp only: decode_loop.simps(2) [of c "[d]"] list.case)
  then show ?case using emits_step1 [OF 3] by (simp only: decode_ref.simps)
next
  case 4
  then show ?case by (simp add: emits_def)
qed

lemma encode_ref_simps [simp]:
  "encode_ref [] = []" "encode_ref (c # s) = encode_char c @ encode_ref s"
  by (simp_all add: encode_ref_def)

lemma encode_loop_emits: "emits (encode_loop data) (encode_ref data)"
proof (induction data)
  case Nil
  then show ?case by (simp add: emits_def)
next
  case (Cons c data)
  then show ?case
    using emits_step1 [OF Cons, of c] emits_step [OF Cons, of "encode_char c"]
    by (cases "unreserved c") (simp_all add: encode_char_def)
qed

lemma entity_loop_emits: "emits (entity_loop data) (concat (map entity_char data))"
proof (induction data)
  case Nil
  then show ?case by (simp add: emits_def)
next
  case (Cons c data)
  have "entity_loop (c # data) = (\<lambda>dest j.
      Option.bind (dputs dest j (entity_char c)) (\<lambda>dest'. entity_loop data dest' (j + length (entity_char c))))"
    by (simp add: fun_eq_iff entity_char_def eval_nat_numeral)
  then show ?case using emits_step [OF Cons, of "entity_char c"] by (simp only: list.map concat.simps)
qed

lemma length_decode_ref: "length (decode_ref data) \<le> length data"
  by (induction data rule: decode_ref.induct) auto

lemma query_decode_eq:
  "int (length data) < INT_MAX \<Longrightarrow> query_decode data = Some (takeWhile (\<lambda>c. c \<noteq> NUL) (decode_ref data))"
  using length_decode_ref [of data] by (simp add: query_decode_def two_pass_emits [OF decode_loop_emits])

lemma query_encode_eq:
  "query_encode data =
    (if int (length (encode_ref data)) < INT_MAX then Some (takeWhile (\<lambda>c. c \<noteq> NUL) (encode_ref data)) else None)"
  unfolding query_encode_def by (rule two_pass_emits [OF encode_loop_emits])

lemma entity_encode_eq:
  "entity_encode data =
    (if int (length (concat (map entity_char data))) < INT_MAX
     then Some (takeWhile (\<lambda>c. c \<noteq> NUL) (concat (map entity_char data))) else None)"
  unfolding entity_encode_def by (rule two_pass_emits [OF entity_loop_emits])

lemma hex_digit_props:
  assumes "n < 16"
  shows "ishexdigit (hex_digit n)" "hex_value (hex_digit n) = n" "unreserved (hex_digit n)"
proof -
  have "\<forall>n \<in> set [0..<16]. ishexdigit (hex_digit n) \<and> hex_value (hex_digit n) = n \<and> unreserved (hex_digit n)"
    by code_simp
  moreover have "n \<in> set [0..<16]" using assms by simp
  ultimately show "ishexdigit (hex_digit n)" "hex_value (hex_digit n) = n" "unreserved (hex_digit n)"
    by blast+
qed

lemma unreserved_not: "unreserved c \<Longrightarrow> c \<noteq> CHR ''%'' \<and> c \<noteq> CHR ''+'' \<and> c \<noteq> NUL \<and>
    c \<noteq> CHR ''='' \<and> c \<noteq> CHR ''&'' \<and> c \<noteq> CHR '';'' \<and> c \<noteq> CHR ''#''"
  by (auto simp: unreserved_def NUL_def less_eq_char_code)

lemma of_char_256: "(of_char c :: nat) < 256"
  by (rule nat_of_char_less_256)

lemma decode_plain: "c \<noteq> CHR ''%'' \<Longrightarrow> c \<noteq> CHR ''+'' \<Longrightarrow> decode_ref (c # s) = c # decode_ref s"
proof (cases s)
  case (Cons d t)
  then show "c \<noteq> CHR ''%'' \<Longrightarrow> c \<noteq> CHR ''+'' \<Longrightarrow> ?thesis" by (cases t) simp_all
qed simp

lemma decode_encode_char: "decode_ref (encode_char c @ s) = c # decode_ref s"
proof (cases "unreserved c")
  case True
  then show ?thesis using unreserved_not [OF True] by (simp add: encode_char_def decode_plain)
next
  case False
  have lt: "of_char c div 16 < (16 :: nat)" "of_char c mod 16 < (16 :: nat)"
    using of_char_256 [of c] by (auto intro: less_mult_imp_div_less)
  have "char_of (of_char c div 16 * 16 + of_char c mod 16 :: nat) = c" by simp
  then show ?thesis using False lt by (simp add: encode_char_def hex_digit_props)
qed

lemma decode_encode_ref: "decode_ref (encode_ref s) = s"
  by (induction s) (auto simp: decode_encode_char)

lemma encode_char_set: "x \<in> set (encode_char c) \<Longrightarrow> unreserved x \<or> x = CHR ''%''"
proof -
  have lt: "of_char c div 16 < (16 :: nat)" "of_char c mod 16 < (16 :: nat)"
    using of_char_256 [of c] by (auto intro: less_mult_imp_div_less)
  show "x \<in> set (encode_char c) \<Longrightarrow> unreserved x \<or> x = CHR ''%''"
    using hex_digit_props [OF lt(1)] hex_digit_props [OF lt(2)]
    by (auto simp: encode_char_def split: if_splits)
qed

lemma encode_set: "x \<in> set (encode_ref s) \<Longrightarrow> unreserved x \<or> x = CHR ''%''"
  by (induction s) (auto dest: encode_char_set)

lemma encode_nul_free [simp]: "nul_free (encode_ref s)"
proof -
  have "NUL \<notin> set (encode_ref s)"
    using encode_set [of NUL s] unreserved_not [of NUL] by (auto simp: NUL_def)
  then show ?thesis by (simp add: nul_free_def)
qed

lemma query_encode_ref: "query_encode s = (if int (length (encode_ref s)) < INT_MAX then Some (encode_ref s) else None)"
  by (simp add: query_encode_eq)

text \<open>How long an encoded string is.\<close>

definition encoded_length :: "string \<Rightarrow> int" where
  "encoded_length s = int (length s) + 2 * int (length (filter (\<lambda>c. \<not> unreserved c) s))"

lemma length_encode_ref: "int (length (encode_ref s)) = encoded_length s"
  by (induction s) (auto simp: encoded_length_def encode_char_def)

section \<open>Correctness of the codecs\<close>

text \<open>C18. Encoding is defined exactly for the strings whose encoded form, with two bytes more for every
  character that is neither a letter nor a digit, has fewer than \<open>INT_MAX\<close> bytes; for longer ones the \<open>int\<close> that
  counts them overflows. Where it is defined, decoding the result gives the string back, neither pass of either codec ever
  writes outside the buffer the counting pass sized, and the encoded text consists of
  letters, digits and percent signs only.\<close>

theorem query_roundtrip:
  assumes "nul_free s"
  shows "(query_encode s \<noteq> None \<longleftrightarrow> encoded_length s < INT_MAX) \<and>
    (\<forall>e. query_encode s = Some e \<longrightarrow> query_decode e = Some s \<and> int (length e) = encoded_length s \<and>
      (\<forall>c \<in> set e. unreserved c \<or> c = CHR ''%''))"
  using assms encode_set length_encode_ref [of s] by (auto simp: query_encode_ref query_decode_eq decode_encode_ref)

theorem query_roundtrip_witness:
  "nul_free ''a b&c'' \<and>
   (\<exists>e. query_encode ''a b&c'' = Some e \<and> query_decode e = Some ''a b&c'' \<and>
      (\<forall>c \<in> set e. unreserved c \<or> c = CHR ''%''))"
proof -
  have n: "nul_free ''a b&c''" by (simp add: NUL_def)
  have "encoded_length ''a b&c'' < INT_MAX" by code_simp
  then show ?thesis using n query_roundtrip [OF n] by auto
qed

lemma entity_char_props:
  "set (entity_char c) \<inter> {CHR ''<'', CHR ''>'', CHR 0x22} = {}"
  by (auto simp: entity_char_def)

fun entity_ref :: "string \<Rightarrow> string" where
  "entity_ref [] = []"
| "entity_ref (c # s) =
     (if c = CHR ''&''
      then (if take 3 s = ''lt;'' then CHR ''<'' # entity_ref (drop 3 s)
            else if take 3 s = ''gt;'' then CHR ''>'' # entity_ref (drop 3 s)
            else if take 4 s = ''amp;'' then CHR ''&'' # entity_ref (drop 4 s)
            else if take 5 s = ''quot;'' then CHR 0x22 # entity_ref (drop 5 s)
            else c # entity_ref s)
      else c # entity_ref s)"

lemma entity_ref_char: "entity_ref (entity_char c @ s) = c # entity_ref s"
  by (auto simp: entity_char_def)

lemma entity_ref_map: "entity_ref (concat (map entity_char s)) = s"
  by (induction s) (auto simp: entity_ref_char)

lemma entity_nul_free: "nul_free s \<Longrightarrow> nul_free (concat (map entity_char s))"
  by (induction s) (auto simp: entity_char_def NUL_def)

text \<open>How long an escaped string is.\<close>

definition escaped_length :: "string \<Rightarrow> int" where
  "escaped_length s =
    (\<Sum>c\<leftarrow>s. if c = CHR ''<'' \<or> c = CHR ''>'' then 4 else if c = CHR ''&'' then 5 else if c = CHR 0x22 then 6 else 1)"

lemma length_escaped: "int (length (concat (map entity_char s))) = escaped_length s"
  by (induction s) (auto simp: escaped_length_def entity_char_def)

text \<open>C19. \<open>entity_encode\<close> is defined exactly for the strings whose escaped form has fewer than \<open>INT_MAX\<close> bytes; for
  longer ones the \<open>int\<close> that counts them overflows. Where it is defined it never overruns its buffer, leaves no angle
  bracket or double quote in its result, and loses nothing: two strings with the same encoding are equal.\<close>

theorem entity_encode_safe:
  assumes "nul_free s"
  shows "(entity_encode s \<noteq> None \<longleftrightarrow> escaped_length s < INT_MAX) \<and>
    (\<forall>e. entity_encode s = Some e \<longrightarrow> set e \<inter> {CHR ''<'', CHR ''>'', CHR 0x22} = {} \<and> int (length e) = escaped_length s \<and>
     (\<forall>t. nul_free t \<longrightarrow> entity_encode t = Some e \<longrightarrow> t = s))"
proof -
  have "entity_encode t = (if escaped_length t < INT_MAX then Some (concat (map entity_char t)) else None)" if "nul_free t" for t
    using entity_nul_free [OF that] by (simp add: entity_encode_eq length_escaped)
  moreover have "set (concat (map entity_char s)) \<inter> {CHR ''<'', CHR ''>'', CHR 0x22} = {}"
    using entity_char_props by fastforce
  moreover have "t = s" if "concat (map entity_char t) = concat (map entity_char s)" for t
    using arg_cong [OF that, of entity_ref] by (simp add: entity_ref_map)
  ultimately show ?thesis using assms length_escaped [of s] by (auto split: if_splits)
qed

theorem entity_encode_safe_witness:
  "nul_free ''<a&b>'' \<and>
   (\<exists>e. entity_encode ''<a&b>'' = Some e \<and> set e \<inter> {CHR ''<'', CHR ''>'', CHR 0x22} = {})"
proof -
  have n: "nul_free ''<a&b>''" by (simp add: NUL_def)
  have "escaped_length ''<a&b>'' < INT_MAX" by code_simp
  then obtain e where "entity_encode ''<a&b>'' = Some e"
    using conjunct1 [OF entity_encode_safe [OF n]] by fast
  then show ?thesis using n conjunct2 [OF entity_encode_safe [OF n]] by fast
qed

section \<open>Correctness of the request line parser\<close>

lemma nth_crlf:
  "(2 \<le> length buf \<and> buf ! (length buf - 2) = CHR 0x0D \<and> buf ! (length buf - 1) = CHR 0x0A)
     \<longleftrightarrow> (\<exists>b. buf = b @ crlf)"
proof
  assume h: "2 \<le> length buf \<and> buf ! (length buf - 2) = CHR 0x0D \<and> buf ! (length buf - 1) = CHR 0x0A"
  have "drop (length buf - 2) buf = [buf ! (length buf - 2), buf ! (length buf - 1)]"
    using h by (intro nth_equalityI) (auto simp: less_2_cases_iff)
  then have "buf = take (length buf - 2) buf @ crlf"
    using h append_take_drop_id [of "length buf - 2" buf] by (simp add: crlf_def)
  then show "\<exists>b. buf = b @ crlf" by blast
next
  assume "\<exists>b. buf = b @ crlf"
  then show "2 \<le> length buf \<and> buf ! (length buf - 2) = CHR 0x0D \<and> buf ! (length buf - 1) = CHR 0x0A"
    by (auto simp: crlf_def nth_append)
qed

lemma parse_three_crlf:
  assumes len: "length b + 2 < 2 ^ 64"
  shows "parse_three (b @ crlf) ok =
    (case strchr b (CHR '' '') of None \<Rightarrow> None
     | Some i \<Rightarrow> (case strchr (drop (i + 1) b) (CHR '' '') of None \<Rightarrow> None
        | Some j \<Rightarrow> if \<not> ok \<and> CHR '' '' \<in> set (drop (i + 1 + j + 1) b) then None
                   else Some (take i b, take j (drop (i + 1) b), drop (i + 1 + j + 1) b)))"
proof -
  have no: "CHR '' '' \<notin> set crlf" by (simp add: crlf_def)
  have strchr_app: "strchr (x @ crlf) (CHR '' '') = strchr x (CHR '' '')" for x
    using no by (induction x) (auto simp: crlf_def)
  have l: "length (b @ crlf) = length b + 2" by (simp add: crlf_def)
  have cr: "(b @ crlf) ! (length (b @ crlf) - 2) = CHR 0x0D" "(b @ crlf) ! (length (b @ crlf) - 1) = CHR 0x0A"
    by (simp_all add: crlf_def nth_append)
  show ?thesis
  proof (cases "strchr b (CHR '' '')")
    case None
    then show ?thesis using l cr by (simp add: parse_three_def strchr_app Let_def)
  next
    case (Some i)
    then have i: "i < length b" using strchr_Some by blast
    have d1: "drop (i + 1) (b @ crlf) = drop (i + 1) b @ crlf" using i by simp
    show ?thesis
    proof (cases "strchr (drop (i + 1) b) (CHR '' '')")
      case None
      then show ?thesis using Some l cr d1 by (simp add: parse_three_def strchr_app Let_def)
    next
      case S2: (Some j)
      then have j: "i + 1 + j < length b" using strchr_Some [OF S2] by auto
      have d2: "drop (i + 1 + j + 1) (b @ crlf) = drop (i + 1 + j + 1) b @ crlf" using j by simp
      have sz: "sz_sub (length b + 2) 2 = length b" "sz_sub (i + 1 + j) (i + 1) = j"
        "sz_sub (sz_sub (sz_sub (length b) i) j) 2 = length b - i - j - 2"
        using j len by (simp_all add: sz_sub_exact)
      have t1: "take i (b @ crlf) = take i b" using i by simp
      have t2: "take j (drop (i + 1) b @ crlf) = take j (drop (i + 1) b)" using j by simp
      have t3: "take (length b - i - j - 2) (drop (i + 1 + j + 1) b @ crlf) = drop (i + 1 + j + 1) b"
        using j by simp
      have cond: "(length b + 2 < 2 \<or> (b @ crlf) ! (length b + 2 - 2) \<noteq> CHR 0x0D \<or>
          (b @ crlf) ! (length b + 2 - 1) \<noteq> CHR 0x0A) = False"
        using cr unfolding l by simp
      show ?thesis
        by (simp only: parse_three_def Let_def strchr_app d1 d2 l cond if_False Some S2 option.case sz t1 t2 t3)
          (simp add: strchr_None_iff)
    qed
  qed
qed

text \<open>C20. \<open>parse_request_line\<close> accepts exactly the lines made of three space-free parts
  separated by single spaces and ended by CR LF, and returns those parts: the
  \<open>size_t\<close> arithmetic that computes the three lengths never wraps.\<close>

theorem parse_request_line_iff:
  assumes "length buf < 2 ^ 64"
  shows "parse_request_line buf = Some (m, u, v) \<longleftrightarrow>
    buf = m @ '' '' @ u @ '' '' @ v @ crlf \<and>
    CHR '' '' \<notin> set m \<and> CHR '' '' \<notin> set u \<and> CHR '' '' \<notin> set v"
proof
  assume parsed: "parse_request_line buf = Some (m, u, v)"
  then have "2 \<le> length buf \<and> buf ! (length buf - 2) = CHR 0x0D \<and> buf ! (length buf - 1) = CHR 0x0A"
    by (auto simp: parse_request_line_def parse_three_def Let_def split: if_splits)
  then obtain b where b: "buf = b @ crlf" using nth_crlf by blast
  have len: "length b + 2 < 2 ^ 64" using assms by (simp add: b crlf_def)
  obtain i j where i: "strchr b (CHR '' '') = Some i" and j: "strchr (drop (i + 1) b) (CHR '' '') = Some j"
    and ns: "CHR '' '' \<notin> set (drop (i + 1 + j + 1) b)"
    and muv: "m = take i b" "u = take j (drop (i + 1) b)" "v = drop (i + 1 + j + 1) b"
    using parsed unfolding parse_request_line_def b parse_three_crlf [OF len]
    by (auto split: option.splits if_splits)
  have "b = take i b @ CHR '' '' # drop (Suc i) b" by (rule strchr_SomeD [OF i])
  moreover have "drop (i + 1) b = take j (drop (i + 1) b) @ CHR '' '' # drop (Suc j) (drop (i + 1) b)"
    by (rule strchr_SomeD [OF j])
  ultimately have "b = m @ '' '' @ u @ '' '' @ v"
    by (simp add: muv drop_drop) (metis add.commute)
  then show "buf = m @ '' '' @ u @ '' '' @ v @ crlf \<and> CHR '' '' \<notin> set m \<and> CHR '' '' \<notin> set u \<and> CHR '' '' \<notin> set v"
    using strchr_Some [OF i] strchr_Some [OF j] ns by (simp add: b muv)
next
  assume h: "buf = m @ '' '' @ u @ '' '' @ v @ crlf \<and> CHR '' '' \<notin> set m \<and> CHR '' '' \<notin> set u \<and> CHR '' '' \<notin> set v"
  let ?b = "m @ '' '' @ u @ '' '' @ v"
  have b: "buf = ?b @ crlf" using h by simp
  have len: "length ?b + 2 < 2 ^ 64" using assms by (simp add: b crlf_def)
  have i: "strchr ?b (CHR '' '') = Some (length m)" using h by (simp add: strchr_append)
  have d: "drop (length m + 1) ?b = u @ '' '' @ v" by simp
  have j: "strchr (drop (length m + 1) ?b) (CHR '' '') = Some (length u)"
    using h unfolding d by (simp add: strchr_append)
  have d2: "drop (length m + 1 + length u + 1) ?b = v" by simp
  show "parse_request_line buf = Some (m, u, v)"
    unfolding parse_request_line_def b parse_three_crlf [OF len] i option.case j d2
    using h by simp
qed

theorem parse_request_line_iff_witness:
  "length (''GET /say HTTP/1.1'' @ crlf) < 2 ^ 64 \<and>
   parse_request_line (''GET /say HTTP/1.1'' @ crlf) = Some (''GET'', ''/say'', ''HTTP/1.1'')"
proof -
  have n: "length (''GET /say HTTP/1.1'' @ crlf) < 2 ^ 64" by (simp add: crlf_def)
  show ?thesis using n parse_request_line_iff [OF n, of "''GET''" "''/say''" "''HTTP/1.1''"] by simp
qed

section \<open>Correctness of the query parser\<close>

text \<open>The fields of a query, in order.\<close>

function query_fields :: "string \<Rightarrow> (string \<times> string) list" where
  "query_fields buf =
     (if IS_END buf then []
      else (let (name, data, rest) = query_field buf in (name, data) # query_fields rest))"
  by pat_completeness auto
termination
  by (relation "measure length") (auto dest: query_field_shorter [OF _ sym])

declare query_fields.simps [simp del]

definition decoded :: "string \<Rightarrow> string" where
  "decoded s = takeWhile (\<lambda>c. c \<noteq> NUL) (decode_ref s)"

text \<open>\<open>parse_query\<close> is a sequence of stores into the dictionary.\<close>

lemma query_field_lengths:
  assumes "query_field buf = (n, v, r)"
  shows "length n \<le> length buf" "length v \<le> length buf" "length r \<le> length buf"
proof -
  let ?in_name = "\<lambda>c. c \<noteq> CHR ''#'' \<and> c \<noteq> CHR ''='' \<and> \<not> IS_QSEP c"
  let ?in_data = "\<lambda>c. c \<noteq> CHR ''#'' \<and> \<not> IS_QSEP c"
  let ?b1 = "dropWhile ?in_name buf"
  let ?b2 = "if \<not> IS_END ?b1 \<and> \<not> IS_QSEP (hd ?b1) then tl ?b1 else ?b1"
  let ?b3 = "dropWhile ?in_data ?b2"
  have parts: "n = takeWhile ?in_name buf" "v = takeWhile ?in_data ?b2" "r = (if \<not> IS_END ?b3 then tl ?b3 else ?b3)"
    using assms by (simp_all add: query_field_def Let_def)
  have "length ?b2 \<le> length ?b1" "length ?b1 \<le> length buf" "length ?b3 \<le> length ?b2" "length r \<le> length ?b3"
    by (simp_all add: length_dropWhile_le parts(3))
  moreover have "length v \<le> length ?b2" unfolding parts(2) by (rule length_takeWhile_le)
  ultimately show "length v \<le> length buf" "length r \<le> length buf" by linarith+
  show "length n \<le> length buf" unfolding parts(1) by (rule length_takeWhile_le)
qed

lemma parse_query_set_all:
  "int (length buf) < INT_MAX \<Longrightarrow> parse_query buf d =
     set_all (\<lambda>d k v. dictionary_set d (Some k) v) d (map (\<lambda>(n, v). (n, decoded v)) (query_fields buf))"
proof (induction buf arbitrary: d rule: query_fields.induct)
  case (1 buf)
  show ?case
  proof (cases "IS_END buf")
    case True
    then show ?thesis by (simp add: parse_query.simps [of buf] query_fields.simps [of buf])
  next
    case False
    obtain n v r where f: "query_field buf = (n, v, r)" by (metis prod_cases3)
    have len: "int (length n) < INT_MAX" "int (length v) < INT_MAX" "int (length r) < INT_MAX"
      using query_field_lengths [OF f] "1.prems" by linarith+
    have "parse_query r d1 =
        set_all (\<lambda>d k v. dictionary_set d (Some k) v) d1 (map (\<lambda>(n, v). (n, decoded v)) (query_fields r))" for d1
      using "1.IH" [OF False refl] f len(3) by simp
    with False f len(1,2) show ?thesis
      by (simp add: parse_query.simps [of buf] query_fields.simps [of buf] query_decode_eq decoded_def)
  qed
qed

lemmas parse_query_ok =
  dict.set_all_ok [where kvs = "map (\<lambda>(n, v). (n, decoded v)) (query_fields buf)" for buf]

text \<open>A query string as a client builds one.\<close>

fun form :: "(string \<times> string) list \<Rightarrow> string" where
  "form [] = []"
| "form [(n, v)] = encode_ref n @ ''='' @ encode_ref v"
| "form ((n, v) # kvs) = encode_ref n @ ''='' @ encode_ref v @ ''&'' @ form kvs"

lemma query_field_split:
  assumes "IS_END rest \<and> rest' = rest \<or> rest = CHR ''&'' # rest'"
    and n: "\<And>c. c \<in> set n \<Longrightarrow> c \<noteq> CHR ''#'' \<and> c \<noteq> CHR ''='' \<and> \<not> IS_QSEP c"
    and v: "\<And>c. c \<in> set v \<Longrightarrow> c \<noteq> CHR ''#'' \<and> \<not> IS_QSEP c"
  shows "query_field (n @ ''='' @ v @ rest) = (n, v, rest')"
proof -
  have stop: "takeWhile P rest = []" "dropWhile P rest = rest"
    if "\<not> P (CHR ''#'')" "\<not> P (CHR ''&'')" for P
    using assms that by (cases rest; auto)+
  have "takeWhile (\<lambda>c. c \<noteq> CHR ''#'' \<and> c \<noteq> CHR ''='' \<and> \<not> IS_QSEP c) (n @ ''='' @ v @ rest) = n"
    "dropWhile (\<lambda>c. c \<noteq> CHR ''#'' \<and> c \<noteq> CHR ''='' \<and> \<not> IS_QSEP c) (n @ ''='' @ v @ rest) = ''='' @ v @ rest"
    using n by (simp_all add: takeWhile_append2 dropWhile_append2)
  moreover have "takeWhile (\<lambda>c. c \<noteq> CHR ''#'' \<and> \<not> IS_QSEP c) (v @ rest) = v"
    "dropWhile (\<lambda>c. c \<noteq> CHR ''#'' \<and> \<not> IS_QSEP c) (v @ rest) = rest"
    using v stop by (simp_all add: takeWhile_append2 dropWhile_append2 IS_QSEP_def)
  ultimately show ?thesis
    using assms by (auto simp: query_field_def Let_def IS_QSEP_def)
qed

lemma encode_safe:
  "c \<in> set (encode_ref s) \<Longrightarrow> c \<noteq> CHR ''#'' \<and> c \<noteq> CHR ''='' \<and> \<not> IS_QSEP c"
proof -
  assume "c \<in> set (encode_ref s)"
  then have "unreserved c \<or> c = CHR ''%''" by (rule encode_set)
  then show ?thesis using unreserved_not [of c] by (auto simp: IS_QSEP_def)
qed

lemma query_field_form:
  "IS_END rest \<and> rest' = rest \<or> rest = CHR ''&'' # rest' \<Longrightarrow>
    query_field (encode_ref n @ ''='' @ encode_ref v @ rest)
     = (encode_ref n, encode_ref v, rest')"
  by (rule query_field_split) (use encode_safe in blast)+

lemma not_end_form: "\<not> IS_END (encode_ref n @ ''='' @ w)"
proof (cases "encode_ref n")
  case (Cons c t)
  then have "c \<noteq> CHR ''#''" using encode_safe [of c n] by auto
  with Cons show ?thesis by simp
next
  case Nil
  then show ?thesis by simp
qed

lemma query_fields_form:
  "query_fields (form kvs) = map (\<lambda>(n, v). (encode_ref n, encode_ref v)) kvs"
proof (induction kvs rule: form.induct)
  case 1
  then show ?case by (simp add: query_fields.simps)
next
  case (2 n v)
  have "query_fields [] = []" by (simp add: query_fields.simps)
  then show ?case
    using query_field_form [of "[]" "[]" n v] not_end_form [of n "encode_ref v"]
    by (simp add: query_fields.simps [of "encode_ref n @ ''='' @ encode_ref v", simplified])
next
  case (3 n v kv kvs)
  show ?case
    using query_field_form [of "''&'' @ form (kv # kvs)" "form (kv # kvs)" n v] 3 not_end_form [of n]
    by (simp add: query_fields.simps [of "form ((n, v) # kv # kvs)", simplified])
qed

text \<open>C21. Parsing a form submission stores, for every field, the decoded value, the last
  occurrence of a name winning; no input makes the parser misbehave. The key under which a
  value is found is the name as it was encoded, not the decoded name. The text of the form has fewer than \<open>INT_MAX\<close>
  bytes.\<close>

theorem parse_query_form:
  assumes "dict_ok d" and "\<forall>(n, v) \<in> set kvs. nul_free v" and "int (length (form kvs)) < INT_MAX"
  shows "\<exists>d' fr. parse_query (form kvs) d = Some (d', fr) \<and> dict_ok d' \<and>
    (\<forall>j. dictionary_get d' (Some j) =
      (case last_binding (\<lambda>k. canon (compare_mode d) k = canon (compare_mode d) j)
              (map (\<lambda>(n, v). (encode_ref n, v)) kvs) of
         Some v \<Rightarrow> Some (Some v) | None \<Rightarrow> dictionary_get d (Some j)))"
proof -
  have "decoded (encode_ref v) = v" if "(n, v) \<in> set kvs" for n v
  proof -
    have "nul_free v" using assms(2) that by blast
    then show ?thesis by (simp add: decoded_def decode_encode_ref)
  qed
  then have "map (\<lambda>(n, v). (n, decoded v)) (query_fields (form kvs))
      = map (\<lambda>(n, v). (encode_ref n, v)) kvs"
    by (auto simp: query_fields_form)
  with parse_query_ok [OF assms(1), of "form kvs"] show ?thesis by (auto simp: parse_query_set_all [OF assms(3)])
qed

theorem parse_query_form_witness:
  "dict_ok (make_dictionary COMPARE_CASE_SENS :: string dictionary_t) \<and>
   (\<exists>d' fr. parse_query (form [(''topic'', ''a b''), (''x y'', ''1'')])
        (make_dictionary COMPARE_CASE_SENS) = Some (d', fr) \<and>
      dictionary_get d' (Some ''topic'') = Some (Some ''a b'') \<and>
      dictionary_get d' (Some ''x%20y'') = Some (Some ''1'') \<and>
      dictionary_get d' (Some ''x y'') = Some None)"
proof -
  let ?d = "make_dictionary COMPARE_CASE_SENS :: string dictionary_t"
  let ?kvs = "[(''topic'', ''a b''), (''x y'', ''1'')]"
  have ok: "dict_ok ?d" by simp
  have n: "\<forall>(n, v) \<in> set ?kvs. nul_free v" by (simp add: NUL_def)
  have e: "encode_ref ''topic'' = ''topic''" "encode_ref ''x y'' = ''x%20y''"
    by code_simp+
  have len: "int (length (form ?kvs)) < INT_MAX" by code_simp
  have "dictionary_get ?d (Some ''x y'') = Some None" by (simp add: dictionary_get_map)
  then show ?thesis
    using parse_query_form [OF ok n len]
    by (auto simp: e simp del: encode_ref_simps)
qed

text \<open>The raw name is the key: a parameter whose name needs decoding is not found.\<close>

lemma parse_query_key_not_decoded:
  "\<exists>d' fr. parse_query ''my%20topic=x'' (make_dictionary COMPARE_CASE_SENS) = Some (d', fr) \<and>
     dictionary_get d' (Some ''my topic'') = Some None \<and>
     dictionary_get d' (Some ''my%20topic'') = Some (Some ''x'')"
proof -
  have f: "query_fields ''my%20topic=x'' = [(''my%20topic'', ''x'')]" by code_simp
  have d: "decoded ''x'' = ''x''" by code_simp
  show ?thesis
    using parse_query_ok [OF dict_ok_make [of COMPARE_CASE_SENS], of "''my%20topic=x''"] f d
      parse_query_set_all [of "''my%20topic=x''"]
    by (auto simp: dictionary_get_map INT_MAX_def)
qed

end
