(* ===== verification/Kernels.thy ===== *)
theory Kernels
  imports Complex_Main "HOL-Library.Word"
begin

text \<open>
  The image kernels of \<open>Performancelab/kernels.c\<close>. Memory is flat and counted in pixels: an
  image pointer is the address of its first pixel, a store changes one cell whatever image it
  belongs to, and a loop that ran over the edge of an image would be seen to change or read
  the neighbouring cells. The kernels are proved equal to the naive versions, which in turn
  are characterised pixel by pixel.
\<close>

section \<open>Images\<close>

record pixel =
  red :: "16 word"
  green :: "16 word"
  blue :: "16 word"

type_synonym mem = "int \<Rightarrow> pixel"

definition RIDX :: "int \<Rightarrow> int \<Rightarrow> int \<Rightarrow> int" where
  "RIDX i j n = i * n + j"

text \<open>\<open>for (x = i; x < n; x += k) body\<close>, for a positive constant step.\<close>

function for_lt :: "int \<Rightarrow> int \<Rightarrow> int \<Rightarrow> (int \<Rightarrow> 's \<Rightarrow> 's) \<Rightarrow> 's \<Rightarrow> 's" where
  "for_lt i n k body s = (if i < n \<and> 0 < k then for_lt (i + k) n k body (body i s) else s)"
  by pat_completeness auto
termination
  by (relation "measure (\<lambda>(i, n, k, body, s). nat (n - i))") auto

declare for_lt.simps [simp del]

section \<open>The pinwheel kernels\<close>

definition naive_pinwheel :: "int \<Rightarrow> int \<Rightarrow> int \<Rightarrow> mem \<Rightarrow> mem" where
  "naive_pinwheel dm src dest m =
    (let m = for_lt 0 (dm div 2) 1 (\<lambda>i. for_lt 0 (dm div 2) 1 (\<lambda>j m.
               m(dest + RIDX (dm div 2 - 1 - j) i dm := m (src + RIDX i j dm)))) m;
         m = for_lt 0 (dm div 2) 1 (\<lambda>i. for_lt 0 (dm div 2) 1 (\<lambda>j m.
               m(dest + RIDX (dm div 2 - 1 - j) (dm div 2 + i) dm :=
                   m (src + RIDX i (dm div 2 + j) dm)))) m;
         m = for_lt 0 (dm div 2) 1 (\<lambda>i. for_lt 0 (dm div 2) 1 (\<lambda>j m.
               m(dest + RIDX (dm - 1 - j) i dm := m (src + RIDX (dm div 2 + i) j dm)))) m;
         m = for_lt 0 (dm div 2) 1 (\<lambda>i. for_lt 0 (dm div 2) 1 (\<lambda>j m.
               m(dest + RIDX (dm - 1 - j) (dm div 2 + i) dm :=
                   m (src + RIDX (dm div 2 + i) (dm div 2 + j) dm)))) m
     in m)"

text \<open>The six-fold loop that every blocked kernel uses, over 8 by 8 tiles.\<close>

definition tile_loop :: "int \<Rightarrow> (int \<Rightarrow> int \<Rightarrow> 's \<Rightarrow> 's) \<Rightarrow> 's \<Rightarrow> 's" where
  "tile_loop n body =
     for_lt 0 n 8 (\<lambda>i.
       for_lt 0 n 8 (\<lambda>j.
         for_lt j (j + 8) 8 (\<lambda>jj.
           for_lt i (i + 8) 8 (\<lambda>ii.
             for_lt jj (jj + 8) 1 (\<lambda>jjj.
               for_lt ii (ii + 8) 1 (\<lambda>iii. body iii jjj))))))"

definition pinwheel :: "int \<Rightarrow> int \<Rightarrow> int \<Rightarrow> mem \<Rightarrow> mem" where
  "pinwheel dm src dest m =
    (let semi_dim = dm div 2;
         m = tile_loop semi_dim (\<lambda>iii jjj m.
               m(dest + RIDX (semi_dim - 1 - jjj) iii dm := m (src + RIDX iii jjj dm))) m;
         m = tile_loop semi_dim (\<lambda>iii jjj m.
               m(dest + RIDX (semi_dim - 1 - jjj) (semi_dim + iii) dm :=
                   m (src + RIDX iii (semi_dim + jjj) dm))) m;
         m = tile_loop semi_dim (\<lambda>iii jjj m.
               m(dest + RIDX (dm - 1 - jjj) iii dm := m (src + RIDX (semi_dim + iii) jjj dm))) m;
         m = tile_loop semi_dim (\<lambda>iii jjj m.
               m(dest + RIDX (dm - 1 - jjj) (semi_dim + iii) dm :=
                   m (src + RIDX (semi_dim + iii) (semi_dim + jjj) dm))) m
     in m)"

section \<open>The motion kernels\<close>

record pixel_sum =
  sred :: int
  sgreen :: int
  sblue :: int

definition initialize_pixel_sum :: pixel_sum where
  "initialize_pixel_sum = \<lparr>sred = 0, sgreen = 0, sblue = 0\<rparr>"

text \<open>Conversion of a floating point value to \<open>int\<close> truncates toward zero.\<close>

definition c_trunc :: "rat \<Rightarrow> int" where
  "c_trunc x = (if 0 \<le> x then \<lfloor>x\<rfloor> else \<lceil>x\<rceil>)"

text \<open>\<open>sm->red += (int) p.red * weight\<close> computes in \<open>double\<close> and converts back at every
  step. A 16 bit channel times one of the weights, added to a sm below \<open>2^31\<close>, is exact in
  double precision, so the rationals compute the same values.\<close>

definition accumulate_weighted_sum :: "pixel_sum \<Rightarrow> pixel \<Rightarrow> rat \<Rightarrow> pixel_sum" where
  "accumulate_weighted_sum sm p weight =
     (let sm = sm\<lparr>sred := c_trunc (of_int (sred sm) + of_int (uint (red p)) * weight)\<rparr>;
          sm = sm\<lparr>sgreen := c_trunc (of_int (sgreen sm) + of_int (uint (green p)) * weight)\<rparr>;
          sm = sm\<lparr>sblue := c_trunc (of_int (sblue sm) + of_int (uint (blue p)) * weight)\<rparr>
      in sm)"

definition assign_sum_to_pixel :: "pixel_sum \<Rightarrow> pixel" where
  "assign_sum_to_pixel sm =
     \<lparr>red = word_of_int (sred sm), green = word_of_int (sgreen sm), blue = word_of_int (sblue sm)\<rparr>"

definition weights :: "rat list list" where
  "weights = [[1/2, 1/32, 0], [1/32, 1/4, 1/32], [0, 1/32, 1/8]]"

definition weighted_combo :: "int \<Rightarrow> int \<Rightarrow> int \<Rightarrow> int \<Rightarrow> mem \<Rightarrow> pixel" where
  "weighted_combo dm i j src m =
     assign_sum_to_pixel
       (for_lt 0 3 1 (\<lambda>ii. for_lt 0 3 1 (\<lambda>jj sm.
          if i + ii < dm \<and> j + jj < dm
          then accumulate_weighted_sum sm (m (src + RIDX (i + ii) (j + jj) dm)) (weights ! nat ii ! nat jj)
          else sm)) initialize_pixel_sum)"

definition naive_motion :: "int \<Rightarrow> int \<Rightarrow> int \<Rightarrow> mem \<Rightarrow> mem" where
  "naive_motion dm src dst m =
     for_lt 0 dm 1 (\<lambda>i. for_lt 0 dm 1 (\<lambda>j m.
       m(dst + RIDX i j dm := weighted_combo dm i j src m))) m"

text \<open>The three channel assignments \<open>dst[a].c = e(c)\<close>; the channels of a pixel are promoted to
  \<open>int\<close> on the right and reduced modulo \<open>2^16\<close> by the assignment.\<close>

definition set_channels :: "int \<Rightarrow> ((pixel \<Rightarrow> int) \<Rightarrow> mem \<Rightarrow> int) \<Rightarrow> mem \<Rightarrow> mem" where
  "set_channels a e m =
     (let m = m(a := (m a)\<lparr>red := word_of_int (e (\<lambda>p. uint (red p)) m)\<rparr>);
          m = m(a := (m a)\<lparr>green := word_of_int (e (\<lambda>p. uint (green p)) m)\<rparr>);
          m = m(a := (m a)\<lparr>blue := word_of_int (e (\<lambda>p. uint (blue p)) m)\<rparr>)
      in m)"

definition motion :: "int \<Rightarrow> int \<Rightarrow> int \<Rightarrow> mem \<Rightarrow> mem" where
  "motion dm src dst m =
    (let px = (\<lambda>i j (c :: pixel \<Rightarrow> int) (m :: mem). c (m (src + RIDX i j dm)));
         dim_minus_two = dm - 2;
         \<comment> \<open>all pixels except the last two rows and columns\<close>
         m = tile_loop dim_minus_two (\<lambda>iii jjj.
               let iiii = iii + 1; jjjj = jjj + 1; iiiii = iiii + 1; jjjjj = jjjj + 1 in
               set_channels (dst + RIDX iii jjj dm) (\<lambda>c m.
                 drop_bit 1 (px iii jjj c m) + drop_bit 2 (px iiii jjjj c m) +
                 drop_bit 3 (px iiiii jjjjj c m) + drop_bit 5 (px iii jjjj c m) +
                 drop_bit 5 (px iiii jjj c m) + drop_bit 5 (px iiii jjjjj c m) +
                 drop_bit 5 (px iiiii jjjj c m))) m;
         dim_minus_one = dm - 1;
         \<comment> \<open>the bottom right pixel\<close>
         m = set_channels (dst + RIDX dim_minus_one dim_minus_one dm) (\<lambda>c m.
               drop_bit 1 (px dim_minus_one dim_minus_one c m)) m;
         \<comment> \<open>the last column\<close>
         m = for_lt 0 dim_minus_one 1 (\<lambda>i. let ii = i + 1 in
               set_channels (dst + RIDX i dim_minus_one dm) (\<lambda>c m.
                 drop_bit 1 (px i dim_minus_one c m) + drop_bit 5 (px ii dim_minus_one c m))) m;
         \<comment> \<open>the last row\<close>
         m = for_lt 0 dim_minus_one 1 (\<lambda>i. let ii = i + 1 in
               set_channels (dst + RIDX dim_minus_one i dm) (\<lambda>c m.
                 drop_bit 1 (px dim_minus_one i c m) + drop_bit 5 (px dim_minus_one ii c m))) m;
         \<comment> \<open>the column before the last\<close>
         m = for_lt 0 dim_minus_two 1 (\<lambda>i. let ii = i + 1; iii = ii + 1 in
               set_channels (dst + RIDX i dim_minus_two dm) (\<lambda>c m.
                 drop_bit 1 (px i dim_minus_two c m) + drop_bit 5 (px ii dim_minus_two c m) +
                 drop_bit 5 (px i dim_minus_one c m) + drop_bit 2 (px ii dim_minus_one c m) +
                 drop_bit 5 (px iii dim_minus_one c m))) m;
         \<comment> \<open>the row before the last\<close>
         m = for_lt 0 dim_minus_two 1 (\<lambda>i. let ii = i + 1; iii = ii + 1 in
               set_channels (dst + RIDX dim_minus_two i dm) (\<lambda>c m.
                 drop_bit 1 (px dim_minus_two i c m) + drop_bit 5 (px dim_minus_one i c m) +
                 drop_bit 5 (px dim_minus_two ii c m) + drop_bit 2 (px dim_minus_one ii c m) +
                 drop_bit 5 (px dim_minus_one iii c m))) m;
         \<comment> \<open>the pixel that both of them leave out\<close>
         m = set_channels (dst + RIDX dim_minus_two dim_minus_two dm) (\<lambda>c m.
               drop_bit 1 (px dim_minus_two dim_minus_two c m) +
               drop_bit 5 (px dim_minus_two dim_minus_one c m) +
               drop_bit 5 (px dim_minus_one dim_minus_two c m) +
               drop_bit 2 (px dim_minus_one dim_minus_one c m)) m
     in m)"

section \<open>Loops as folds over index lists\<close>

function idx :: "int \<Rightarrow> int \<Rightarrow> int \<Rightarrow> int list" where
  "idx i n k = (if i < n \<and> 0 < k then i # idx (i + k) n k else [])"
  by pat_completeness auto
termination
  by (relation "measure (\<lambda>(i, n, k). nat (n - i))") auto

declare idx.simps [simp del]

lemma for_lt_idx: "for_lt i n k body s = fold body (idx i n k) s"
proof (induction i n k arbitrary: s rule: idx.induct)
  case (1 i n k)
  then show ?case by (simp add: for_lt.simps [of i] idx.simps [of i])
qed

lemma for_lt_fold: "for_lt i n k (\<lambda>x. fold g (h x)) = fold g (concat (map h (idx i n k)))"
proof
  fix s
  have "fold (\<lambda>x. fold g (h x)) xs s = fold g (concat (map h xs)) s" for xs
    by (induction xs arbitrary: s) auto
  then show "for_lt i n k (\<lambda>x. fold g (h x)) s = fold g (concat (map h (idx i n k))) s"
    by (simp add: for_lt_idx)
qed

lemma set_idx: "0 < k \<Longrightarrow> set (idx i n k) = {x. i \<le> x \<and> x < n \<and> k dvd x - i}"
proof (induction i n k rule: idx.induct)
  case (1 i n k)
  have step: "x = i \<or> i + k \<le> x" if "i \<le> x" "k dvd x - i" for x
    using that \<open>0 < k\<close> zdvd_imp_le [of k "x - i"] by (cases "x = i") auto
  have dvd: "k dvd x - (i + k) \<longleftrightarrow> k dvd x - i" for x
    using dvd_add_left_iff [of k k "x - (i + k)"] by (simp add: algebra_simps)
  show ?case
  proof (cases "i < n")
    case True
    have "x \<in> insert i {x. i + k \<le> x \<and> x < n \<and> k dvd x - i} \<longleftrightarrow> i \<le> x \<and> x < n \<and> k dvd x - i" for x
      using step [of x] True 1(2) by (cases "x = i") auto
    then show ?thesis
      using 1 True by (subst idx.simps) (auto simp: dvd)
  qed (auto simp: idx.simps)
qed

definition box :: "int \<Rightarrow> int \<Rightarrow> (int \<times> int) list" where
  "box n n' = concat (map (\<lambda>i. map (Pair i) (idx 0 n' 1)) (idx 0 n 1))"

definition tiles :: "int \<Rightarrow> (int \<times> int) list" where
  "tiles n = concat (map (\<lambda>i. concat (map (\<lambda>j. concat (map (\<lambda>jj. concat (map (\<lambda>ii.
     concat (map (\<lambda>jjj. map (\<lambda>iii. (iii, jjj)) (idx ii (ii + 8) 1)) (idx jj (jj + 8) 1)))
     (idx i (i + 8) 8))) (idx j (j + 8) 8))) (idx 0 n 8))) (idx 0 n 8))"

lemma fold_map_pair: "fold (\<lambda>x. st (h x)) xs = fold st (map h xs)"
  by (simp add: fold_map comp_def)

lemma nested_loops: "for_lt 0 n 1 (\<lambda>i. for_lt 0 n' 1 (\<lambda>j. st i j)) = fold (\<lambda>(i, j). st i j) (box n n')"
proof -
  have "for_lt 0 n' 1 (\<lambda>j. st i j) = fold (\<lambda>(i, j). st i j) (map (Pair i) (idx 0 n' 1))" for i
    by (rule ext) (simp add: for_lt_idx fold_map comp_def)
  then show ?thesis
    by (simp add: for_lt_fold box_def)
qed

lemma tile_loop_fold: "tile_loop n st = fold (\<lambda>(i, j). st i j) (tiles n)"
proof -
  have "for_lt ii (ii + 8) 1 (\<lambda>iii. st iii jjj) =
      fold (\<lambda>(i, j). st i j) (map (\<lambda>iii. (iii, jjj)) (idx ii (ii + 8) 1))" for ii jjj
    by (rule ext) (simp add: for_lt_idx fold_map comp_def)
  then show ?thesis
    by (simp add: tile_loop_def for_lt_fold tiles_def)
qed

lemma set_box: "set (box n n') = {0..<n} \<times> {0..<n'}"
  by (auto simp: box_def set_idx)

lemma tile_of: "(\<exists>i. 0 \<le> i \<and> i < n \<and> 8 dvd i \<and> i \<le> x \<and> x < i + 8) \<longleftrightarrow> 0 \<le> x \<and> x < 8 * ((n + 7) div 8)"
  (is "?l \<longleftrightarrow> ?r") for x n :: int
proof
  assume ?r
  then have "0 \<le> 8 * (x div 8) \<and> 8 * (x div 8) < n \<and> 8 dvd 8 * (x div 8) \<and> 8 * (x div 8) \<le> x \<and>
      x < 8 * (x div 8) + 8"
    by presburger
  then show ?l by blast
next
  assume ?l
  then obtain q where "0 \<le> 8 * q" "8 * q < n" "8 * q \<le> x" "x < 8 * q + 8"
    by (auto elim!: dvdE)
  then show ?r by presburger
qed

lemma set_tiles:
  "set (tiles n) = {0..<8 * ((n + 7) div 8)} \<times> {0..<8 * ((n + 7) div 8)}"
proof -
  have unit: "set (idx i (i + 8) 1) = {i..<i + 8}" "idx i (i + 8) 8 = [i]" for i
    by (auto simp: set_idx) (simp add: idx.simps)
  have "set (tiles n) = (\<Union>i\<in>set (idx 0 n 8). \<Union>j\<in>set (idx 0 n 8). {i..<i + 8} \<times> {j..<j + 8})"
    using unit by (simp add: tiles_def) (auto simp: image_iff)
  also have "\<dots> = (\<Union>i\<in>set (idx 0 n 8). {i..<i + 8}) \<times> (\<Union>i\<in>set (idx 0 n 8). {i..<i + 8})"
    by blast
  also have "(\<Union>i\<in>set (idx 0 n 8). {i..<i + 8}) = {0..<8 * ((n + 7) div 8)}"
  proof (rule set_eqI)
    show "x \<in> (\<Union>i\<in>set (idx 0 n 8). {i..<i + 8}) \<longleftrightarrow> x \<in> {0..<8 * ((n + 7) div 8)}" for x
      using tile_of [of n x] by (simp add: set_idx)
  qed
  finally show ?thesis .
qed

section \<open>Loops that store into an image\<close>

text \<open>Two memories agree on the source image.\<close>

definition agree :: "int set \<Rightarrow> mem \<Rightarrow> mem \<Rightarrow> bool" where
  "agree S m m' \<longleftrightarrow> (\<forall>x\<in>S. m x = m' x)"

text \<open>A step at \<open>k\<close> touches only the cell \<open>d k\<close>.\<close>

definition stores_at :: "('k \<Rightarrow> mem \<Rightarrow> mem) \<Rightarrow> ('k \<Rightarrow> int) \<Rightarrow> bool" where
  "stores_at st d \<longleftrightarrow> (\<forall>k m x. x \<noteq> d k \<longrightarrow> st k m x = m x)"

lemma fold_frame: "stores_at st d \<Longrightarrow> x \<notin> d ` set L \<Longrightarrow> fold st L m x = m x"
  by (induction L arbitrary: m) (auto simp: stores_at_def)

lemma fold_agree: "stores_at st d \<Longrightarrow> d ` set L \<inter> S = {} \<Longrightarrow> agree S m0 m \<Longrightarrow> agree S m0 (fold st L m)"
  unfolding agree_def by (metis IntI empty_iff fold_frame)

lemma fold_value:
  assumes "stores_at st d" "d ` set L \<inter> S = {}" "agree S m0 m"
    and "\<And>k m'. k \<in> set L \<Longrightarrow> d k = a \<Longrightarrow> agree S m0 m' \<Longrightarrow> st k m' a = v"
  shows "fold st L m a = (if a \<in> d ` set L then v else m a)"
  using assms(2-)
proof (induction L arbitrary: m)
  case (Cons k L)
  have st: "agree S m0 (st k m)"
    using fold_agree [OF assms(1), of "[k]" S m0 m] Cons.prems by auto
  have "fold st (k # L) m a = (if a \<in> d ` set L then v else st k m a)"
    using Cons.IH [OF _ st] Cons.prems by auto
  also have "st k m a = (if d k = a then v else m a)"
  proof (cases "d k = a")
    case True
    then show ?thesis using Cons.prems(3) [of k m] Cons.prems(2) by simp
  next
    case False
    then show ?thesis using assms(1) by (simp add: stores_at_def)
  qed
  finally show ?case by auto
qed simp


lemma RIDX_inj:
  assumes "RIDX i j n = RIDX i' j' n" "0 \<le> j" "j < n" "0 \<le> j'" "j' < n"
  shows "i = i' \<and> j = j'"
proof -
  have "RIDX i j n div n = i" "RIDX i' j' n div n = i'"
    using assms(2-) by (simp_all add: RIDX_def)
  then show ?thesis
    using assms(1) by (auto simp: RIDX_def)
qed

text \<open>The cells of an image lie between its first pixel and \<open>dim\<^sup>2\<close> pixels further on.\<close>

lemma RIDX_bounds:
  assumes "0 \<le> i" "i < n" "0 \<le> j" "j < n"
  shows "0 \<le> RIDX i j n" "RIDX i j n < n * n"
proof -
  have "i * n \<le> (n - 1) * n" "0 \<le> i * n"
    using assms by (auto intro!: mult_right_mono)
  then show "0 \<le> RIDX i j n" "RIDX i j n < n * n"
    using assms by (auto simp: RIDX_def algebra_simps)
qed

definition image_cells :: "int \<Rightarrow> int \<Rightarrow> int set" where
  "image_cells a n = {a..<a + n * n}"

lemma RIDX_image: "0 \<le> i \<Longrightarrow> i < n \<Longrightarrow> 0 \<le> j \<Longrightarrow> j < n \<Longrightarrow> a + RIDX i j n \<in> image_cells a n"
  using RIDX_bounds [of i n j] by (simp add: image_cells_def)

lemma image_disjoint: "a + n * n \<le> b \<or> b + n * n \<le> a \<Longrightarrow> image_cells a n \<inter> image_cells b n = {}"
  by (auto simp: image_cells_def)

section \<open>The pinwheel\<close>

text \<open>One of the four passes: quadrant \<open>(u, v)\<close> is turned by a quarter.\<close>

definition turn :: "int \<Rightarrow> int \<Rightarrow> int \<Rightarrow> int \<Rightarrow> int \<Rightarrow> int \<times> int \<Rightarrow> mem \<Rightarrow> mem" where
  "turn dm src dest u v = (\<lambda>(i, j) m.
     m(dest + RIDX (u * (dm div 2) + (dm div 2 - 1 - j)) (v * (dm div 2) + i) dm :=
         m (src + RIDX (u * (dm div 2) + i) (v * (dm div 2) + j) dm)))"

definition turn_addr :: "int \<Rightarrow> int \<Rightarrow> int \<Rightarrow> int \<Rightarrow> int \<times> int \<Rightarrow> int" where
  "turn_addr dm dest u v = (\<lambda>(i, j).
     dest + RIDX (u * (dm div 2) + (dm div 2 - 1 - j)) (v * (dm div 2) + i) dm)"

lemma turn_stores: "stores_at (turn dm src dest u v) (turn_addr dm dest u v)"
  by (auto simp: stores_at_def turn_def turn_addr_def)

lemma turn_sub:
  assumes "even dm" "u \<in> {0, 1}" "v \<in> {0, 1}" "set L = {0..<dm div 2} \<times> {0..<dm div 2}"
  shows "turn_addr dm dest u v ` set L \<subseteq> image_cells dest dm"
proof -
  obtain h where "dm = 2 * h"
    using assms(1) by (elim evenE)
  then show ?thesis
    using assms(2-) by (auto simp: turn_addr_def intro!: RIDX_image)
qed

lemma turn_frame:
  assumes "even dm" "u \<in> {0, 1}" "v \<in> {0, 1}" "set L = {0..<dm div 2} \<times> {0..<dm div 2}"
    and "a \<notin> image_cells dest dm"
  shows "fold (turn dm src dest u v) L m a = m a"
  using fold_frame [OF turn_stores] turn_sub [OF assms(1-4), of dest] assms(5) by blast

lemma turn_agree:
  assumes "even dm" "u \<in> {0, 1}" "v \<in> {0, 1}" "set L = {0..<dm div 2} \<times> {0..<dm div 2}"
    and "image_cells src dm \<inter> image_cells dest dm = {}" and "agree (image_cells src dm) m0 m"
  shows "agree (image_cells src dm) m0 (fold (turn dm src dest u v) L m)"
  using turn_sub [OF assms(1-4), of dest] assms(5)
  by (intro fold_agree [OF turn_stores _ assms(6)]) blast

lemma turn_at:
  assumes dm: "even dm" "u \<in> {0, 1}" "v \<in> {0, 1}"
    and L: "set L = {0..<dm div 2} \<times> {0..<dm div 2}"
    and disj: "image_cells src dm \<inter> image_cells dest dm = {}"
    and m: "agree (image_cells src dm) m0 m"
    and rc: "0 \<le> r" "r < dm" "0 \<le> c" "c < dm"
  shows "fold (turn dm src dest u v) L m (dest + RIDX r c dm) =
    (if r div (dm div 2) = u \<and> c div (dm div 2) = v
     then m0 (src + RIDX (u * (dm div 2) + c mod (dm div 2)) (v * (dm div 2) + (dm div 2 - 1 - r mod (dm div 2))) dm)
     else m (dest + RIDX r c dm))"
proof -
  define h where "h = dm div 2"
  have h: "dm = 2 * h" "0 < h"
    using dm(1) rc by (auto simp: h_def)
  let ?d = "\<lambda>(i, j). dest + RIDX (u * h + (h - 1 - j)) (v * h + i) dm"
  have d: "turn_addr dm dest u v = ?d"
    by (simp add: turn_addr_def h_def)
  have dS: "?d ` set L \<inter> image_cells src dm = {}"
    using turn_sub [OF dm L, of dest] disj unfolding d by blast
  note st = turn_stores [of dm src dest u v, unfolded d]
  have d_iff: "?d (i, j) = dest + RIDX r c dm \<longleftrightarrow> r = u * h + (h - 1 - j) \<and> c = v * h + i"
    if "0 \<le> i" "i < h" for i j
    using RIDX_inj [of "u * h + (h - 1 - j)" "v * h + i" dm r c] rc that dm(3) h by auto
  have divmod: "x div h = w" "x mod h = y" if "x = w * h + y" "0 \<le> y" "y < h" for x y w
    using that by simp_all
  have hit: "r div h = u \<and> c div h = v \<and> i = c mod h \<and> j = h - 1 - r mod h"
    if "(i, j) \<in> set L" "?d (i, j) = dest + RIDX r c dm" for i j
  proof -
    have "r = u * h + (h - 1 - j)" "c = v * h + i" "0 \<le> i" "i < h" "0 \<le> j" "j < h"
      using d_iff [of i j] that by (auto simp: L h_def)
    then show ?thesis
      using divmod [of r u "h - 1 - j"] divmod [of c v i] by simp
  qed
  have mem: "dest + RIDX r c dm \<in> ?d ` set L \<longleftrightarrow> r div h = u \<and> c div h = v"
  proof
    assume "r div h = u \<and> c div h = v"
    then have "r = u * h + r mod h" "c = v * h + c mod h"
      by (metis div_mult_mod_eq)+
    moreover have "(c mod h, h - 1 - r mod h) \<in> set L"
      unfolding L h_def [symmetric] mem_Sigma_iff atLeastLessThan_iff
      using pos_mod_bound [OF h(2)] pos_mod_sign [OF h(2)] by (smt (verit))
    ultimately show "dest + RIDX r c dm \<in> ?d ` set L"
      by (intro image_eqI [of _ _ "(c mod h, h - 1 - r mod h)"]) auto
  qed (use hit in auto)
  have "fold (turn dm src dest u v) L m (dest + RIDX r c dm) =
      (if dest + RIDX r c dm \<in> ?d ` set L
       then m0 (src + RIDX (u * h + c mod h) (v * h + (h - 1 - r mod h)) dm) else m (dest + RIDX r c dm))"
  proof (rule fold_value [OF st dS m])
    fix k m' assume k: "k \<in> set L" "?d k = dest + RIDX r c dm" "agree (image_cells src dm) m0 m'"
    obtain i j where kij: "k = (i, j)"
      by (cases k)
    then have "(i, j) \<in> set L" "?d (i, j) = dest + RIDX r c dm"
      using k by auto
    then have "i = c mod h" "j = h - 1 - r mod h" "0 \<le> i \<and> i < h \<and> 0 \<le> j \<and> j < h"
      using hit [of i j] by (simp, simp, simp add: L h_def)
    note ij = kij this
    have "src + RIDX (u * h + i) (v * h + j) dm \<in> image_cells src dm"
      by (intro RIDX_image) (use ij(4) dm(2,3) h in auto)
    then show "turn dm src dest u v k m' (dest + RIDX r c dm) =
        m0 (src + RIDX (u * h + c mod h) (v * h + (h - 1 - r mod h)) dm)"
      using k ij by (simp add: turn_def agree_def h_def [symmetric])
  qed
  then show "fold (turn dm src dest u v) L m (dest + RIDX r c dm) =
    (if r div (dm div 2) = u \<and> c div (dm div 2) = v
     then m0 (src + RIDX (u * (dm div 2) + c mod (dm div 2)) (v * (dm div 2) + (dm div 2 - 1 - r mod (dm div 2))) dm)
     else m (dest + RIDX r c dm))"
    by (simp only: mem h_def [symmetric])
qed


lemma int_div_less: "a < n * n \<Longrightarrow> 0 < n \<Longrightarrow> a div n < n" for a n :: int
  by (smt (verit) minus_mult_div_eq_mod mult_left_mono pos_mod_sign)

lemma image_cells_cases:
  assumes "a \<in> image_cells b n" "0 \<le> n"
  obtains r c where "0 \<le> r" "r < n" "0 \<le> c" "c < n" "a = b + RIDX r c n"
proof
  have "0 < n" "0 \<le> a - b" "a - b < n * n"
    using assms by (auto simp: image_cells_def less_le)
  then show "0 \<le> (a - b) div n" "(a - b) div n < n" "0 \<le> (a - b) mod n" "(a - b) mod n < n"
      "a = b + RIDX ((a - b) div n) ((a - b) mod n) n"
    by (simp_all add: pos_imp_zdiv_nonneg_iff RIDX_def int_div_less)
qed

definition four_turns :: "int \<Rightarrow> int \<Rightarrow> int \<Rightarrow> (int \<times> int) list \<Rightarrow> mem \<Rightarrow> mem" where
  "four_turns dm src dest L m =
     fold (turn dm src dest 1 1) L (fold (turn dm src dest 1 0) L
       (fold (turn dm src dest 0 1) L (fold (turn dm src dest 0 0) L m)))"

lemma naive_pinwheel_turns:
  assumes "even dm"
  shows "naive_pinwheel dm src dest m = four_turns dm src dest (box (dm div 2) (dm div 2)) m"
proof -
  obtain h where "dm = 2 * h"
    using assms by (elim evenE)
  then show ?thesis
    by (simp add: naive_pinwheel_def four_turns_def nested_loops turn_def [abs_def] Let_def algebra_simps)
qed

lemma pinwheel_turns:
  assumes "even dm"
  shows "pinwheel dm src dest m = four_turns dm src dest (tiles (dm div 2)) m"
proof -
  obtain h where "dm = 2 * h"
    using assms by (elim evenE)
  then show ?thesis
    by (simp add: pinwheel_def four_turns_def tile_loop_fold turn_def [abs_def] Let_def algebra_simps)
qed

lemma set_tiles_exact: "8 dvd n \<Longrightarrow> set (tiles n) = {0..<n} \<times> {0..<n}"
  unfolding set_tiles by (elim dvdE) simp

text \<open>What one finds at row \<open>r\<close>, column \<open>c\<close> of the turned image.\<close>

definition turned :: "int \<Rightarrow> int \<Rightarrow> int \<Rightarrow> int \<Rightarrow> mem \<Rightarrow> pixel" where
  "turned dm src r c m =
    (let h = dm div 2; u = r div h; v = c div h
     in m (src + RIDX (u * h + c mod h) (v * h + (h - 1 - r mod h)) dm))"

lemma four_turns_spec:
  assumes dm: "even dm" "0 \<le> dm"
    and L: "set L = {0..<dm div 2} \<times> {0..<dm div 2}"
    and disj: "image_cells src dm \<inter> image_cells dest dm = {}"
  shows "a \<notin> image_cells dest dm \<Longrightarrow> four_turns dm src dest L m a = m a"
    and "0 \<le> r \<Longrightarrow> r < dm \<Longrightarrow> 0 \<le> c \<Longrightarrow> c < dm \<Longrightarrow>
      four_turns dm src dest L m (dest + RIDX r c dm) = turned dm src r c m"
proof -
  show "a \<notin> image_cells dest dm \<Longrightarrow> four_turns dm src dest L m a = m a"
    by (simp add: four_turns_def turn_frame [OF dm(1) _ _ L])
  assume rc: "0 \<le> r" "r < dm" "0 \<le> c" "c < dm"
  have q: "x div (dm div 2) = 0 \<or> x div (dm div 2) = 1" if "0 \<le> x" "x < dm" for x
  proof -
    obtain h where "dm = 2 * h"
      using dm(1) by (elim evenE)
    then show ?thesis
      using that by (cases "x < h") (auto simp: div_pos_pos_trivial int_div_pos_eq [of _ _ 1 "x - h"])
  qed
  define m1 where "m1 = fold (turn dm src dest 0 0) L m"
  define m2 where "m2 = fold (turn dm src dest 0 1) L m1"
  define m3 where "m3 = fold (turn dm src dest 1 0) L m2"
  define m4 where "m4 = fold (turn dm src dest 1 1) L m3"
  note agrees = turn_agree [OF dm(1) _ _ L disj] and at = turn_at [OF dm(1) _ _ L disj _ rc]
  have ag0: "agree (image_cells src dm) m m"
    by (simp add: agree_def)
  have ag1: "agree (image_cells src dm) m m1"
    unfolding m1_def by (rule agrees [OF _ _ ag0]) auto
  have ag2: "agree (image_cells src dm) m m2"
    unfolding m2_def by (rule agrees [OF _ _ ag1]) auto
  have ag3: "agree (image_cells src dm) m m3"
    unfolding m3_def by (rule agrees [OF _ _ ag2]) auto
  have "m4 (dest + RIDX r c dm) = turned dm src r c m"
    unfolding turned_def Let_def m4_def at [OF _ _ ag3, of 1 1, simplified]
    unfolding m3_def at [OF _ _ ag2, of 1 0, simplified]
    unfolding m2_def at [OF _ _ ag1, of 0 1, simplified]
    unfolding m1_def at [OF _ _ ag0, of 0 0, simplified]
    using q [OF rc(1,2)] q [OF rc(3,4)] by auto
  then show "four_turns dm src dest L m (dest + RIDX r c dm) = turned dm src r c m"
    by (simp add: four_turns_def m1_def m2_def m3_def m4_def)
qed

lemma four_turns_cong:
  assumes "even dm" "0 \<le> dm" "image_cells src dm \<inter> image_cells dest dm = {}"
    and "set L = {0..<dm div 2} \<times> {0..<dm div 2}" "set L' = set L"
  shows "four_turns dm src dest L m = four_turns dm src dest L' m"
proof
  fix a
  show "four_turns dm src dest L m a = four_turns dm src dest L' m a"
  proof (cases "a \<in> image_cells dest dm")
    case True
    then show ?thesis
      by (elim image_cells_cases) (use assms four_turns_spec(2) in auto)
  next
    case False
    then show ?thesis
      using assms by (simp add: four_turns_spec(1))
  qed
qed

lemma pinwheel_same:
  assumes "16 dvd dm" "0 \<le> dm" "src + dm * dm \<le> dest \<or> dest + dm * dm \<le> src"
  shows "pinwheel dm src dest m = naive_pinwheel dm src dest m"
proof -
  obtain k where dm: "dm = 2 * (8 * k)"
    using assms(1) by (elim dvdE) simp
  have L: "set (tiles (dm div 2)) = {0..<dm div 2} \<times> {0..<dm div 2}"
    using dm by (intro set_tiles_exact) simp
  have even: "even dm"
    using dm by simp
  show ?thesis
    unfolding pinwheel_turns [OF even] naive_pinwheel_turns [OF even]
    by (rule four_turns_cong [OF even assms(2) image_disjoint [OF assms(3)] L]) (simp add: L set_box)
qed


section \<open>The motion blur\<close>

text \<open>The weighted sum of one channel at \<open>(r, c)\<close>: every weight is a power of two, and each
  product is rounded down before it is added.\<close>

definition combo :: "int \<Rightarrow> int \<Rightarrow> int \<Rightarrow> int \<Rightarrow> (pixel \<Rightarrow> int) \<Rightarrow> mem \<Rightarrow> int" where
  "combo dm src r c ch m =
    (let q = (\<lambda>x y d. if r + x < dm \<and> c + y < dm then ch (m (src + RIDX (r + x) (c + y) dm)) div d else 0)
     in q 0 0 2 + q 0 1 32 + q 1 0 32 + q 1 1 4 + q 1 2 32 + q 2 1 32 + q 2 2 8)"

definition of_channels :: "((pixel \<Rightarrow> int) \<Rightarrow> int) \<Rightarrow> pixel" where
  "of_channels f = \<lparr>red = word_of_int (f (\<lambda>p. uint (red p))),
     green = word_of_int (f (\<lambda>p. uint (green p))), blue = word_of_int (f (\<lambda>p. uint (blue p)))\<rparr>"

lemma c_trunc_div:
  assumes "0 \<le> s" "0 \<le> p" "0 < k"
  shows "c_trunc (of_int s + of_int p * (1 / of_int k)) = s + p div k"
proof -
  have "c_trunc (of_int s + of_int p / of_int k) = \<lfloor>of_int s + of_int p / (of_int k :: rat)\<rfloor>"
    using assms by (simp add: c_trunc_def)
  also have "\<dots> = s + p div k"
    by (simp add: floor_divide_of_int_eq)
  finally show ?thesis by simp
qed

definition sum_nonneg :: "pixel_sum \<Rightarrow> bool" where
  "sum_nonneg s \<longleftrightarrow> 0 \<le> sred s \<and> 0 \<le> sgreen s \<and> 0 \<le> sblue s"

definition add_part :: "bool \<Rightarrow> pixel_sum \<Rightarrow> pixel \<Rightarrow> int \<Rightarrow> pixel_sum" where
  "add_part b s p k = \<lparr>sred = sred s + (if b then uint (red p) div k else 0),
     sgreen = sgreen s + (if b then uint (green p) div k else 0),
     sblue = sblue s + (if b then uint (blue p) div k else 0)\<rparr>"

lemma accumulate_div:
  assumes "sum_nonneg s" "0 < k" "w = 1 / of_int k"
  shows "(if b then accumulate_weighted_sum s p w else s) = add_part b s p k"
proof -
  have "c_trunc (of_int x + of_int (uint y) * w) = x + uint y div k" if "0 \<le> x" for x and y :: "16 word"
    unfolding assms(3) using that assms(2) by (intro c_trunc_div) simp_all
  then show ?thesis
    using assms(1) by (simp add: accumulate_weighted_sum_def add_part_def sum_nonneg_def Let_def del: of_int_uint)
qed

lemma accumulate_0: "(if b then accumulate_weighted_sum s p 0 else s) = s"
  by (simp add: accumulate_weighted_sum_def c_trunc_def)

lemma add_part_nonneg: "sum_nonneg s \<Longrightarrow> 0 < k \<Longrightarrow> sum_nonneg (add_part b s p k)"
  by (simp add: sum_nonneg_def add_part_def pos_imp_zdiv_nonneg_iff)

lemma weighted_combo_eq:
  "weighted_combo dm r c src m = of_channels (\<lambda>ch. combo dm src r c ch m)"
proof -
  have idx3: "idx 0 3 1 = [0, 1, 2]"
    by (simp add: idx.simps)
  have nn: "sum_nonneg initialize_pixel_sum"
    by (simp add: sum_nonneg_def initialize_pixel_sum_def)
  note acc = accumulate_div [where k = 2 and w = "1 / 2"] accumulate_div [where k = 4 and w = "1 / 4"]
    accumulate_div [where k = 8 and w = "1 / 8"] accumulate_div [where k = 32 and w = "1 / 32"]
  have w: "weights ! nat 0 ! nat 0 = 1 / 2" "weights ! nat 0 ! nat 1 = 1 / 32" "weights ! nat 0 ! nat 2 = 0"
    "weights ! nat 1 ! nat 0 = 1 / 32" "weights ! nat 1 ! nat 1 = 1 / 4" "weights ! nat 1 ! nat 2 = 1 / 32"
    "weights ! nat 2 ! nat 0 = 0" "weights ! nat 2 ! nat 1 = 1 / 32" "weights ! nat 2 ! nat 2 = 1 / 8"
    by (simp_all add: weights_def)
  define b where "b x y \<longleftrightarrow> r + x < dm \<and> c + y < dm" for x y
  define p where "p x y = m (src + RIDX (r + x) (c + y) dm)" for x y
  define total where "total = add_part (b 2 2) (add_part (b 2 1) (add_part (b 1 2) (add_part (b 1 1)
    (add_part (b 1 0) (add_part (b 0 1) (add_part (b 0 0) initialize_pixel_sum (p 0 0) 2) (p 0 1) 32)
      (p 1 0) 32) (p 1 1) 4) (p 1 2) 32) (p 2 1) 32) (p 2 2) 8"
  have "weighted_combo dm r c src m = assign_sum_to_pixel total"
    unfolding weighted_combo_def for_lt_idx idx3 fold_simps w b_def [symmetric] p_def [symmetric]
    by (simp only: accumulate_0 acc add_part_nonneg nn total_def zero_less_numeral of_int_numeral
        refl simp_thms)
  moreover have "sred total = combo dm src r c (\<lambda>p. uint (red p)) m"
      "sgreen total = combo dm src r c (\<lambda>p. uint (green p)) m"
      "sblue total = combo dm src r c (\<lambda>p. uint (blue p)) m"
    unfolding total_def combo_def Let_def b_def [symmetric] p_def [symmetric]
    by (simp_all only: add_part_def initialize_pixel_sum_def pixel_sum.simps add_0 ac_simps)
  ultimately show ?thesis
    by (simp add: assign_sum_to_pixel_def of_channels_def)
qed


text \<open>A pass of the blur: step \<open>k\<close> stores the three channels of the pixel \<open>pos k\<close>.\<close>

definition blur :: "int \<Rightarrow> int \<Rightarrow> ('k \<Rightarrow> int \<times> int) \<Rightarrow> ('k \<Rightarrow> (pixel \<Rightarrow> int) \<Rightarrow> mem \<Rightarrow> int) \<Rightarrow> 'k \<Rightarrow> mem \<Rightarrow> mem" where
  "blur dm dst pos e k = set_channels (dst + RIDX (fst (pos k)) (snd (pos k)) dm) (e k)"

definition blur_addr :: "int \<Rightarrow> int \<Rightarrow> ('k \<Rightarrow> int \<times> int) \<Rightarrow> 'k \<Rightarrow> int" where
  "blur_addr dm dst pos k = dst + RIDX (fst (pos k)) (snd (pos k)) dm"

definition grid :: "int \<Rightarrow> (int \<times> int) set" where
  "grid dm = {0..<dm} \<times> {0..<dm}"

definition blurred :: "int \<Rightarrow> int \<Rightarrow> int \<Rightarrow> mem \<Rightarrow> (int \<times> int) set \<Rightarrow> mem \<Rightarrow> bool" where
  "blurred dm src dst m0 X m \<longleftrightarrow>
     (\<forall>(r, c)\<in>X. m (dst + RIDX r c dm) = of_channels (\<lambda>ch. combo dm src r c ch m0))"

lemma set_channels_at:
  assumes "a \<notin> S" "agree S m0 m" "\<And>ch m'. agree S m0 m' \<Longrightarrow> e ch m' = f ch"
  shows "set_channels a e m a = of_channels f"
proof -
  have "agree S m0 (m(a := p))" for p
    using assms(1,2) by (auto simp: agree_def)
  then show ?thesis
    using assms(2,3) by (simp add: set_channels_def of_channels_def Let_def)
qed

lemma blur_stores: "stores_at (blur dm dst pos e) (blur_addr dm dst pos)"
  by (simp add: stores_at_def blur_def blur_addr_def set_channels_def Let_def)

lemma blur_sub: "pos ` set L \<subseteq> grid dm \<Longrightarrow> blur_addr dm dst pos ` set L \<subseteq> image_cells dst dm"
proof -
  have "pos k \<in> grid dm \<Longrightarrow> blur_addr dm dst pos k \<in> image_cells dst dm" for k
    by (cases "pos k") (auto simp: blur_addr_def grid_def intro!: RIDX_image)
  then show "pos ` set L \<subseteq> grid dm \<Longrightarrow> blur_addr dm dst pos ` set L \<subseteq> image_cells dst dm"
    by blast
qed

lemma blur_frame:
  "pos ` set L \<subseteq> grid dm \<Longrightarrow> a \<notin> image_cells dst dm \<Longrightarrow> fold (blur dm dst pos e) L m a = m a"
  using blur_sub [of pos L dm dst] by (intro fold_frame [OF blur_stores]) blast

lemma blur_agree:
  assumes "image_cells src dm \<inter> image_cells dst dm = {}" "agree (image_cells src dm) m0 m"
    and "pos ` set L \<subseteq> grid dm"
  shows "agree (image_cells src dm) m0 (fold (blur dm dst pos e) L m)"
  using assms blur_sub [OF assms(3)] by (intro fold_agree [OF blur_stores]) blast+

lemma blur_at:
  assumes "image_cells src dm \<inter> image_cells dst dm = {}" "agree (image_cells src dm) m0 m"
    and "pos ` set L \<subseteq> grid dm" "(r, c) \<in> grid dm"
    and e: "\<And>k ch m'. k \<in> set L \<Longrightarrow> pos k = (r, c) \<Longrightarrow> agree (image_cells src dm) m0 m' \<Longrightarrow>
      e k ch m' = combo dm src r c ch m0"
  shows "fold (blur dm dst pos e) L m (dst + RIDX r c dm) =
    (if (r, c) \<in> pos ` set L then of_channels (\<lambda>ch. combo dm src r c ch m0) else m (dst + RIDX r c dm))"
proof -
  have inj: "blur_addr dm dst pos k = dst + RIDX r c dm \<longleftrightarrow> pos k = (r, c)" if "k \<in> set L" for k
    using RIDX_inj [of "fst (pos k)" "snd (pos k)" dm r c] assms(3,4) that
    by (force simp: blur_addr_def grid_def prod_eq_iff)
  have "fold (blur dm dst pos e) L m (dst + RIDX r c dm) =
      (if dst + RIDX r c dm \<in> blur_addr dm dst pos ` set L
       then of_channels (\<lambda>ch. combo dm src r c ch m0) else m (dst + RIDX r c dm))"
  proof (rule fold_value [OF blur_stores _ assms(2)])
    show "blur_addr dm dst pos ` set L \<inter> image_cells src dm = {}"
      using blur_sub [OF assms(3)] assms(1) by blast
    fix k m' assume k: "k \<in> set L" "blur_addr dm dst pos k = dst + RIDX r c dm" "agree (image_cells src dm) m0 m'"
    have "dst + RIDX r c dm \<notin> image_cells src dm"
      using RIDX_image [of r dm c dst] assms(1,4) by (auto simp: grid_def)
    then show "blur dm dst pos e k m' (dst + RIDX r c dm) = of_channels (\<lambda>ch. combo dm src r c ch m0)"
      unfolding blur_def k(2) [unfolded blur_addr_def]
      using e [OF k(1)] inj [OF k(1)] k(2,3) by (intro set_channels_at) auto
  qed
  also have "dst + RIDX r c dm \<in> blur_addr dm dst pos ` set L \<longleftrightarrow> (r, c) \<in> pos ` set L"
    using inj by (metis (no_types, lifting) image_iff)
  finally show ?thesis .
qed

lemma blur_blurred:
  assumes "image_cells src dm \<inter> image_cells dst dm = {}" "agree (image_cells src dm) m0 m"
    and "pos ` set L \<subseteq> grid dm" "X \<subseteq> grid dm" "blurred dm src dst m0 X m"
    and "\<And>k r c ch m'. k \<in> set L \<Longrightarrow> pos k = (r, c) \<Longrightarrow> agree (image_cells src dm) m0 m' \<Longrightarrow>
      e k ch m' = combo dm src r c ch m0"
  shows "blurred dm src dst m0 (X \<union> pos ` set L) (fold (blur dm dst pos e) L m)"
  unfolding blurred_def
proof (intro ballI, clarify)
  fix r c assume "(r, c) \<in> X \<union> pos ` set L"
  then show "fold (blur dm dst pos e) L m (dst + RIDX r c dm) = of_channels (\<lambda>ch. combo dm src r c ch m0)"
    using assms by (subst blur_at [OF assms(1-3)]) (auto simp: blurred_def)
qed


lemma agree_px:
  "agree (image_cells src dm) m0 m \<Longrightarrow> 0 \<le> i \<Longrightarrow> i < dm \<Longrightarrow> 0 \<le> j \<Longrightarrow> j < dm \<Longrightarrow>
   m (src + RIDX i j dm) = m0 (src + RIDX i j dm)"
  using RIDX_image [of i dm j src] by (simp add: agree_def)

lemma plus_two: "i + 1 + 1 = i + (2 :: int)"
  by simp

definition motion_ok :: "int \<Rightarrow> int \<Rightarrow> int \<Rightarrow> mem \<Rightarrow> (int \<times> int) set \<Rightarrow> mem \<Rightarrow> bool" where
  "motion_ok dm src dst m0 X m \<longleftrightarrow> agree (image_cells src dm) m0 m \<and> X \<subseteq> grid dm \<and>
     blurred dm src dst m0 X m \<and> (\<forall>a. a \<notin> image_cells dst dm \<longrightarrow> m a = m0 a)"

lemma motion_ok_pass:
  assumes "image_cells src dm \<inter> image_cells dst dm = {}" "motion_ok dm src dst m0 X m"
    and "pos ` set L \<subseteq> grid dm" "Y = X \<union> pos ` set L"
    and "\<And>k r c ch m'. k \<in> set L \<Longrightarrow> pos k = (r, c) \<Longrightarrow> agree (image_cells src dm) m0 m' \<Longrightarrow>
      e k ch m' = combo dm src r c ch m0"
  shows "motion_ok dm src dst m0 Y (fold (blur dm dst pos e) L m)"
  using assms(2) blur_agree [OF assms(1) _ assms(3), of m0 m e] blur_frame [OF assms(3), of _ dst e m]
    blur_blurred [OF assms(1) _ assms(3) _ _ assms(5), of m X]
  by (auto simp: motion_ok_def assms(3,4))

lemma blur_loop:
  "for_lt 0 n 1 (\<lambda>i. set_channels (dst + RIDX (f i) (g i) dm) (e i)) =
   fold (blur dm dst (\<lambda>i. (f i, g i)) e) (idx 0 n 1)"
  by (rule ext) (simp add: for_lt_idx blur_def [abs_def])

lemma blur_once:
  "set_channels (dst + RIDX r c dm) e m = fold (blur dm dst (\<lambda>_. (r, c)) (\<lambda>_. e)) [()] m"
  by (simp add: blur_def)

lemma blur_tiles:
  "tile_loop n (\<lambda>i j. set_channels (dst + RIDX i j dm) (e i j)) =
   fold (blur dm dst (\<lambda>k. k) (\<lambda>(i, j). e i j)) (tiles n)"
  by (simp add: tile_loop_fold blur_def [abs_def] split_beta')

lemma motion_all:
  assumes disj: "image_cells src dm \<inter> image_cells dst dm = {}" and dm: "2 \<le> dm" "dm mod 8 \<le> 2"
  shows "motion_ok dm src dst m (grid dm) (motion dm src dst m)"
proof -
  have tiles: "set (tiles (dm - 2)) \<subseteq> grid dm" "{0..<dm - 2} \<times> {0..<dm - 2} \<subseteq> set (tiles (dm - 2))"
    using dm unfolding set_tiles grid_def by auto presburger+
  let ?px = "\<lambda>i j ch m'. ch (m' (src + RIDX i j dm))"
  define m1 where "m1 = fold (blur dm dst (\<lambda>k. k) (\<lambda>(i, j) ch m'.
    drop_bit 1 (?px i j ch m') + drop_bit 2 (?px (i + 1) (j + 1) ch m') +
    drop_bit 3 (?px (i + 1 + 1) (j + 1 + 1) ch m') + drop_bit 5 (?px i (j + 1) ch m') +
    drop_bit 5 (?px (i + 1) j ch m') + drop_bit 5 (?px (i + 1) (j + 1 + 1) ch m') +
    drop_bit 5 (?px (i + 1 + 1) (j + 1) ch m'))) (tiles (dm - 2)) m"
  define m2 where "m2 = fold (blur dm dst (\<lambda>_. (dm - 1, dm - 1)) (\<lambda>_ ch m'.
    drop_bit 1 (?px (dm - 1) (dm - 1) ch m'))) [()] m1"
  define m3 where "m3 = fold (blur dm dst (\<lambda>i. (i, dm - 1)) (\<lambda>i ch m'.
    drop_bit 1 (?px i (dm - 1) ch m') + drop_bit 5 (?px (i + 1) (dm - 1) ch m'))) (idx 0 (dm - 1) 1) m2"
  define m4 where "m4 = fold (blur dm dst (\<lambda>i. (dm - 1, i)) (\<lambda>i ch m'.
    drop_bit 1 (?px (dm - 1) i ch m') + drop_bit 5 (?px (dm - 1) (i + 1) ch m'))) (idx 0 (dm - 1) 1) m3"
  define m5 where "m5 = fold (blur dm dst (\<lambda>i. (i, dm - 2)) (\<lambda>i ch m'.
    drop_bit 1 (?px i (dm - 2) ch m') + drop_bit 5 (?px (i + 1) (dm - 2) ch m') +
    drop_bit 5 (?px i (dm - 1) ch m') + drop_bit 2 (?px (i + 1) (dm - 1) ch m') +
    drop_bit 5 (?px (i + 1 + 1) (dm - 1) ch m'))) (idx 0 (dm - 2) 1) m4"
  define m6 where "m6 = fold (blur dm dst (\<lambda>i. (dm - 2, i)) (\<lambda>i ch m'.
    drop_bit 1 (?px (dm - 2) i ch m') + drop_bit 5 (?px (dm - 1) i ch m') +
    drop_bit 5 (?px (dm - 2) (i + 1) ch m') + drop_bit 2 (?px (dm - 1) (i + 1) ch m') +
    drop_bit 5 (?px (dm - 1) (i + 1 + 1) ch m'))) (idx 0 (dm - 2) 1) m5"
  define m7 where "m7 = fold (blur dm dst (\<lambda>_. (dm - 2, dm - 2)) (\<lambda>_ ch m'.
    drop_bit 1 (?px (dm - 2) (dm - 2) ch m') + drop_bit 5 (?px (dm - 2) (dm - 1) ch m') +
    drop_bit 5 (?px (dm - 1) (dm - 2) ch m') + drop_bit 2 (?px (dm - 1) (dm - 1) ch m'))) [()] m6"
  have eq: "motion dm src dst m = m7"
    unfolding motion_def Let_def blur_loop blur_once blur_tiles m1_def m2_def m3_def m4_def m5_def m6_def m7_def ..
  have ag: "agree (image_cells src dm) m m"
    by (simp add: agree_def)
  have ok1: "motion_ok dm src dst m ({0..<dm - 2} \<times> {0..<dm - 2}) m1"
    unfolding motion_ok_def
  proof (intro conjI allI impI)
    show "agree (image_cells src dm) m m1" "\<And>a. a \<notin> image_cells dst dm \<Longrightarrow> m1 a = m a"
      unfolding m1_def using tiles by (auto intro!: blur_agree [OF disj ag] blur_frame)
    show "{0..<dm - 2} \<times> {0..<dm - 2} \<subseteq> grid dm"
      using dm by (auto simp: grid_def)
    show "blurred dm src dst m ({0..<dm - 2} \<times> {0..<dm - 2}) m1"
      unfolding blurred_def
    proof clarify
      fix r c assume rc: "r \<in> {0..<dm - 2}" "c \<in> {0..<dm - 2}"
      then have "(r, c) \<in> grid dm" "(r, c) \<in> (\<lambda>k. k) ` set (tiles (dm - 2))"
        using tiles by (auto simp: grid_def)
      then show "m1 (dst + RIDX r c dm) = of_channels (\<lambda>ch. combo dm src r c ch m)"
        unfolding m1_def using tiles(1) rc
        by (subst blur_at [OF disj ag]) (auto simp: agree_px combo_def drop_bit_eq_div add.assoc)
    qed
  qed
  note px = combo_def agree_px drop_bit_eq_div set_idx
  define X3 where "X3 = {0..<dm - 2} \<times> {0..<dm - 2} \<union> {(dm - 1, dm - 1)} \<union> {0..<dm - 1} \<times> {dm - 1}"
  have ok3: "motion_ok dm src dst m X3 m3"
    unfolding m3_def m2_def
    apply (rule motion_ok_pass [OF disj motion_ok_pass [OF disj ok1 _ refl]])
    using dm by (auto simp: X3_def px grid_def)
  define X5 where "X5 = X3 \<union> {dm - 1} \<times> {0..<dm - 1} \<union> {0..<dm - 2} \<times> {dm - 2}"
  have ok5: "motion_ok dm src dst m X5 m5"
    unfolding m5_def m4_def
    apply (rule motion_ok_pass [OF disj motion_ok_pass [OF disj ok3 _ refl]])
    using dm by (auto simp: X5_def px grid_def plus_two)
  have ok7: "motion_ok dm src dst m (X5 \<union> {dm - 2} \<times> {0..<dm - 2} \<union> {(dm - 2, dm - 2)}) m7"
    unfolding m7_def m6_def
    apply (rule motion_ok_pass [OF disj motion_ok_pass [OF disj ok5 _ refl]])
    using dm by (auto simp: px grid_def plus_two)
  have "X5 \<union> {dm - 2} \<times> {0..<dm - 2} \<union> {(dm - 2, dm - 2)} = grid dm"
  proof (rule set_eqI, clarify)
    fix r c
    show "(r, c) \<in> X5 \<union> {dm - 2} \<times> {0..<dm - 2} \<union> {(dm - 2, dm - 2)} \<longleftrightarrow> (r, c) \<in> grid dm"
      unfolding X5_def X3_def grid_def Un_iff mem_Times_iff fst_conv snd_conv insert_iff empty_iff
        prod.inject atLeastLessThan_iff
      using dm(1) by (smt (verit))
  qed
  then show ?thesis
    using ok7 eq by simp
qed


lemma naive_motion_all:
  assumes disj: "image_cells src dm \<inter> image_cells dst dm = {}"
  shows "a \<notin> image_cells dst dm \<Longrightarrow> naive_motion dm src dst m a = m a"
    and "(r, c) \<in> grid dm \<Longrightarrow>
      naive_motion dm src dst m (dst + RIDX r c dm) = of_channels (\<lambda>ch. combo dm src r c ch m)"
proof -
  define st where "st = (\<lambda>(i, j) m. m(dst + RIDX i j dm := weighted_combo dm i j src m))"
  define d where "d = (\<lambda>(i, j). dst + RIDX i j dm)"
  have st: "stores_at st d"
    by (auto simp: stores_at_def st_def d_def)
  have eq: "naive_motion dm src dst m = fold st (box dm dm) m"
    by (simp add: naive_motion_def nested_loops st_def)
  have sub: "d ` set (box dm dm) \<subseteq> image_cells dst dm"
    by (auto simp: d_def set_box intro!: RIDX_image)
  show "a \<notin> image_cells dst dm \<Longrightarrow> naive_motion dm src dst m a = m a"
    unfolding eq using fold_frame [OF st] sub by blast
  assume rc: "(r, c) \<in> grid dm"
  have "fold st (box dm dm) m (dst + RIDX r c dm) =
      (if dst + RIDX r c dm \<in> d ` set (box dm dm)
       then of_channels (\<lambda>ch. combo dm src r c ch m) else m (dst + RIDX r c dm))"
  proof (rule fold_value [OF st])
    show "d ` set (box dm dm) \<inter> image_cells src dm = {}"
      using sub disj by blast
    show "agree (image_cells src dm) m m"
      by (simp add: agree_def)
    fix k m' assume k: "k \<in> set (box dm dm)" "d k = dst + RIDX r c dm" "agree (image_cells src dm) m m'"
    have "k = (r, c)"
      using k(1,2) rc RIDX_inj [of "fst k" "snd k" dm r c] by (auto simp: d_def set_box grid_def split: prod.splits)
    moreover have "combo dm src r c ch m' = combo dm src r c ch m" for ch
      using rc k(3) by (auto simp: combo_def agree_px grid_def)
    ultimately show "st k m' (dst + RIDX r c dm) = of_channels (\<lambda>ch. combo dm src r c ch m)"
      by (simp add: st_def weighted_combo_eq)
  qed
  moreover have "dst + RIDX r c dm \<in> d ` set (box dm dm)"
    using rc by (auto simp: d_def set_box grid_def intro!: image_eqI [of _ _ "(r, c)"])
  ultimately show "naive_motion dm src dst m (dst + RIDX r c dm) = of_channels (\<lambda>ch. combo dm src r c ch m)"
    by (simp add: eq)
qed

lemma motion_same:
  assumes "2 \<le> dm" "dm mod 8 \<le> 2" "src + dm * dm \<le> dst \<or> dst + dm * dm \<le> src"
  shows "motion dm src dst m = naive_motion dm src dst m"
proof
  fix a
  note disj = image_disjoint [OF assms(3)]
  have ok: "motion_ok dm src dst m (grid dm) (motion dm src dst m)"
    by (rule motion_all [OF disj assms(1,2)])
  show "motion dm src dst m a = naive_motion dm src dst m a"
  proof (cases "a \<in> image_cells dst dm")
    case True
    then obtain r c where "(r, c) \<in> grid dm" "a = dst + RIDX r c dm"
      using assms(1) by (elim image_cells_cases) (auto simp: grid_def)
    then show ?thesis
      using ok naive_motion_all(2) [OF disj] by (auto simp: motion_ok_def blurred_def)
  next
    case False
    then show ?thesis
      using ok naive_motion_all(1) [OF disj] by (simp add: motion_ok_def)
  qed
qed


section \<open>The properties\<close>

text \<open>C22. On any image the exercise uses (a multiple of 16 pixels wide, source and destination
  not overlapping), the tiled pinwheel leaves memory exactly as the naive one does: every
  quadrant of the source appears in the destination turned by a quarter, and no cell outside the
  destination changes.\<close>

theorem pinwheel_correct:
  assumes "16 dvd dm" "0 \<le> dm" "src + dm * dm \<le> dest \<or> dest + dm * dm \<le> src"
  shows "pinwheel dm src dest m = naive_pinwheel dm src dest m \<and>
    (\<forall>a. a \<notin> {dest..<dest + dm * dm} \<longrightarrow> pinwheel dm src dest m a = m a) \<and>
    (\<forall>r\<in>{0..<dm}. \<forall>c\<in>{0..<dm}. pinwheel dm src dest m (dest + RIDX r c dm) =
       (let h = dm div 2; u = r div h; v = c div h
        in m (src + RIDX (u * h + c mod h) (v * h + (h - 1 - r mod h)) dm)))"
proof -
  have even: "even dm"
    using assms(1) by presburger
  note spec = four_turns_spec [OF even assms(2) set_box image_disjoint [OF assms(3)]]
  show ?thesis
    unfolding pinwheel_same [OF assms] naive_pinwheel_turns [OF even]
    using spec(1) [of _ m] spec(2) [of _ _ m] by (auto simp: image_cells_def turned_def)
qed

theorem pinwheel_correct_witness:
  "pinwheel 16 0 256 (\<lambda>a. \<lparr>red = word_of_int a, green = 0, blue = 0\<rparr>) =
   naive_pinwheel 16 0 256 (\<lambda>a. \<lparr>red = word_of_int a, green = 0, blue = 0\<rparr>)"
  by (rule pinwheel_correct [THEN conjunct1]) simp_all

text \<open>C23. The hand-specialised motion kernel (shifts instead of floating point weights, tiles, and
  separate code for the last two rows and columns) agrees with the naive one in the whole memory
  when the dimension is 0, 1 or 2 modulo 8: each pixel is the weighted combination of its
  neighbours, and no cell outside the destination changes although the tiles run past the
  interior.\<close>

theorem motion_correct:
  assumes "2 \<le> dm" "dm mod 8 \<le> 2" "src + dm * dm \<le> dst \<or> dst + dm * dm \<le> src"
  shows "motion dm src dst m = naive_motion dm src dst m \<and>
    (\<forall>a. a \<notin> {dst..<dst + dm * dm} \<longrightarrow> motion dm src dst m a = m a) \<and>
    (\<forall>r\<in>{0..<dm}. \<forall>c\<in>{0..<dm}. motion dm src dst m (dst + RIDX r c dm) = weighted_combo dm r c src m)"
  unfolding motion_same [OF assms]
  using naive_motion_all [OF image_disjoint [OF assms(3)]]
  by (auto simp: grid_def weighted_combo_eq image_cells_def)

theorem motion_correct_witness:
  "motion 32 0 1024 (\<lambda>a. \<lparr>red = word_of_int a, green = 7, blue = 0\<rparr>) =
   naive_motion 32 0 1024 (\<lambda>a. \<lparr>red = word_of_int a, green = 7, blue = 0\<rparr>)"
  by (rule motion_correct [THEN conjunct1]) simp_all

end
