(* ===== verification/Perf_Driver.thy ===== *)
theory Perf_Driver
  imports Kernels C_Prelude
begin

text \<open>
  The correctness checks of \<open>Performancelab/driver.c\<close>: the images it lays out, how they are
  filled, and the two checkers that decide whether a registered kernel is right. The timing
  half of the driver is in \<open>Perf_Main\<close>. What the checkers
  print and the image files they write are returned as strings.
\<close>

section \<open>Benchmark tables\<close>

type_synonym kernel = "int \<Rightarrow> int \<Rightarrow> int \<Rightarrow> mem \<Rightarrow> mem"

record bench_t =
  funct :: kernel
  description :: string
  valid :: bool

definition MAX_BENCHMARKS :: nat where
  "MAX_BENCHMARKS = 100"

text \<open>A table is the list of its first \<open>count\<close> entries; there is no check against its size.\<close>

definition add_motion_function :: "bench_t list \<Rightarrow> kernel \<Rightarrow> string \<Rightarrow> bench_t list option" where
  "add_motion_function table f descr =
     (if length table < MAX_BENCHMARKS
      then Some (table @ [\<lparr>funct = f, description = descr, valid = False\<rparr>]) else None)"

definition add_pinwheel_function :: "bench_t list \<Rightarrow> kernel \<Rightarrow> string \<Rightarrow> bench_t list option" where
  "add_pinwheel_function table f descr =
     (if length table < MAX_BENCHMARKS
      then Some (table @ [\<lparr>funct = f, description = descr, valid = False\<rparr>]) else None)"

definition register_pinwheel_functions :: "bench_t list \<Rightarrow> bench_t list option" where
  "register_pinwheel_functions table =
     do { table \<leftarrow> add_pinwheel_function table pinwheel ''pinwheel: Current working version'';
          add_pinwheel_function table naive_pinwheel ''naive_pinwheel: Naive baseline implementation'' }"

definition register_motion_functions :: "bench_t list \<Rightarrow> bench_t list option" where
  "register_motion_functions table =
     do { table \<leftarrow> add_motion_function table motion ''motion: Current working version'';
          add_motion_function table naive_motion ''naive_motion: Naive baseline implementation'' }"

section \<open>Images\<close>

record images =
  orig :: int
  tmp :: int
  result :: int
  copy_of_orig :: int

definition black :: pixel where
  "black = \<lparr>red = 0, green = 0, blue = 0\<rparr>"

text \<open>\<open>random_in_interval\<close> takes the next value of \<open>rand\<close>; the generator is the sequence \<open>rand\<close>
  of non-negative values and the position in it.\<close>

definition random_in_interval :: "(nat \<Rightarrow> nat) \<Rightarrow> int \<Rightarrow> int \<Rightarrow> nat \<Rightarrow> int \<times> nat" where
  "random_in_interval rand low high k =
     (let size = high - low in (int (rand k) mod size + low, k + 1))"

text \<open>\<open>(int)(((double)i / from) * to)\<close>. The image dimensions are powers of two, for which the
  double precision quotient is exact, or 96, for which the product is an integer or at least a third
  away from one: rounding does not change the truncated value.\<close>

definition scale :: "int \<Rightarrow> int \<Rightarrow> int \<Rightarrow> int" where
  "scale i d n = c_trunc (of_int i / of_int d * of_int n)"

datatype image_mode = RANDOM | GRADIENT | SQUARES

definition rgb :: "int \<Rightarrow> int \<Rightarrow> int \<Rightarrow> pixel" where
  "rgb r g b = \<lparr>red = word_of_int r, green = word_of_int g, blue = word_of_int b\<rparr>"

definition fresh_pixel :: "image_mode \<Rightarrow> (nat \<Rightarrow> nat) \<Rightarrow> int \<Rightarrow> int \<Rightarrow> int \<Rightarrow> nat \<Rightarrow> pixel \<times> nat" where
  "fresh_pixel mode rand dm i j k =
    (case mode of
       GRADIENT \<Rightarrow> (rgb (scale i dm 65536) (scale \<bar>j - i\<bar> dm 65536) (scale (i + j) (2 * dm) 65536), k)
     | SQUARES \<Rightarrow>
         (if odd (drop_bit 4 i) \<and> odd (drop_bit 4 j)
          then rgb (scale (drop_bit 4 i) (drop_bit 4 dm) 65536) (scale (drop_bit 4 j) (drop_bit 4 dm) 65536)
                 (scale (drop_bit 4 (i + j)) (drop_bit 4 dm) 65536)
          else rgb 0 0 0, k)
     | RANDOM \<Rightarrow>
         (let (r, k) = random_in_interval rand 0 65536 k;
              (g, k) = random_in_interval rand 0 65536 k;
              (b, k) = random_in_interval rand 0 65536 k
          in (rgb r g b, k)))"

definition create :: "image_mode \<Rightarrow> (nat \<Rightarrow> nat) \<Rightarrow> int \<Rightarrow> int \<Rightarrow> mem \<times> nat \<Rightarrow> images \<times> mem \<times> nat" where
  "create mode rand data dm s =
    (let im = \<lparr>orig = data, tmp = data + dm * dm, result = data + dm * dm + dm * dm,
               copy_of_orig = data + dm * dm + dm * dm + dm * dm\<rparr>
     in (im, for_lt 0 dm 1 (\<lambda>i. for_lt 0 dm 1 (\<lambda>j (m, k).
               let (p, k) = fresh_pixel mode rand dm i j k;
                   m = m(orig im + RIDX i j dm := p);
                   m = m(copy_of_orig im + RIDX i j dm := m (orig im + RIDX i j dm));
                   m = m(result im + RIDX i j dm := black)
               in (m, k))) s))"

section \<open>The checkers\<close>

definition compare_pixels :: "pixel \<Rightarrow> pixel \<Rightarrow> bool" where
  "compare_pixels p1 p2 \<longleftrightarrow> red p1 \<noteq> red p2 \<or> green p1 \<noteq> green p2 \<or> blue p1 \<noteq> blue p2"

text \<open>A loop that returns from the function at the first index where \<open>p\<close> holds.\<close>

function found_lt :: "int \<Rightarrow> int \<Rightarrow> (int \<Rightarrow> bool) \<Rightarrow> bool" where
  "found_lt i n p = (if i < n then if p i then True else found_lt (i + 1) n p else False)"
  by pat_completeness auto
termination
  by (relation "measure (\<lambda>(i, n, p). nat (n - i))") auto

declare found_lt.simps [simp del]

definition check_orig :: "int \<Rightarrow> images \<Rightarrow> mem \<Rightarrow> bool" where
  "check_orig dm im m = found_lt 0 dm (\<lambda>i. found_lt 0 dm (\<lambda>j.
     compare_pixels (m (orig im + RIDX i j dm)) (m (copy_of_orig im + RIDX i j dm))))"

definition nl :: string where
  "nl = [CHR 10]"

definition chan :: "16 word \<Rightarrow> string" where
  "chan w = dec_int (uint w)"

text \<open>The name and the contents of the file; whether \<open>fopen\<close> can create it is decided where the files are written,
  in \<open>write_files\<close> of \<open>Perf_Main\<close>.\<close>

definition write_image :: "int \<Rightarrow> string \<Rightarrow> string \<Rightarrow> int \<Rightarrow> mem \<Rightarrow> string \<times> string" where
  "write_image dm variant mode img m =
    (variant @ ''_'' @ mode @ ''_'' @ dec_int dm @ ''.image'',
     for_lt 0 dm 1 (\<lambda>i f.
       for_lt 0 dm 1 (\<lambda>j f.
         f @ (if j > 0 then '' '' else []) @ chan (red (m (img + RIDX i j dm))) @ '' '' @
           chan (green (m (img + RIDX i j dm))) @ '' '' @ chan (blue (m (img + RIDX i j dm)))) f @ nl)
       (dec_int dm @ '' '' @ dec_int dm @ nl))"

record verdict =
  err :: int
  badi :: int
  badj :: int
  is_pixel :: pixel
  should_be :: pixel

definition no_errors :: verdict where
  "no_errors = \<lparr>err = 0, badi = 0, badj = 0, is_pixel = black, should_be = black\<rparr>"

definition one_error :: "int \<Rightarrow> int \<Rightarrow> pixel \<Rightarrow> pixel \<Rightarrow> verdict \<Rightarrow> verdict" where
  "one_error i j p q v = \<lparr>err = err v + 1, badi = i, badj = j, is_pixel = p, should_be = q\<rparr>"

definition orig_changed :: string where
  "orig_changed = nl @ ''Error: Original image has been changed!'' @ nl"

definition show_pixel :: "string \<Rightarrow> int \<Rightarrow> int \<Rightarrow> pixel \<Rightarrow> string" where
  "show_pixel what i j p = what @ ''['' @ dec_int i @ ''][''  @ dec_int j @ ''].{red,green,blue} = {'' @
     chan (red p) @ '','' @ chan (green p) @ '','' @ chan (blue p) @ ''}'' @ nl"

definition check_pinwheel ::
    "int \<Rightarrow> bool \<Rightarrow> images \<Rightarrow> mem \<Rightarrow> int \<times> mem \<times> string \<times> (string \<times> string) list" where
  "check_pinwheel dm save_images im m =
    (if check_orig dm im m then (1, m, orig_changed, [])
     else
      let m = for_lt 0 (dm div 2) 1 (\<lambda>j. for_lt 0 (dm div 2) 1 (\<lambda>i m.
                m(tmp im + RIDX (dm div 2 - 1 - j) i dm := m (orig im + RIDX i j dm)))) m;
          m = for_lt 0 (dm div 2) 1 (\<lambda>j. for_lt 0 (dm div 2) 1 (\<lambda>i m.
                m(tmp im + RIDX (dm div 2 - 1 - j) (dm div 2 + i) dm :=
                    m (orig im + RIDX i (dm div 2 + j) dm)))) m;
          m = for_lt 0 (dm div 2) 1 (\<lambda>j. for_lt 0 (dm div 2) 1 (\<lambda>i m.
                m(tmp im + RIDX (dm - 1 - j) i dm := m (orig im + RIDX (dm div 2 + i) j dm)))) m;
          m = for_lt 0 (dm div 2) 1 (\<lambda>j. for_lt 0 (dm div 2) 1 (\<lambda>i m.
                m(tmp im + RIDX (dm - 1 - j) (dm div 2 + i) dm :=
                    m (orig im + RIDX (dm div 2 + i) (dm div 2 + j) dm)))) m;
          files = (if save_images then
                     [write_image dm ''pinwheel'' ''orig'' (orig im) m,
                      write_image dm ''pinwheel'' ''result'' (result im) m,
                      write_image dm ''pinwheel'' ''expected'' (tmp im) m]
                   else []);
          v = for_lt 0 dm 1 (\<lambda>j. for_lt 0 dm 1 (\<lambda>i v.
                if compare_pixels (m (tmp im + RIDX i j dm)) (m (result im + RIDX i j dm))
                then one_error i j (m (result im + RIDX i j dm)) (m (tmp im + RIDX i j dm)) v else v)) no_errors;
          out = (if err v \<noteq> 0 then
                   nl @ ''ERROR: Dimension='' @ dec_int dm @ '', '' @ dec_int (err v) @ '' errors'' @ nl @
                   ''E.g., The following pixel has the wrong value:'' @ nl @
                   show_pixel ''result'' (badi v) (badj v) (is_pixel v) @ ''It should be:'' @ nl @
                   show_pixel ''img'' (badi v) (badj v) (should_be v)
                 else [])
      in (err v, m, out, files))"

definition check_weighted_sum :: "int \<Rightarrow> int \<Rightarrow> int \<Rightarrow> int \<Rightarrow> mem \<Rightarrow> pixel" where
  "check_weighted_sum dm i j src m =
    (let (sum0, sum1, sum2) =
       for_lt 0 3 1 (\<lambda>ii. for_lt 0 3 1 (\<lambda>jj (sum0, sum1, sum2).
         if i + ii < dm \<and> j + jj < dm then
           if i + ii < dm \<and> j + jj < dm then
             (let p = m (src + RIDX (i + ii) (j + jj) dm); w = weights ! nat ii ! nat jj
              in (c_trunc (of_int sum0 + of_int (uint (red p)) * w),
                  c_trunc (of_int sum1 + of_int (uint (green p)) * w),
                  c_trunc (of_int sum2 + of_int (uint (blue p)) * w)))
           else (sum0, sum1, sum2)
         else (sum0, sum1, sum2))) (0, 0, 0)
     in \<lparr>red = word_of_int sum0, green = word_of_int sum1, blue = word_of_int sum2\<rparr>)"

definition check_motion ::
    "int \<Rightarrow> bool \<Rightarrow> images \<Rightarrow> mem \<Rightarrow> int \<times> mem \<times> string \<times> (string \<times> string) list" where
  "check_motion dm save_images im m =
    (if check_orig dm im m then (1, m, orig_changed, [])
     else
      let m = for_lt 0 dm 1 (\<lambda>i. for_lt 0 dm 1 (\<lambda>j m.
                m(tmp im + RIDX i j dm := check_weighted_sum dm i j (orig im) m))) m;
          files = (if save_images then
                     [write_image dm ''motion'' ''orig'' (orig im) m,
                      write_image dm ''motion'' ''result'' (result im) m,
                      write_image dm ''motion'' ''expected'' (tmp im) m]
                   else []);
          v = for_lt 0 dm 1 (\<lambda>i. for_lt 0 dm 1 (\<lambda>j v.
                if compare_pixels (m (result im + RIDX i j dm)) (m (tmp im + RIDX i j dm))
                then one_error i j (m (result im + RIDX i j dm)) (m (tmp im + RIDX i j dm)) v else v)) no_errors;
          out = (if err v \<noteq> 0 then
                   nl @ ''ERROR: Dimension='' @ dec_int dm @ '', '' @ dec_int (err v) @ '' errors'' @ nl @
                   ''E.g., '' @ nl @
                   show_pixel ''You have dst'' (badi v) (badj v) (is_pixel v) @
                   show_pixel ''It should be dst'' (badi v) (badj v) (should_be v)
                 else [])
      in (err v, m, out, files))"


section \<open>What the checkers decide\<close>

lemma found_lt_iff: "found_lt i n p \<longleftrightarrow> (\<exists>x. i \<le> x \<and> x < n \<and> p x)"
proof (induction i n p rule: found_lt.induct)
  case (1 i n p)
  have "(\<exists>x. i \<le> x \<and> x < n \<and> p x) \<longleftrightarrow> i < n \<and> (p i \<or> (\<exists>x. i + 1 \<le> x \<and> x < n \<and> p x))"
    by (smt (verit))
  then show ?case
    using 1 by (subst found_lt.simps) auto
qed

lemma compare_pixels_iff: "compare_pixels p q \<longleftrightarrow> p \<noteq> q"
  by (cases p; cases q) (simp add: compare_pixels_def)

lemma check_orig_iff:
  "check_orig dm im m \<longleftrightarrow>
   (\<exists>(r, c)\<in>grid dm. m (orig im + RIDX r c dm) \<noteq> m (copy_of_orig im + RIDX r c dm))"
  unfolding check_orig_def found_lt_iff compare_pixels_iff grid_def by force

lemma distinct_idx: "distinct (idx i n k)"
proof (induction i n k rule: idx.induct)
  case (1 i n k)
  then show ?case
    by (subst idx.simps) (auto simp: set_idx)
qed

lemma distinct_box: "distinct (box n n')"
  unfolding box_def product_concat_map [symmetric] by (intro distinct_product distinct_idx)

lemma err_count:
  assumes "distinct L"
  shows "err (fold (\<lambda>(i, j) v. if bad i j then one_error i j (p i j) (q i j) v else v) L v) =
    err v + int (card {(i, j) \<in> set L. bad i j})"
  using assms
proof (induction L arbitrary: v)
  case (Cons k L)
  obtain i j where k: "k = (i, j)" by (cases k)
  have "{(i, j) \<in> set (k # L). bad i j} = (if bad i j then insert (i, j) {(i, j) \<in> set L. bad i j}
      else {(i, j) \<in> set L. bad i j})"
    using k by auto
  moreover have "finite {(i, j) \<in> set L. bad i j}"
    by (rule finite_subset [of _ "set L"]) auto
  ultimately show ?case
    using Cons k by (auto simp: one_error_def)
qed simp

definition layout :: "int \<Rightarrow> images \<Rightarrow> bool" where
  "layout dm im \<longleftrightarrow> tmp im = orig im + dm * dm \<and> result im = orig im + dm * dm + dm * dm \<and>
     copy_of_orig im = orig im + dm * dm + dm * dm + dm * dm"

lemma layout_disjoint:
  assumes "layout dm im"
  shows "image_cells (orig im) dm \<inter> image_cells (tmp im) dm = {}"
    "image_cells (orig im) dm \<inter> image_cells (result im) dm = {}"
    "image_cells (orig im) dm \<inter> image_cells (copy_of_orig im) dm = {}"
    "image_cells (tmp im) dm \<inter> image_cells (result im) dm = {}"
    "image_cells (tmp im) dm \<inter> image_cells (copy_of_orig im) dm = {}"
    "image_cells (result im) dm \<inter> image_cells (copy_of_orig im) dm = {}"
proof -
  have "0 \<le> dm * dm" by simp
  then show "image_cells (orig im) dm \<inter> image_cells (tmp im) dm = {}"
    "image_cells (orig im) dm \<inter> image_cells (result im) dm = {}"
    "image_cells (orig im) dm \<inter> image_cells (copy_of_orig im) dm = {}"
    "image_cells (tmp im) dm \<inter> image_cells (result im) dm = {}"
    "image_cells (tmp im) dm \<inter> image_cells (copy_of_orig im) dm = {}"
    "image_cells (result im) dm \<inter> image_cells (copy_of_orig im) dm = {}"
    using assms by (intro image_disjoint; simp add: layout_def)+
qed

definition swapped :: "int \<Rightarrow> (int \<times> int) list" where
  "swapped n = map (\<lambda>(j, i). (i, j)) (box n n)"

lemma set_swapped: "set (swapped n) = {0..<n} \<times> {0..<n}"
  by (auto simp: swapped_def set_box)

lemma distinct_swapped: "distinct (swapped n)"
  unfolding swapped_def distinct_map by (auto simp: distinct_box inj_on_def)

lemma swapped_loops:
  "for_lt 0 n 1 (\<lambda>j. for_lt 0 n 1 (\<lambda>i. st i j)) = fold (\<lambda>(i, j). st i j) (swapped n)"
  by (rule ext) (simp add: nested_loops [of n n "\<lambda>j i. st i j"] swapped_def fold_map comp_def split_beta')

definition bad_pinwheel :: "int \<Rightarrow> images \<Rightarrow> mem \<Rightarrow> (int \<times> int) set" where
  "bad_pinwheel dm im m = {(r, c) \<in> grid dm. m (result im + RIDX r c dm) \<noteq> turned dm (orig im) r c m}"

definition bad_motion :: "int \<Rightarrow> images \<Rightarrow> mem \<Rightarrow> (int \<times> int) set" where
  "bad_motion dm im m = {(r, c) \<in> grid dm. m (result im + RIDX r c dm) \<noteq> weighted_combo dm r c (orig im) m}"

lemma check_pinwheel_count:
  assumes "even dm" "0 \<le> dm" "layout dm im"
  shows "fst (check_pinwheel dm save im m) =
    (if check_orig dm im m then 1 else int (card (bad_pinwheel dm im m)))"
proof -
  have turns:
    "turn dm src dest 0 0 = (\<lambda>(i, j) m. m(dest + RIDX (dm div 2 - 1 - j) i dm := m (src + RIDX i j dm)))"
    "turn dm src dest 0 1 = (\<lambda>(i, j) m.
       m(dest + RIDX (dm div 2 - 1 - j) (dm div 2 + i) dm := m (src + RIDX i (dm div 2 + j) dm)))"
    "turn dm src dest 1 0 = (\<lambda>(i, j) m.
       m(dest + RIDX (dm - 1 - j) i dm := m (src + RIDX (dm div 2 + i) j dm)))"
    "turn dm src dest 1 1 = (\<lambda>(i, j) m.
       m(dest + RIDX (dm - 1 - j) (dm div 2 + i) dm := m (src + RIDX (dm div 2 + i) (dm div 2 + j) dm)))" for src dest
    using assms(1) by (auto simp: turn_def algebra_simps elim!: evenE)
  note disj = layout_disjoint [OF assms(3)]
  define m4 where "m4 = four_turns dm (orig im) (tmp im) (swapped (dm div 2)) m"
  note spec = four_turns_spec [OF assms(1,2) set_swapped disj(1), where m = m, folded m4_def]
  have m4: "m4 (tmp im + RIDX r c dm) = turned dm (orig im) r c m"
     "m4 (result im + RIDX r c dm) = m (result im + RIDX r c dm)" if "(r, c) \<in> grid dm" for r c
    using that spec(2) spec(1) [of "result im + RIDX r c dm"] disj(4) RIDX_image [of r dm c "result im"]
    by (auto simp: grid_def)
  have "fst (check_pinwheel dm save im m) = (if check_orig dm im m then 1 else
      int (card {(i, j) \<in> set (swapped dm). m4 (tmp im + RIDX i j dm) \<noteq> m4 (result im + RIDX i j dm)}))"
    unfolding check_pinwheel_def Let_def swapped_loops turns [symmetric] compare_pixels_iff
    by (simp add: err_count distinct_swapped m4_def four_turns_def no_errors_def)
  moreover have "{(i, j) \<in> set (swapped dm). m4 (tmp im + RIDX i j dm) \<noteq> m4 (result im + RIDX i j dm)} =
      bad_pinwheel dm im m"
    using m4 by (auto simp: bad_pinwheel_def set_swapped grid_def)
  ultimately show ?thesis by simp
qed


lemma check_weighted_sum_eq: "check_weighted_sum dm i j src m = weighted_combo dm i j src m"
proof -
  define put where "put t = (case t of (a, b, c) \<Rightarrow> \<lparr>sred = a, sgreen = b, sblue = c\<rparr>)" for t
  have idx3: "idx 0 3 1 = [0, 1, 2]"
    by (simp add: idx.simps)
  have put_fold: "fold f xs (put t) = put (fold g xs t)" if "\<And>x t. f x (put t) = put (g x t)"
    for f :: "int \<Rightarrow> pixel_sum \<Rightarrow> pixel_sum" and g xs t
    using that by (induction xs arbitrary: t) auto
  have init: "initialize_pixel_sum = put (0, 0, 0)"
    by (simp add: put_def initialize_pixel_sum_def)
  let ?g = "\<lambda>ii jj (sum0, sum1, sum2).
         if i + ii < dm \<and> j + jj < dm then
           if i + ii < dm \<and> j + jj < dm then
             (let p = m (src + RIDX (i + ii) (j + jj) dm); w = weights ! nat ii ! nat jj
              in (c_trunc (of_int sum0 + of_int (uint (red p)) * w),
                  c_trunc (of_int sum1 + of_int (uint (green p)) * w),
                  c_trunc (of_int sum2 + of_int (uint (blue p)) * w)))
           else (sum0, sum1, sum2)
         else (sum0, sum1, sum2)"
  have "weighted_combo dm i j src m =
      assign_sum_to_pixel (put (for_lt 0 3 1 (\<lambda>ii. for_lt 0 3 1 (?g ii)) (0, 0, 0)))"
    unfolding weighted_combo_def for_lt_idx init
    by (subst put_fold, rule put_fold)
      (auto simp: put_def accumulate_weighted_sum_def Let_def split: prod.splits)
  then show ?thesis
    unfolding check_weighted_sum_def
    by (simp add: assign_sum_to_pixel_def put_def split: prod.splits)
qed

lemma check_motion_count:
  assumes "layout dm im"
  shows "fst (check_motion dm save im m) =
    (if check_orig dm im m then 1 else int (card (bad_motion dm im m)))"
proof -
  note disj = layout_disjoint [OF assms]
  define m4 where "m4 = naive_motion dm (orig im) (tmp im) m"
  have m4: "m4 (tmp im + RIDX r c dm) = weighted_combo dm r c (orig im) m"
     "m4 (result im + RIDX r c dm) = m (result im + RIDX r c dm)" if "(r, c) \<in> grid dm" for r c
    using that naive_motion_all(2) [OF disj(1) that, of m]
      naive_motion_all(1) [OF disj(1), of "result im + RIDX r c dm" m] disj(4) RIDX_image [of r dm c "result im"]
    by (auto simp: grid_def weighted_combo_eq m4_def)
  have "fst (check_motion dm save im m) = (if check_orig dm im m then 1 else
      int (card {(i, j) \<in> set (box dm dm). m4 (result im + RIDX i j dm) \<noteq> m4 (tmp im + RIDX i j dm)}))"
    unfolding check_motion_def Let_def check_weighted_sum_eq compare_pixels_iff naive_motion_def [symmetric] m4_def [symmetric]
    by (simp add: nested_loops err_count distinct_box no_errors_def)
  moreover have "{(i, j) \<in> set (box dm dm). m4 (result im + RIDX i j dm) \<noteq> m4 (tmp im + RIDX i j dm)} =
      bad_motion dm im m"
    using m4 by (auto simp: bad_motion_def set_box grid_def)
  ultimately show ?thesis by simp
qed

definition quiet :: "int \<times> mem \<times> string \<times> (string \<times> string) list \<Rightarrow> bool" where
  "quiet t \<longleftrightarrow> (fst t = 0 \<longrightarrow> fst (snd (snd t)) = [])"

lemma quiet_let: "(\<And>x. quiet (f x)) \<Longrightarrow> quiet (let x = e in f x)"
  by (simp add: Let_def)

lemma quiet_if: "quiet t \<Longrightarrow> quiet (if b then (1, x, y, z) else t)"
  by (simp add: quiet_def)

lemma quiet_end: "quiet (let out = (if e \<noteq> 0 then a else []) in (e, x, out, z))"
  by (simp add: quiet_def)

lemma check_out: "quiet (check_pinwheel dm save im m)" "quiet (check_motion dm save im m)"
  unfolding check_pinwheel_def check_motion_def by (rule quiet_if; (rule quiet_end | rule quiet_let)+)+

subsection \<open>The images that \<open>create\<close> lays out\<close>

lemma create_layout: "create mode rand data dm s = (im, m, k) \<Longrightarrow> layout dm im"
  by (auto simp: create_def layout_def Let_def)

lemma create_copies:
  assumes "create mode rand data dm s = (im, m, k)"
  shows "\<not> check_orig dm im m"
proof -
  have lay: "layout dm im"
    by (rule create_layout [OF assms])
  note disj = layout_disjoint [OF lay]
  define st where "st = (\<lambda>(i, j) (m, k).
               let (p, k) = fresh_pixel mode rand dm i j k;
                   m = m(orig im + RIDX i j dm := p);
                   m = m(copy_of_orig im + RIDX i j dm := m (orig im + RIDX i j dm));
                   m = m(result im + RIDX i j dm := black)
               in (m, k :: nat))"
  have im: "im = \<lparr>orig = data, tmp = data + dm * dm, result = data + dm * dm + dm * dm,
               copy_of_orig = data + dm * dm + dm * dm + dm * dm\<rparr>"
    using assms by (simp add: create_def Let_def)
  have "(m, k) = fold st (box dm dm) s"
    using assms unfolding create_def Let_def im [symmetric] nested_loops st_def by simp
  moreover have "\<forall>(r, c)\<in>set L. m (orig im + RIDX r c dm) = m (copy_of_orig im + RIDX r c dm)"
    if "set L \<subseteq> grid dm" "(m, k) = fold st (rev L) s" for L m k
    using that
  proof (induction L arbitrary: m k)
    case (Cons ij L)
    obtain i j where ij: "ij = (i, j)" by (cases ij)
    obtain m' k' where mk: "(m', k') = fold st (rev L) s"
      using that [of "fst (fold st (rev L) s)" "snd (fold st (rev L) s)"] by simp
    have IH: "\<forall>(r, c)\<in>set L. m' (orig im + RIDX r c dm) = m' (copy_of_orig im + RIDX r c dm)"
      using Cons.IH [OF _ mk] Cons.prems by simp
    obtain p where m: "m = m'(orig im + RIDX i j dm := p, copy_of_orig im + RIDX i j dm := p,
        result im + RIDX i j dm := black)"
      using Cons.prems(2) mk [symmetric] ij by (auto simp: st_def Let_def split: prod.splits)
    have g: "(i, j) \<in> grid dm"
      using Cons.prems ij by simp
    show ?case
    proof (intro ballI, clarify)
      fix r c assume rc: "(r, c) \<in> set (ij # L)"
      then have gr: "(r, c) \<in> grid dm"
        using Cons.prems by auto
      have ne: "orig im + RIDX x y dm \<noteq> copy_of_orig im + RIDX x' y' dm \<and>
          orig im + RIDX x y dm \<noteq> result im + RIDX x' y' dm \<and>
          copy_of_orig im + RIDX x y dm \<noteq> result im + RIDX x' y' dm"
        if "(x, y) \<in> grid dm" "(x', y') \<in> grid dm" for x y x' y'
        using that RIDX_image [of x dm y] RIDX_image [of x' dm y'] disj(2,3,6) unfolding grid_def
        by (metis atLeastLessThan_iff disjoint_iff mem_Sigma_iff)
      show "m (orig im + RIDX r c dm) = m (copy_of_orig im + RIDX r c dm)"
        using ne [OF g gr] ne [OF gr g] ne [OF g g] IH rc ij unfolding m by auto
    qed
  qed simp
  from this [of "rev (box dm dm)" m k]
  have "\<forall>(r, c)\<in>grid dm. m (orig im + RIDX r c dm) = m (copy_of_orig im + RIDX r c dm)"
    using calculation by (simp add: set_box grid_def)
  then show ?thesis
    by (auto simp: check_orig_iff)
qed


lemma check_orig_frame:
  assumes "layout dm im" "\<And>a. a \<notin> image_cells (result im) dm \<Longrightarrow> m' a = m a"
  shows "check_orig dm im m' = check_orig dm im m"
proof -
  have "m' (b + RIDX r c dm) = m (b + RIDX r c dm)"
    if "(r, c) \<in> grid dm" "b = orig im \<or> b = copy_of_orig im" for r c b
    using that layout_disjoint(2,6) [OF assms(1)] RIDX_image [of r dm c b]
    by (intro assms(2)) (auto simp: grid_def)
  then show ?thesis
    unfolding check_orig_iff by (intro bex_cong refl) auto
qed

lemma image_cells_even:
  assumes "even dm" "(r, c) \<in> grid dm"
  shows "src + RIDX ((r div (dm div 2)) * (dm div 2) + c mod (dm div 2))
      (c div (dm div 2) * (dm div 2) + (dm div 2 - 1 - r mod (dm div 2))) dm \<in> image_cells src dm"
proof -
  obtain h where h: "dm = 2 * h"
    using assms(1) by (elim evenE)
  have rc: "0 \<le> r" "r < 2 * h" "0 \<le> c" "c < 2 * h" "0 < h"
    using assms(2) h by (auto simp: grid_def)
  have q: "0 \<le> x div h * h \<and> x div h * h \<le> h" if "0 \<le> x" "x < 2 * h" for x
  proof -
    have "x div h = 0 \<or> x div h = 1"
      using that by (cases "x < h") (auto simp: div_pos_pos_trivial int_div_pos_eq [of _ _ 1 "x - h"])
    then show ?thesis
      using rc(5) by auto
  qed
  have h2: "2 * h div 2 = h"
    by simp
  show ?thesis
    unfolding h using q [OF rc(1,2)] q [OF rc(3,4)] pos_mod_bound [OF rc(5), of r] pos_mod_bound [OF rc(5), of c]
      pos_mod_sign [OF rc(5), of r] pos_mod_sign [OF rc(5), of c] rc(5)
    by (intro RIDX_image; simp only: h2; linarith)
qed

lemma turned_frame:
  assumes "layout dm im" "even dm" "(r, c) \<in> grid dm" "\<And>a. a \<notin> image_cells (result im) dm \<Longrightarrow> m' a = m a"
  shows "turned dm (orig im) r c m' = turned dm (orig im) r c m"
  using image_cells_even [OF assms(2,3), of "orig im"] layout_disjoint(2) [OF assms(1)] assms(4)
  by (auto simp: turned_def Let_def)

section \<open>The properties\<close>

text \<open>The pinwheel checker accepts exactly the right results: on the driver's layout of the
  images it returns 0 if and only if the original image still equals its copy and every pixel of
  the result is the corresponding pixel of the turned original.\<close>

lemma check_pinwheel_decides:
  assumes "even dm" "0 \<le> dm" "layout dm im"
  shows "fst (check_pinwheel dm save im m) = 0 \<longleftrightarrow>
    (\<forall>(r, c)\<in>grid dm. m (orig im + RIDX r c dm) = m (copy_of_orig im + RIDX r c dm) \<and>
       m (result im + RIDX r c dm) = turned dm (orig im) r c m)"
proof -
  have "finite (bad_pinwheel dm im m)"
    by (rule finite_subset [of _ "grid dm"]) (auto simp: bad_pinwheel_def grid_def)
  then show ?thesis
    unfolding check_pinwheel_count [OF assms] check_orig_iff by (auto simp: bad_pinwheel_def)
qed

definition sample_images :: images where
  "sample_images = \<lparr>orig = 0, tmp = 16, result = 32, copy_of_orig = 48\<rparr>"

lemma pinwheel_pass:
  assumes "even dm" "0 \<le> dm" "create mode rand data dm s = (im, m, k)"
    and "set L = {0..<dm div 2} \<times> {0..<dm div 2}"
  shows "fst (check_pinwheel dm save im (four_turns dm (orig im) (result im) L m)) = 0"
proof -
  note lay = create_layout [OF assms(3)]
  note disj = layout_disjoint(2) [OF lay]
  note spec = four_turns_spec [OF assms(1,2,4) disj, where m = m]
  have "bad_pinwheel dm im (four_turns dm (orig im) (result im) L m) = {}"
    using spec(2) turned_frame [OF lay assms(1) _ spec(1)] by (auto simp: bad_pinwheel_def grid_def)
  then show ?thesis
    using create_copies [OF assms(3)] check_orig_frame [OF lay spec(1)]
    by (simp add: check_pinwheel_count [OF assms(1,2) lay])
qed

text \<open>Every pinwheel function that the program registers passes the driver's check, and passes
  it silently, on every image that \<open>create\<close> makes with a dimension divisible by 16, in each of
  its three modes.\<close>

lemma pinwheel_functs_pass:
  assumes "f = pinwheel \<or> f = naive_pinwheel" "16 dvd dm" "0 \<le> dm" "create mode rand data dm s = (im, m, k)"
  shows "fst (check_pinwheel dm save im (f dm (orig im) (result im) m)) = 0 \<and>
    fst (snd (snd (check_pinwheel dm save im (f dm (orig im) (result im) m)))) = []"
proof -
  obtain q where dm: "dm = 2 * (8 * q)"
    using assms(2) by (elim dvdE) simp
  have even: "even dm" and tiles: "set (tiles (dm div 2)) = {0..<dm div 2} \<times> {0..<dm div 2}"
    using dm by simp (intro set_tiles_exact, simp add: dm)
  have "fst (check_pinwheel dm save im (f dm (orig im) (result im) m)) = 0"
    using pinwheel_pass [OF even assms(3,4) tiles] pinwheel_pass [OF even assms(3,4) set_box] assms(1)
    by (auto simp: pinwheel_turns [OF even] naive_pinwheel_turns [OF even])
  then show ?thesis
    using check_out(1) by (simp add: quiet_def)
qed

lemma pinwheel_kernels_pass:
  assumes "register_pinwheel_functions [] = Some table" "b \<in> set table"
    and "16 dvd dm" "0 \<le> dm" "create mode rand data dm s = (im, m, k)"
  shows "fst (check_pinwheel dm save im (funct b dm (orig im) (result im) m)) = 0 \<and>
    fst (snd (snd (check_pinwheel dm save im (funct b dm (orig im) (result im) m)))) = []"
  using assms(1,2) pinwheel_functs_pass [OF _ assms(3-5)]
  by (auto simp: register_pinwheel_functions_def add_pinwheel_function_def MAX_BENCHMARKS_def)

lemma naive_motion_pass:
  assumes "create mode rand data dm s = (im, m, k)"
  shows "fst (check_motion dm save im (naive_motion dm (orig im) (result im) m)) = 0"
proof -
  note lay = create_layout [OF assms(1)]
  note disj = layout_disjoint(2) [OF lay]
  let ?m = "naive_motion dm (orig im) (result im) m"
  have "agree (image_cells (orig im) dm) m ?m"
    unfolding agree_def using naive_motion_all(1) [OF disj] disj by (metis disjoint_iff)
  then have "combo dm (orig im) r c ch ?m = combo dm (orig im) r c ch m" if "(r, c) \<in> grid dm" for r c ch
    using that by (auto simp: combo_def agree_px grid_def)
  then have "bad_motion dm im ?m = {}"
    using naive_motion_all(2) [OF disj] by (auto simp: bad_motion_def weighted_combo_eq)
  then show ?thesis
    using create_copies [OF assms(1)] check_orig_frame [OF lay naive_motion_all(1) [OF disj]]
    by (simp add: check_motion_count [OF lay])
qed

text \<open>Every motion function that the program registers passes the driver's check silently on
  every image that \<open>create\<close> makes whose dimension is 0, 1 or 2 modulo 8.\<close>

lemma motion_functs_pass:
  assumes "f = motion \<or> f = naive_motion" "2 \<le> dm" "dm mod 8 \<le> 2" "create mode rand data dm s = (im, m, k)"
  shows "fst (check_motion dm save im (f dm (orig im) (result im) m)) = 0 \<and>
    fst (snd (snd (check_motion dm save im (f dm (orig im) (result im) m)))) = []"
proof -
  have "orig im + dm * dm \<le> result im"
    using create_layout [OF assms(4)] by (simp add: layout_def)
  then have "motion dm (orig im) (result im) m = naive_motion dm (orig im) (result im) m"
    using assms(2,3) by (intro motion_same) auto
  then have "fst (check_motion dm save im (f dm (orig im) (result im) m)) = 0"
    using naive_motion_pass [OF assms(4)] assms(1) by auto
  then show ?thesis
    using check_out(2) by (simp add: quiet_def)
qed

lemma motion_kernels_pass:
  assumes "register_motion_functions [] = Some table" "b \<in> set table"
    and "2 \<le> dm" "dm mod 8 \<le> 2" "create mode rand data dm s = (im, m, k)"
  shows "fst (check_motion dm save im (funct b dm (orig im) (result im) m)) = 0 \<and>
    fst (snd (snd (check_motion dm save im (funct b dm (orig im) (result im) m)))) = []"
  using assms(1,2) motion_functs_pass [OF _ assms(3-5)]
  by (auto simp: register_motion_functions_def add_motion_function_def MAX_BENCHMARKS_def)

end
