(* ===== verification/Perf_Main.thy ===== *)
theory Perf_Main
  imports Perf_Driver Fcyc
begin

text \<open>
  The rest of \<open>Performancelab/driver.c\<close>: options, the choice of the functions to test, the tests and
  measurements of each function, and the best scores. The parameters are what \<open>srand\<close> and \<open>rand\<close> yield
  for a seed, the cycle counter, where the images are, and which files can be written. \<open>double\<close> is read as the real
  numbers; the tables of measurements are not among the printed text. \<open>Inl\<close> is the status of an \<open>exit\<close>.
\<close>

section \<open>State\<close>

record drv =
  pin_table :: "bench_t list"
  mot_table :: "bench_t list"
  pixels :: "mem \<times> nat"
  fsys :: "string \<Rightarrow> string option"
  printed :: string
  fcyc :: fcyc_state
  timed :: nat
  pinwheel_maxmean :: real
  pinwheel_maxmean_desc :: "string option"
  motion_maxmean :: real
  motion_maxmean_desc :: "string option"

record perf_options =
  img_mode :: image_mode
  save_test_image_files :: bool
  save_all_image_files :: bool
  quit_after_dump :: bool
  skip_studentname_check :: bool
  autograder :: bool
  seed :: int
  bench_func_file :: "string option"

definition perf_options0 :: perf_options where
  "perf_options0 = \<lparr>img_mode = RANDOM, save_test_image_files = False, save_all_image_files = False, quit_after_dump = False,
     skip_studentname_check = False, autograder = False, seed = 1729, bench_func_file = None\<rparr>"

definition test_dim_pinwheel :: "int list" where
  "test_dim_pinwheel = [64, 128, 256, 512, 1024]"

definition test_dim_motion :: "int list" where
  "test_dim_motion = [32, 64, 128, 256, 512]"

definition pinwheel_baseline_cpes :: "real list" where
  "pinwheel_baseline_cpes = [2.6, 3.0, 6.7, 9.9, 13.5]"

definition motion_baseline_cpes :: "real list" where
  "motion_baseline_cpes = [204, 210, 214, 215, 216]"

definition ODD_DIM :: int where
  "ODD_DIM = 96"

definition DIM_CNT :: nat where
  "DIM_CNT = 5"

definition student_name :: string where
  "student_name = ''John Doe''"

definition student_email :: string where
  "student_email = ''u0888888@utah.edu''"

section \<open>Testing one function\<close>

definition run_pinwheel_benchmark :: "bench_t \<Rightarrow> int \<Rightarrow> images \<Rightarrow> mem \<Rightarrow> mem" where
  "run_pinwheel_benchmark b dm im m = funct b dm (orig im) (result im) m"

definition run_motion_benchmark :: "bench_t \<Rightarrow> int \<Rightarrow> images \<Rightarrow> mem \<Rightarrow> mem" where
  "run_motion_benchmark b dm im m = funct b dm (orig im) (result im) m"

text \<open>The function that is measured.\<close>

definition pinwheel_wrapper :: "bench_t \<Rightarrow> int \<Rightarrow> images \<Rightarrow> mem \<Rightarrow> mem" where
  "pinwheel_wrapper b mydim im m = funct b mydim (orig im) (result im) m"

definition motion_wrapper :: "bench_t \<Rightarrow> int \<Rightarrow> images \<Rightarrow> mem \<Rightarrow> mem" where
  "motion_wrapper b mydim im m = funct b mydim (orig im) (result im) m"

definition failed_check :: "bench_t \<Rightarrow> int \<Rightarrow> string" where
  "failed_check b dm = ''Benchmark '' @ [CHR 0x22] @ description b @ [CHR 0x22] @
     '' failed correctness check for dimension '' @ dec_int dm @ ''.'' @ nl"

text \<open>The image files; \<open>writable\<close> tells which files \<open>fopen\<close> can create. When it fails, \<open>write_image\<close> calls \<open>fprintf\<close> with
  \<open>NULL\<close>, which is undefined.\<close>

definition write_files ::
  "(string \<Rightarrow> bool) \<Rightarrow> (string \<times> string) list \<Rightarrow> (string \<Rightarrow> string option) \<Rightarrow> (string \<Rightarrow> string option) option" where
  "write_files writable imgs fs =
    (if list_all (\<lambda>(name, contents). writable name) imgs
     then Some (foldl (\<lambda>fs (name, contents). fs(name \<mapsto> contents)) fs imgs) else None)"

text \<open>What the two kinds of tests differ in: how a function is run and checked.\<close>

type_synonym run = "bench_t \<Rightarrow> int \<Rightarrow> images \<Rightarrow> mem \<Rightarrow> mem"

type_synonym checker = "int \<Rightarrow> bool \<Rightarrow> images \<Rightarrow> mem \<Rightarrow> int \<times> mem \<times> string \<times> (string \<times> string) list"

text \<open>\<open>create(dim)\<close>, the run, and \<open>check_...(dim, save)\<close>: whether errors were found.\<close>

definition checked ::
  "(string \<Rightarrow> bool) \<Rightarrow> run \<Rightarrow> checker \<Rightarrow> image_mode \<Rightarrow> (nat \<Rightarrow> nat) \<Rightarrow> int \<Rightarrow> bench_t \<Rightarrow> int \<Rightarrow> bool \<Rightarrow> drv \<Rightarrow>
     (bool \<times> drv) option" where
  "checked writable run check mode rand data b dm save d =
    (let (im, m, k) = create mode rand data dm (pixels d);
         (e, m, text, imgs) = check dm save im (run b dm im m)
     in case write_files writable imgs (fsys d) of
          None \<Rightarrow> None
        | Some fs \<Rightarrow> Some (e \<noteq> 0, d\<lparr>pixels := (m, k), printed := printed d @ text, fsys := fs\<rparr>))"

text \<open>\<open>create(dim)\<close> and the measurement: cycles per pixel.\<close>

definition measured ::
  "(bool \<Rightarrow> nat \<Rightarrow> real) \<Rightarrow> run \<Rightarrow> image_mode \<Rightarrow> (nat \<Rightarrow> nat) \<Rightarrow> int \<Rightarrow> bench_t \<Rightarrow> int \<Rightarrow> drv \<Rightarrow> (real \<times> drv) option" where
  "measured counter wrapper mode rand data b dm d =
    (let (im, m, k) = create mode rand data dm (pixels d)
     in case fcyc_v counter (wrapper b dm im) (fcyc d) (timed d) m of
          None \<Rightarrow> None
        | Some (num_cycles, fc, t, m) \<Rightarrow>
            Some (num_cycles / (of_int dm * of_int dm), d\<lparr>pixels := (m, k), fcyc := fc, timed := t\<rparr>))"

text \<open>The loop over the dimensions: the measurements, or \<open>None\<close> after a failed check.\<close>

fun test_dims ::
  "(string \<Rightarrow> bool) \<Rightarrow> (bool \<Rightarrow> nat \<Rightarrow> real) \<Rightarrow> run \<Rightarrow> run \<Rightarrow> checker \<Rightarrow> perf_options \<Rightarrow> (nat \<Rightarrow> nat) \<Rightarrow> int \<Rightarrow> bench_t \<Rightarrow> int list \<Rightarrow> drv \<Rightarrow>
     (real list option \<times> drv) option" where
  "test_dims writable counter wrapper run check oo rand data b [] d = Some (Some [], d)"
| "test_dims writable counter wrapper run check oo rand data b (dm # dims) d =
    (case checked writable run check (img_mode oo) rand data b ODD_DIM (save_test_image_files oo) d of
       None \<Rightarrow> None
     | Some (bad, d) \<Rightarrow>
        if bad then Some (None, d\<lparr>printed := printed d @ failed_check b ODD_DIM\<rparr>)
        else
          (case checked writable run check (img_mode oo) rand data b dm (save_all_image_files oo) d of
             None \<Rightarrow> None
           | Some (bad, d) \<Rightarrow>
             if bad then Some (None, d\<lparr>printed := printed d @ failed_check b dm\<rparr>)
             else
               case measured counter wrapper (img_mode oo) rand data b dm d of
                 None \<Rightarrow> None
               | Some (cpe, d) \<Rightarrow>
                   (case test_dims writable counter wrapper run check oo rand data b dims d of
                      None \<Rightarrow> None
                    | Some (cpes, d) \<Rightarrow> Some (map_option (Cons cpe) cpes, d))))"

text \<open>The product of the speedups; \<open>None\<close> when a measurement is not positive.\<close>

fun speedup :: "real \<Rightarrow> (real \<times> real) list \<Rightarrow> real option" where
  "speedup pr [] = Some pr"
| "speedup pr ((baseline, cpe) # rest) = (if 0 < cpe then speedup (pr * (baseline / cpe)) rest else None)"

definition geo_mean :: "real \<Rightarrow> real" where
  "geo_mean pr = pr powr (1 / of_nat DIM_CNT)"

definition test_pinwheel ::
  "(string \<Rightarrow> bool) \<Rightarrow> (bool \<Rightarrow> nat \<Rightarrow> real) \<Rightarrow> perf_options \<Rightarrow> (nat \<Rightarrow> nat) \<Rightarrow> int \<Rightarrow> bench_t \<Rightarrow> drv \<Rightarrow> (int + drv) option" where
  "test_pinwheel writable counter oo rand data b d =
    (case test_dims writable counter pinwheel_wrapper run_pinwheel_benchmark check_pinwheel oo rand data b test_dim_pinwheel d of
       None \<Rightarrow> None
     | Some (None, d) \<Rightarrow> Some (Inr d)
     | Some (Some cpes, d) \<Rightarrow>
         (case speedup 1 (zip pinwheel_baseline_cpes cpes) of
            None \<Rightarrow> Some (Inl 1)
          | Some pr \<Rightarrow>
              Some (Inr (if geo_mean pr > pinwheel_maxmean d
                then d\<lparr>pinwheel_maxmean := geo_mean pr, pinwheel_maxmean_desc := Some (description b)\<rparr> else d))))"

definition test_motion ::
  "(string \<Rightarrow> bool) \<Rightarrow> (bool \<Rightarrow> nat \<Rightarrow> real) \<Rightarrow> perf_options \<Rightarrow> (nat \<Rightarrow> nat) \<Rightarrow> int \<Rightarrow> bench_t \<Rightarrow> drv \<Rightarrow> (int + drv) option" where
  "test_motion writable counter oo rand data b d =
    (case test_dims writable counter motion_wrapper run_motion_benchmark check_motion oo rand data b test_dim_motion d of
       None \<Rightarrow> None
     | Some (None, d) \<Rightarrow> Some (Inr d)
     | Some (Some cpes, d) \<Rightarrow>
         (case speedup 1 (zip motion_baseline_cpes cpes) of
            None \<Rightarrow> Some (Inl 1)
          | Some pr \<Rightarrow>
              Some (Inr (if geo_mean pr > motion_maxmean d
                then d\<lparr>motion_maxmean := geo_mean pr, motion_maxmean_desc := Some (description b)\<rparr> else d))))"

text \<open>The loops of \<open>main\<close> over the two tables.\<close>

fun test_all :: "(bench_t \<Rightarrow> drv \<Rightarrow> (int + drv) option) \<Rightarrow> bench_t list \<Rightarrow> drv \<Rightarrow> (int + drv) option" where
  "test_all test [] d = Some (Inr d)"
| "test_all test (b # bs) d =
    (if valid b
     then case test b d of None \<Rightarrow> None | Some (Inl status) \<Rightarrow> Some (Inl status) | Some (Inr d) \<Rightarrow> test_all test bs d
     else test_all test bs d)"

section \<open>Choosing the functions\<close>

definition dump_functions :: "bench_t list \<Rightarrow> bench_t list \<Rightarrow> string" where
  "dump_functions pin mot =
    concat (map (\<lambda>b. ''R:'' @ description b @ nl) pin) @ concat (map (\<lambda>b. ''S:'' @ description b @ nl) mot)"

fun strsep :: "char \<Rightarrow> string option \<Rightarrow> string option \<times> string option" where
  "strsep c None = (None, None)"
| "strsep c (Some s) = (Some (takeWhile (\<lambda>d. d \<noteq> c) s), if c \<in> set s then Some (tl (dropWhile (\<lambda>d. d \<noteq> c) s)) else None)"

definition mark :: "string \<Rightarrow> bench_t list \<Rightarrow> bench_t list" where
  "mark name table = map (\<lambda>b. if description b = name then b\<lparr>valid := True\<rparr> else b) table"

text \<open>\<open>strcmp\<close> with every description in the table: undefined for \<open>NULL\<close>, when there is one.\<close>

definition mark_opt :: "string option \<Rightarrow> bench_t list \<Rightarrow> bench_t list option" where
  "mark_opt name table = (case name of None \<Rightarrow> if table = [] then Some [] else None | Some n \<Rightarrow> Some (mark n table))"

definition select_line :: "string \<Rightarrow> bench_t list \<times> bench_t list \<Rightarrow> (bench_t list \<times> bench_t list) option" where
  "select_line line tables =
    (let (token, func_name) = strsep CHR '':'' (Some (takeWhile (\<lambda>c. c \<noteq> NUL) line));
         flag = (case the token of [] \<Rightarrow> NUL | c # _ \<Rightarrow> c);
         func_name = fst (strsep (CHR 10) func_name)
     in if flag = CHR ''R'' then map_option (\<lambda>pin. (pin, snd tables)) (mark_opt func_name (fst tables))
        else if flag = CHR ''S'' then map_option (\<lambda>mot. (fst tables, mot)) (mark_opt func_name (snd tables))
        else Some tables)"

function select_lines :: "string \<Rightarrow> bench_t list \<times> bench_t list \<Rightarrow> (bench_t list \<times> bench_t list) option" where
  "select_lines [] tables = Some tables"
| "select_lines (c # s) tables =
    (case fgets 255 (c # s) of (line, rest) \<Rightarrow>
      (case select_line line tables of None \<Rightarrow> None | Some tables \<Rightarrow> select_lines rest tables))"
  by pat_completeness auto
termination
  by (relation "measure (\<lambda>(s, tables). length s)")
    (auto simp: numeral_eq_Suc simp del: fgets.simps dest!: fgets_progress [OF sym])

section \<open>The program\<close>

text \<open>The switch over an option that \<open>getopt\<close> finds.\<close>

definition main_option ::
  "(string \<Rightarrow> bool) \<Rightarrow> char \<Rightarrow> string \<Rightarrow> perf_options \<Rightarrow> drv \<Rightarrow> (int + perf_options \<times> drv) option" where
  "main_option writable c optarg oo d =
    (if c = CHR ''i'' then Some (Inr (oo\<lparr>save_test_image_files := True\<rparr>, d))
     else if c = CHR ''I'' then Some (Inr (oo\<lparr>save_all_image_files := True\<rparr>, d))
     else if c = CHR ''m'' then
       if optarg = ''gradient'' then Some (Inr (oo\<lparr>img_mode := GRADIENT\<rparr>, d))
       else if optarg = ''squares'' then Some (Inr (oo\<lparr>img_mode := SQUARES\<rparr>, d))
       else if optarg = ''random'' then Some (Inr (oo\<lparr>img_mode := RANDOM\<rparr>, d))
       else Some (Inl 1)
     else if c = CHR ''t'' then Some (Inr (oo\<lparr>skip_studentname_check := True\<rparr>, d))
     else if c = CHR ''s'' then map_option (\<lambda>n. Inr (oo\<lparr>seed := n\<rparr>, d)) (atoi optarg)
     else if c = CHR ''g'' then Some (Inr (oo\<lparr>autograder := True\<rparr>, d))
     else if c = CHR ''q'' then Some (Inr (oo\<lparr>quit_after_dump := True\<rparr>, d))
     else if c = CHR ''f'' then Some (Inr (oo\<lparr>bench_func_file := Some optarg\<rparr>, d))
     else if c = CHR ''d'' then
       if writable optarg
       then Some (Inr (oo, d\<lparr>fsys := (fsys d)(optarg \<mapsto> dump_functions (pin_table d) (mot_table d))\<rparr>))
       else Some (Inl (-5))
     else Some (Inl 1))"

fun main_options ::
  "(string \<Rightarrow> bool) \<Rightarrow> (char \<times> string) list \<Rightarrow> perf_options \<Rightarrow> drv \<Rightarrow> (int + perf_options \<times> drv) option" where
  "main_options writable [] oo d = Some (Inr (oo, d))"
| "main_options writable ((c, optarg) # rest) oo d =
    andthen (main_option writable c optarg oo d) (\<lambda>(oo, d). main_options writable rest oo d)"

definition all_valid :: "bench_t list \<Rightarrow> bench_t list" where
  "all_valid table = map (\<lambda>b. b\<lparr>valid := True\<rparr>) table"

text \<open>Which functions are tested: the two tables, with a count of one in autograder mode.\<close>

definition choose_functions :: "perf_options \<Rightarrow> drv \<Rightarrow> (int + drv) option" where
  "choose_functions oo d =
    (if autograder oo
     then Some (Inr (d\<lparr>
       pin_table := [\<lparr>funct = pinwheel, description = ''pinwheel() function'', valid = True\<rparr>],
       mot_table := [\<lparr>funct = motion, description = ''motion() function'', valid = True\<rparr>]\<rparr>))
     else case bench_func_file oo of
         Some f \<Rightarrow>
           (case fsys d f of
              None \<Rightarrow> Some (Inl (-5))
            | Some contents \<Rightarrow>
                map_option (\<lambda>(pin, mot). Inr (d\<lparr>pin_table := pin, mot_table := mot\<rparr>))
                  (select_lines contents (pin_table d, mot_table d)))
       | None \<Rightarrow> Some (Inr (d\<lparr>pin_table := all_valid (pin_table d), mot_table := all_valid (mot_table d)\<rparr>)))"

definition set_parameters :: "fcyc_state \<Rightarrow> fcyc_state" where
  "set_parameters s = set_fcyc_compensate True (set_fcyc_clear_cache True (set_fcyc_cache_size (2 ^ 14) s))"

definition student_info :: string where
  "student_info = ''Student: '' @ student_name @ nl @ ''Email: '' @ student_email @ nl @ nl"

text \<open>The end of \<open>main\<close>: the descriptions of the best functions are printed; they must not be \<open>NULL\<close>.\<close>

definition summary :: "perf_options \<Rightarrow> drv \<Rightarrow> (int + drv) option" where
  "summary oo d =
    (if \<not> autograder oo \<and> (pinwheel_maxmean_desc d = None \<or> motion_maxmean_desc d = None) then None else Some (Inr d))"

definition initial_drv :: "mem \<Rightarrow> (string \<Rightarrow> string option) \<Rightarrow> drv option" where
  "initial_drv m fs =
    (case register_pinwheel_functions [] of None \<Rightarrow> None | Some pin \<Rightarrow>
     (case register_motion_functions [] of None \<Rightarrow> None | Some mot \<Rightarrow>
       Some \<lparr>pin_table = pin, mot_table = mot, pixels = (m, 0), fsys = fs, printed = [], fcyc = fcyc0, timed = 0,
         pinwheel_maxmean = 0, pinwheel_maxmean_desc = None, motion_maxmean = 0, motion_maxmean_desc = None\<rparr>))"

definition main ::
  "(string \<Rightarrow> bool) \<Rightarrow> (bool \<Rightarrow> nat \<Rightarrow> real) \<Rightarrow> (int \<Rightarrow> nat \<Rightarrow> nat) \<Rightarrow> int \<Rightarrow> mem \<Rightarrow> (string \<Rightarrow> string option) \<Rightarrow>
     (char \<times> string) list \<Rightarrow> (int + drv) option" where
  "main writable counter rand data m fs args =
    (case initial_drv m fs of None \<Rightarrow> None | Some d \<Rightarrow>
     andthen (main_options writable args perf_options0 d) (\<lambda>(oo, d).
      if quit_after_dump oo then Some (Inl 0)
      else if \<not> skip_studentname_check oo \<and> ''Harry Q. Bovik'' = student_name then Some (Inl 1)
      else
        andthen (choose_functions oo
          (d\<lparr>printed := printed d @ (if skip_studentname_check oo then [] else student_info)\<rparr>)) (\<lambda>d.
        andthen (test_all (test_pinwheel writable counter oo (rand (seed oo)) data) (pin_table d)
          (d\<lparr>fcyc := set_parameters (fcyc d)\<rparr>)) (\<lambda>d.
        andthen (test_all (test_motion writable counter oo (rand (seed oo)) data) (mot_table d) d)
          (summary oo)))))"

section \<open>Tests that succeed\<close>

text \<open>What testing leaves alone.\<close>

definition undisturbed :: "drv \<Rightarrow> drv \<Rightarrow> bool" where
  "undisturbed d d' \<longleftrightarrow> printed d' = printed d \<and> pin_table d' = pin_table d \<and> mot_table d' = mot_table d \<and>
    pinwheel_maxmean d' = pinwheel_maxmean d \<and> pinwheel_maxmean_desc d' = pinwheel_maxmean_desc d \<and>
    motion_maxmean d' = motion_maxmean d \<and> motion_maxmean_desc d' = motion_maxmean_desc d \<and> same_setup (fcyc d) (fcyc d')"

lemma same_setup_refl [simp]: "same_setup s s"
  by (simp add: same_setup_def)

lemma undisturbed_refl [simp]: "undisturbed d d"
  by (simp add: undisturbed_def)

lemma undisturbed_trans: "undisturbed d d' \<Longrightarrow> undisturbed d' d'' \<Longrightarrow> undisturbed d d''"
  using same_setup_trans by (auto simp: undisturbed_def)

text \<open>The files with the images of a check, and whether all files that the options ask for can be created.\<close>

definition image_files :: "string \<Rightarrow> int \<Rightarrow> string list" where
  "image_files variant dm = map (\<lambda>mode. variant @ ''_'' @ mode @ ''_'' @ dec_int dm @ ''.image'') [''orig'', ''result'', ''expected'']"

definition can_save :: "(string \<Rightarrow> bool) \<Rightarrow> perf_options \<Rightarrow> string \<Rightarrow> int list \<Rightarrow> bool" where
  "can_save writable oo variant dims \<longleftrightarrow>
    (save_test_image_files oo \<longrightarrow> list_all writable (image_files variant ODD_DIM)) \<and>
    (save_all_image_files oo \<longrightarrow> (\<forall>dm\<in>set dims. list_all writable (image_files variant dm)))"

lemma can_save_Cons: "can_save writable oo variant (dm # dims) \<longleftrightarrow>
    (save_all_image_files oo \<longrightarrow> list_all writable (image_files variant dm)) \<and> can_save writable oo variant dims"
  by (auto simp: can_save_def)

definition passes :: "string \<Rightarrow> run \<Rightarrow> checker \<Rightarrow> bench_t \<Rightarrow> int \<Rightarrow> bool" where
  "passes variant run check b dm \<longleftrightarrow> (\<forall>mode rand data s im m k save. create mode rand data dm s = (im, m, k) \<longrightarrow>
    fst (check dm save im (run b dm im m)) = 0 \<and> fst (snd (snd (check dm save im (run b dm im m)))) = [] \<and>
    map fst (snd (snd (snd (check dm save im (run b dm im m))))) = (if save then image_files variant dm else []))"

lemma checked_passes:
  assumes "passes variant run check b dm"
  shows "\<exists>d'. checked writable run check mode rand data b dm save d =
      (if save \<longrightarrow> list_all writable (image_files variant dm) then Some (False, d') else None) \<and>
    undisturbed d d' \<and> timed d' = timed d"
proof -
  obtain im m k where c: "create mode rand data dm (pixels d) = (im, m, k)"
    by (metis prod.exhaust)
  obtain e m' msg imgs where r: "check dm save im (run b dm im m) = (e, m', msg, imgs)"
    by (metis prod.exhaust)
  have "fst (check dm save im (run b dm im m)) = 0" "fst (snd (snd (check dm save im (run b dm im m)))) = []"
    "map fst (snd (snd (snd (check dm save im (run b dm im m))))) = (if save then image_files variant dm else [])"
    using assms c unfolding passes_def by blast+
  then have e: "e = 0" "msg = []" and imgs: "map fst imgs = (if save then image_files variant dm else [])"
    by (simp_all add: r)
  have "list_all (\<lambda>(name, contents). writable name) imgs = list_all writable (map fst imgs)"
    by (induction imgs) auto
  then have "list_all (\<lambda>(name, contents). writable name) imgs \<longleftrightarrow> (save \<longrightarrow> list_all writable (image_files variant dm))"
    using imgs by simp
  then have w: "write_files writable imgs (fsys d) = (if save \<longrightarrow> list_all writable (image_files variant dm)
      then Some (foldl (\<lambda>fs (name, contents). fs(name \<mapsto> contents)) (fsys d) imgs) else None)"
    by (simp add: write_files_def)
  show ?thesis
    by (intro exI [of _ "d\<lparr>pixels := (m', k), fsys := foldl (\<lambda>fs (name, contents). fs(name \<mapsto> contents)) (fsys d) imgs\<rparr>"])
      (simp add: checked_def c r e w undisturbed_def)
qed

text \<open>Measurements in some dimensions, one after the other, of which the first starts with the reading \<open>t\<close> of
  the counter and the next thing measured will start with \<open>t'\<close>: each is the smallest reading in its turn, for
  each pixel.\<close>

fun samples :: "fcyc_state \<Rightarrow> (nat \<Rightarrow> real) \<Rightarrow> int list \<Rightarrow> nat \<Rightarrow> real list \<Rightarrow> nat \<Rightarrow> bool" where
  "samples S counter [] t cpes t' \<longleftrightarrow> cpes = [] \<and> t' = t"
| "samples S counter (dm # dims) t cpes t' \<longleftrightarrow>
    (\<exists>n cs. runs S counter t n \<and> cpes = Min (counter ` {t..<t + n}) / (of_int dm * of_int dm) # cs \<and>
      samples S counter dims (t + n) cs t')"

lemma measured_sample:
  assumes "0 < kbest (fcyc d)"
  shows "\<exists>n d'. measured counter wrapper mode rand data b dm d =
      Some (Min (counter (compensate (fcyc d)) ` {timed d..<timed d + n}) / (of_int dm * of_int dm), d') \<and>
    runs (fcyc d) (counter (compensate (fcyc d))) (timed d) n \<and> timed d' = timed d + n \<and> undisturbed d d'"
proof -
  obtain im m k where c: "create mode rand data dm (pixels d) = (im, m, k)"
    by (metis prod.exhaust)
  obtain n s' where "fcyc_v counter (wrapper b dm im) (fcyc d) (timed d) m =
      Some (Min (counter (compensate (fcyc d)) ` {timed d..<timed d + n}), s', timed d + n, (wrapper b dm im ^^ n) m)"
    "same_setup (fcyc d) s'" "runs (fcyc d) (counter (compensate (fcyc d))) (timed d) n"
    using fcyc_best_lemma [OF assms, of counter "wrapper b dm im" "timed d" m] by blast
  then show ?thesis
    by (intro exI [of _ n] exI [of _ "d\<lparr>pixels := ((wrapper b dm im ^^ n) m, k), fcyc := s', timed := timed d + n\<rparr>"])
      (simp add: measured_def c undisturbed_def)
qed

lemma samples_same_setup: "same_setup S S' \<Longrightarrow> samples S' = samples S"
proof (intro ext)
  fix counter dims t cpes t'
  assume "same_setup S S'"
  then show "samples S' counter dims t cpes t' = samples S counter dims t cpes t'"
    by (induction dims arbitrary: t cpes) (simp_all add: runs_same_setup)
qed

lemma test_dims_pass:
  assumes "\<forall>dm\<in>set (ODD_DIM # dims). passes variant run check b dm" "0 < kbest (fcyc d)" "can_save writable oo variant dims"
  shows "\<exists>cpes d'. test_dims writable counter wrapper run check oo rand data b dims d = Some (Some cpes, d') \<and>
    samples (fcyc d) (counter (compensate (fcyc d))) dims (timed d) cpes (timed d') \<and> undisturbed d d'"
  using assms
proof (induction dims arbitrary: d)
  case Nil
  then show ?case by simp
next
  case (Cons dm dims)
  have save: "save_test_image_files oo \<longrightarrow> list_all writable (image_files variant ODD_DIM)"
    "save_all_image_files oo \<longrightarrow> list_all writable (image_files variant dm)" "can_save writable oo variant dims"
    using Cons.prems(3) by (simp_all add: can_save_def)
  have pass: "passes variant run check b ODD_DIM" "passes variant run check b dm" using Cons.prems(1) by simp_all
  obtain d1 where d1: "checked writable run check (img_mode oo) rand data b ODD_DIM (save_test_image_files oo) d = Some (False, d1)"
    "undisturbed d d1" "timed d1 = timed d"
    using checked_passes [OF pass(1), of writable "img_mode oo" rand data "save_test_image_files oo" d] save(1) by auto
  obtain d2 where d2: "checked writable run check (img_mode oo) rand data b dm (save_all_image_files oo) d1 = Some (False, d2)"
    "undisturbed d1 d2" "timed d2 = timed d1"
    using checked_passes [OF pass(2), of writable "img_mode oo" rand data "save_all_image_files oo" d1] save(2) by auto
  have k2: "kbest (fcyc d2) = kbest (fcyc d)" "compensate (fcyc d2) = compensate (fcyc d)"
    using d1(2) d2(2) same_setup_fields by (auto simp: undisturbed_def)
  let ?c = "counter (compensate (fcyc d))"
  have st: "same_setup (fcyc d) (fcyc d2)"
    using d1(2) d2(2) same_setup_trans by (auto simp: undisturbed_def)
  obtain n d3 where d3: "measured counter wrapper (img_mode oo) rand data b dm d2 =
      Some (Min (?c ` {timed d..<timed d + n}) / (of_int dm * of_int dm), d3)"
    "runs (fcyc d) ?c (timed d) n" "timed d3 = timed d + n" "undisturbed d2 d3"
    using measured_sample [of d2 counter wrapper "img_mode oo" rand data b dm] Cons.prems(2) k2 d1(3) d2(3) runs_same_setup [OF st]
    by auto
  have k3: "kbest (fcyc d3) = kbest (fcyc d)" "compensate (fcyc d3) = compensate (fcyc d)"
    using d3(4) k2 same_setup_fields by (auto simp: undisturbed_def)
  obtain cpes d4 where d4: "test_dims writable counter wrapper run check oo rand data b dims d3 = Some (Some cpes, d4)"
    "samples (fcyc d3) (counter (compensate (fcyc d3))) dims (timed d3) cpes (timed d4)" "undisturbed d3 d4"
    using Cons.IH [of d3] Cons.prems k3 save(3) by auto
  have "undisturbed d d4"
    using undisturbed_trans [OF undisturbed_trans [OF undisturbed_trans [OF d1(2) d2(2)] d3(4)] d4(3)] .
  moreover have st3: "same_setup (fcyc d) (fcyc d3)"
    using same_setup_trans [OF st] d3(4) by (simp add: undisturbed_def)
  have "samples (fcyc d) ?c (dm # dims) (timed d) (Min (?c ` {timed d..<timed d + n}) / (of_int dm * of_int dm) # cpes) (timed d4)"
    unfolding samples.simps using d3(2) d4(2) [unfolded samples_same_setup [OF st3] k3(2) d3(3)] by blast
  moreover have "test_dims writable counter wrapper run check oo rand data b (dm # dims) d =
      Some (Some (Min (?c ` {timed d..<timed d + n}) / (of_int dm * of_int dm) # cpes), d4)"
    by (simp add: d1(1) d2(1) d3(1) d4(1))
  ultimately show ?case
    by blast
qed

text \<open>When a file cannot be created, the test is undefined.\<close>

lemma test_dims_cannot_save:
  assumes "\<forall>dm\<in>set (ODD_DIM # dims). passes variant run check b dm" "0 < kbest (fcyc d)" "\<not> can_save writable oo variant dims"
    and "dims \<noteq> []"
  shows "test_dims writable counter wrapper run check oo rand data b dims d = None"
  using assms
proof (induction dims arbitrary: d)
  case (Cons dm dims)
  have pass: "passes variant run check b ODD_DIM" "passes variant run check b dm" using Cons.prems(1) by simp_all
  let ?one = "save_test_image_files oo \<longrightarrow> list_all writable (image_files variant ODD_DIM)"
  let ?two = "save_all_image_files oo \<longrightarrow> list_all writable (image_files variant dm)"
  obtain d1 where d1: "checked writable run check (img_mode oo) rand data b ODD_DIM (save_test_image_files oo) d =
      (if ?one then Some (False, d1) else None)" "undisturbed d d1"
    using checked_passes [OF pass(1)] by blast
  obtain d2 where d2: "checked writable run check (img_mode oo) rand data b dm (save_all_image_files oo) d1 =
      (if ?two then Some (False, d2) else None)" "undisturbed d1 d2"
    using checked_passes [OF pass(2)] by blast
  have k2: "0 < kbest (fcyc d2)"
    using d1(2) d2(2) same_setup_fields Cons.prems(2) by (auto simp: undisturbed_def)
  obtain x d3 where d3: "measured counter wrapper (img_mode oo) rand data b dm d2 = Some (x, d3)" "undisturbed d2 d3"
    using measured_sample [OF k2] by blast
  have k3: "0 < kbest (fcyc d3)" using d3(2) k2 same_setup_fields by (auto simp: undisturbed_def)
  show ?case
  proof (cases "?one \<and> ?two")
    case True
    then have "\<not> can_save writable oo variant dims" "dims \<noteq> []"
      using Cons.prems(3) by (auto simp: can_save_def)
    then have "test_dims writable counter wrapper run check oo rand data b dims d3 = None"
      using Cons.IH [of d3] Cons.prems(1) k3 by simp
    then show ?thesis using True d1(1) d2(1) d3(1) by simp
  next
    case False
    then show ?thesis using d1(1) d2(1) by auto
  qed
qed simp

text \<open>The score of a function: the geometric mean of the baselines divided by its measurements. And the scores of
  functions that are tested one after the other.\<close>

definition score ::
  "fcyc_state \<Rightarrow> (nat \<Rightarrow> real) \<Rightarrow> real list \<Rightarrow> int list \<Rightarrow> nat \<Rightarrow> real \<Rightarrow> nat \<Rightarrow> bool" where
  "score S counter base dims t x t' \<longleftrightarrow>
    (\<exists>cpes. samples S counter dims t cpes t' \<and> x = geo_mean (prod_list (map2 (/) base cpes)))"

fun scores ::
  "fcyc_state \<Rightarrow> (nat \<Rightarrow> real) \<Rightarrow> real list \<Rightarrow> int list \<Rightarrow> nat \<Rightarrow> real list \<Rightarrow> nat \<Rightarrow> bool" where
  "scores S counter base dims t [] t' \<longleftrightarrow> t' = t"
| "scores S counter base dims t (x # xs) t' \<longleftrightarrow>
    (\<exists>t1. score S counter base dims t x t1 \<and> scores S counter base dims t1 xs t')"

lemma speedup_prod: "list_all (\<lambda>(b, c). 0 < c) ps \<Longrightarrow> speedup pr ps = Some (pr * prod_list (map (\<lambda>(b, c). b / c) ps))"
  by (induction pr ps rule: speedup.induct) (auto simp: mult.assoc)

lemma sample_cpes_pos:
  "samples S counter dims t cpes t' \<Longrightarrow> \<forall>t. 0 < counter t \<Longrightarrow> \<forall>dm\<in>set dims. 0 < dm \<Longrightarrow> \<forall>c\<in>set cpes. 0 < c"
  by (induction dims arbitrary: t cpes) (auto simp: runs_def)

lemma speedup_cpes: "\<forall>c\<in>set cpes. 0 < c \<Longrightarrow> speedup 1 (zip base cpes) = Some (prod_list (map2 (/) base cpes))"
  by (subst speedup_prod) (auto simp: list_all_iff dest: set_zip_rightD)

lemma geo_mean_pos:
  assumes "\<forall>b\<in>set base. 0 < b" "\<forall>c\<in>set cpes. 0 < c"
  shows "0 < geo_mean (prod_list (map2 (/) base cpes))"
proof -
  have "0 < prod_list (map (\<lambda>(b, c). b / c) ps)" if "\<forall>(b, c)\<in>set ps. 0 < b \<and> 0 < c" for ps :: "(real \<times> real) list"
    using that by (induction ps) auto
  moreover have "\<forall>(b, c)\<in>set (zip base cpes). 0 < b \<and> 0 < c"
    using assms by (auto dest: set_zip_leftD set_zip_rightD)
  ultimately have "0 < prod_list (map2 (/) base cpes)"
    by blast
  then show ?thesis
    by (simp add: geo_mean_def)
qed

lemma score_same_setup: "same_setup S S' \<Longrightarrow> score S' = score S"
  by (simp add: score_def fun_eq_iff samples_same_setup)

lemma score_pos:
  assumes "score S counter base dims t x t'" "\<forall>t. 0 < counter t" "\<forall>dm\<in>set dims. 0 < dm" "\<forall>b\<in>set base. 0 < b"
  shows "0 < x"
proof -
  obtain cpes where cpes: "samples S counter dims t cpes t'" "x = geo_mean (prod_list (map2 (/) base cpes))"
    using assms(1) unfolding score_def by blast
  show ?thesis
    unfolding cpes(2) by (rule geo_mean_pos [OF assms(4) sample_cpes_pos [OF cpes(1) assms(2,3)]])
qed

lemma pinwheel_passes:
  assumes "funct b = pinwheel \<or> funct b = naive_pinwheel" "dm \<in> set (ODD_DIM # test_dim_pinwheel)"
  shows "passes ''pinwheel'' run_pinwheel_benchmark check_pinwheel b dm"
proof -
  have files: "map fst (snd (snd (snd (check_pinwheel dm save im m)))) = (if save then image_files ''pinwheel'' dm else [])"
    if "fst (check_pinwheel dm save im m) = 0" for save im m
  proof -
    have "\<not> check_orig dm im m" using that by (auto simp: check_pinwheel_def)
    then show ?thesis by (simp add: check_pinwheel_def Let_def write_image_def image_files_def)
  qed
  have "16 dvd dm" "0 \<le> dm"
    using assms(2) by (auto simp: ODD_DIM_def test_dim_pinwheel_def)
  then show ?thesis
    unfolding passes_def run_pinwheel_benchmark_def using pinwheel_functs_pass [OF assms(1)] files by blast
qed

lemma motion_passes:
  assumes "funct b = motion \<or> funct b = naive_motion" "dm \<in> set (ODD_DIM # test_dim_motion)"
  shows "passes ''motion'' run_motion_benchmark check_motion b dm"
proof -
  have files: "map fst (snd (snd (snd (check_motion dm save im m)))) = (if save then image_files ''motion'' dm else [])"
    if "fst (check_motion dm save im m) = 0" for save im m
  proof -
    have "\<not> check_orig dm im m" using that by (auto simp: check_motion_def)
    then show ?thesis by (simp add: check_motion_def Let_def write_image_def image_files_def)
  qed
  have "2 \<le> dm" "dm mod 8 \<le> 2"
    using assms(2) by (auto simp: ODD_DIM_def test_dim_motion_def)
  then show ?thesis
    unfolding passes_def run_motion_benchmark_def using motion_functs_pass [OF assms(1)] files by blast
qed

text \<open>A function is measured in all dimensions and gets its score.\<close>

lemma test_dims_scores:
  assumes "\<forall>dm\<in>set (ODD_DIM # dims). passes variant run check b dm" "0 < kbest (fcyc d)" "can_save writable oo variant dims"
    and "\<forall>t. 0 < counter (compensate (fcyc d)) t" "\<forall>dm\<in>set dims. 0 < dm"
  shows "\<exists>cpes pr d'. test_dims writable counter wrapper run check oo rand data b dims d = Some (Some cpes, d') \<and>
    speedup 1 (zip base cpes) = Some pr \<and>
    score (fcyc d) (counter (compensate (fcyc d))) base dims (timed d) (geo_mean pr) (timed d') \<and> undisturbed d d'"
proof -
  obtain cpes d' where cpes: "test_dims writable counter wrapper run check oo rand data b dims d = Some (Some cpes, d')"
    "samples (fcyc d) (counter (compensate (fcyc d))) dims (timed d) cpes (timed d')" "undisturbed d d'"
    using test_dims_pass [OF assms(1,2,3)] by blast
  then show ?thesis
    using speedup_cpes [OF sample_cpes_pos [OF cpes(2) assms(4,5)]] unfolding score_def by blast
qed

definition better :: "real \<times> string \<Rightarrow> real \<times> string option \<Rightarrow> real \<times> string option" where
  "better = (\<lambda>(x, name) (mm, desc). if mm < x then (x, Some name) else (mm, desc))"

definition pin_best :: "drv \<Rightarrow> real \<times> string option" where
  "pin_best d = (pinwheel_maxmean d, pinwheel_maxmean_desc d)"

definition mot_best :: "drv \<Rightarrow> real \<times> string option" where
  "mot_best d = (motion_maxmean d, motion_maxmean_desc d)"

text \<open>What a test of either kind leaves alone.\<close>

definition quietly :: "drv \<Rightarrow> drv \<Rightarrow> bool" where
  "quietly d d' \<longleftrightarrow> printed d' = printed d \<and> pin_table d' = pin_table d \<and> mot_table d' = mot_table d \<and>
    same_setup (fcyc d) (fcyc d')"

lemma quietly_trans: "quietly d d' \<Longrightarrow> quietly d' d'' \<Longrightarrow> quietly d d''"
  using same_setup_trans by (auto simp: quietly_def)

lemma test_pinwheel_scores:
  assumes "funct b = pinwheel \<or> funct b = naive_pinwheel" "0 < kbest (fcyc d)"
    and "can_save writable oo ''pinwheel'' test_dim_pinwheel"
    and "\<forall>t. 0 < counter (compensate (fcyc d)) t"
  shows "\<exists>x d'. test_pinwheel writable counter oo rand data b d = Some (Inr d') \<and> quietly d d' \<and> mot_best d' = mot_best d \<and>
    pin_best d' = better (x, description b) (pin_best d) \<and>
    score (fcyc d) (counter (compensate (fcyc d))) pinwheel_baseline_cpes test_dim_pinwheel (timed d) x (timed d')"
proof -
  obtain cpes pr d1 where "test_dims writable counter pinwheel_wrapper run_pinwheel_benchmark check_pinwheel oo rand data b
        test_dim_pinwheel d = Some (Some cpes, d1)" "speedup 1 (zip pinwheel_baseline_cpes cpes) = Some pr" "undisturbed d d1"
    and "score (fcyc d) (counter (compensate (fcyc d))) pinwheel_baseline_cpes test_dim_pinwheel (timed d) (geo_mean pr) (timed d1)"
    using test_dims_scores [of test_dim_pinwheel "''pinwheel''" run_pinwheel_benchmark check_pinwheel b d writable oo counter pinwheel_wrapper rand
        data pinwheel_baseline_cpes] pinwheel_passes [OF assms(1)] assms(2-4)
    by (auto simp: test_dim_pinwheel_def)
  then show ?thesis
    by (intro exI [of _ "geo_mean pr"]) (auto simp: test_pinwheel_def undisturbed_def quietly_def pin_best_def mot_best_def better_def)
qed

lemma test_motion_scores:
  assumes "funct b = motion \<or> funct b = naive_motion" "0 < kbest (fcyc d)"
    and "can_save writable oo ''motion'' test_dim_motion"
    and "\<forall>t. 0 < counter (compensate (fcyc d)) t"
  shows "\<exists>x d'. test_motion writable counter oo rand data b d = Some (Inr d') \<and> quietly d d' \<and> pin_best d' = pin_best d \<and>
    mot_best d' = better (x, description b) (mot_best d) \<and>
    score (fcyc d) (counter (compensate (fcyc d))) motion_baseline_cpes test_dim_motion (timed d) x (timed d')"
proof -
  obtain cpes pr d1 where "test_dims writable counter motion_wrapper run_motion_benchmark check_motion oo rand data b
        test_dim_motion d = Some (Some cpes, d1)" "speedup 1 (zip motion_baseline_cpes cpes) = Some pr" "undisturbed d d1"
    and "score (fcyc d) (counter (compensate (fcyc d))) motion_baseline_cpes test_dim_motion (timed d) (geo_mean pr) (timed d1)"
    using test_dims_scores [of test_dim_motion "''motion''" run_motion_benchmark check_motion b d writable oo counter motion_wrapper rand
        data motion_baseline_cpes] motion_passes [OF assms(1)] assms(2-4)
    by (auto simp: test_dim_motion_def)
  then show ?thesis
    by (intro exI [of _ "geo_mean pr"]) (auto simp: test_motion_def undisturbed_def quietly_def pin_best_def mot_best_def better_def)
qed

text \<open>The loop over a table, for a test that scores each function and improves \<open>best\<close>, leaving \<open>other\<close>.\<close>

lemma test_all_scores:
  assumes "\<And>b d. b \<in> set table \<Longrightarrow> same_setup S (fcyc d) \<Longrightarrow>
      \<exists>x d'. test b d = Some (Inr d') \<and> quietly d d' \<and> other d' = other d \<and>
        best d' = better (x, description b) (best d) \<and> score S counter base dims (timed d) x (timed d')"
    and "\<forall>b\<in>set table. valid b" "same_setup S (fcyc d)"
  shows "\<exists>xs d'. test_all test table d = Some (Inr d') \<and> quietly d d' \<and> other d' = other d \<and> length xs = length table \<and>
    scores S counter base dims (timed d) xs (timed d') \<and> best d' = fold better (zip xs (map description table)) (best d)"
  using assms
proof (induction table arbitrary: d)
  case Nil
  then show ?case by (simp add: quietly_def)
next
  case (Cons b bs)
  obtain x d1 where d1: "test b d = Some (Inr d1)" "quietly d d1" "other d1 = other d"
    "best d1 = better (x, description b) (best d)" "score S counter base dims (timed d) x (timed d1)"
    using Cons.prems(1) [of b d] Cons.prems(3) by auto
  have fc: "same_setup S (fcyc d1)"
    using d1(2) Cons.prems(3) same_setup_trans by (auto simp: quietly_def)
  have "\<exists>xs d'. test_all test bs d1 = Some (Inr d') \<and> quietly d1 d' \<and> other d' = other d1 \<and> length xs = length bs \<and>
    scores S counter base dims (timed d1) xs (timed d') \<and> best d' = fold better (zip xs (map description bs)) (best d1)"
    by (rule Cons.IH) (use Cons.prems fc in auto)
  then obtain xs d2 where d2: "test_all test bs d1 = Some (Inr d2)" "quietly d1 d2" "other d2 = other d1"
    "length xs = length bs" "scores S counter base dims (timed d1) xs (timed d2)" "best d2 = fold better (zip xs (map description bs)) (best d1)"
    by blast
  show ?case
    using d1 d2 Cons.prems(2) quietly_trans [OF d1(2) d2(2)]
    by (intro exI [of _ "x # xs"] exI [of _ d2]) auto
qed

lemma fold_better:
  "(\<forall>p\<in>set ps. fst p \<le> mm) \<and> fold better ps (mm, desc) = (mm, desc) \<or>
   (\<exists>i<length ps. fold better ps (mm, desc) = (fst (ps ! i), Some (snd (ps ! i))) \<and> mm < fst (ps ! i) \<and>
      (\<forall>p\<in>set ps. fst p \<le> fst (ps ! i)))"
proof (induction ps arbitrary: mm desc)
  case (Cons p ps)
  show ?case
  proof (cases "mm < fst p")
    case True
    then have step: "better p (mm, desc) = (fst p, Some (snd p))"
      by (cases p) (simp add: better_def)
    from Cons.IH [of "fst p" "Some (snd p)"] show ?thesis
    proof (elim disjE exE conjE)
      fix i assume "i < length ps" "fold better ps (fst p, Some (snd p)) = (fst (ps ! i), Some (snd (ps ! i)))"
        "fst p < fst (ps ! i)" "\<forall>p\<in>set ps. fst p \<le> fst (ps ! i)"
      then show ?thesis
        using True by (intro disjI2 exI [of _ "Suc i"]) (simp add: step)
    qed (use True in \<open>intro disjI2 exI [of _ 0], simp add: step\<close>)
  next
    case False
    then have step: "better p (mm, desc) = (mm, desc)"
      by (cases p) (simp add: better_def)
    from Cons.IH [of mm desc] show ?thesis
    proof (elim disjE exE conjE)
      fix i assume "i < length ps" "fold better ps (mm, desc) = (fst (ps ! i), Some (snd (ps ! i)))"
        "mm < fst (ps ! i)" "\<forall>p\<in>set ps. fst p \<le> fst (ps ! i)"
      then show ?thesis
        using False by (intro disjI2 exI [of _ "Suc i"]) (simp add: step)
    qed (use False in \<open>simp add: step\<close>)
  qed
qed simp

text \<open>The best score among functions with these names, which are measured in turn from the reading \<open>t\<close> to \<open>t'\<close>.\<close>

definition winner :: "fcyc_state \<Rightarrow> (nat \<Rightarrow> real) \<Rightarrow> real list \<Rightarrow> int list \<Rightarrow> string list \<Rightarrow> nat \<Rightarrow> real \<times> string option \<Rightarrow> nat \<Rightarrow> bool" where
  "winner S counter base dims names t best t' \<longleftrightarrow>
    (\<exists>xs. length xs = length names \<and> scores S counter base dims t xs t' \<and>
      (\<exists>i<length xs. best = (xs ! i, Some (names ! i)) \<and> (\<forall>y\<in>set xs. y \<le> xs ! i)))"

lemma scores_pos:
  "scores S counter base dims t xs t' \<Longrightarrow> \<forall>t. 0 < counter t \<Longrightarrow> \<forall>dm\<in>set dims. 0 < dm \<Longrightarrow> \<forall>b\<in>set base. 0 < b \<Longrightarrow>
    \<forall>x\<in>set xs. 0 < x"
  by (induction xs arbitrary: t) (auto dest: score_pos)

lemma winner_fold:
  assumes "length xs = length names" "xs \<noteq> []" "scores S counter base dims t xs t'" "\<forall>x\<in>set xs. 0 < x"
  shows "winner S counter base dims names t (fold better (zip xs names) (0, None)) t'"
proof -
  have "0 < length xs"
    using assms(2) by simp
  then have "xs ! 0 \<in> set xs" "(xs ! 0, names ! 0) \<in> set (zip xs names)"
    using assms(1) by (auto simp: set_zip simp del: length_greater_0_conv)
  then have "\<not> (\<forall>p\<in>set (zip xs names). fst p \<le> 0)"
    using assms(4) by force
  then obtain i where i: "i < length (zip xs names)"
    "fold better (zip xs names) (0, None) = (fst (zip xs names ! i), Some (snd (zip xs names ! i)))"
    "\<forall>p\<in>set (zip xs names). fst p \<le> fst (zip xs names ! i)"
    using fold_better [of "zip xs names" 0 None] by blast
  have "y \<le> xs ! i" if y: "y \<in> set xs" for y
  proof -
    obtain j where "j < length xs" "xs ! j = y"
      using y by (auto simp: in_set_conv_nth)
    then have "(y, names ! j) \<in> set (zip xs names)"
      using assms(1) by (auto simp: set_zip)
    then show ?thesis
      using i(1,3) by fastforce
  qed
  then show ?thesis
    unfolding winner_def using assms(1,3) i(1,2) by (intro exI [of _ xs]) auto
qed

lemma winner_pos_desc: "winner S counter base dims names t best t' \<Longrightarrow> snd best \<noteq> None"
  by (auto simp: winner_def)

section \<open>The run of the program\<close>

lemma main_option_keeps:
  assumes "main_option writable c optarg oo d = Some (Inr (oo', d'))"
  shows "\<exists>F. d' = d\<lparr>fsys := F\<rparr>"
proof -
  have "d' = d \<or> (\<exists>F. d' = d\<lparr>fsys := F\<rparr>)"
    using assms unfolding main_option_def
    by (simp split: if_split_asm) auto
  then show ?thesis
    by (auto intro: exI [of _ "fsys d"])
qed

lemma main_options_keeps:
  "main_options writable args oo d = Some (Inr (oo', d')) \<Longrightarrow> \<exists>F. d' = d\<lparr>fsys := F\<rparr>"
proof (induction args arbitrary: oo d)
  case Nil
  then show ?case by (auto intro: exI [of _ "fsys d"])
next
  case (Cons a args)
  obtain c optarg where a: "a = (c, optarg)"
    by (cases a)
  obtain oo1 d1 where 1: "main_option writable c optarg oo d = Some (Inr (oo1, d1))"
    "main_options writable args oo1 d1 = Some (Inr (oo', d'))"
    using Cons.prems by (auto simp: a andthen_def split: option.splits sum.splits)
  show ?case
    using main_option_keeps [OF 1(1)] Cons.IH [OF 1(2)] by auto
qed

lemma initial_drv_some:
  "initial_drv m fs = Some \<lparr>pin_table = [\<lparr>funct = pinwheel, description = ''pinwheel: Current working version'', valid = False\<rparr>,
       \<lparr>funct = naive_pinwheel, description = ''naive_pinwheel: Naive baseline implementation'', valid = False\<rparr>],
     mot_table = [\<lparr>funct = motion, description = ''motion: Current working version'', valid = False\<rparr>,
       \<lparr>funct = naive_motion, description = ''naive_motion: Naive baseline implementation'', valid = False\<rparr>],
     pixels = (m, 0), fsys = fs, printed = [], fcyc = fcyc0, timed = 0, pinwheel_maxmean = 0,
     pinwheel_maxmean_desc = None, motion_maxmean = 0, motion_maxmean_desc = None\<rparr>"
  by (simp add: initial_drv_def register_pinwheel_functions_def register_motion_functions_def add_pinwheel_function_def
      add_motion_function_def MAX_BENCHMARKS_def)

definition good_pin :: "bench_t list \<Rightarrow> bool" where
  "good_pin table \<longleftrightarrow> table \<noteq> [] \<and> (\<forall>b\<in>set table. valid b \<and> (funct b = pinwheel \<or> funct b = naive_pinwheel))"

definition good_mot :: "bench_t list \<Rightarrow> bool" where
  "good_mot table \<longleftrightarrow> table \<noteq> [] \<and> (\<forall>b\<in>set table. valid b \<and> (funct b = motion \<or> funct b = naive_motion))"

definition images_ok :: "(string \<Rightarrow> bool) \<Rightarrow> perf_options \<Rightarrow> bool" where
  "images_ok writable oo \<longleftrightarrow>
    can_save writable oo ''pinwheel'' test_dim_pinwheel \<and> can_save writable oo ''motion'' test_dim_motion"

lemma run_pins:
  assumes "good_pin (pin_table d)" "0 < kbest (fcyc d)" "compensate (fcyc d)" "\<forall>t. 0 < counter True t"
    and "can_save writable oo ''pinwheel'' test_dim_pinwheel"
  shows "\<exists>xs d'. test_all (test_pinwheel writable counter oo rand data) (pin_table d) d = Some (Inr d') \<and> quietly d d' \<and>
    mot_best d' = mot_best d \<and> length xs = length (pin_table d) \<and>
    scores (fcyc d) (counter True) pinwheel_baseline_cpes test_dim_pinwheel (timed d) xs (timed d') \<and>
    pin_best d' = fold better (zip xs (map description (pin_table d))) (pin_best d)"
proof -
  have pin: "\<exists>x d'. test_pinwheel writable counter oo rand data b e = Some (Inr d') \<and> quietly e d' \<and> mot_best d' = mot_best e \<and>
      pin_best d' = better (x, description b) (pin_best e) \<and>
      score (fcyc d) (counter True) pinwheel_baseline_cpes test_dim_pinwheel (timed e) x (timed d')"
    if "b \<in> set (pin_table d)" "same_setup (fcyc d) (fcyc e)" for b e
    using test_pinwheel_scores [of b e writable oo counter rand data] that assms same_setup_fields [OF that(2)]
      score_same_setup [OF that(2)] by (simp add: good_pin_def)
  show ?thesis
    by (rule test_all_scores [OF pin]) (use assms in \<open>simp_all add: good_pin_def\<close>)
qed

lemma run_tests:
  assumes "good_pin (pin_table d)" "good_mot (mot_table d)" "0 < kbest (fcyc d)" "compensate (fcyc d)"
    and "pin_best d = (0, None)" "mot_best d = (0, None)" "\<forall>t. 0 < counter True t" "images_ok writable oo"
  shows "\<exists>d' t. andthen (test_all (test_pinwheel writable counter oo rand data) (pin_table d) d) (\<lambda>d.
      andthen (test_all (test_motion writable counter oo rand data) (mot_table d) d) (summary oo)) = Some (Inr d') \<and>
    printed d' = printed d \<and>
    winner (fcyc d) (counter True) pinwheel_baseline_cpes test_dim_pinwheel (map description (pin_table d)) (timed d) (pin_best d') t \<and>
    winner (fcyc d) (counter True) motion_baseline_cpes test_dim_motion (map description (mot_table d)) t (mot_best d') (timed d')"
proof -
  have dims: "\<forall>dm\<in>set test_dim_pinwheel. 0 < dm" "\<forall>dm\<in>set test_dim_motion. 0 < dm"
    "\<forall>b\<in>set pinwheel_baseline_cpes. 0 < b" "\<forall>b\<in>set motion_baseline_cpes. 0 < b"
    by (simp_all add: test_dim_pinwheel_def test_dim_motion_def pinwheel_baseline_cpes_def motion_baseline_cpes_def)
  have mot: "\<exists>x d'. test_motion writable counter oo rand data b e = Some (Inr d') \<and> quietly e d' \<and> pin_best d' = pin_best e \<and>
      mot_best d' = better (x, description b) (mot_best e) \<and>
      score (fcyc d) (counter True) motion_baseline_cpes test_dim_motion (timed e) x (timed d')"
    if "b \<in> set (mot_table d)" "same_setup (fcyc d) (fcyc e)" for b e
    using test_motion_scores [of b e writable oo counter rand data] that assms(2,3,4,7,8) same_setup_fields [OF that(2)]
      score_same_setup [OF that(2)] by (simp add: good_mot_def images_ok_def)
  have "can_save writable oo ''pinwheel'' test_dim_pinwheel" using assms(8) by (simp add: images_ok_def)
  then obtain xs d1 where d1: "test_all (test_pinwheel writable counter oo rand data) (pin_table d) d = Some (Inr d1)" "quietly d d1"
    "mot_best d1 = mot_best d" "length xs = length (pin_table d)"
    "scores (fcyc d) (counter True) pinwheel_baseline_cpes test_dim_pinwheel (timed d) xs (timed d1)"
    "pin_best d1 = fold better (zip xs (map description (pin_table d))) (0, None)"
    using run_pins [of d counter writable oo rand data] assms(1,3,4,5,7) by auto
  have fc: "same_setup (fcyc d) (fcyc d1)"
    using d1(2) by (simp add: quietly_def)
  have "\<exists>ys d'. test_all (test_motion writable counter oo rand data) (mot_table d) d1 = Some (Inr d') \<and> quietly d1 d' \<and>
    pin_best d' = pin_best d1 \<and> length ys = length (mot_table d) \<and>
    scores (fcyc d) (counter True) motion_baseline_cpes test_dim_motion (timed d1) ys (timed d') \<and>
    mot_best d' = fold better (zip ys (map description (mot_table d))) (mot_best d1)"
    by (rule test_all_scores [OF mot]) (use assms fc in \<open>simp_all add: good_mot_def\<close>)
  then obtain ys d2 where d2: "test_all (test_motion writable counter oo rand data) (mot_table d) d1 = Some (Inr d2)" "quietly d1 d2"
    "pin_best d2 = pin_best d1" "length ys = length (mot_table d)"
    "scores (fcyc d) (counter True) motion_baseline_cpes test_dim_motion (timed d1) ys (timed d2)"
    "mot_best d2 = fold better (zip ys (map description (mot_table d))) (0, None)"
    using assms(6) d1(3) by auto
  have "winner (fcyc d) (counter True) pinwheel_baseline_cpes test_dim_pinwheel (map description (pin_table d)) (timed d) (pin_best d2) (timed d1)"
    unfolding d2(3) d1(6) using d1(4,5) assms(1) scores_pos [OF d1(5) assms(7) dims(1,3)]
    by (intro winner_fold) (auto simp: good_pin_def)
  moreover have "winner (fcyc d) (counter True) motion_baseline_cpes test_dim_motion (map description (mot_table d)) (timed d1) (mot_best d2) (timed d2)"
    unfolding d2(6) using d2(4,5) assms(2) scores_pos [OF d2(5) assms(7) dims(2,4)]
    by (intro winner_fold) (auto simp: good_mot_def)
  moreover from calculation have "summary oo d2 = Some (Inr d2)"
    by (auto simp: summary_def pin_best_def mot_best_def dest!: winner_pos_desc)
  moreover have "printed d2 = printed d" "mot_table d1 = mot_table d"
    using d1(2) d2(2) by (simp_all add: quietly_def)
  ultimately show ?thesis
    using d1(1) d2(1) by (auto simp: andthen_def)
qed

lemma run_tests_cannot_save:
  assumes "good_pin (pin_table d)" "good_mot (mot_table d)" "0 < kbest (fcyc d)" "compensate (fcyc d)" "\<forall>t. 0 < counter True t"
    and "\<not> images_ok writable oo"
  shows "andthen (test_all (test_pinwheel writable counter oo rand data) (pin_table d) d) (\<lambda>d.
      andthen (test_all (test_motion writable counter oo rand data) (mot_table d) d) (summary oo)) = None"
proof (cases "can_save writable oo ''pinwheel'' test_dim_pinwheel")
  case False
  obtain b bs where b: "pin_table d = b # bs" "valid b" "funct b = pinwheel \<or> funct b = naive_pinwheel"
    using assms(1) by (cases "pin_table d") (auto simp: good_pin_def)
  have "test_dims writable counter pinwheel_wrapper run_pinwheel_benchmark check_pinwheel oo rand data b test_dim_pinwheel d = None"
    using pinwheel_passes [OF b(3)] by (intro test_dims_cannot_save [OF _ assms(3) False]) (auto simp: test_dim_pinwheel_def)
  then show ?thesis by (simp add: b(1,2) test_pinwheel_def andthen_def)
next
  case True
  obtain d1 where d1: "test_all (test_pinwheel writable counter oo rand data) (pin_table d) d = Some (Inr d1)" "quietly d d1"
    using run_pins [of d counter writable oo rand data] assms(1,3,4,5) True by blast
  obtain b bs where b: "mot_table d = b # bs" "valid b" "funct b = motion \<or> funct b = naive_motion"
    using assms(2) by (cases "mot_table d") (auto simp: good_mot_def)
  have k: "0 < kbest (fcyc d1)" and tab: "mot_table d1 = b # bs"
    using d1(2) assms(3) b(1) same_setup_fields by (auto simp: quietly_def)
  have "\<not> can_save writable oo ''motion'' test_dim_motion" using True assms(6) by (simp add: images_ok_def)
  then have "test_dims writable counter motion_wrapper run_motion_benchmark check_motion oo rand data b test_dim_motion d1 = None"
    using motion_passes [OF b(3)] by (intro test_dims_cannot_save [OF _ k]) (auto simp: test_dim_motion_def)
  then show ?thesis by (simp add: b(2) tab d1(1) test_motion_def andthen_def)
qed

text \<open>The names under which the functions are reported.\<close>

definition pinwheel_names :: "bool \<Rightarrow> string list" where
  "pinwheel_names auto =
    (if auto then [''pinwheel() function'']
     else [''pinwheel: Current working version'', ''naive_pinwheel: Naive baseline implementation''])"

definition motion_names :: "bool \<Rightarrow> string list" where
  "motion_names auto =
    (if auto then [''motion() function'']
     else [''motion: Current working version'', ''naive_motion: Naive baseline implementation''])"

text \<open>C10. The whole program, on the registered kernels: with any options but a dump to quit after or a file of
  functions, and a counter that reads positive, the run ends normally if every image file that \<open>-i\<close> or \<open>-I\<close> asks for can
  be created; if one cannot, \<open>fprintf\<close> is called with \<open>NULL\<close> and the run is undefined. When it ends, no check
  fails, so nothing but the student's data and the tables is printed, and the best scores are those of winners:
  the functions are measured one after the other (\<open>scores\<close>, from the first reading of the counter
  on); each function's score is the geometric mean, over the five dimensions, of the baseline divided
  by its K-best cycles for each pixel; and the winner's score is at least every other one.\<close>

theorem main_scores:
  assumes "initial_drv m fs = Some d0" "main_options writable args perf_options0 d0 = Some (Inr (oo, d))"
    and "\<not> quit_after_dump oo" "autograder oo \<or> bench_func_file oo = None" "\<forall>t. 0 < counter True t"
  shows "(images_ok writable oo \<longrightarrow> (\<exists>d' t. Perf_Main.main writable counter rand data m fs args = Some (Inr d') \<and>
      printed d' = (if skip_studentname_check oo then [] else student_info) \<and>
      winner (set_parameters fcyc0) (counter True) pinwheel_baseline_cpes test_dim_pinwheel (pinwheel_names (autograder oo))
        0 (pinwheel_maxmean d', pinwheel_maxmean_desc d') t \<and>
      winner (set_parameters fcyc0) (counter True) motion_baseline_cpes test_dim_motion (motion_names (autograder oo))
        t (motion_maxmean d', motion_maxmean_desc d') (timed d'))) \<and>
    (\<not> images_ok writable oo \<longrightarrow> Perf_Main.main writable counter rand data m fs args = None)"
proof -
  let ?info = "if skip_studentname_check oo then [] else student_info"
  obtain F where d: "d = d0\<lparr>fsys := F\<rparr>"
    using main_options_keeps [OF assms(2)] by blast
  note d0 = assms(1) [unfolded initial_drv_some, THEN option.inject [THEN iffD1], symmetric]
  let ?d = "d\<lparr>printed := printed d @ ?info\<rparr>"
  define d1 where "d1 = (if autograder oo
     then ?d\<lparr>pin_table := [\<lparr>funct = pinwheel, description = ''pinwheel() function'', valid = True\<rparr>],
       mot_table := [\<lparr>funct = motion, description = ''motion() function'', valid = True\<rparr>]\<rparr>
     else ?d\<lparr>pin_table := all_valid (pin_table ?d), mot_table := all_valid (mot_table ?d)\<rparr>)"
  have "choose_functions oo ?d = Some (Inr d1)"
    using assms(4) by (auto simp: choose_functions_def d1_def)
  moreover have "timed d1 = 0" "good_pin (pin_table d1)" "good_mot (mot_table d1)" "fcyc d1 = fcyc0" "pin_best d1 = (0, None)"
      "mot_best d1 = (0, None)" "printed d1 = ?info"
      "map description (pin_table d1) = pinwheel_names (autograder oo)"
      "map description (mot_table d1) = motion_names (autograder oo)"
    unfolding d1_def d d0 by (simp_all add: good_pin_def good_mot_def all_valid_def pin_best_def mot_best_def
        pinwheel_names_def motion_names_def)
  ultimately have d1: "choose_functions oo ?d = Some (Inr d1)" "good_pin (pin_table d1)" "good_mot (mot_table d1)"
    "map description (pin_table d1) = pinwheel_names (autograder oo)"
    "map description (mot_table d1) = motion_names (autograder oo)" "fcyc d1 = fcyc0" "pin_best d1 = (0, None)" "mot_best d1 = (0, None)"
    "printed d1 = ?info" "timed d1 = 0"
    by simp_all
  have fc: "0 < kbest (set_parameters fcyc0)" "compensate (set_parameters fcyc0)"
    by (simp_all add: set_parameters_def set_fcyc_compensate_def set_fcyc_clear_cache_def set_fcyc_cache_size_def fcyc0_def)
  let ?run = "andthen (test_all (test_pinwheel writable counter oo (rand (seed oo)) data) (pin_table d1) (d1\<lparr>fcyc := set_parameters (fcyc d1)\<rparr>)) (\<lambda>d.
      andthen (test_all (test_motion writable counter oo (rand (seed oo)) data) (mot_table d) d) (summary oo))"
  have "''Harry Q. Bovik'' \<noteq> student_name"
    by (simp add: student_name_def)
  then have run: "Perf_Main.main writable counter rand data m fs args = ?run"
    using assms(1-3) d1(1) by (simp add: Perf_Main.main_def andthen_def [of "Some (Inr _)"])
  have "\<exists>d' t. ?run = Some (Inr d') \<and> printed d' = printed d1 \<and>
    winner (set_parameters fcyc0) (counter True) pinwheel_baseline_cpes test_dim_pinwheel (map description (pin_table d1)) 0 (pin_best d') t \<and>
    winner (set_parameters fcyc0) (counter True) motion_baseline_cpes test_dim_motion (map description (mot_table d1)) t (mot_best d') (timed d')"
    if "images_ok writable oo"
    using run_tests [of "d1\<lparr>fcyc := set_parameters (fcyc d1)\<rparr>" counter writable oo "rand (seed oo)" data] d1 fc assms(5) that
    by (simp add: pin_best_def mot_best_def)
  moreover have "?run = None" if "\<not> images_ok writable oo"
    using run_tests_cannot_save [of "d1\<lparr>fcyc := set_parameters (fcyc d1)\<rparr>" counter writable oo "rand (seed oo)" data] d1 fc assms(5) that
    by simp
  ultimately show ?thesis
    unfolding run using d1(4,5,9) by (simp add: pin_best_def mot_best_def)
qed

text \<open>Autograder mode, with a counter whose readings are all 4096 cycles.\<close>

theorem main_scores_witness:
  "\<exists>d. Perf_Main.main (\<lambda>_. False) (\<lambda>_ _. 4096) (\<lambda>_ i. 31 * i) 0 (\<lambda>_. black) (\<lambda>_. None) [(CHR ''g'', []), (CHR ''t'', [])] =
      Some (Inr d) \<and> printed d = [] \<and> pinwheel_maxmean_desc d = Some ''pinwheel() function'' \<and>
    motion_maxmean_desc d = Some ''motion() function''"
proof -
  obtain d0 where d0: "initial_drv (\<lambda>_. black) (\<lambda>_. None) = Some d0"
    by (simp add: initial_drv_some)
  let ?oo = "perf_options0\<lparr>autograder := True, skip_studentname_check := True\<rparr>"
  have opts: "main_options (\<lambda>_. False) [(CHR ''g'', []), (CHR ''t'', [])] perf_options0 d0 = Some (Inr (?oo, d0))"
    by (simp add: main_option_def andthen_def)
  have images: "images_ok (\<lambda>_. False) ?oo" by (simp add: images_ok_def can_save_def perf_options0_def)
  have "quit_after_dump ?oo = False" "bench_func_file ?oo = None" "autograder ?oo" by (simp_all add: perf_options0_def)
  then show ?thesis
    using main_scores [OF d0 opts, of "\<lambda>_ _. 4096" "\<lambda>_ i. 31 * i" 0] images
    by (auto simp: winner_def pinwheel_names_def motion_names_def)
qed

section \<open>Dumping and selecting\<close>

text \<open>A description that fits a line of the file.\<close>

definition line_ok :: "bench_t \<Rightarrow> bool" where
  "line_ok b \<longleftrightarrow> CHR 10 \<notin> set (description b) \<and> NUL \<notin> set (description b) \<and> length (description b) \<le> 252"

lemma select_line_dumped:
  assumes "line_ok b"
  shows "select_line (''R:'' @ description b @ [CHR 10]) (pin, mot) = Some (mark (description b) pin, mot)"
    and "select_line (''S:'' @ description b @ [CHR 10]) (pin, mot) = Some (pin, mark (description b) mot)"
proof -
  have nul: "takeWhile (\<lambda>c. c \<noteq> NUL) (x # CHR '':'' # description b @ [CHR 10]) = x # CHR '':'' # description b @ [CHR 10]"
    if "x \<noteq> NUL" for x
    using assms that by (auto simp: line_ok_def NUL_def intro!: takeWhile_eq_all_conv [THEN iffD2])
  have name: "takeWhile (\<lambda>d. d \<noteq> CHR 10) (description b @ [CHR 10]) = description b"
    using assms by (subst takeWhile_append2) (auto simp: line_ok_def)
  show "select_line (''R:'' @ description b @ [CHR 10]) (pin, mot) = Some (mark (description b) pin, mot)"
    using nul [of "CHR ''R''"] by (simp add: select_line_def name mark_opt_def NUL_def)
  show "select_line (''S:'' @ description b @ [CHR 10]) (pin, mot) = Some (pin, mark (description b) mot)"
    using nul [of "CHR ''S''"] by (simp add: select_line_def name mark_opt_def NUL_def)
qed

lemma select_lines_step:
  assumes "CHR 10 \<notin> set l" "length l < 255"
  shows "select_lines (l @ CHR 10 # rest) tables =
    (case select_line (l @ [CHR 10]) tables of None \<Rightarrow> None | Some tables \<Rightarrow> select_lines rest tables)"
proof -
  obtain c s where cs: "l @ CHR 10 # rest = c # s"
    by (cases l) auto
  then have "fgets 255 (c # s) = (l @ [CHR 10], rest)"
    using fgets_line [OF assms, of rest] by simp
  then show ?thesis
    unfolding cs by simp
qed

text \<open>Selecting by a dumped table marks its functions one after the other.\<close>

definition marked :: "bench_t list \<Rightarrow> bench_t list \<Rightarrow> bench_t list" where
  "marked chosen table = map (\<lambda>b. if description b \<in> description ` set chosen then b\<lparr>valid := True\<rparr> else b) table"

lemma marked_Nil [simp]: "marked [] table = table"
  by (simp add: marked_def)

lemma marked_Cons: "marked (b # bs) table = marked bs (mark (description b) table)"
  by (auto simp: marked_def mark_def)

lemma select_dumped_mot:
  "\<forall>b\<in>set bs. line_ok b \<Longrightarrow> select_lines (concat (map (\<lambda>b. ''S:'' @ description b @ nl) bs)) (pin, mot) = Some (pin, marked bs mot)"
proof (induction bs arbitrary: mot)
  case (Cons b bs)
  then have "CHR 10 \<notin> set (''S:'' @ description b)" "length (''S:'' @ description b) < 255"
    by (auto simp: line_ok_def)
  from select_lines_step [OF this] show ?case
    using Cons select_line_dumped(2) [of b] by (simp add: nl_def marked_Cons)
qed simp

lemma select_dumped_pin:
  "\<forall>b\<in>set bs. line_ok b \<Longrightarrow>
    select_lines (concat (map (\<lambda>b. ''R:'' @ description b @ nl) bs) @ rest) (pin, mot) = select_lines rest (marked bs pin, mot)"
proof (induction bs arbitrary: pin)
  case (Cons b bs)
  then have "CHR 10 \<notin> set (''R:'' @ description b)" "length (''R:'' @ description b) < 255"
    by (auto simp: line_ok_def)
  from select_lines_step [OF this] show ?case
    using Cons select_line_dumped(1) [of b] by (simp add: nl_def marked_Cons)
qed simp

lemma marked_self: "marked table table = all_valid table"
  by (auto simp: marked_def all_valid_def)

text \<open>C15. Dump and selection are inverse: a file that \<open>-d\<close> writes for two tables, read by \<open>-f\<close> over any
  tables, marks for testing exactly the functions that have one of the dumped descriptions, when these
  fit a line of the reading buffer; read over the tables that were dumped it marks every
  function, so \<open>-f\<close> with that file tests what is tested without it.\<close>

theorem dump_select:
  assumes "\<forall>b\<in>set pins \<union> set mots. line_ok b"
  shows "select_lines (dump_functions pins mots) (pin, mot) = Some (marked pins pin, marked mots mot) \<and>
    select_lines (dump_functions pins mots) (pins, mots) = Some (all_valid pins, all_valid mots)"
proof -
  have ok: "\<forall>b\<in>set pins. line_ok b" "\<forall>b\<in>set mots. line_ok b"
    using assms by auto
  have "select_lines (dump_functions pins mots) (p, m) = Some (marked pins p, marked mots m)" for p m
    unfolding dump_functions_def select_dumped_pin [OF ok(1)] by (rule select_dumped_mot [OF ok(2)])
  then show ?thesis
    by (simp add: marked_self)
qed

theorem dump_select_witness:
  "\<exists>d. initial_drv (\<lambda>_. black) (\<lambda>_. None) = Some d \<and>
    select_lines (dump_functions (pin_table d) []) (pin_table d, mot_table d) = Some (all_valid (pin_table d), mot_table d)"
proof -
  obtain d where d: "initial_drv (\<lambda>_. black) (\<lambda>_. None) = Some d"
    by (simp add: initial_drv_some)
  have "\<forall>b\<in>set (pin_table d) \<union> set []. line_ok b"
    using d by (auto simp: initial_drv_some line_ok_def NUL_def)
  from dump_select [OF this, of "pin_table d" "mot_table d"] d show ?thesis
    by (simp add: marked_self)
qed

end
