(* ===== verification/Parse_Script.thy ===== *)
theory Parse_Script
  imports C_Prelude
begin

text \<open>
  The script parser of the \<open>whoosh\<close> shell, \<open>Shelllab/parse.c\<close> with the syntax trees of
  \<open>Shelllab/ast.h\<close>. A C string is the list of its characters, so \<open>buffer\<close> is a suffix of the
  line and \<open>buffer[0]\<close> is the terminator when the suffix is empty. \<open>fail\<close> ends the program with
  a message. The variable table is threaded through the parsers as the list of the variables
  created so far, and a pointer to a variable is its index.
\<close>

section \<open>Outcomes\<close>

datatype 'a outcome = Ok 'a | Fail string | Undefined

primrec and_then :: "'a outcome \<Rightarrow> ('a \<Rightarrow> 'b outcome) \<Rightarrow> 'b outcome" where
  "and_then (Ok x) f = f x"
| "and_then (Fail e) f = Fail e"
| "and_then Undefined f = Undefined"

lemma and_then_cong [fundef_cong]:
  "m = m' \<Longrightarrow> (\<And>x. m' = Ok x \<Longrightarrow> f x = f' x) \<Longrightarrow> and_then m f = and_then m' f'"
  by (cases m') auto

lemma and_then_Ok [simp]: "and_then m f = Ok y \<longleftrightarrow> (\<exists>x. m = Ok x \<and> f x = Ok y)"
  by (cases m) auto

lemma and_then_Fail: "and_then m f = Fail e \<longleftrightarrow> m = Fail e \<or> (\<exists>x. m = Ok x \<and> f x = Fail e)"
  by (cases m) auto

lemma and_then_Undefined: "and_then m f = Undefined \<longleftrightarrow> m = Undefined \<or> (\<exists>x. m = Ok x \<and> f x = Undefined)"
  by (cases m) auto

section \<open>Syntax trees\<close>

record script_var =
  name :: string
  "value" :: string

datatype script_argument = ARGUMENT_LITERAL string | ARGUMENT_VARIABLE nat

record script_command =
  program :: string
  arguments :: "script_argument list"
  pid_to :: "nat option"

datatype group_mode = GROUP_SINGLE | GROUP_AND | GROUP_OR

record script_group =
  mode :: group_mode
  repeats :: int
  result_to :: "nat option"
  commands :: "script_command list"

type_synonym script = "script_group list"

type_synonym vars = "script_var list"

section \<open>Lexing\<close>

definition MAX_LINE_LENGTH :: nat where
  "MAX_LINE_LENGTH = 1024"

definition nl :: string where
  "nl = [CHR 10]"

definition issep :: "char \<Rightarrow> bool" where
  "issep c \<longleftrightarrow> c = CHR ''|''"

definition skip_space :: "string \<Rightarrow> string" where
  "skip_space buffer = dropWhile isspace buffer"

text \<open>\<open>buffer[0] == c\<close>, for a character other than the terminator.\<close>

definition first_is :: "string \<Rightarrow> char \<Rightarrow> bool" where
  "first_is buffer c \<longleftrightarrow> (case buffer of [] \<Rightarrow> False | d # _ \<Rightarrow> d = c)"

text \<open>\<open>!buffer[0] || isspace(buffer[0]) || issep(buffer[0])\<close>\<close>

definition word_end :: "string \<Rightarrow> bool" where
  "word_end buffer \<longleftrightarrow> (case buffer of [] \<Rightarrow> True | c # _ \<Rightarrow> isspace c \<or> issep c)"

definition at_in :: "string \<Rightarrow> string \<Rightarrow> string \<Rightarrow> string" where
  "at_in msg buffer start = msg @ nl @ '' at: '' @ buffer @ nl @ '' in: '' @ start"

definition in_line :: "string \<Rightarrow> string \<Rightarrow> string" where
  "in_line msg start = msg @ nl @ '' in: '' @ start"

definition lit_char :: "char \<Rightarrow> bool" where
  "lit_char c \<longleftrightarrow> isalpha c \<or> isdigit c \<or> c \<in> {CHR ''.'', CHR '':'', CHR ''_'', CHR ''-'', CHR ''='', CHR ''/''}"

text \<open>Writes to \<open>lit_buffer\<close>, which has room for \<open>MAX_LINE_LENGTH\<close> characters.\<close>

definition lit_put :: "string \<Rightarrow> char \<Rightarrow> string outcome" where
  "lit_put lit c = (if length lit < MAX_LINE_LENGTH then Ok (lit @ [c]) else Undefined)"

text \<open>The loop that looks for the matching quote; \<open>start\<close> and \<open>at\<close> are for the message.\<close>

fun parse_quote :: "string \<Rightarrow> string \<Rightarrow> string \<Rightarrow> string \<Rightarrow> (string \<times> string) outcome" where
  "parse_quote whole start [] lit =
     Fail (''unterminated quote'' @ nl @ '' at: '' @ whole @ nl @ '' in '' @ start)"
| "parse_quote whole start (c # buffer) lit =
     (if c = CHR 0x22 then Ok (lit, buffer)
      else and_then (lit_put lit c) (\<lambda>lit. parse_quote whole start buffer lit))"

lemma parse_quote_shorter: "parse_quote whole start buffer lit = Ok (lit', rest) \<Longrightarrow> length rest < length buffer"
  by (induction whole start buffer lit rule: parse_quote.induct) (auto split: if_splits)

function literal_loop :: "string \<Rightarrow> string \<Rightarrow> string \<Rightarrow> string \<Rightarrow> (string \<times> string) outcome" where
  "literal_loop whole start [] lit = Ok (lit, [])"
| "literal_loop whole start (c # buffer) lit =
     (if c = CHR 0x22 then
        and_then (parse_quote whole start buffer lit) (\<lambda>(lit, rest). literal_loop whole start rest lit)
      else if lit_char c then and_then (lit_put lit c) (\<lambda>lit. literal_loop whole start buffer lit)
      else Ok (lit, c # buffer))"
  by pat_completeness auto
termination
  by (relation "measure (\<lambda>(whole, start, buffer, lit). length buffer)") (auto dest: parse_quote_shorter)

text \<open>The result is the number of characters consumed, the literal, and what follows it.\<close>

definition parse_literal :: "string \<Rightarrow> string \<Rightarrow> (nat \<times> string \<times> string) outcome" where
  "parse_literal buffer start =
     and_then (literal_loop buffer start buffer []) (\<lambda>(lit, rest).
       if MAX_LINE_LENGTH \<le> length lit then Undefined
       else if word_end rest then Ok (length buffer - length rest, lit, rest)
       else Fail (at_in ''bad literal'' rest start))"

section \<open>Variables\<close>

text \<open>The first variable for which \<open>strncmp(buffer, name, len)\<close> is 0.\<close>

fun find_var :: "vars \<Rightarrow> string \<Rightarrow> nat \<Rightarrow> nat option" where
  "find_var [] buffer len = None"
| "find_var (v # vs) buffer len =
     (if strneq buffer (name v) len then Some 0 else map_option Suc (find_var vs buffer len))"

definition parse_variable :: "vars \<Rightarrow> string \<Rightarrow> string \<Rightarrow> (nat \<times> string \<times> vars) outcome" where
  "parse_variable vars buffer start =
    (if \<not> first_is buffer CHR ''$'' then Fail ''internal error: expected $ for a variable''
     else
       let len = length (takeWhile (\<lambda>c. isalpha c \<or> isdigit c) (tl buffer));
           rest = drop len (tl buffer)
       in if len = 0 \<or> \<not> word_end rest then Fail (at_in ''bad variable name'' buffer start)
          else case find_var vars (tl buffer) len of
            Some i \<Rightarrow> Ok (i, rest, vars)
          | None \<Rightarrow> Ok (length vars, rest, vars @ [\<lparr>name = take len (tl buffer), value = ''0''\<rparr>]))"

section \<open>Commands\<close>

lemma literal_loop_length:
  "literal_loop whole start buffer lit = Ok (lit', rest) \<Longrightarrow> length rest \<le> length buffer"
  by (induction whole start buffer lit rule: literal_loop.induct)
    (fastforce dest: parse_quote_shorter split: if_splits)+

lemma parse_literal_length:
  "parse_literal buffer start = Ok (len, lit, rest) \<Longrightarrow> len + length rest = length buffer"
  using literal_loop_length by (fastforce simp: parse_literal_def split: if_splits)

lemma skip_space_length: "length (skip_space buffer) \<le> length buffer"
  by (simp add: skip_space_def length_dropWhile_le)

lemma parse_variable_length:
  "parse_variable vars buffer start = Ok (i, rest, vars') \<Longrightarrow> length rest < length buffer"
  by (cases buffer) (auto simp: parse_variable_def first_is_def Let_def split: if_splits option.splits)

function parse_arguments ::
    "vars \<Rightarrow> string \<Rightarrow> string \<Rightarrow> script_argument list \<Rightarrow>
     (script_argument list \<times> nat option \<times> string \<times> vars) outcome" where
  "parse_arguments vars buffer start args =
    (let buffer = skip_space buffer in
     if first_is buffer CHR ''$'' then
       and_then (parse_variable vars buffer start) (\<lambda>(var, rest, vars).
         parse_arguments vars rest start (args @ [ARGUMENT_VARIABLE var]))
     else if first_is buffer CHR ''@'' then
       (let buffer = skip_space (tl buffer) in
        if first_is buffer CHR ''$'' then
          and_then (parse_variable vars buffer start) (\<lambda>(var, rest, vars).
            let buffer = skip_space rest in
            if word_end buffer then Ok (args, Some var, buffer, vars)
            else Fail (at_in ''command didn't end after \"@\" variable'' buffer start))
        else Fail (at_in ''expected a variable after \"@\"'' buffer start))
     else
       and_then (parse_literal buffer start) (\<lambda>(len, literal, rest).
         if len = 0 then Ok (args, None, buffer, vars)
         else parse_arguments vars rest start (args @ [ARGUMENT_LITERAL literal])))"
  by pat_completeness auto

termination
proof (relation "measure (\<lambda>(vars, buffer, start, args). length buffer)", goal_cases)
  case (2 vars buffer start args x xa xb xc xd y)
  then show ?case
    using skip_space_length [of buffer] by (auto dest!: parse_variable_length)
next
  case (3 vars buffer start args x xa xb xc xd y)
  then show ?case
    using skip_space_length [of buffer] by (auto dest!: parse_literal_length)
qed simp

declare parse_arguments.simps [simp del]

definition parse_command :: "vars \<Rightarrow> string \<Rightarrow> string \<Rightarrow> (script_command \<times> string \<times> vars) outcome" where
  "parse_command vars buffer start =
     and_then (parse_literal buffer start) (\<lambda>(len, literal, rest).
       if len = 0 then Fail (''bad command'' @ nl @ '' at: '' @ buffer @ '', in: '' @ start)
       else
         and_then (parse_arguments vars rest start []) (\<lambda>(args, pid, rest, vars).
           Ok (\<lparr>program = literal, arguments = args, pid_to = pid\<rparr>, rest, vars)))"

section \<open>Groups\<close>

lemma parse_arguments_length:
  "parse_arguments vars buffer start args = Ok (args', pid, rest, vars') \<Longrightarrow> length rest \<le> length buffer"
proof (induction vars buffer start args rule: parse_arguments.induct)
  case (1 vars buffer start args)
  let ?b = "skip_space buffer"
  note step = 1(3) [unfolded parse_arguments.simps [of vars buffer] Let_def]
  have len: "length ?b \<le> length buffer" "length (skip_space (tl ?b)) \<le> length ?b"
    using skip_space_length [of buffer] skip_space_length [of "tl ?b"] by simp_all
  consider (var) "first_is ?b CHR ''$''" | (pid) "\<not> first_is ?b CHR ''$''" "first_is ?b CHR ''@''"
    | (lit) "\<not> first_is ?b CHR ''$''" "\<not> first_is ?b CHR ''@''" by blast
  then show ?case
  proof cases
    case var
    then obtain v r vs where v: "parse_variable vars ?b start = Ok (v, r, vs)"
      and "parse_arguments vs r start (args @ [ARGUMENT_VARIABLE v]) = Ok (args', pid, rest, vars')"
      using step by auto
    then have "length rest \<le> length r"
      using 1(1) [OF refl var] by blast
    then show ?thesis
      using parse_variable_length [OF v] len by simp
  next
    case pid
    then obtain v r vs where "parse_variable vars (skip_space (tl ?b)) start = Ok (v, r, vs)" "rest = skip_space r"
      using step by (auto split: if_splits)
    then show ?thesis
      using parse_variable_length [of vars "skip_space (tl ?b)" start v r vs] skip_space_length [of r] len by simp
  next
    case lit
    then obtain t where t: "parse_literal ?b start = Ok t"
      and t': "(case t of (n, l, r) \<Rightarrow> if n = 0 then Ok (args, None, ?b, vars)
         else parse_arguments vars r start (args @ [ARGUMENT_LITERAL l])) = Ok (args', pid, rest, vars')"
      using step by (simp only: if_False and_then_Ok) blast
    obtain n l r where nlr: "t = (n, l, r)"
      by (cases t)
    then have l: "parse_literal ?b start = Ok (n, l, r)"
      using t by simp
    have "n = 0 \<and> rest = ?b \<or>
        n \<noteq> 0 \<and> parse_arguments vars r start (args @ [ARGUMENT_LITERAL l]) = Ok (args', pid, rest, vars')"
      using t' nlr by (cases "n = 0") auto
    then have "n = 0 \<and> rest = ?b \<or> length rest \<le> length r"
      using 1(2) [OF refl lit l, of n "(l, r)" l r] by blast
    then show ?thesis
      using parse_literal_length [OF l] len by auto
  qed
qed

lemma parse_command_length:
  "parse_command vars buffer start = Ok (cmd, rest, vars') \<Longrightarrow> length rest < length buffer"
  by (fastforce simp: parse_command_def dest!: parse_literal_length parse_arguments_length split: if_splits)

definition mixed :: "string \<Rightarrow> string \<Rightarrow> string" where
  "mixed buffer start = at_in ''mixed command combiners'' buffer start"

function parse_commands ::
    "vars \<Rightarrow> string \<Rightarrow> string \<Rightarrow> group_mode \<Rightarrow> script_command list \<Rightarrow>
     (group_mode \<times> script_command list \<times> vars) outcome" where
  "parse_commands vars buffer start md cmds =
    and_then (parse_command vars buffer start) (\<lambda>(cmd, rest, vars).
      let cmds = cmds @ [cmd]; buffer = skip_space rest in
      if buffer = [] then Ok (md, cmds, vars)
      else if first_is buffer CHR ''|'' then
        and_then
          (if first_is (tl buffer) CHR ''|'' then
             (if md = GROUP_SINGLE then Ok (GROUP_OR, drop 2 buffer)
              else if md \<noteq> GROUP_OR then Fail (mixed buffer start)
              else Ok (md, drop 2 buffer))
           else
             (if md = GROUP_SINGLE then Ok (GROUP_AND, tl buffer)
              else if md \<noteq> GROUP_AND then Fail (mixed buffer start)
              else Ok (md, tl buffer)))
          (\<lambda>(md, rest).
             let buffer = skip_space rest in
             if buffer = [] then Fail (in_line ''missing command after last combiner'' start)
             else parse_commands vars buffer start md cmds)
      else
        Fail (at_in (''expected a combiner '' @
          (if md = GROUP_AND then ''|'' else if md = GROUP_OR then ''||'' else ''| or ||'')) buffer start))"
  by pat_completeness auto
termination
proof (relation "measure (\<lambda>(vars, buffer, start, md, cmds). length buffer)", goal_cases)
  case (2 vars buffer start md cmds a cmd b rest vars' cmds' buffer' c md' rest' buffer'')
  have "length rest' \<le> length buffer'"
    using 2 by (auto split: if_splits)
  then show ?case
    using 2 skip_space_length [of rest] skip_space_length [of rest'] parse_command_length by fastforce
qed simp

declare parse_commands.simps [simp del]

text \<open>The digits of a repeat count; a count beyond the range of \<open>int\<close> is an overflow.\<close>

fun repeat_loop :: "int \<Rightarrow> string \<Rightarrow> (int \<times> string) outcome" where
  "repeat_loop n [] = Ok (n, [])"
| "repeat_loop n (c # buffer) =
     (if isdigit c then
        (if n * 10 + digit_val c \<le> INT_MAX then repeat_loop (n * 10 + digit_val c) buffer else Undefined)
      else Ok (n, c # buffer))"

definition bad_repeat :: "string \<Rightarrow> string" where
  "bad_repeat start = in_line ''not a valid number for repeat'' start"

text \<open>The message for a bare \<open>repeat\<close> has a conversion without an argument.\<close>

definition parse_repeat :: "string \<Rightarrow> string \<Rightarrow> (int \<times> string) outcome" where
  "parse_repeat buffer start =
    (if strneq buffer ''repeat '' 7 then
       let buffer = skip_space (drop 7 buffer) in
       if buffer = [] \<or> \<not> isdigit (hd buffer) then Fail (bad_repeat start)
       else and_then (repeat_loop 0 buffer) (\<lambda>(n, buffer).
         if buffer = [] \<or> \<not> isspace (hd buffer) then Fail (bad_repeat start)
         else Ok (n, skip_space buffer))
     else if buffer = ''repeat'' then Undefined
     else Ok (1, buffer))"

definition parse_target :: "vars \<Rightarrow> string \<Rightarrow> string \<Rightarrow> (nat option \<times> string \<times> vars) outcome" where
  "parse_target vars buffer start =
    (if first_is buffer CHR ''$'' then
       and_then (parse_variable vars buffer start) (\<lambda>(v, rest, vars).
         let buffer = skip_space rest in
         if \<not> first_is buffer CHR ''='' then
           Fail (''expected an equal sign'' @ nl @ '' after: $'' @ name (vars ! v) @ nl @ '' in: '' @ start)
         else Ok (Some v, skip_space (tl buffer), vars))
     else Ok (None, buffer, vars))"

definition parse_group :: "vars \<Rightarrow> string \<Rightarrow> string \<Rightarrow> (script_group \<times> vars) outcome" where
  "parse_group vars buffer start =
     and_then (parse_repeat (skip_space buffer) start) (\<lambda>(n, buffer).
       and_then (parse_target vars buffer start) (\<lambda>(target, buffer, vars).
         if buffer = [] then Fail (in_line ''missing a command'' start)
         else
           and_then (parse_commands vars buffer start GROUP_SINGLE []) (\<lambda>(md, cmds, vars).
             Ok (\<lparr>mode = md, repeats = n, result_to = target, commands = cmds\<rparr>, vars))))"

section \<open>Scripts\<close>

definition parse_line :: "vars \<Rightarrow> string \<Rightarrow> (script_group option \<times> vars) outcome" where
  "parse_line vars line =
    (let buffer_start = takeWhile (\<lambda>c. c \<noteq> NUL) line; i = length buffer_start in
     if \<exists>c\<in>set buffer_start. 128 \<le> (of_char c :: nat) then
       Fail (in_line ''script line contains non-ASCII character'' buffer_start)
     else if MAX_LINE_LENGTH - 1 \<le> i then Fail ''script line too long''
     else
       let buffer_start = (if 0 < i \<and> buffer_start ! (i - 1) = CHR 10 then take (i - 1) buffer_start
                           else buffer_start);
           buffer = skip_space buffer_start
       in if buffer = [] \<or> hd buffer = CHR ''#'' then Ok (None, vars)
          else and_then (parse_group vars buffer buffer_start) (\<lambda>(g, vars). Ok (Some g, vars)))"

function parse_lines :: "vars \<Rightarrow> string \<Rightarrow> script \<Rightarrow> (script \<times> vars) outcome" where
  "parse_lines vars [] scr = Ok (scr, vars)"
| "parse_lines vars (c # s) scr =
    (case fgets (MAX_LINE_LENGTH - 1) (c # s) of (line, rest) \<Rightarrow>
       and_then (parse_line vars line) (\<lambda>(g, vars).
         parse_lines vars rest (scr @ (case g of None \<Rightarrow> [] | Some g \<Rightarrow> [g]))))"
  by pat_completeness auto
termination
  by (relation "measure (\<lambda>(vars, s, scr). length s)")
    (auto simp: MAX_LINE_LENGTH_def numeral_eq_Suc simp del: fgets.simps dest!: fgets_progress [OF sym])

text \<open>\<open>contents\<close> is what the file holds, or the reason why it cannot be opened.\<close>

definition parse_script_file :: "vars \<Rightarrow> string \<Rightarrow> string + string \<Rightarrow> (script \<times> vars) outcome" where
  "parse_script_file vars file contents =
    (case contents of
       Inl strerror \<Rightarrow>
         Fail (''error opening script file'' @ nl @ '' path: '' @ file @ nl @ '' error: '' @ strerror)
     | Inr s \<Rightarrow> parse_lines vars s [])"

section \<open>Printing\<close>

primrec print_argument :: "vars \<Rightarrow> script_argument \<Rightarrow> string" where
  "print_argument vars (ARGUMENT_LITERAL l) = '' '' @ [CHR 0x22] @ l @ [CHR 0x22]"
| "print_argument vars (ARGUMENT_VARIABLE v) = '' $'' @ name (vars ! v)"

definition print_command :: "vars \<Rightarrow> script_command \<Rightarrow> string" where
  "print_command vars cmd =
     [CHR 0x22] @ program cmd @ [CHR 0x22] @ concat (map (print_argument vars) (arguments cmd)) @
     (case pid_to cmd of None \<Rightarrow> [] | Some v \<Rightarrow> '' @ $'' @ name (vars ! v))"

fun print_cmds :: "vars \<Rightarrow> group_mode \<Rightarrow> script_command list \<Rightarrow> string" where
  "print_cmds vars md [] = []"
| "print_cmds vars md [cmd] = print_command vars cmd"
| "print_cmds vars md (cmd # cmds) =
     print_command vars cmd @ '' '' @ (if md = GROUP_AND then ''|'' else ''||'') @ '' '' @
     print_cmds vars md cmds"

definition print_group :: "vars \<Rightarrow> script_group \<Rightarrow> string" where
  "print_group vars g =
     (if repeats g \<noteq> 1 then ''repeat '' @ dec_int (repeats g) @ '' '' else []) @
     (case result_to g of None \<Rightarrow> [] | Some v \<Rightarrow> ''$'' @ name (vars ! v) @ '' = '') @
     print_cmds vars (mode g) (commands g)"

definition print_script :: "vars \<Rightarrow> script \<Rightarrow> string" where
  "print_script vars scr = concat (map (\<lambda>g. print_group vars g @ nl) scr)"

section \<open>Reading back what is printed\<close>

text \<open>A literal can hold anything but a quote; the table is unambiguous when no name is a prefix
  of the name of a variable that was created before it.\<close>

definition lit_ok :: "string \<Rightarrow> bool" where
  "lit_ok l \<longleftrightarrow> CHR 0x22 \<notin> set l \<and> length l < MAX_LINE_LENGTH"

definition name_ok :: "string \<Rightarrow> bool" where
  "name_ok s \<longleftrightarrow> s \<noteq> [] \<and> (\<forall>c\<in>set s. isalpha c \<or> isdigit c)"

definition vars_ok :: "vars \<Rightarrow> bool" where
  "vars_ok vars \<longleftrightarrow> (\<forall>v\<in>set vars. name_ok (name v)) \<and>
     (\<forall>j<length vars. \<forall>i<j. take (length (name (vars ! j))) (name (vars ! i)) \<noteq> name (vars ! j))"

primrec arg_ok :: "nat \<Rightarrow> script_argument \<Rightarrow> bool" where
  "arg_ok n (ARGUMENT_LITERAL l) = lit_ok l"
| "arg_ok n (ARGUMENT_VARIABLE v) = (v < n)"

definition ref_ok :: "nat \<Rightarrow> nat option \<Rightarrow> bool" where
  "ref_ok n r \<longleftrightarrow> (case r of None \<Rightarrow> True | Some v \<Rightarrow> v < n)"

definition command_ok :: "nat \<Rightarrow> script_command \<Rightarrow> bool" where
  "command_ok n cmd \<longleftrightarrow> lit_ok (program cmd) \<and> (\<forall>a\<in>set (arguments cmd). arg_ok n a) \<and> ref_ok n (pid_to cmd)"

definition mode_ok :: "group_mode \<Rightarrow> script_command list \<Rightarrow> bool" where
  "mode_ok md cmds \<longleftrightarrow> cmds \<noteq> [] \<and> (md = GROUP_SINGLE \<longleftrightarrow> length cmds = 1)"

definition group_ok :: "nat \<Rightarrow> script_group \<Rightarrow> bool" where
  "group_ok n g \<longleftrightarrow> 0 \<le> repeats g \<and> repeats g \<le> INT_MAX \<and> ref_ok n (result_to g) \<and>
     mode_ok (mode g) (commands g) \<and> (\<forall>c\<in>set (commands g). command_ok n c)"

lemmas char_simps = isspace_def issep_def isalpha_def isupper_def islower_def isdigit_def less_eq_char_code

lemma skip_space_simps [simp]:
  "skip_space [] = []" "skip_space (CHR '' '' # s) = skip_space s"
  "\<not> isspace c \<Longrightarrow> skip_space (c # s) = c # s"
  by (simp_all add: skip_space_def isspace_def)

lemma first_is_simps [simp]: "\<not> first_is [] c" "first_is (d # s) c \<longleftrightarrow> d = c"
  by (simp_all add: first_is_def)

lemma word_end_simps [simp]: "word_end []" "word_end (c # s) \<longleftrightarrow> isspace c \<or> issep c"
  by (simp_all add: word_end_def)

lemma not_space [simp]: "\<not> isspace CHR 0x22" "\<not> isspace CHR ''$''" "\<not> isspace CHR ''@''" "\<not> isspace CHR ''|''"
  "\<not> isspace CHR ''=''" "isspace CHR '' ''" "issep CHR ''|''"
  by (simp_all add: isspace_def issep_def)

lemma digit_not_space: "isdigit c \<Longrightarrow> \<not> isspace c"
  by (auto simp: char_simps)

lemma name_char_not_end: "isalpha c \<or> isdigit c \<Longrightarrow> \<not> isspace c \<and> \<not> issep c"
  by (auto simp: char_simps)

lemma skip_space_first: "skip_space s = [] \<or> \<not> isspace (hd (skip_space s))"
  by (induction s) (auto simp: skip_space_def)

lemma skip_space_idem [simp]: "skip_space (skip_space s) = skip_space s"
  by (simp add: skip_space_def)

lemma literal_loop_end: "word_end rest \<Longrightarrow> literal_loop whole start rest lit = Ok (lit, rest)"
proof (cases rest)
  case (Cons c s)
  moreover assume "word_end rest"
  ultimately have "c \<noteq> CHR 0x22 \<and> \<not> lit_char c"
    by (auto simp: lit_char_def char_simps)
  then show ?thesis
    by (simp add: Cons)
qed simp

lemma parse_quote_append:
  "CHR 0x22 \<notin> set l \<Longrightarrow> length lit + length l \<le> MAX_LINE_LENGTH \<Longrightarrow>
   parse_quote whole start (l @ CHR 0x22 # rest) lit = Ok (lit @ l, rest)"
  by (induction l arbitrary: lit) (auto simp: lit_put_def)

lemma parse_literal_quoted:
  assumes "lit_ok l" "word_end rest"
  shows "parse_literal (CHR 0x22 # l @ CHR 0x22 # rest) start = Ok (length l + 2, l, rest)"
  using assms by (simp add: parse_literal_def parse_quote_append literal_loop_end lit_ok_def)

lemma parse_literal_none:
  assumes "word_end buffer"
  shows "parse_literal buffer start = Ok (0, [], buffer)"
  using assms by (simp add: parse_literal_def literal_loop_end MAX_LINE_LENGTH_def)

lemma find_var_prefix:
  assumes "i < length vars" "take n b = name (vars ! i)" "length (name (vars ! i)) = n"
    and "\<And>j. j < i \<Longrightarrow> take n (name (vars ! j)) \<noteq> name (vars ! i)"
  shows "find_var vars b n = Some i"
  using assms
proof (induction vars arbitrary: i)
  case (Cons v vars)
  show ?case
  proof (cases i)
    case 0
    then show ?thesis using Cons.prems by (simp add: strneq_def)
  next
    case (Suc k)
    then have "\<not> strneq b (name v) n"
      using Cons.prems(2) Cons.prems(4) [of 0] by (simp add: strneq_def)
    moreover have "find_var vars b n = Some k"
      using Cons.prems(1-3) Suc Cons.prems(4) [of "Suc j" for j] by (intro Cons.IH) auto
    ultimately show ?thesis by (simp add: Suc)
  qed
qed simp

lemma parse_variable_name:
  assumes "vars_ok vars" "i < length vars" "word_end rest"
  shows "parse_variable vars (CHR ''$'' # name (vars ! i) @ rest) start = Ok (i, rest, vars)"
proof -
  let ?n = "name (vars ! i)"
  have n: "name_ok ?n"
    using assms(1,2) by (simp add: vars_ok_def)
  have "takeWhile (\<lambda>c. isalpha c \<or> isdigit c) (?n @ rest) = ?n @ takeWhile (\<lambda>c. isalpha c \<or> isdigit c) rest"
    using n by (intro takeWhile_append2) (auto simp: name_ok_def)
  also have "takeWhile (\<lambda>c. isalpha c \<or> isdigit c) rest = []"
    using assms(3) name_char_not_end by (cases rest) auto
  finally have tw: "takeWhile (\<lambda>c. isalpha c \<or> isdigit c) (?n @ rest) = ?n" by simp
  have "find_var vars (?n @ rest) (length ?n) = Some i"
    using assms(1,2) by (intro find_var_prefix) (auto simp: vars_ok_def)
  then show ?thesis
    using tw n assms(3) by (simp add: parse_variable_def Let_def name_ok_def)
qed

text \<open>What may follow a command: the end of the line, or a space and a combiner.\<close>

definition command_end :: "string \<Rightarrow> bool" where
  "command_end rest \<longleftrightarrow> word_end rest \<and> (skip_space rest = [] \<or> first_is (skip_space rest) CHR ''|'')"

lemma print_arguments_word_end:
  "word_end rest \<Longrightarrow> word_end (concat (map (print_argument vars) args) @ rest)"
proof (cases args)
  case (Cons a as)
  then show "word_end (concat (map (print_argument vars) args) @ rest)" by (cases a) auto
qed simp

lemma parse_arguments_end:
  assumes "command_end rest"
  shows "parse_arguments vars rest start acc = Ok (acc, None, skip_space rest, vars)"
proof -
  have "word_end (skip_space rest)"
    using assms by (auto simp: command_end_def first_is_def split: list.splits)
  then show ?thesis
    using assms by (subst parse_arguments.simps)
      (auto simp: command_end_def first_is_def Let_def parse_literal_none split: list.splits)
qed

lemma parse_arguments_pid:
  assumes "command_end rest" "vars_ok vars" "v < length vars"
  shows "parse_arguments vars ('' @ $'' @ name (vars ! v) @ rest) start acc = Ok (acc, Some v, skip_space rest, vars)"
proof -
  have "word_end rest" "word_end (skip_space rest)"
    using assms(1) by (auto simp: command_end_def first_is_def split: list.splits)
  then show ?thesis
    using assms by (subst parse_arguments.simps) (simp add: Let_def parse_variable_name)
qed

definition print_pid :: "vars \<Rightarrow> nat option \<Rightarrow> string" where
  "print_pid vars pid = (case pid of None \<Rightarrow> [] | Some v \<Rightarrow> '' @ $'' @ name (vars ! v))"

lemma parse_print_arguments:
  assumes "command_end rest" "vars_ok vars" "ref_ok (length vars) pid"
    and "\<forall>a\<in>set args. arg_ok (length vars) a"
  shows "parse_arguments vars (concat (map (print_argument vars) args) @ print_pid vars pid @ rest) start acc =
    Ok (acc @ args, pid, skip_space rest, vars)"
  using assms(4)
proof (induction args arbitrary: acc)
  case Nil
  then show ?case
    using assms(1-3) parse_arguments_end parse_arguments_pid
    by (cases pid) (auto simp: print_pid_def ref_ok_def)
next
  case (Cons a args)
  let ?rest = "concat (map (print_argument vars) args) @ print_pid vars pid @ rest"
  have "word_end (print_pid vars pid @ rest)"
    using assms(1) by (auto simp: print_pid_def command_end_def split: option.splits)
  then have we: "word_end ?rest"
    by (rule print_arguments_word_end)
  show ?case
  proof (cases a)
    case (ARGUMENT_LITERAL l)
    then show ?thesis
      using Cons we by (subst parse_arguments.simps) (simp add: Let_def parse_literal_quoted)
  next
    case (ARGUMENT_VARIABLE v)
    then show ?thesis
      using Cons we assms(2) by (subst parse_arguments.simps) (simp add: Let_def parse_variable_name)
  qed
qed

lemma parse_print_command:
  assumes "command_end rest" "vars_ok vars" "command_ok (length vars) cmd"
  shows "parse_command vars (print_command vars cmd @ rest) start = Ok (cmd, skip_space rest, vars)"
proof -
  have "word_end (print_pid vars (pid_to cmd) @ rest)"
    using assms(1) by (auto simp: print_pid_def command_end_def split: option.splits)
  from print_arguments_word_end [OF this]
  show ?thesis
    using assms unfolding parse_command_def print_command_def print_pid_def [symmetric]
    by (simp add: parse_literal_quoted parse_print_arguments command_ok_def)
qed

lemma skip_print_command: "skip_space (print_command vars cmd @ rest) = print_command vars cmd @ rest"
  by (simp add: print_command_def)

lemma skip_print_cmds: "skip_space (print_cmds vars md cmds) = print_cmds vars md cmds"
proof (induction vars md cmds rule: print_cmds.induct)
  case (2 vars md cmd)
  then show ?case
    using skip_print_command [of vars cmd "[]"] by simp
qed (simp_all add: skip_print_command)

lemma print_cmds_nonempty: "cmds \<noteq> [] \<Longrightarrow> print_cmds vars md cmds \<noteq> []"
  by (induction vars md cmds rule: print_cmds.induct) (auto simp: print_command_def)

lemma parse_print_cmds:
  assumes "vars_ok vars" "cmds \<noteq> []" "\<forall>c\<in>set cmds. command_ok (length vars) c"
    and "md' = GROUP_SINGLE \<or> md' = md" "length cmds = 1 \<or> md \<noteq> GROUP_SINGLE"
  shows "parse_commands vars (print_cmds vars md cmds) start md' acc =
    Ok (if length cmds = 1 then md' else md, acc @ cmds, vars)"
  using assms
proof (induction vars md cmds arbitrary: md' acc rule: print_cmds.induct)
  case (2 vars md cmd)
  then have "parse_command vars (print_command vars cmd @ []) start = Ok (cmd, skip_space [], vars)"
    by (intro parse_print_command) (auto simp: command_end_def)
  then show ?case
    by (subst parse_commands.simps) simp
next
  case (3 vars md cmd c cmds)
  define more where "more = print_cmds vars md (c # cmds)"
  define bar where "bar = (if md = GROUP_AND then ''|'' else ''||'')"
  have more: "skip_space more = more" "more \<noteq> []"
    by (simp_all add: more_def skip_print_cmds print_cmds_nonempty)
  have bar': "skip_space ('' '' @ bar @ '' '' @ more) = bar @ '' '' @ more"
    by (simp add: bar_def)
  have "command_end ('' '' @ bar @ '' '' @ more)"
    by (simp add: command_end_def bar_def)
  then have pc: "parse_command vars (print_command vars cmd @ '' '' @ bar @ '' '' @ more) start =
      Ok (cmd, bar @ '' '' @ more, vars)"
    using parse_print_command [of "'' '' @ bar @ '' '' @ more" vars cmd start] 3(2,4) bar' by simp
  have IH: "parse_commands vars more start md (acc @ [cmd]) = Ok (md, (acc @ [cmd]) @ c # cmds, vars)"
    unfolding more_def using 3 by (subst 3(1)) auto
  have "md = GROUP_AND \<or> md = GROUP_OR"
    using 3(6) by (cases md) auto
  then show ?case
    using pc IH more 3(5) unfolding print_cmds.simps more_def [symmetric] bar_def [symmetric]
    by (subst parse_commands.simps) (auto simp: Let_def bar_def)
qed simp

lemma read_digits_mono:
  assumes "0 \<le> a" "\<forall>c\<in>set ds. isdigit c"
  shows "a \<le> read_digits a ds"
  using assms
proof (induction ds arbitrary: a)
  case (Cons c ds)
  have "0 \<le> digit_val c"
    using Cons.prems(2) by (auto simp: digit_val_def isdigit_def less_eq_char_code)
  then have "a \<le> a * 10 + digit_val c" "0 \<le> a * 10 + digit_val c"
    using Cons.prems(1) by auto
  then show ?case
    using Cons.IH [of "a * 10 + digit_val c"] Cons.prems(2) by (auto simp: read_digits_def)
qed (simp add: read_digits_def)

lemma digit_val_nonneg: "isdigit c \<Longrightarrow> 0 \<le> digit_val c"
  by (auto simp: digit_val_def isdigit_def less_eq_char_code)

lemma repeat_loop_digits:
  assumes "0 \<le> a"
  shows "repeat_loop a s = (if read_digits a (takeWhile isdigit s) \<le> INT_MAX \<or> takeWhile isdigit s = []
    then Ok (read_digits a (takeWhile isdigit s), dropWhile isdigit s) else Undefined)"
  using assms
proof (induction a s rule: repeat_loop.induct)
  case (2 a c s)
  show ?case
  proof (cases "isdigit c")
    case True
    have nn: "0 \<le> a * 10 + digit_val c"
      using digit_val_nonneg [OF True] 2(2) by simp
    have "a * 10 + digit_val c \<le> read_digits (a * 10 + digit_val c) (takeWhile isdigit s)"
      by (rule read_digits_mono [OF nn]) (auto dest: set_takeWhileD)
    then show ?thesis
      using 2(1) [OF True _ nn] True by (auto simp: read_digits_def)
  qed (simp add: read_digits_def)
qed (simp add: read_digits_def)

lemma parse_repeat_print:
  assumes "0 \<le> n" "n \<le> INT_MAX"
  shows "parse_repeat (''repeat '' @ dec_int n @ '' '' @ rest) start = Ok (n, skip_space rest)"
proof -
  let ?d = "dec_nat (nat n)"
  have d: "?d \<noteq> []" "\<forall>c\<in>set ?d. isdigit c"
    using dec_nat_nonempty dec_nat_digits by auto
  have sp: "skip_space (?d @ '' '' @ rest) = ?d @ '' '' @ rest"
    using d digit_not_space by (cases ?d) auto
  have "\<not> isdigit CHR '' ''"
    by (simp add: char_simps)
  then have tw: "takeWhile isdigit (?d @ '' '' @ rest) = ?d" "dropWhile isdigit (?d @ '' '' @ rest) = '' '' @ rest"
    using d by (simp_all add: takeWhile_append dropWhile_append)
  have "repeat_loop 0 (?d @ '' '' @ rest) = Ok (n, '' '' @ rest)"
    using assms by (simp add: repeat_loop_digits tw read_digits_dec_nat del: append.simps append_Cons)
  then show ?thesis
    using d sp assms by (simp add: parse_repeat_def strneq_def dec_int_def Let_def)
qed

lemma parse_repeat_none:
  assumes "first_is buffer CHR ''$'' \<or> first_is buffer CHR 0x22"
  shows "parse_repeat buffer start = Ok (1, buffer)"
  using assms by (cases buffer) (auto simp: parse_repeat_def strneq_def)

lemma print_cmds_first: "cmds \<noteq> [] \<Longrightarrow> first_is (print_cmds vars md cmds) CHR 0x22"
  by (induction vars md cmds rule: print_cmds.induct) (auto simp: print_command_def)

definition print_target :: "vars \<Rightarrow> nat option \<Rightarrow> string" where
  "print_target vars t = (case t of None \<Rightarrow> [] | Some v \<Rightarrow> ''$'' @ name (vars ! v) @ '' = '')"

lemma parse_print_target:
  assumes "vars_ok vars" "ref_ok (length vars) t" "skip_space rest = rest" "first_is rest CHR 0x22"
  shows "parse_target vars (print_target vars t @ rest) start = Ok (t, rest, vars)"
  using assms
  by (cases t; cases rest) (auto simp: parse_target_def print_target_def ref_ok_def parse_variable_name)

lemma parse_print_group_lemma:
  assumes "vars_ok vars" "group_ok (length vars) g"
  shows "parse_group vars (print_group vars g) start = Ok (g, vars)"
proof -
  define body where "body = print_cmds vars (mode g) (commands g)"
  have ne: "commands g \<noteq> []" and md: "mode g = GROUP_SINGLE \<longleftrightarrow> length (commands g) = 1"
    using assms(2) by (simp_all add: group_ok_def mode_ok_def)
  have body: "skip_space body = body" "first_is body CHR 0x22" "body \<noteq> []"
    using ne by (auto simp: body_def skip_print_cmds print_cmds_first print_cmds_nonempty)
  let ?t = "print_target vars (result_to g) @ body"
  have t: "skip_space ?t = ?t" "first_is ?t CHR ''$'' \<or> first_is ?t CHR 0x22"
    using body by (auto simp: print_target_def split: option.splits)
  have rep: "parse_repeat (skip_space (print_group vars g)) start = Ok (repeats g, ?t)"
  proof (cases "repeats g = 1")
    case True
    then have "print_group vars g = ?t"
      by (simp add: print_group_def print_target_def body_def)
    then show ?thesis
      using True t parse_repeat_none [OF t(2)] by simp
  next
    case False
    then have p: "print_group vars g = ''repeat '' @ dec_int (repeats g) @ '' '' @ ?t"
      by (simp add: print_group_def print_target_def body_def)
    then have "skip_space (print_group vars g) = print_group vars g"
      by (simp add: isspace_def)
    then show ?thesis
      using parse_repeat_print [of "repeats g" ?t start] t(1) assms(2) unfolding p by (simp add: group_ok_def)
  qed
  have "parse_target vars ?t start = Ok (result_to g, body, vars)"
    using assms body by (intro parse_print_target) (auto simp: group_ok_def)
  moreover have "parse_commands vars body start GROUP_SINGLE [] = Ok (mode g, commands g, vars)"
    unfolding body_def using assms md ne by (subst parse_print_cmds) (auto simp: group_ok_def)
  ultimately show ?thesis
    unfolding parse_group_def rep using body(3) by (cases g) simp
qed

section \<open>What the parser produces\<close>

definition grows :: "vars \<Rightarrow> vars \<Rightarrow> bool" where
  "grows vars vars' \<longleftrightarrow> (\<exists>ext. vars' = vars @ ext \<and> (\<forall>v\<in>set ext. name_ok (name v) \<and> value v = ''0''))"

lemma grows_refl [simp]: "grows vars vars"
  by (simp add: grows_def)

lemma grows_trans: "grows a b \<Longrightarrow> grows b c \<Longrightarrow> grows a c"
  by (fastforce simp: grows_def)

lemma grows_length: "grows a b \<Longrightarrow> length a \<le> length b"
  by (auto simp: grows_def)

lemma arg_ok_mono: "arg_ok n a \<Longrightarrow> n \<le> n' \<Longrightarrow> arg_ok n' a"
  by (cases a) auto

lemma ref_ok_mono: "ref_ok n a \<Longrightarrow> n \<le> n' \<Longrightarrow> ref_ok n' a"
  by (cases a) (auto simp: ref_ok_def)

lemma command_ok_mono: "command_ok n c \<Longrightarrow> n \<le> n' \<Longrightarrow> command_ok n' c"
  by (auto simp: command_ok_def dest: arg_ok_mono ref_ok_mono)

lemma find_var_bound: "find_var vars b n = Some i \<Longrightarrow> i < length vars"
  by (induction vars arbitrary: i) (auto split: if_splits)

lemma parse_variable_ok:
  assumes "parse_variable vars buffer start = Ok (i, rest, vars')"
  shows "i < length vars' \<and> grows vars vars'"
proof -
  let ?tw = "takeWhile (\<lambda>c. isalpha c \<or> isdigit c) (tl buffer)"
  have "take (length ?tw) (tl buffer) = ?tw"
    by (simp add: takeWhile_eq_take [symmetric])
  moreover have "\<forall>c\<in>set ?tw. isalpha c \<or> isdigit c"
    by (auto dest: set_takeWhileD)
  ultimately have "?tw \<noteq> [] \<Longrightarrow> name_ok (take (length ?tw) (tl buffer))"
    by (simp add: name_ok_def)
  then show ?thesis
    using assms find_var_bound
    by (auto simp: parse_variable_def Let_def grows_def split: if_splits option.splits)
qed

lemma parse_quote_ok:
  "parse_quote whole start buffer lit = Ok (lit', rest) \<Longrightarrow> CHR 0x22 \<notin> set lit \<Longrightarrow> CHR 0x22 \<notin> set lit'"
  by (induction whole start buffer lit rule: parse_quote.induct) (auto simp: lit_put_def split: if_splits)

lemma literal_loop_ok:
  "literal_loop whole start buffer lit = Ok (lit', rest) \<Longrightarrow> CHR 0x22 \<notin> set lit \<Longrightarrow> CHR 0x22 \<notin> set lit'"
  by (induction whole start buffer lit rule: literal_loop.induct)
    (fastforce simp: lit_put_def dest: parse_quote_ok split: if_splits)+

lemma parse_literal_ok: "parse_literal buffer start = Ok (len, lit, rest) \<Longrightarrow> lit_ok lit"
  by (auto simp: parse_literal_def lit_ok_def dest: literal_loop_ok split: if_splits)

text \<open>A successful literal of no length means that the text starts where a word ends.\<close>

lemma parse_literal_0: "parse_literal buffer start = Ok (0, lit, rest) \<Longrightarrow> word_end buffer"
proof -
  assume p: "parse_literal buffer start = Ok (0, lit, rest)"
  then have l: "literal_loop buffer start buffer [] = Ok (lit, rest)" and w: "word_end rest"
    and "length buffer \<le> length rest"
    by (auto simp: parse_literal_def split: if_splits)
  show "word_end buffer"
  proof (cases buffer)
    case (Cons c b)
    have "c \<noteq> CHR 0x22 \<and> \<not> lit_char c"
    proof (rule ccontr)
      assume "\<not> ?thesis"
      then have "length rest < length buffer"
        using l Cons
        by (auto dest!: parse_quote_shorter literal_loop_length split: if_splits)
      then show False
        using \<open>length buffer \<le> length rest\<close> by simp
    qed
    then show ?thesis
      using l w Cons by simp
  qed simp
qed

definition args_result :: "vars \<Rightarrow> script_argument list \<Rightarrow> script_argument list \<times> nat option \<times> string \<times> vars \<Rightarrow> bool" where
  "args_result vars args t = (case t of (args', pid, rest, vars') \<Rightarrow>
     grows vars vars' \<and> (\<forall>a\<in>set args'. a \<in> set args \<or> arg_ok (length vars') a) \<and> ref_ok (length vars') pid \<and>
     (rest = [] \<or> first_is rest CHR ''|''))"

lemma word_end_skipped: "word_end (skip_space s) \<Longrightarrow> skip_space s = [] \<or> first_is (skip_space s) CHR ''|''"
  using skip_space_first [of s] by (cases "skip_space s") (auto simp: issep_def)

lemma parse_arguments_ok:
  "parse_arguments vars buffer start args = Ok t \<Longrightarrow> args_result vars args t"
proof (induction vars buffer start args arbitrary: t rule: parse_arguments.induct)
  case (1 vars buffer start args)
  let ?b = "skip_space buffer"
  note step = 1(3) [unfolded parse_arguments.simps [of vars buffer] Let_def]
  consider (var) "first_is ?b CHR ''$''" | (pid) "\<not> first_is ?b CHR ''$''" "first_is ?b CHR ''@''"
    | (lit) "\<not> first_is ?b CHR ''$''" "\<not> first_is ?b CHR ''@''" by blast
  then show ?case
  proof cases
    case var
    then obtain v r vs where v: "parse_variable vars ?b start = Ok (v, r, vs)"
      and "parse_arguments vs r start (args @ [ARGUMENT_VARIABLE v]) = Ok t"
      using step by auto
    then have "args_result vs (args @ [ARGUMENT_VARIABLE v]) t"
      using 1(1) [OF refl var] by blast
    moreover have "grows vs vs' \<Longrightarrow> v < length vs'" for vs'
      using parse_variable_ok [OF v] by (auto dest: grows_length)
    ultimately show ?thesis
      using parse_variable_ok [OF v]
      by (fastforce simp: args_result_def split: prod.splits intro: grows_trans)
  next
    case pid
    then obtain v r vs where v: "parse_variable vars (skip_space (tl ?b)) start = Ok (v, r, vs)"
      and t: "t = (args, Some v, skip_space r, vs)" "word_end (skip_space r)"
      using step by (auto split: if_splits)
    then show ?thesis
      using parse_variable_ok [OF v] word_end_skipped [OF t(2)] by (simp add: args_result_def ref_ok_def)
  next
    case lit
    then obtain u where u: "parse_literal ?b start = Ok u"
      and u': "(case u of (n, l, r) \<Rightarrow> if n = 0 then Ok (args, None, ?b, vars)
         else parse_arguments vars r start (args @ [ARGUMENT_LITERAL l])) = Ok t"
      using step by (simp only: if_False and_then_Ok) blast
    obtain n l r where nlr: "u = (n, l, r)"
      by (cases u)
    then have l: "parse_literal ?b start = Ok (n, l, r)"
      using u by simp
    show ?thesis
    proof (cases "n = 0")
      case True
      then show ?thesis
        using u' nlr l word_end_skipped [of buffer] parse_literal_0 [of ?b start l r]
        by (auto simp: args_result_def ref_ok_def)
    next
      case False
      then have "parse_arguments vars r start (args @ [ARGUMENT_LITERAL l]) = Ok t"
        using u' nlr by simp
      then have "args_result vars (args @ [ARGUMENT_LITERAL l]) t"
        using 1(2) [OF refl lit l, of n "(l, r)" l r] False by blast
      then show ?thesis
        using parse_literal_ok [OF l] by (auto simp: args_result_def split: prod.splits)
    qed
  qed
qed

lemma parse_command_ok:
  assumes "parse_command vars buffer start = Ok (cmd, rest, vars')"
  shows "grows vars vars' \<and> command_ok (length vars') cmd \<and> (rest = [] \<or> first_is rest CHR ''|'')"
proof -
  obtain n l r args pid where "parse_literal buffer start = Ok (n, l, r)"
    and a: "parse_arguments vars r start [] = Ok (args, pid, rest, vars')"
    and c: "cmd = \<lparr>program = l, arguments = args, pid_to = pid\<rparr>"
    using assms by (auto simp: parse_command_def split: if_splits)
  then have "lit_ok l"
    using parse_literal_ok by blast
  then show ?thesis
    using parse_arguments_ok [OF a] by (auto simp: args_result_def command_ok_def c)
qed

lemma parse_commands_ok:
  assumes "parse_commands vars buffer start md cmds = Ok (md', cmds', vars')"
    and "md = GROUP_SINGLE \<longleftrightarrow> cmds = []" "\<forall>c\<in>set cmds. command_ok (length vars) c"
  shows "grows vars vars' \<and> mode_ok md' cmds' \<and> (\<forall>c\<in>set cmds'. command_ok (length vars') c)"
  using assms
proof (induction vars buffer start md cmds arbitrary: md' cmds' vars' rule: parse_commands.induct)
  case (1 vars buffer start md cmds)
  obtain cmd rest vs where c: "parse_command vars buffer start = Ok (cmd, rest, vs)"
    using 1(2) by (subst (asm) parse_commands.simps) auto
  note step = 1(2) [unfolded parse_commands.simps [of vars] c and_then.simps Let_def prod.case]
  have cs: "grows vars vs" "\<forall>x\<in>set (cmds @ [cmd]). command_ok (length vs) x"
    using parse_command_ok [OF c] 1(4) by (auto dest: grows_length intro: command_ok_mono)
  show ?case
  proof (cases "skip_space rest = []")
    case True
    then show ?thesis
      using step cs 1(3) by (auto simp: mode_ok_def)
  next
    case False
    then have bar: "first_is (skip_space rest) CHR ''|''"
      using step parse_command_ok [OF c] skip_space_first [of rest]
      by (cases rest) (auto simp: first_is_def split: list.splits if_splits)
    then obtain m r where m: "(if first_is (tl (skip_space rest)) CHR ''|'' then
             (if md = GROUP_SINGLE then Ok (GROUP_OR, drop 2 (skip_space rest))
              else if md \<noteq> GROUP_OR then Fail (mixed (skip_space rest) start)
              else Ok (md, drop 2 (skip_space rest)))
           else
             (if md = GROUP_SINGLE then Ok (GROUP_AND, tl (skip_space rest))
              else if md \<noteq> GROUP_AND then Fail (mixed (skip_space rest) start)
              else Ok (md, tl (skip_space rest)))) = Ok (m, r)"
      and ne: "skip_space r \<noteq> []"
      and rec: "parse_commands vs (skip_space r) start m (cmds @ [cmd]) = Ok (md', cmds', vars')"
      using step False by (auto split: if_splits)
    have "m \<noteq> GROUP_SINGLE"
      using m by (auto split: if_splits)
    then have "grows vs vars' \<and> mode_ok md' cmds' \<and> (\<forall>c\<in>set cmds'. command_ok (length vars') c)"
      using 1(1) [OF c refl refl refl refl False bar m refl refl ne rec] cs by simp
    then show ?thesis
      using cs grows_trans by blast
  qed
qed

lemma repeat_loop_ok: "repeat_loop n s = Ok (m, rest) \<Longrightarrow> 0 \<le> n \<Longrightarrow> n \<le> INT_MAX \<Longrightarrow> 0 \<le> m \<and> m \<le> INT_MAX"
  by (induction n s rule: repeat_loop.induct) (auto simp: digit_val_nonneg split: if_splits)

lemma parse_repeat_ok: "parse_repeat buffer start = Ok (n, rest) \<Longrightarrow> 0 \<le> n \<and> n \<le> INT_MAX"
  by (auto simp: parse_repeat_def Let_def INT_MAX_def dest!: repeat_loop_ok split: if_splits)

lemma parse_target_ok: "parse_target vars buffer start = Ok (t, rest, vars') \<Longrightarrow> grows vars vars' \<and> ref_ok (length vars') t"
  by (auto simp: parse_target_def Let_def ref_ok_def dest!: parse_variable_ok split: if_splits)

lemma parse_group_ok:
  assumes "parse_group vars buffer start = Ok (g, vars')"
  shows "group_ok (length vars') g \<and> grows vars vars'"
proof -
  obtain n b t b' vs md cmds where "parse_repeat (skip_space buffer) start = Ok (n, b)"
    and t: "parse_target vars b start = Ok (t, b', vs)"
    and c: "parse_commands vs b' start GROUP_SINGLE [] = Ok (md, cmds, vars')"
    and g: "g = \<lparr>mode = md, repeats = n, result_to = t, commands = cmds\<rparr>"
    using assms by (auto simp: parse_group_def split: if_splits)
  then have "0 \<le> n \<and> n \<le> INT_MAX"
    using parse_repeat_ok by blast
  then show ?thesis
    using parse_target_ok [OF t] parse_commands_ok [OF c] grows_trans
    by (auto simp: group_ok_def g dest: ref_ok_mono grows_length)
qed

section \<open>Where behaviour is undefined\<close>

lemma parse_quote_room:
  assumes "length lit + length buffer \<le> MAX_LINE_LENGTH"
  shows "parse_quote whole start buffer lit \<noteq> Undefined"
    and "parse_quote whole start buffer lit = Ok (lit', rest) \<Longrightarrow>
      length lit' + length rest < length lit + length buffer"
  using assms
  by (induction whole start buffer lit rule: parse_quote.induct)
    (auto simp: lit_put_def split: if_splits)

lemma literal_loop_room:
  assumes "length lit + length buffer \<le> MAX_LINE_LENGTH"
  shows "literal_loop whole start buffer lit \<noteq> Undefined"
    and "literal_loop whole start buffer lit = Ok (lit', rest) \<Longrightarrow>
      length lit' + length rest \<le> length lit + length buffer"
proof -
  have "literal_loop whole start buffer lit \<noteq> Undefined \<and>
    (\<forall>lit' rest. literal_loop whole start buffer lit = Ok (lit', rest) \<longrightarrow>
      length lit' + length rest \<le> length lit + length buffer)"
    using assms
  proof (induction whole start buffer lit rule: literal_loop.induct)
    case (2 whole start c buffer lit)
    consider "c = CHR 0x22" | "c \<noteq> CHR 0x22" "lit_char c" | "c \<noteq> CHR 0x22" "\<not> lit_char c"
      by blast
    then show ?case
    proof cases
      case 1
      have q: "parse_quote whole start buffer lit \<noteq> Undefined"
        using 2(3) by (intro parse_quote_room(1)) simp
      show ?thesis
      proof (cases "parse_quote whole start buffer lit")
        case (Ok t)
        obtain l r where t: "t = (l, r)" by (cases t)
        have "length l + length r < length lit + length buffer"
          using parse_quote_room(2) [of lit buffer whole start l r] Ok t 2(3) by simp
        then show ?thesis
          using 2(1) [OF 1 Ok t [symmetric]] 2(3) Ok t 1 by auto
      qed (use q 1 in auto)
    next
      case 2
      then show ?thesis
        using \<open>length lit + length (c # buffer) \<le> MAX_LINE_LENGTH\<close>
          "2.IH"(2) [OF 2(1,2), of "lit @ [c]"] by (auto simp: lit_put_def)
    qed auto
  qed auto
  then show "literal_loop whole start buffer lit \<noteq> Undefined"
    "literal_loop whole start buffer lit = Ok (lit', rest) \<Longrightarrow>
      length lit' + length rest \<le> length lit + length buffer"
    by blast+
qed

lemma parse_literal_safe:
  assumes "length buffer < MAX_LINE_LENGTH"
  shows "parse_literal buffer start \<noteq> Undefined"
proof (cases "literal_loop buffer start buffer []")
  case (Ok t)
  moreover have "length lit < MAX_LINE_LENGTH" if "t = (lit, rest)" for lit rest
    using literal_loop_room(2) [of "[]" buffer buffer start lit rest] assms Ok that by simp
  ultimately show ?thesis
    by (cases t) (auto simp: parse_literal_def and_then_Undefined split: if_splits)
qed (use literal_loop_room(1) [of "[]" buffer] assms in \<open>auto simp: parse_literal_def\<close>)

lemma parse_variable_safe: "parse_variable vars buffer start \<noteq> Undefined"
  by (auto simp: parse_variable_def Let_def split: option.splits)

lemma parse_arguments_safe:
  assumes "length buffer < MAX_LINE_LENGTH"
  shows "parse_arguments vars buffer start args \<noteq> Undefined"
  using assms
proof (induction vars buffer start args rule: parse_arguments.induct)
  case (1 vars buffer start args)
  let ?b = "skip_space buffer"
  have b: "length ?b < MAX_LINE_LENGTH"
    using 1(3) skip_space_length [of buffer] by simp
  consider (var) "first_is ?b CHR ''$''" | (pid) "\<not> first_is ?b CHR ''$''" "first_is ?b CHR ''@''"
    | (lit) "\<not> first_is ?b CHR ''$''" "\<not> first_is ?b CHR ''@''" by blast
  then show ?case
  proof cases
    case var
    have "parse_arguments vs r start (args @ [ARGUMENT_VARIABLE v]) \<noteq> Undefined"
      if v: "parse_variable vars ?b start = Ok (v, r, vs)" for v r vs
      using 1(1) [OF refl var v refl refl] parse_variable_length [OF v] b by simp
    then show ?thesis
      using var parse_variable_safe
      by (subst parse_arguments.simps) (auto simp: Let_def and_then_Undefined split: prod.splits)
  next
    case pid
    then show ?thesis
      using parse_variable_safe
      by (subst parse_arguments.simps) (auto simp: Let_def and_then_Undefined split: prod.splits if_splits)
  next
    case lit
    have "parse_arguments vars r start (args @ [ARGUMENT_LITERAL l]) \<noteq> Undefined"
      if l: "parse_literal ?b start = Ok (n, l, r)" and "n \<noteq> 0" for n l r
      using 1(2) [OF refl lit l refl refl that(2)] parse_literal_length [OF l] b by simp
    then show ?thesis
      using lit parse_literal_safe [OF b]
      by (subst parse_arguments.simps) (auto simp: Let_def and_then_Undefined split: prod.splits if_splits)
  qed
qed

lemma parse_command_safe:
  assumes "length buffer < MAX_LINE_LENGTH"
  shows "parse_command vars buffer start \<noteq> Undefined"
proof -
  have "parse_arguments vars r start [] \<noteq> Undefined" if "parse_literal buffer start = Ok (n, l, r)" for n l r
    using parse_literal_length [OF that] assms by (intro parse_arguments_safe) simp
  then show ?thesis
    using parse_literal_safe [OF assms]
    by (auto simp: parse_command_def and_then_Undefined split: prod.splits if_splits)
qed

lemma parse_commands_safe:
  assumes "length buffer < MAX_LINE_LENGTH"
  shows "parse_commands vars buffer start md cmds \<noteq> Undefined"
  using assms
proof (induction vars buffer start md cmds rule: parse_commands.induct)
  case (1 vars buffer start md cmds)
  show ?case
  proof (cases "parse_command vars buffer start")
    case (Ok t)
    obtain cmd rest vs where t: "t = (cmd, rest, vs)" by (cases t)
    have len: "length rest < MAX_LINE_LENGTH"
      using parse_command_length [of vars buffer start cmd rest vs] Ok t 1(2) by simp
    define combined where "combined = (if first_is (tl (skip_space rest)) CHR ''|'' then
             (if md = GROUP_SINGLE then Ok (GROUP_OR, drop 2 (skip_space rest))
              else if md \<noteq> GROUP_OR then Fail (mixed (skip_space rest) start)
              else Ok (md, drop 2 (skip_space rest)))
           else
             (if md = GROUP_SINGLE then Ok (GROUP_AND, tl (skip_space rest))
              else if md \<noteq> GROUP_AND then Fail (mixed (skip_space rest) start)
              else Ok (md, tl (skip_space rest))))"
    have comb: "combined \<noteq> Undefined"
      by (simp add: combined_def)
    have rec: "parse_commands vs (skip_space r) start m (cmds @ [cmd]) \<noteq> Undefined"
      if "skip_space rest \<noteq> []" "first_is (skip_space rest) CHR ''|''" "combined = Ok (m, r)" "skip_space r \<noteq> []" for m r
    proof -
      have "length r \<le> length (skip_space rest)"
        using that(3) by (auto simp: combined_def split: if_splits)
      then have "length (skip_space r) < MAX_LINE_LENGTH"
        using skip_space_length [of rest] skip_space_length [of r] len by simp
      then show ?thesis
        using 1(1) [OF Ok [unfolded t] refl refl refl refl that(1,2) that(3) [unfolded combined_def] refl refl that(4)] by simp
    qed
    have eq: "parse_commands vars buffer start md cmds =
      (if skip_space rest = [] then Ok (md, cmds @ [cmd], vs)
       else if first_is (skip_space rest) CHR ''|'' then
         and_then combined (\<lambda>(md, r). if skip_space r = []
           then Fail (in_line ''missing command after last combiner'' start)
           else parse_commands vs (skip_space r) start md (cmds @ [cmd]))
       else Fail (at_in (''expected a combiner '' @
          (if md = GROUP_AND then ''|'' else if md = GROUP_OR then ''||'' else ''| or ||'')) (skip_space rest) start))"
      unfolding parse_commands.simps [of vars] Ok t by (simp add: Let_def combined_def)
    show ?thesis
      unfolding eq using comb rec by (auto simp: and_then_Undefined split: prod.splits if_splits)
  qed (use parse_command_safe [OF 1(2), of vars start] in \<open>auto simp: parse_commands.simps\<close>)
qed

lemma parse_repeat_length: "parse_repeat buffer start = Ok (n, rest) \<Longrightarrow> length rest \<le> length buffer"
proof -
  have "length (drop 7 buffer) \<le> length buffer" by simp
  then show "parse_repeat buffer start = Ok (n, rest) \<Longrightarrow> length rest \<le> length buffer"
    using skip_space_length [of "drop 7 buffer"] skip_space_length [of "dropWhile isdigit (skip_space (drop 7 buffer))"]
      length_dropWhile_le [of isdigit "skip_space (drop 7 buffer)"]
    by (auto simp: parse_repeat_def Let_def repeat_loop_digits split: if_splits)
qed

lemma parse_target_length: "parse_target vars buffer start = Ok (t, rest, vars') \<Longrightarrow> length rest \<le> length buffer"
proof -
  assume p: "parse_target vars buffer start = Ok (t, rest, vars')"
  show "length rest \<le> length buffer"
  proof (cases "first_is buffer CHR ''$''")
    case True
    then obtain v r where v: "parse_variable vars buffer start = Ok (v, r, vars')" and "rest = skip_space (tl (skip_space r))"
      using p by (auto simp: parse_target_def Let_def split: if_splits)
    then show ?thesis
      using parse_variable_length [OF v] skip_space_length [of r] skip_space_length [of "tl (skip_space r)"] by simp
  qed (use p in \<open>simp add: parse_target_def\<close>)
qed

lemma parse_group_Undefined:
  assumes "length buffer < MAX_LINE_LENGTH"
  shows "parse_group vars buffer start = Undefined \<longleftrightarrow> parse_repeat (skip_space buffer) start = Undefined"
proof (cases "parse_repeat (skip_space buffer) start")
  case (Ok t)
  obtain n b where t: "t = (n, b)" by (cases t)
  have b: "length b < MAX_LINE_LENGTH"
    using parse_repeat_length [of "skip_space buffer" start n b] skip_space_length [of buffer] Ok t assms by simp
  have "parse_target vars b start \<noteq> Undefined"
    using parse_variable_safe by (auto simp: parse_target_def and_then_Undefined Let_def split: prod.splits if_splits)
  moreover have "parse_commands vs r start GROUP_SINGLE [] \<noteq> Undefined"
    if "parse_target vars b start = Ok (tg, r, vs)" for tg r vs
    using parse_target_length [OF that] b by (intro parse_commands_safe) simp
  ultimately show ?thesis
    by (auto simp: parse_group_def Ok t and_then_Undefined split: prod.splits if_splits)
qed (auto simp: parse_group_def)

lemma parse_repeat_Undefined:
  "parse_repeat buffer start = Undefined \<longleftrightarrow> buffer = ''repeat'' \<or>
    (take 7 buffer = ''repeat '' \<and> INT_MAX < read_digits 0 (takeWhile isdigit (skip_space (drop 7 buffer))))"
proof -
  let ?b = "skip_space (drop 7 buffer)"
  have "takeWhile isdigit ?b = [] \<longleftrightarrow> ?b = [] \<or> \<not> isdigit (hd ?b)"
    by (cases ?b) auto
  moreover have "read_digits 0 [] = 0"
    by (simp add: read_digits_def)
  moreover have "take 7 buffer = ''repeat '' \<Longrightarrow> buffer \<noteq> ''repeat''"
    by auto
  ultimately show ?thesis
    by (auto simp: parse_repeat_def strneq_def Let_def repeat_loop_digits INT_MAX_def and_then_Undefined split: if_splits)
qed

section \<open>The properties\<close>

definition plain_line :: "string \<Rightarrow> bool" where
  "plain_line l \<longleftrightarrow> (\<forall>c\<in>set l. c \<noteq> NUL \<and> c \<noteq> CHR 10 \<and> (of_char c :: nat) < 128) \<and>
     length l + 1 < MAX_LINE_LENGTH - 1"

lemma print_group_first:
  "commands g \<noteq> [] \<Longrightarrow> print_group vars g \<noteq> [] \<and> \<not> isspace (hd (print_group vars g)) \<and> hd (print_group vars g) \<noteq> CHR ''#''"
  using print_cmds_first [of "commands g" vars "mode g"]
  by (auto simp: print_group_def first_is_def isspace_def split: option.splits list.splits)

lemma parse_print_line:
  assumes "vars_ok vars" "group_ok (length vars) g" "plain_line (print_group vars g)"
  shows "parse_line vars (print_group vars g @ nl) = Ok (Some g, vars)"
proof -
  let ?l = "print_group vars g"
  have tw: "takeWhile (\<lambda>c. c \<noteq> NUL) (?l @ nl) = ?l @ nl"
    using assms(3) by (intro takeWhile_eq_all_conv [THEN iffD2]) (auto simp: plain_line_def nl_def NUL_def)
  have first: "?l \<noteq> []" "\<not> isspace (hd ?l)" "hd ?l \<noteq> CHR ''#''"
    using print_group_first [of g vars] assms(2) by (auto simp: group_ok_def mode_ok_def)
  then have sp: "skip_space ?l = ?l"
    by (cases ?l) auto
  have "\<not> (\<exists>c\<in>set (?l @ nl). 128 \<le> (of_char c :: nat))"
    using assms(3) by (auto simp: plain_line_def nl_def not_le)
  moreover have "\<not> MAX_LINE_LENGTH - 1 \<le> length (?l @ nl)"
    using assms(3) by (simp add: plain_line_def nl_def)
  moreover have "(?l @ nl) ! (length (?l @ nl) - 1) = CHR 10" "take (length (?l @ nl) - 1) (?l @ nl) = ?l"
    by (simp_all add: nl_def nth_append)
  ultimately show ?thesis
    unfolding parse_line_def tw Let_def using first sp parse_print_group_lemma [OF assms(1,2), of ?l]
    by simp
qed

lemma parse_print_lines:
  assumes "vars_ok vars" "\<forall>g\<in>set scr. group_ok (length vars) g \<and> plain_line (print_group vars g)"
  shows "parse_lines vars (print_script vars scr) acc = Ok (acc @ scr, vars)"
  using assms(2)
proof (induction scr arbitrary: acc)
  case (Cons g scr)
  let ?l = "print_group vars g"
  have ok: "group_ok (length vars) g" "plain_line ?l"
    using Cons.prems by auto
  obtain c s where cs: "?l @ nl @ print_script vars scr = c # s"
    by (cases "?l @ nl @ print_script vars scr") (auto simp: nl_def)
  have "fgets (MAX_LINE_LENGTH - 1) (?l @ CHR 10 # print_script vars scr) = (?l @ [CHR 10], print_script vars scr)"
    using ok(2) by (intro fgets_line) (auto simp: plain_line_def)
  then have "fgets (MAX_LINE_LENGTH - 1) (c # s) = (?l @ nl, print_script vars scr)"
    using cs by (simp add: nl_def)
  then have "parse_lines vars (c # s) acc = parse_lines vars (print_script vars scr) (acc @ [g])"
    using parse_print_line [OF assms(1) ok] by simp
  moreover have "print_script vars (g # scr) = c # s"
    using cs by (simp add: print_script_def)
  ultimately show ?case
    using Cons by simp
qed (simp add: print_script_def)

text \<open>C24. Printing and parsing are inverse: a script over an unambiguous variable table, printed by
  \<open>print_script\<close>, is read back by \<open>parse_script_file\<close> as the same groups, repeat counts, targets,
  combiners, arguments and process variables, with the variable table unchanged, provided that
  every printed line fits the line buffer and is plain ASCII.\<close>

theorem script_roundtrip:
  assumes "vars_ok vars" "\<forall>g\<in>set scr. group_ok (length vars) g \<and> plain_line (print_group vars g)"
  shows "parse_script_file vars file (Inr (print_script vars scr)) = Ok (scr, vars)"
  using parse_print_lines [OF assms, of "[]"] by (simp add: parse_script_file_def)

definition sample_vars :: vars where
  "sample_vars = [\<lparr>name = ''out'', value = ''0''\<rparr>, \<lparr>name = ''p1'', value = ''0''\<rparr>]"

definition sample_script :: script where
  "sample_script =
     [\<lparr>mode = GROUP_AND, repeats = 3, result_to = Some 0,
       commands = [\<lparr>program = ''/bin/ls'', arguments = [ARGUMENT_LITERAL ''a b'', ARGUMENT_VARIABLE 1], pid_to = None\<rparr>,
                   \<lparr>program = ''wc'', arguments = [], pid_to = Some 1\<rparr>]\<rparr>,
      \<lparr>mode = GROUP_SINGLE, repeats = 1, result_to = None,
       commands = [\<lparr>program = '''', arguments = [], pid_to = None\<rparr>]\<rparr>]"

theorem script_roundtrip_witness:
  "parse_script_file sample_vars ''f'' (Inr (print_script sample_vars sample_script)) = Ok (sample_script, sample_vars)"
proof (rule script_roundtrip)
  show "vars_ok sample_vars"
    by (auto simp: vars_ok_def sample_vars_def name_ok_def char_simps less_Suc_eq)
  have "group_ok (length sample_vars) g" if "g \<in> set sample_script" for g
    using that by (auto simp: sample_script_def sample_vars_def group_ok_def mode_ok_def command_ok_def
        lit_ok_def ref_ok_def MAX_LINE_LENGTH_def INT_MAX_def)
  moreover have "\<forall>g\<in>set sample_script. plain_line (print_group sample_vars g)"
    by code_simp
  ultimately show "\<forall>g\<in>set sample_script. group_ok (length sample_vars) g \<and> plain_line (print_group sample_vars g)"
    by blast
qed

text \<open>C25. What the parser accepts is well formed: the repeat count is an \<open>int\<close>, there is at least
  one command, the mode is single exactly for one command (so a group never mixes combiners),
  literals contain no quote and fit their buffer, every variable refers into the table, and the
  table only grew, by well-formed names with value \<open>0\<close>.\<close>

theorem parse_group_well_formed:
  assumes "parse_group vars buffer start = Ok (g, vars')"
  shows "group_ok (length vars') g \<and> grows vars vars'"
  by (rule parse_group_ok [OF assms])

theorem parse_group_well_formed_witness:
  "group_ok 1 \<lparr>mode = GROUP_OR, repeats = 1, result_to = None, commands =
     [\<lparr>program = ''a'', arguments = [], pid_to = Some 0\<rparr>, \<lparr>program = ''b'', arguments = [], pid_to = None\<rparr>]\<rparr>"
  using parse_group_well_formed [of "[]" "''a @$p || b''" "''a @$p || b''"
    "\<lparr>mode = GROUP_OR, repeats = 1, result_to = None, commands =
     [\<lparr>program = ''a'', arguments = [], pid_to = Some 0\<rparr>, \<lparr>program = ''b'', arguments = [], pid_to = None\<rparr>]\<rparr>"
    "[\<lparr>name = ''p'', value = ''0''\<rparr>]"]
  by (simp add: parse_group_def parse_repeat_def parse_target_def parse_commands.simps parse_command_def
      parse_arguments.simps parse_literal_def parse_variable_def strneq_def lit_char_def char_simps lit_put_def
      MAX_LINE_LENGTH_def skip_space_def first_is_def Let_def word_end_def)

text \<open>C26. No line that fits the buffer makes the parser overrun \<open>lit_buffer\<close> or leave a table: the
  only undefined behaviour is a repeat count beyond \<open>int\<close>, and the error message for a bare
  \<open>repeat\<close>, whose format string has a conversion without an argument.\<close>

theorem parse_group_undefined_iff:
  assumes "length buffer < MAX_LINE_LENGTH"
  shows "parse_group vars buffer start = Undefined \<longleftrightarrow>
    (let b = skip_space buffer in b = ''repeat'' \<or>
       (take 7 b = ''repeat '' \<and> INT_MAX < read_digits 0 (takeWhile isdigit (skip_space (drop 7 b)))))"
  unfolding parse_group_Undefined [OF assms] parse_repeat_Undefined Let_def ..

theorem parse_group_undefined_iff_witness:
  "parse_group [] '' repeat'' '' repeat'' = Undefined"
  by (rule parse_group_undefined_iff [THEN iffD2]) (simp_all add: MAX_LINE_LENGTH_def isspace_def)

text \<open>A command always ends at the end of the line or in front of a combiner, so the branch of
  \<open>parse_group\<close> that reports a missing combiner is never taken.\<close>

lemma command_ends_at_combiner:
  assumes "parse_command vars buffer start = Ok (cmd, rest, vars')"
  shows "skip_space rest = [] \<or> first_is (skip_space rest) CHR ''|''"
  using parse_command_ok [OF assms] by (cases rest) auto

section \<open>A name that is a prefix of an older one\<close>

text \<open>\<open>parse_variable\<close> compares only as many characters as the new name has, so after \<open>$abc\<close> the
  name \<open>$ab\<close> does not create a variable: it denotes \<open>$abc\<close>.\<close>

theorem parse_variable_prefix:
  "parse_variable [\<lparr>name = ''abc'', value = ''0''\<rparr>] ''$ab = ls'' start =
   Ok (0, '' = ls'', [\<lparr>name = ''abc'', value = ''0''\<rparr>])"
  by (simp add: parse_variable_def Let_def char_simps strneq_def)

end
