(* ===== verification/DList.thy ===== *)
theory DList
  imports Main
begin

text \<open>
  Doubly linked lists, as the program builds them from a head pointer and the \<open>prev\<close> and \<open>next\<close>
  fields of its nodes. The two functions read the fields of the node with a given reference;
  pushing at the front and unlinking a node are the field updates the code makes.
\<close>

fun dll :: "('r \<Rightarrow> 'r option) \<Rightarrow> ('r \<Rightarrow> 'r option) \<Rightarrow> 'r option \<Rightarrow> 'r option \<Rightarrow> 'r list \<Rightarrow> bool" where
  "dll pv nx p h [] \<longleftrightarrow> h = None"
| "dll pv nx p h (r # rs) \<longleftrightarrow> h = Some r \<and> pv r = p \<and> dll pv nx (Some r) (nx r) rs"

definition first :: "'r list \<Rightarrow> 'r option" where
  "first rs = (case rs of [] \<Rightarrow> None | r # _ \<Rightarrow> Some r)"

lemma first_simps [simp]: "first [] = None" "first (r # rs) = Some r"
  by (simp_all add: first_def)

lemma first_eq_None [simp]: "first rs = None \<longleftrightarrow> rs = []"
  by (cases rs) auto

lemma dll_head: "dll pv nx p h rs \<Longrightarrow> h = first rs"
  by (cases rs) auto

lemma dll_cong:
  "(\<And>r. r \<in> set rs \<Longrightarrow> pv r = pv' r \<and> nx r = nx' r) \<Longrightarrow> dll pv nx p h rs = dll pv' nx' p h rs"
  by (induction rs arbitrary: p h) auto

lemma dll_push:
  assumes "dll pv nx None h rs" "distinct (r # rs)"
  shows "dll ((case h of None \<Rightarrow> pv | Some f \<Rightarrow> pv(f := Some r))(r := None)) (nx(r := h)) None (Some r) (r # rs)"
proof (cases rs)
  case Nil
  then show ?thesis using assms by simp
next
  case (Cons f fs)
  then have h: "h = Some f" and fs: "dll pv nx (Some f) (nx f) fs" and "r \<noteq> f" "r \<notin> set fs" "f \<notin> set fs"
    using assms by auto
  moreover have "dll ((pv(f := Some r))(r := None)) (nx(r := h)) (Some f) (nx f) fs = dll pv nx (Some f) (nx f) fs"
    using calculation by (intro dll_cong) auto
  ultimately show ?thesis
    using Cons by simp
qed

lemma dll_node:
  assumes "dll pv nx p h (xs @ r # ys)"
  shows "pv r = (if xs = [] then p else Some (last xs))" "nx r = first ys"
  using assms
  by (induction xs arbitrary: p h) (auto dest: dll_head split: if_splits)

text \<open>Unlinking: the neighbours of \<open>r\<close> are joined, and the head moves when \<open>r\<close> was first.\<close>

lemma dll_remove:
  assumes "dll pv nx p h (xs @ r # ys)" "distinct (xs @ r # ys)"
  shows "dll (case nx r of None \<Rightarrow> pv | Some n \<Rightarrow> pv(n := if xs = [] then p else Some (last xs)))
    (if xs = [] then nx else nx(last xs := nx r)) p (if xs = [] then nx r else h) (xs @ ys)"
  using assms
proof (induction xs arbitrary: p h)
  case Nil
  then show ?case
  proof (cases ys)
    case (Cons y zs)
    have "dll (pv(y := p)) nx (Some y) (nx y) zs = dll pv nx (Some y) (nx y) zs"
      using Nil Cons by (intro dll_cong) auto
    then show ?thesis
      using Nil Cons by (simp add: fun_upd_def)
  qed simp
next
  case (Cons x xs)
  have d: "dll pv nx (Some x) (nx x) (xs @ r # ys)" and x: "h = Some x" "pv x = p"
    using Cons.prems(1) by auto
  let ?pv = "case nx r of None \<Rightarrow> pv | Some n \<Rightarrow> pv(n := if xs = [] then Some x else Some (last xs))"
  have IH: "dll ?pv (if xs = [] then nx else nx(last xs := nx r)) (Some x) (if xs = [] then nx r else nx x) (xs @ ys)"
    using Cons.IH [OF d] Cons.prems(2) by simp
  have nr: "nx r = first ys"
    using dll_node(2) [OF d] .
  then have pvx: "?pv x = p"
    using x Cons.prems(2) by (cases ys) auto
  show ?case
  proof (cases "xs = []")
    case True
    have "dll ?pv nx (Some x) (nx r) ys = dll ?pv (nx(x := nx r)) (Some x) (nx r) ys"
      using Cons.prems(2) by (intro dll_cong) auto
    then show ?thesis
      using IH True x pvx by (cases "nx r") (simp_all add: fun_upd_def)
  next
    case False
    have "(nx(last xs := nx r)) x = nx x"
      using Cons.prems(2) False last_in_set [of xs] by auto
    then show ?thesis
      using IH x pvx False by (cases "nx r") (simp_all del: fun_upd_apply)
  qed
qed

end
