(* ===== verification/Pagemap.thy ===== *)
theory Pagemap
  imports DList "HOL-Library.Word" "HOL-Library.Monad_Syntax"
begin

text \<open>
  The page table of the malloc laboratory's memory model, \<open>Malloclab/pagemap.c\<close>: a three-level
  table over 64 bit addresses whose entries are also the nodes of a doubly linked list of the
  mapped pages. Addresses are integers; address 0 is \<open>NULL\<close>. A pointer to an entry is the triple
  of its indices in the three levels. \<open>None\<close> is undefined behaviour; a call that ends in \<open>abort\<close>
  returns its message.
\<close>

definition LOG_APAGE_SIZE :: nat where
  "LOG_APAGE_SIZE = 12"

definition APAGE_SIZE :: int where
  "APAGE_SIZE = 4096"

section \<open>The table\<close>

datatype page_ref = Page_ref (level1: int) (level2: int) (level3: int)

record mpage =
  addr :: int
  prev :: "page_ref option"
  "next" :: "page_ref option"

type_synonym table3 = "int \<Rightarrow> mpage"
type_synonym table2 = "int \<Rightarrow> table3 option"
type_synonym table1 = "int \<Rightarrow> table2 option"

record pagemap_t =
  all_mapped_pages :: "page_ref option"
  page_maps1 :: "table1 option"

definition pagemap0 :: pagemap_t where
  "pagemap0 = \<lparr>all_mapped_pages = None, page_maps1 = None\<rparr>"

definition LEVEL1_BITS :: "int \<Rightarrow> int" where
  "LEVEL1_BITS p = drop_bit 48 p"

definition LEVEL2_BITS :: "int \<Rightarrow> int" where
  "LEVEL2_BITS p = drop_bit 32 p mod 2 ^ 16"

definition LEVEL3_BITS :: "int \<Rightarrow> int" where
  "LEVEL3_BITS p = drop_bit LOG_APAGE_SIZE p mod 2 ^ (32 - LOG_APAGE_SIZE)"

definition page_ref :: "int \<Rightarrow> page_ref" where
  "page_ref p = Page_ref (LEVEL1_BITS p) (LEVEL2_BITS p) (LEVEL3_BITS p)"

text \<open>What \<open>calloc\<close> leaves in an entry.\<close>

definition zero_page :: mpage where
  "zero_page = \<lparr>addr = 0, prev = None, next = None\<rparr>"

text \<open>Creating the tables on the way to the entry of \<open>p\<close>.\<close>

definition make_tables :: "int \<Rightarrow> pagemap_t \<Rightarrow> pagemap_t" where
  "make_tables p pm =
    (let t1 = (case page_maps1 pm of None \<Rightarrow> (\<lambda>_. None) | Some t1 \<Rightarrow> t1);
         pos1 = LEVEL1_BITS p;
         t2 = (case t1 pos1 of None \<Rightarrow> (\<lambda>_. None) | Some t2 \<Rightarrow> t2);
         pos2 = LEVEL2_BITS p;
         t3 = (case t2 pos2 of None \<Rightarrow> (\<lambda>_. zero_page) | Some t3 \<Rightarrow> t3)
     in pm\<lparr>page_maps1 := Some (t1(pos1 := Some (t2(pos2 := Some t3))))\<rparr>)"

definition get_page :: "pagemap_t \<Rightarrow> page_ref \<Rightarrow> mpage option" where
  "get_page pm r = (case r of Page_ref i j k \<Rightarrow>
     Option.bind (page_maps1 pm) (\<lambda>t1. Option.bind (t1 i) (\<lambda>t2. map_option (\<lambda>t3. t3 k) (t2 j))))"

definition put_page :: "page_ref \<Rightarrow> mpage \<Rightarrow> pagemap_t \<Rightarrow> pagemap_t option" where
  "put_page r n pm = (case r of Page_ref i j k \<Rightarrow>
     Option.bind (page_maps1 pm) (\<lambda>t1. Option.bind (t1 i) (\<lambda>t2. Option.bind (t2 j) (\<lambda>t3.
       Some (pm\<lparr>page_maps1 := Some (t1(i := Some (t2(j := Some (t3(k := n))))))\<rparr>)))))"

text \<open>\<open>page->field = e\<close>\<close>

definition upd_page :: "page_ref \<Rightarrow> (mpage \<Rightarrow> mpage) \<Rightarrow> pagemap_t \<Rightarrow> pagemap_t option" where
  "upd_page r f pm = Option.bind (get_page pm r) (\<lambda>n. put_page r (f n) pm)"

definition pagemap_modify :: "int \<Rightarrow> bool \<Rightarrow> pagemap_t \<Rightarrow> (string + pagemap_t) option" where
  "pagemap_modify p mapped pm =
    (let pm = make_tables p pm; page = page_ref p in
     do {
       n \<leftarrow> get_page pm page;
       if mapped then
         if addr n \<noteq> 0 then Some (Inl ''internal error: page is already mapped'')
         else if Some page = all_mapped_pages pm then Some (Inl [])
         else do {
           pm \<leftarrow> upd_page page (\<lambda>n. n\<lparr>addr := p\<rparr>) pm;
           pm \<leftarrow> upd_page page (\<lambda>n. n\<lparr>prev := None\<rparr>) pm;
           pm \<leftarrow> upd_page page (\<lambda>n. n\<lparr>next := all_mapped_pages pm\<rparr>) pm;
           pm \<leftarrow> (case all_mapped_pages pm of
                    None \<Rightarrow> Some pm
                  | Some f \<Rightarrow> upd_page f (\<lambda>n. n\<lparr>prev := Some page\<rparr>) pm);
           Some (Inr (pm\<lparr>all_mapped_pages := Some page\<rparr>))
         }
       else
         if addr n = 0 then Some (Inl ''internal error: not currently mapped'')
         else do {
           pm \<leftarrow> upd_page page (\<lambda>n. n\<lparr>addr := 0\<rparr>) pm;
           n \<leftarrow> get_page pm page;
           pm \<leftarrow> (case prev n of
                    Some q \<Rightarrow> upd_page q (\<lambda>m. m\<lparr>next := next n\<rparr>) pm
                  | None \<Rightarrow> Some (pm\<lparr>all_mapped_pages := next n\<rparr>));
           n \<leftarrow> get_page pm page;
           pm \<leftarrow> (case next n of
                    Some q \<Rightarrow> upd_page q (\<lambda>m. m\<lparr>prev := prev n\<rparr>) pm
                  | None \<Rightarrow> Some pm);
           Some (Inr pm)
         }
     })"

definition pagemap_is_mapped :: "int \<Rightarrow> pagemap_t \<Rightarrow> bool" where
  "pagemap_is_mapped p pm =
    (case page_maps1 pm of None \<Rightarrow> False
     | Some t1 \<Rightarrow> (case t1 (LEVEL1_BITS p) of None \<Rightarrow> False
       | Some t2 \<Rightarrow> (case t2 (LEVEL2_BITS p) of None \<Rightarrow> False
         | Some t3 \<Rightarrow> addr (t3 (LEVEL3_BITS p)) \<noteq> 0)))"

text \<open>\<open>pagemap_for_each\<close>: the callback changes a state of its own. The loop is bounded by fuel.\<close>

fun for_each_loop ::
    "nat \<Rightarrow> (int \<Rightarrow> 's \<Rightarrow> 's) \<Rightarrow> page_ref option \<Rightarrow> pagemap_t \<Rightarrow> 's \<Rightarrow> (string + pagemap_t \<times> 's) option" where
  "for_each_loop fuel f None pm s = Some (Inr (pm, s))"
| "for_each_loop 0 f (Some p) pm s = None"
| "for_each_loop (Suc fuel) f (Some p) pm s =
    do {
      n \<leftarrow> get_page pm p;
      r \<leftarrow> pagemap_modify (addr n) False pm;
      (case r of Inl e \<Rightarrow> Some (Inl e) | Inr pm \<Rightarrow> for_each_loop fuel f (next n) pm (f (addr n) s))
    }"

definition pagemap_for_each ::
    "nat \<Rightarrow> (int \<Rightarrow> 's \<Rightarrow> 's) \<Rightarrow> pagemap_t \<Rightarrow> 's \<Rightarrow> (string + pagemap_t \<times> 's) option" where
  "pagemap_for_each fuel f pm s =
    map_option (\<lambda>r. case r of Inl e \<Rightarrow> Inl e | Inr (pm, s) \<Rightarrow> Inr (pm\<lparr>all_mapped_pages := None\<rparr>, s))
      (for_each_loop fuel f (all_mapped_pages pm) pm s)"

section \<open>The list of mapped pages\<close>

lemma page_ref_eq_iff:
  assumes "0 \<le> p" "0 \<le> q"
  shows "page_ref p = page_ref q \<longleftrightarrow> p div APAGE_SIZE = q div APAGE_SIZE"
proof -
  have split: "x div 2 ^ 12 = (x div 2 ^ 48) * 2 ^ 36 + (x div 2 ^ 32 mod 2 ^ 16) * 2 ^ 20 + x div 2 ^ 12 mod 2 ^ 20"
    for x :: int
  proof -
    have "x div 2 ^ 12 = x div 2 ^ 12 div 2 ^ 20 * 2 ^ 20 + x div 2 ^ 12 mod 2 ^ 20"
      by simp
    also have "x div 2 ^ 12 div 2 ^ 20 = x div 2 ^ 32"
      by (simp add: zdiv_zmult2_eq [symmetric])
    also have "x div 2 ^ 32 = x div 2 ^ 32 div 2 ^ 16 * 2 ^ 16 + x div 2 ^ 32 mod 2 ^ 16"
      by simp
    also have "x div 2 ^ 32 div 2 ^ 16 = x div 2 ^ 48"
      by (simp add: zdiv_zmult2_eq [symmetric])
    finally show ?thesis by simp
  qed
  have bk: "x div 2 ^ 48 = x div 2 ^ 12 div 2 ^ 36" "x div 2 ^ 32 = x div 2 ^ 12 div 2 ^ 20" for x :: int
    by (simp_all add: zdiv_zmult2_eq [symmetric])
  have fields: "page_ref x = Page_ref (x div 2 ^ 48) (x div 2 ^ 32 mod 2 ^ 16) (x div 2 ^ 12 mod 2 ^ 20)" for x
    by (simp add: page_ref_def LEVEL1_BITS_def LEVEL2_BITS_def LEVEL3_BITS_def LOG_APAGE_SIZE_def drop_bit_eq_div)
  have "p div 2 ^ 12 = q div 2 ^ 12" if "page_ref p = page_ref q"
    using that split [of p] split [of q] unfolding fields page_ref.inject by presburger
  moreover have "page_ref p = page_ref q" if "p div 2 ^ 12 = q div 2 ^ 12"
    using that bk [of p] bk [of q] unfolding fields page_ref.inject by presburger
  ultimately show ?thesis
    by (auto simp: APAGE_SIZE_def)
qed

definition pages_ok :: "(page_ref \<Rightarrow> mpage option) \<Rightarrow> page_ref option \<Rightarrow> int list \<Rightarrow> bool" where
  "pages_ok g h L \<longleftrightarrow> distinct (map page_ref L) \<and>
     dll (\<lambda>r. prev (the (g r))) (\<lambda>r. next (the (g r))) None h (map page_ref L) \<and>
     (\<forall>a\<in>set L. a \<noteq> 0 \<and> (\<exists>n. g (page_ref a) = Some n \<and> addr n = a)) \<and>
     (\<forall>r n. g r = Some n \<longrightarrow> addr n \<noteq> 0 \<longrightarrow> r \<in> page_ref ` set L)"

definition pagemap_ok :: "pagemap_t \<Rightarrow> int list \<Rightarrow> bool" where
  "pagemap_ok pm L \<longleftrightarrow> pages_ok (get_page pm) (all_mapped_pages pm) L"

lemma pagemap0_ok: "pagemap_ok pagemap0 []"
  by (simp add: pagemap_ok_def pages_ok_def pagemap0_def get_page_def split: page_ref.splits)

lemma get_page_Some:
  "get_page pm (Page_ref i j k) = Some n \<longleftrightarrow>
   (\<exists>t1 t2 t3. page_maps1 pm = Some t1 \<and> t1 i = Some t2 \<and> t2 j = Some t3 \<and> n = t3 k)"
  by (auto simp: get_page_def bind_eq_Some_conv)

lemma get_page_make:
  "get_page (make_tables p pm) r =
   (case get_page pm r of Some n \<Rightarrow> Some n
    | None \<Rightarrow> if level1 r = LEVEL1_BITS p \<and> level2 r = LEVEL2_BITS p then Some zero_page else None)"
proof (cases r)
  case (Page_ref i j k)
  show ?thesis
  proof (cases "page_maps1 pm")
    case None
    then show ?thesis by (simp add: Page_ref make_tables_def get_page_def Let_def)
  next
    case (Some t1)
    then show ?thesis
      by (cases "t1 i"; cases "t1 (LEVEL1_BITS p)")
        (auto simp: Page_ref make_tables_def get_page_def Let_def map_option_case split: option.splits)
  qed
qed

lemma make_tables_get:
  "get_page (make_tables p pm) (page_ref p) = Some (case get_page pm (page_ref p) of None \<Rightarrow> zero_page | Some n \<Rightarrow> n)"
  "get_page pm r = Some n \<Longrightarrow> get_page (make_tables p pm) r = Some n"
  "get_page (make_tables p pm) r = Some n \<Longrightarrow> get_page pm r = Some n \<or> n = zero_page"
  "all_mapped_pages (make_tables p pm) = all_mapped_pages pm"
  by (auto simp: get_page_make page_ref_def split: option.splits if_splits) (simp add: make_tables_def Let_def)

lemma pages_ok_make:
  assumes "pagemap_ok pm L"
  shows "pagemap_ok (make_tables p pm) L"
proof -
  have old: "get_page (make_tables p pm) (page_ref a) = get_page pm (page_ref a)" if "a \<in> set L" for a
    using assms that by (auto simp: pagemap_ok_def pages_ok_def get_page_make)
  then have "dll (\<lambda>r. prev (the (get_page (make_tables p pm) r))) (\<lambda>r. next (the (get_page (make_tables p pm) r))) None
     (all_mapped_pages pm) (map page_ref L)"
    using assms unfolding pagemap_ok_def pages_ok_def
    by (subst dll_cong [where pv' = "\<lambda>r. prev (the (get_page pm r))" and nx' = "\<lambda>r. next (the (get_page pm r))"])
      (auto simp: old)
  moreover have "r \<in> page_ref ` set L" if "get_page (make_tables p pm) r = Some n" "addr n \<noteq> 0" for r n
    using make_tables_get(3) [OF that(1)] that(2) assms by (auto simp: pagemap_ok_def pages_ok_def zero_page_def)
  ultimately show ?thesis
    using assms old by (simp add: pagemap_ok_def pages_ok_def make_tables_get(4))
qed

lemma put_page_get:
  "get_page pm r = Some n0 \<Longrightarrow>
   \<exists>pm'. put_page r n pm = Some pm' \<and> get_page pm' = (get_page pm)(r := Some n) \<and>
     all_mapped_pages pm' = all_mapped_pages pm"
proof -
  assume g: "get_page pm r = Some n0"
  obtain i j k where r: "r = Page_ref i j k"
    by (cases r)
  obtain t1 t2 t3 where t: "page_maps1 pm = Some t1" "t1 i = Some t2" "t2 j = Some t3"
    using g unfolding r get_page_Some by blast
  have "get_page (pm\<lparr>page_maps1 := Some (t1(i := Some (t2(j := Some (t3(k := n))))))\<rparr>) x = ((get_page pm)(r := Some n)) x" for x
    using t by (cases x) (auto simp: r get_page_def)
  then show ?thesis
    using t by (auto simp: r put_page_def)
qed

lemma upd_page_get:
  assumes "get_page pm r = Some n"
  obtains pm' where "upd_page r f pm = Some pm'" "get_page pm' = (get_page pm)(r := Some (f n))"
    "all_mapped_pages pm' = all_mapped_pages pm"
  using put_page_get [OF assms, of "f n"] assms by (auto simp: upd_page_def)

definition pushed :: "(page_ref \<Rightarrow> mpage option) \<Rightarrow> page_ref option \<Rightarrow> int \<Rightarrow> page_ref \<Rightarrow> mpage option" where
  "pushed g h p =
    (let g = g(page_ref p := Some \<lparr>addr = p, prev = None, next = h\<rparr>)
     in case h of None \<Rightarrow> g | Some f \<Rightarrow> g(f := Some ((the (g f))\<lparr>prev := Some (page_ref p)\<rparr>)))"

lemma pages_ok_push:
  assumes ok: "pages_ok g h L" and new: "page_ref p \<notin> page_ref ` set L" "p \<noteq> 0"
  shows "pages_ok (pushed g h p) (Some (page_ref p)) (p # L)"
proof -
  let ?pv = "\<lambda>r. prev (the (g r))" and ?nx = "\<lambda>r. next (the (g r))"
  have dll: "dll ?pv ?nx None h (map page_ref L)" and dist: "distinct (page_ref p # map page_ref L)"
    using ok new by (auto simp: pages_ok_def)
  have h: "h = first (map page_ref L)"
    using dll by (rule dll_head)
  have hp: "h \<noteq> Some (page_ref p)"
    using h new(1) by (cases L) auto
  have fields: "(\<lambda>r. prev (the (pushed g h p r))) =
      (case h of None \<Rightarrow> ?pv | Some f \<Rightarrow> ?pv(f := Some (page_ref p)))(page_ref p := None)"
    "(\<lambda>r. next (the (pushed g h p r))) = ?nx(page_ref p := h)"
    using hp by (auto simp: pushed_def Let_def split: option.splits if_splits intro!: ext)
  have "dll (\<lambda>r. prev (the (pushed g h p r))) (\<lambda>r. next (the (pushed g h p r))) None (Some (page_ref p))
      (page_ref p # map page_ref L)"
    unfolding fields by (rule dll_push [OF dll dist])
  moreover have "\<exists>n. pushed g h p (page_ref a) = Some n \<and> addr n = a" if "a \<in> set (p # L)" for a
  proof (cases "a = p")
    case True
    then show ?thesis
      using hp by (cases h) (auto simp: pushed_def)
  next
    case False
    then have "a \<in> set L" "page_ref a \<noteq> page_ref p"
      using that new(1) by (simp, metis image_eqI set_ConsD that)
    then obtain m where "g (page_ref a) = Some m" "addr m = a"
      using ok by (auto simp: pages_ok_def)
    then show ?thesis
      using \<open>page_ref a \<noteq> page_ref p\<close> hp by (cases h) (auto simp: pushed_def)
  qed
  moreover have "r \<in> page_ref ` set (p # L)" if "pushed g h p r = Some n" "addr n \<noteq> 0" for r n
  proof -
    have "h = Some r \<Longrightarrow> r \<in> page_ref ` set L"
      using h by (cases L) auto
    then show ?thesis
      using that ok by (auto simp: pushed_def pages_ok_def Let_def split: option.splits if_splits)
  qed
  ultimately show ?thesis
    using dist new(2) ok by (auto simp: pages_ok_def)
qed

definition unlinked :: "(page_ref \<Rightarrow> mpage option) \<Rightarrow> page_ref \<Rightarrow> page_ref \<Rightarrow> mpage option" where
  "unlinked g r =
    (let g = g(r := Some ((the (g r))\<lparr>addr := 0\<rparr>));
         g = (case prev (the (g r)) of None \<Rightarrow> g
              | Some q \<Rightarrow> g(q := Some ((the (g q))\<lparr>next := next (the (g r))\<rparr>)))
     in case next (the (g r)) of None \<Rightarrow> g
        | Some q \<Rightarrow> g(q := Some ((the (g q))\<lparr>prev := prev (the (g r))\<rparr>)))"

lemma pages_ok_remove:
  assumes ok: "pages_ok g h (xs @ a # ys)"
  shows "pages_ok (unlinked g (page_ref a))
    (if prev (the (g (page_ref a))) = None then next (the (g (page_ref a))) else h) (xs @ ys)"
proof -
  let ?pv = "\<lambda>r. prev (the (g r))" and ?nx = "\<lambda>r. next (the (g r))" and ?r = "page_ref a"
  have dll: "dll ?pv ?nx None h (map page_ref xs @ ?r # map page_ref ys)"
    and dist: "distinct (map page_ref xs @ ?r # map page_ref ys)"
    using ok by (auto simp: pages_ok_def)
  have node: "?pv ?r = (if xs = [] then None else Some (page_ref (last xs)))" "?nx ?r = first (map page_ref ys)"
    using dll_node [OF dll] by (auto simp: last_map)
  have ne: "xs \<noteq> [] \<Longrightarrow> page_ref (last xs) \<noteq> ?r" "ys \<noteq> [] \<Longrightarrow> page_ref (hd ys) \<noteq> ?r"
    "xs \<noteq> [] \<Longrightarrow> ys \<noteq> [] \<Longrightarrow> page_ref (last xs) \<noteq> page_ref (hd ys)"
    using dist by (auto, metis image_eqI last_in_set, metis image_eqI list.set_sel(1),
      metis disjoint_iff image_eqI last_in_set list.set_sel(1))
  have fields: "(\<lambda>x. prev (the (unlinked g ?r x))) =
      (case ?nx ?r of None \<Rightarrow> ?pv
       | Some n \<Rightarrow> ?pv(n := if map page_ref xs = [] then None else Some (last (map page_ref xs))))"
    "(\<lambda>x. next (the (unlinked g ?r x))) =
      (if map page_ref xs = [] then ?nx else ?nx(last (map page_ref xs) := ?nx ?r))"
    using node ne by (cases xs; cases ys; auto simp: unlinked_def Let_def last_map intro!: ext)+
  have "dll (\<lambda>x. prev (the (unlinked g ?r x))) (\<lambda>x. next (the (unlinked g ?r x))) None
      (if map page_ref xs = [] then ?nx ?r else h) (map page_ref xs @ map page_ref ys)"
    unfolding fields by (rule dll_remove [OF dll dist])
  moreover have "(if map page_ref xs = [] then ?nx ?r else h) = (if ?pv ?r = None then ?nx ?r else h)"
    using node by simp
  moreover have "\<exists>n. unlinked g ?r (page_ref b) = Some n \<and> addr n = b" if "b \<in> set (xs @ ys)" for b
  proof -
    have "page_ref b \<noteq> ?r"
      using that dist by (metis Un_iff distinct.simps(2) distinct_append disjoint_iff image_eqI list.set_intros(1) set_append set_map)
    moreover have "\<exists>n. g (page_ref b) = Some n \<and> addr n = b"
      using that ok by (auto simp: pages_ok_def)
    ultimately show ?thesis
      using node ne by (cases xs; cases ys) (auto simp: unlinked_def Let_def last_map)
  qed
  moreover have "x \<in> page_ref ` set (xs @ ys)" if "unlinked g ?r x = Some n" "addr n \<noteq> 0" for x n
  proof -
    have ends: "xs \<noteq> [] \<Longrightarrow> page_ref (last xs) \<in> page_ref ` set (xs @ ys)"
      "ys \<noteq> [] \<Longrightarrow> page_ref (hd ys) \<in> page_ref ` set (xs @ ys)"
      by auto
    have "x \<noteq> ?r"
      using that node ne by (cases xs; cases ys) (auto simp: unlinked_def Let_def last_map)
    moreover have "g x = Some n \<Longrightarrow> x \<in> page_ref ` set (xs @ a # ys)"
      using that(2) ok by (auto simp: pages_ok_def)
    ultimately show ?thesis
      using that node ne ends by (cases xs; cases ys) (auto simp: unlinked_def Let_def last_map split: if_splits)
  qed
  ultimately show ?thesis
    using dist ok by (auto simp: pages_ok_def)
qed

section \<open>The operations\<close>

lemma pagemap_modify_map:
  assumes ok: "pagemap_ok pm L" and new: "page_ref p \<notin> page_ref ` set L" "p \<noteq> 0"
  shows "\<exists>pm'. pagemap_modify p True pm = Some (Inr pm') \<and> pagemap_ok pm' (p # L)"
proof -
  define pm0 where "pm0 = make_tables p pm"
  define h where "h = all_mapped_pages pm0"
  have ok0: "pagemap_ok pm0 L"
    using pages_ok_make [OF ok] by (simp add: pm0_def)
  obtain n where n: "get_page pm0 (page_ref p) = Some n"
    using make_tables_get(1) by (simp add: pm0_def)
  have "addr n = 0"
    using ok0 n new by (auto simp: pagemap_ok_def pages_ok_def)
  have hd: "h = first (map page_ref L)"
    using ok0 by (auto simp: pagemap_ok_def pages_ok_def h_def dest: dll_head)
  have hp: "Some (page_ref p) \<noteq> h"
    using hd new(1) by (cases L) auto
  obtain pm1 where pm1: "upd_page (page_ref p) (\<lambda>n. n\<lparr>addr := p\<rparr>) pm0 = Some pm1"
    "get_page pm1 = (get_page pm0)(page_ref p := Some (n\<lparr>addr := p\<rparr>))" "all_mapped_pages pm1 = h"
    by (rule upd_page_get [OF n]) (auto simp: h_def)
  have "get_page pm1 (page_ref p) = Some (n\<lparr>addr := p\<rparr>)"
    by (simp add: pm1)
  then obtain pm2 where pm2: "upd_page (page_ref p) (\<lambda>n. n\<lparr>prev := None\<rparr>) pm1 = Some pm2"
    "get_page pm2 = (get_page pm0)(page_ref p := Some (n\<lparr>addr := p, prev := None\<rparr>))" "all_mapped_pages pm2 = h"
    by (rule upd_page_get [where f = "\<lambda>n. n\<lparr>prev := None\<rparr>"]) (auto simp: pm1)
  have "get_page pm2 (page_ref p) = Some (n\<lparr>addr := p, prev := None\<rparr>)"
    by (simp add: pm2)
  then obtain pm3 where pm3: "upd_page (page_ref p) (\<lambda>n. n\<lparr>next := h\<rparr>) pm2 = Some pm3"
    "get_page pm3 = (get_page pm0)(page_ref p := Some \<lparr>addr = p, prev = None, next = h\<rparr>)" "all_mapped_pages pm3 = h"
    by (rule upd_page_get [where f = "\<lambda>n. n\<lparr>next := h\<rparr>"]) (cases n; auto simp: pm2)
  obtain pm4 where pm4: "(case h of None \<Rightarrow> Some pm3 | Some f \<Rightarrow> upd_page f (\<lambda>n. n\<lparr>prev := Some (page_ref p)\<rparr>) pm3) = Some pm4"
    "get_page pm4 = pushed (get_page pm0) h p"
  proof (cases h)
    case None
    then show ?thesis
      using that [of pm3] pm3 by (simp add: pushed_def)
  next
    case (Some f)
    then obtain m where "get_page pm0 f = Some m"
      using hd ok0 by (cases L) (auto simp: pagemap_ok_def pages_ok_def)
    then have "get_page pm3 f = Some m"
      using hp Some by (simp add: pm3)
    then obtain pm4 where "upd_page f (\<lambda>n. n\<lparr>prev := Some (page_ref p)\<rparr>) pm3 = Some pm4"
      "get_page pm4 = (get_page pm3)(f := Some (m\<lparr>prev := Some (page_ref p)\<rparr>))"
      by (rule upd_page_get [where f = "\<lambda>n. n\<lparr>prev := Some (page_ref p)\<rparr>"]) auto
    then show ?thesis
      using that [of pm4] Some hp \<open>get_page pm0 f = Some m\<close> by (simp add: pushed_def pm3)
  qed
  have "pagemap_modify p True pm = Some (Inr (pm4\<lparr>all_mapped_pages := Some (page_ref p)\<rparr>))"
    using \<open>addr n = 0\<close> hp pm4(1)
    by (simp add: pagemap_modify_def Let_def pm0_def [symmetric] h_def [symmetric] n pm1 pm2 pm3)
  moreover have "pagemap_ok (pm4\<lparr>all_mapped_pages := Some (page_ref p)\<rparr>) (p # L)"
  proof -
    have "get_page (pm4\<lparr>all_mapped_pages := Some (page_ref p)\<rparr>) = get_page pm4"
      by (simp add: get_page_def fun_eq_iff split: page_ref.splits)
    then show ?thesis
      using pages_ok_push [of "get_page pm0" h L p] ok0 new pm4(2) by (simp add: pagemap_ok_def h_def)
  qed
  ultimately show ?thesis by blast
qed

lemma pagemap_modify_unmap:
  assumes ok: "pagemap_ok pm (xs @ a # ys)" and ra: "page_ref p = page_ref a"
  shows "\<exists>pm'. pagemap_modify p False pm = Some (Inr pm') \<and> pagemap_ok pm' (xs @ ys)"
proof -
  define pm0 where "pm0 = make_tables p pm"
  define h where "h = all_mapped_pages pm0"
  define g where "g = get_page pm0"
  let ?r = "page_ref p"
  have ok0: "pages_ok g h (xs @ a # ys)"
    using pages_ok_make [OF ok] by (simp add: pm0_def pagemap_ok_def g_def h_def)
  then obtain n where n: "g ?r = Some n" "addr n \<noteq> 0"
    by (auto simp: pages_ok_def ra)
  have dll: "dll (\<lambda>r. prev (the (g r))) (\<lambda>r. next (the (g r))) None h (map page_ref xs @ page_ref a # map page_ref ys)"
    using ok0 by (auto simp: pages_ok_def)
  have node: "prev n = (if xs = [] then None else Some (page_ref (last xs)))" "next n = first (map page_ref ys)"
    using dll_node [OF dll] n by (auto simp: last_map ra)
  have mem: "\<exists>m. g (page_ref b) = Some m" if "b \<in> set (xs @ a # ys)" for b
    using ok0 that by (auto simp: pages_ok_def)
  have prev_ne: "prev n = Some q \<Longrightarrow> q \<noteq> ?r \<and> (\<exists>m. g q = Some m)" for q
  proof -
    assume "prev n = Some q"
    then have q: "q = page_ref (last xs)" "last xs \<in> set xs"
      using node(1) by (auto split: if_splits)
    moreover have "page_ref (last xs) \<noteq> page_ref a"
      using ok0 q(2) by (auto simp: pages_ok_def) (metis image_eqI)
    ultimately show ?thesis
      using mem [of "last xs"] ra by auto
  qed
  have next_ne: "next n = Some q \<Longrightarrow> q \<noteq> ?r \<and> (\<exists>m. g q = Some m)" for q
  proof -
    assume "next n = Some q"
    then have q: "q = page_ref (hd ys)" "hd ys \<in> set ys"
      using node(2) by (cases ys; auto)+
    moreover have "page_ref (hd ys) \<noteq> page_ref a"
      using ok0 q(2) by (auto simp: pages_ok_def) (metis image_eqI)
    ultimately show ?thesis
      using mem [of "hd ys"] ra by auto
  qed
  obtain pm1 where pm1: "upd_page ?r (\<lambda>n. n\<lparr>addr := 0\<rparr>) pm0 = Some pm1"
    "get_page pm1 = g(?r := Some (n\<lparr>addr := 0\<rparr>))" "all_mapped_pages pm1 = h"
    by (rule upd_page_get [OF n(1) [unfolded g_def], where f = "\<lambda>n. n\<lparr>addr := 0\<rparr>"]) (auto simp: h_def g_def)
  define g2 where "g2 = (case prev n of None \<Rightarrow> g(?r := Some (n\<lparr>addr := 0\<rparr>))
    | Some q \<Rightarrow> (g(?r := Some (n\<lparr>addr := 0\<rparr>)))(q := Some ((the (g q))\<lparr>next := next n\<rparr>)))"
  obtain pm2 where pm2: "(case prev n of Some q \<Rightarrow> upd_page q (\<lambda>m. m\<lparr>next := next n\<rparr>) pm1
        | None \<Rightarrow> Some (pm1\<lparr>all_mapped_pages := next n\<rparr>)) = Some pm2"
    "get_page pm2 = g2" "all_mapped_pages pm2 = (if prev n = None then next n else h)"
  proof (cases "prev n")
    case None
    have "get_page (pm1\<lparr>all_mapped_pages := next n\<rparr>) = get_page pm1"
      by (simp add: get_page_def fun_eq_iff split: page_ref.splits)
    then show ?thesis
      using that [of "pm1\<lparr>all_mapped_pages := next n\<rparr>"] None by (simp add: pm1 g2_def)
  next
    case (Some q)
    then obtain m where m: "g q = Some m" "q \<noteq> ?r"
      using prev_ne by blast
    then have "get_page pm1 q = Some m"
      by (simp add: pm1)
    then obtain pm2 where "upd_page q (\<lambda>m. m\<lparr>next := next n\<rparr>) pm1 = Some pm2"
      "get_page pm2 = (get_page pm1)(q := Some (m\<lparr>next := next n\<rparr>))" "all_mapped_pages pm2 = all_mapped_pages pm1"
      by (rule upd_page_get [where f = "\<lambda>m. m\<lparr>next := next n\<rparr>"]) auto
    then show ?thesis
      using that [of pm2] Some m by (simp add: pm1 g2_def)
  qed
  have g2r: "g2 ?r = Some (n\<lparr>addr := 0\<rparr>)"
    using prev_ne by (auto simp: g2_def split: option.splits)
  obtain pm3 where pm3: "(case next n of Some q \<Rightarrow> upd_page q (\<lambda>m. m\<lparr>prev := prev n\<rparr>) pm2 | None \<Rightarrow> Some pm2) = Some pm3"
    "get_page pm3 = unlinked g ?r" "all_mapped_pages pm3 = (if prev n = None then next n else h)"
  proof (cases "next n")
    case None
    then show ?thesis
      using that [of pm2] pm2 n(1) prev_ne by (auto simp: g2_def unlinked_def Let_def split: option.splits)
  next
    case (Some q)
    have "\<exists>m. g2 q = Some m"
      using next_ne [OF Some] by (cases "prev n") (auto simp: g2_def)
    then obtain m where m: "g2 q = Some m" "q \<noteq> ?r"
      using next_ne [OF Some] by blast
    then have "get_page pm2 q = Some m"
      by (simp add: pm2)
    then obtain pm3 where "upd_page q (\<lambda>m. m\<lparr>prev := prev n\<rparr>) pm2 = Some pm3"
      "get_page pm3 = (get_page pm2)(q := Some (m\<lparr>prev := prev n\<rparr>))" "all_mapped_pages pm3 = all_mapped_pages pm2"
      by (rule upd_page_get [where f = "\<lambda>m. m\<lparr>prev := prev n\<rparr>"]) auto
    moreover have "unlinked g ?r = g2(q := Some (m\<lparr>prev := prev n\<rparr>))"
      using Some n(1) m(1) prev_ne by (auto simp: g2_def unlinked_def Let_def split: option.splits)
    ultimately show ?thesis
      using that [of pm3] Some by (simp add: pm2)
  qed
  have "pagemap_modify p False pm = Some (Inr pm3)"
    using n pm2(1) pm3(1)
    by (simp add: pagemap_modify_def Let_def pm0_def [symmetric] g_def [symmetric] pm1 pm2(2) g2r cong: option.case_cong)
  moreover have "pagemap_ok pm3 (xs @ ys)"
    using pages_ok_remove [OF ok0] n(1) pm3(2,3) by (simp add: pagemap_ok_def ra cong: if_cong)
  ultimately show ?thesis by blast
qed

lemma pagemap_modify_twice:
  assumes "pagemap_ok pm L"
  shows "page_ref p \<in> page_ref ` set L \<Longrightarrow> \<exists>e. pagemap_modify p True pm = Some (Inl e)"
    and "page_ref p \<notin> page_ref ` set L \<Longrightarrow> \<exists>e. pagemap_modify p False pm = Some (Inl e)"
proof -
  note ok = pages_ok_make [OF assms, of p]
  obtain n where n: "get_page (make_tables p pm) (page_ref p) = Some n"
    using make_tables_get(1) by blast
  have "addr n \<noteq> 0 \<longleftrightarrow> page_ref p \<in> page_ref ` set L"
  proof
    assume "page_ref p \<in> page_ref ` set L"
    then obtain a where "a \<in> set L" "page_ref p = page_ref a" by auto
    then show "addr n \<noteq> 0"
      using ok n by (auto simp: pagemap_ok_def pages_ok_def)
  next
    show "addr n \<noteq> 0 \<Longrightarrow> page_ref p \<in> page_ref ` set L"
      using ok n by (auto simp: pagemap_ok_def pages_ok_def)
  qed
  then show "page_ref p \<in> page_ref ` set L \<Longrightarrow> \<exists>e. pagemap_modify p True pm = Some (Inl e)"
    "page_ref p \<notin> page_ref ` set L \<Longrightarrow> \<exists>e. pagemap_modify p False pm = Some (Inl e)"
    using n by (auto simp: pagemap_modify_def Let_def)
qed

lemma pagemap_is_mapped_iff:
  assumes "pagemap_ok pm L"
  shows "pagemap_is_mapped p pm \<longleftrightarrow> page_ref p \<in> page_ref ` set L"
proof -
  have "pagemap_is_mapped p pm \<longleftrightarrow> (\<exists>n. get_page pm (page_ref p) = Some n \<and> addr n \<noteq> 0)"
    by (auto simp: pagemap_is_mapped_def page_ref_def get_page_def split: option.splits)
  also have "\<dots> \<longleftrightarrow> page_ref p \<in> page_ref ` set L"
  proof
    assume "page_ref p \<in> page_ref ` set L"
    then obtain a where "a \<in> set L" "page_ref p = page_ref a" by auto
    then show "\<exists>n. get_page pm (page_ref p) = Some n \<and> addr n \<noteq> 0"
      using assms by (auto simp: pagemap_ok_def pages_ok_def)
  next
    assume "\<exists>n. get_page pm (page_ref p) = Some n \<and> addr n \<noteq> 0"
    then show "page_ref p \<in> page_ref ` set L"
      using assms by (auto simp: pagemap_ok_def pages_ok_def)
  qed
  finally show ?thesis .
qed

lemma for_each_ok:
  assumes "pagemap_ok pm L" "length L \<le> fuel"
  shows "\<exists>pm'. for_each_loop fuel f (all_mapped_pages pm) pm s = Some (Inr (pm', fold f L s)) \<and> pagemap_ok pm' []"
  using assms
proof (induction L arbitrary: pm s fuel)
  case Nil
  then show ?case
    by (auto simp: pagemap_ok_def pages_ok_def)
next
  case (Cons a L)
  then obtain k where fuel: "fuel = Suc k" "length L \<le> k"
    by (cases fuel) auto
  have h: "all_mapped_pages pm = Some (page_ref a)"
    using Cons.prems(1) by (auto simp: pagemap_ok_def pages_ok_def)
  obtain n where n: "get_page pm (page_ref a) = Some n" "addr n = a" "next n = first (map page_ref L)"
    using Cons.prems(1) by (auto simp: pagemap_ok_def pages_ok_def dest: dll_head)
  obtain pm' where pm': "pagemap_modify a False pm = Some (Inr pm')" "pagemap_ok pm' L"
    using pagemap_modify_unmap [of pm "[]" a L a] Cons.prems(1) by auto
  have "all_mapped_pages pm' = first (map page_ref L)"
    using pm'(2) by (auto simp: pagemap_ok_def pages_ok_def dest: dll_head)
  then show ?case
    using Cons.IH [OF pm'(2) fuel(2), of "f a s"] by (simp add: fuel(1) h n pm'(1))
qed

section \<open>The table as a set of pages\<close>

text \<open>What the rest of the memory model relies on: a state with an invariant, standing for a set of
  page numbers, with operations that add and remove one page and abort when they cannot.\<close>

locale page_table =
  fixes modify :: "int \<Rightarrow> bool \<Rightarrow> 't \<Rightarrow> (string + 't) option"
    and is_mapped :: "int \<Rightarrow> 't \<Rightarrow> bool"
    and inv :: "'t \<Rightarrow> bool"
    and pages :: "'t \<Rightarrow> int set"
  assumes is_mapped: "inv t \<Longrightarrow> 0 \<le> p \<Longrightarrow> is_mapped p t \<longleftrightarrow> p div APAGE_SIZE \<in> pages t"
    and map_page: "inv t \<Longrightarrow> 0 < p \<Longrightarrow> p div APAGE_SIZE \<notin> pages t \<Longrightarrow>
      \<exists>t'. modify p True t = Some (Inr t') \<and> inv t' \<and> pages t' = insert (p div APAGE_SIZE) (pages t)"
    and map_mapped: "inv t \<Longrightarrow> 0 < p \<Longrightarrow> p div APAGE_SIZE \<in> pages t \<Longrightarrow> \<exists>e. modify p True t = Some (Inl e)"
    and unmap_page: "inv t \<Longrightarrow> 0 < p \<Longrightarrow> p div APAGE_SIZE \<in> pages t \<Longrightarrow>
      \<exists>t'. modify p False t = Some (Inr t') \<and> inv t' \<and> pages t' = pages t - {p div APAGE_SIZE}"
    and unmap_unmapped: "inv t \<Longrightarrow> 0 < p \<Longrightarrow> p div APAGE_SIZE \<notin> pages t \<Longrightarrow> \<exists>e. modify p False t = Some (Inl e)"

definition pagemap_inv :: "pagemap_t \<Rightarrow> bool" where
  "pagemap_inv pm \<longleftrightarrow> (\<exists>L. pagemap_ok pm L \<and> (\<forall>a\<in>set L. 0 < a))"

definition pagemap_pages :: "pagemap_t \<Rightarrow> int set" where
  "pagemap_pages pm = {p div APAGE_SIZE | p. 0 \<le> p \<and> pagemap_is_mapped p pm}"

lemma pagemap_pages_list:
  assumes "pagemap_ok pm L" "\<forall>a\<in>set L. 0 < a"
  shows "pagemap_pages pm = (\<lambda>a. a div APAGE_SIZE) ` set L"
proof -
  have m: "pagemap_is_mapped p pm \<longleftrightarrow> p div APAGE_SIZE \<in> (\<lambda>a. a div APAGE_SIZE) ` set L" if "0 \<le> p" for p
  proof -
    have "page_ref p = page_ref a \<longleftrightarrow> p div APAGE_SIZE = a div APAGE_SIZE" if "a \<in> set L" for a
      using page_ref_eq_iff [of p a] \<open>0 \<le> p\<close> that assms(2) by force
    then show ?thesis
      unfolding pagemap_is_mapped_iff [OF assms(1)] by (auto simp: image_iff)
  qed
  show ?thesis
  proof (intro set_eqI iffI)
    fix x assume "x \<in> pagemap_pages pm"
    then show "x \<in> (\<lambda>a. a div APAGE_SIZE) ` set L"
      using m by (auto simp: pagemap_pages_def)
  next
    fix x assume "x \<in> (\<lambda>a. a div APAGE_SIZE) ` set L"
    then obtain a where "a \<in> set L" "x = a div APAGE_SIZE" by auto
    then show "x \<in> pagemap_pages pm"
      using m [of a] assms(2) by (auto simp: pagemap_pages_def intro!: exI [of _ a])
  qed
qed

lemma pagemap_ref_pages:
  assumes "pagemap_ok pm L" "\<forall>a\<in>set L. 0 < a" "0 \<le> p"
  shows "page_ref p \<in> page_ref ` set L \<longleftrightarrow> p div APAGE_SIZE \<in> pagemap_pages pm"
proof -
  have "page_ref p = page_ref a \<longleftrightarrow> p div APAGE_SIZE = a div APAGE_SIZE" if "a \<in> set L" for a
    using page_ref_eq_iff [of p a] assms(2,3) that by force
  then show ?thesis
    unfolding pagemap_pages_list [OF assms(1,2)] by (auto simp: image_iff)
qed

interpretation pagemap: page_table pagemap_modify pagemap_is_mapped pagemap_inv pagemap_pages
proof
  fix t :: pagemap_t and p :: int
  assume "pagemap_inv t"
  then obtain L where L: "pagemap_ok t L" "\<forall>a\<in>set L. 0 < a"
    by (auto simp: pagemap_inv_def)
  note ref = pagemap_ref_pages [OF L]
  show "0 \<le> p \<Longrightarrow> pagemap_is_mapped p t \<longleftrightarrow> p div APAGE_SIZE \<in> pagemap_pages t"
    by (simp add: pagemap_is_mapped_iff [OF L(1)] ref)
  assume p: "0 < p"
  show "p div APAGE_SIZE \<notin> pagemap_pages t \<Longrightarrow> \<exists>t'. pagemap_modify p True t = Some (Inr t') \<and> pagemap_inv t' \<and>
      pagemap_pages t' = insert (p div APAGE_SIZE) (pagemap_pages t)"
  proof -
    assume "p div APAGE_SIZE \<notin> pagemap_pages t"
    then obtain t' where "pagemap_modify p True t = Some (Inr t')" and ok: "pagemap_ok t' (p # L)"
      using pagemap_modify_map [OF L(1), of p] ref [of p] p by auto
    moreover have "\<forall>a\<in>set (p # L). 0 < a"
      using L(2) p by simp
    ultimately show ?thesis
      using pagemap_pages_list [OF ok] pagemap_pages_list [OF L] unfolding pagemap_inv_def
      by (auto intro!: exI [of _ "p # L"])
  qed
  show "p div APAGE_SIZE \<in> pagemap_pages t \<Longrightarrow> \<exists>e. pagemap_modify p True t = Some (Inl e)"
    using pagemap_modify_twice(1) [OF L(1)] ref [of p] p by simp
  show "p div APAGE_SIZE \<notin> pagemap_pages t \<Longrightarrow> \<exists>e. pagemap_modify p False t = Some (Inl e)"
    using pagemap_modify_twice(2) [OF L(1)] ref [of p] p by simp
  show "p div APAGE_SIZE \<in> pagemap_pages t \<Longrightarrow> \<exists>t'. pagemap_modify p False t = Some (Inr t') \<and> pagemap_inv t' \<and>
      pagemap_pages t' = pagemap_pages t - {p div APAGE_SIZE}"
  proof -
    assume "p div APAGE_SIZE \<in> pagemap_pages t"
    then obtain a where a: "a \<in> set L" "page_ref p = page_ref a"
      using ref [of p] p by auto
    then obtain xs ys where xy: "L = xs @ a # ys"
      by (auto simp: in_set_conv_decomp)
    then obtain t' where t': "pagemap_modify p False t = Some (Inr t')" "pagemap_ok t' (xs @ ys)"
      using pagemap_modify_unmap [of t xs a ys p] L(1) a(2) by auto
    have pos: "\<forall>a\<in>set (xs @ ys). 0 < a"
      using L(2) xy by auto
    have "p div APAGE_SIZE \<notin> pagemap_pages t'"
    proof -
      have "page_ref a \<notin> page_ref ` set (xs @ ys)"
        using L(1) xy by (auto simp: pagemap_ok_def pages_ok_def)
      then show ?thesis
        using pagemap_ref_pages [OF t'(2) pos, of p] p a(2) by simp
    qed
    moreover have "a div APAGE_SIZE = p div APAGE_SIZE"
      using page_ref_eq_iff [of p a] a(2) p L(2) a(1) by force
    ultimately have "pagemap_pages t' = pagemap_pages t - {p div APAGE_SIZE}"
      unfolding pagemap_pages_list [OF t'(2) pos] pagemap_pages_list [OF L] xy by auto
    then show ?thesis
      using t' pos by (auto simp: pagemap_inv_def)
  qed
qed

section \<open>The properties\<close>

text \<open>C27. The three-level table with its linked list implements a set of pages: on a table built by
  the operations, mapping an absent page and unmapping a present one succeed and change exactly
  that page, the opposite calls abort, \<open>pagemap_is_mapped\<close> is membership, and two addresses denote
  the same entry exactly when they lie on the same page.\<close>

theorem pagemap_refines_set:
  assumes "pagemap_inv pm" "0 < p"
  shows "(pagemap_is_mapped p pm \<longleftrightarrow> p div APAGE_SIZE \<in> pagemap_pages pm) \<and>
    (if pagemap_is_mapped p pm then
       (\<exists>e. pagemap_modify p True pm = Some (Inl e)) \<and>
       (\<exists>pm'. pagemap_modify p False pm = Some (Inr pm') \<and> pagemap_inv pm' \<and>
          pagemap_pages pm' = pagemap_pages pm - {p div APAGE_SIZE})
     else
       (\<exists>e. pagemap_modify p False pm = Some (Inl e)) \<and>
       (\<exists>pm'. pagemap_modify p True pm = Some (Inr pm') \<and> pagemap_inv pm' \<and>
          pagemap_pages pm' = insert (p div APAGE_SIZE) (pagemap_pages pm)))"
  using assms pagemap.is_mapped [of pm p] pagemap.map_page [of pm p] pagemap.map_mapped [of pm p]
    pagemap.unmap_page [of pm p] pagemap.unmap_unmapped [of pm p] by simp

theorem pagemap_refines_set_witness:
  "\<exists>pm'. pagemap_modify 8192 True pagemap0 = Some (Inr pm') \<and> pagemap_pages pm' = {2}"
proof -
  have inv: "pagemap_inv pagemap0"
    using pagemap0_ok by (auto simp: pagemap_inv_def)
  have "pagemap_pages pagemap0 = {}"
    by (simp add: pagemap_pages_def pagemap_is_mapped_def pagemap0_def)
  moreover have "\<not> pagemap_is_mapped 8192 pagemap0"
    by (simp add: pagemap_is_mapped_def pagemap0_def)
  ultimately show ?thesis
    using pagemap_refines_set [OF inv, of 8192] by (auto simp: APAGE_SIZE_def)
qed

text \<open>\<open>pagemap_for_each\<close> terminates within one step per mapped page although it unmaps the pages
  as it walks the list, calls the callback once for every mapped page, and leaves the table empty.\<close>

lemma pagemap_for_each_visits_all:
  assumes "pagemap_inv pm"
  shows "\<exists>L. distinct (map (\<lambda>a. a div APAGE_SIZE) L) \<and> (\<lambda>a. a div APAGE_SIZE) ` set L = pagemap_pages pm \<and>
    (\<forall>fuel\<ge>card (pagemap_pages pm). \<exists>pm'. pagemap_for_each fuel f pm s = Some (Inr (pm', fold f L s)) \<and>
       pagemap_inv pm' \<and> pagemap_pages pm' = {})"
proof -
  obtain L where L: "pagemap_ok pm L" "\<forall>a\<in>set L. 0 < a"
    using assms by (auto simp: pagemap_inv_def)
  have eq: "page_ref a = page_ref b \<longleftrightarrow> a div APAGE_SIZE = b div APAGE_SIZE" if "a \<in> set L" "b \<in> set L" for a b
    using page_ref_eq_iff [of a b] L(2) that by force
  have "distinct (map page_ref L)"
    using L(1) by (simp add: pagemap_ok_def pages_ok_def)
  then have dist: "distinct (map (\<lambda>a. a div APAGE_SIZE) L)"
    using eq by (auto simp: distinct_map inj_on_def)
  have pages: "(\<lambda>a. a div APAGE_SIZE) ` set L = pagemap_pages pm"
    using pagemap_pages_list [OF L] by simp
  have "card (pagemap_pages pm) = length L"
    using distinct_card [OF dist] pages by simp
  moreover have "\<exists>pm'. pagemap_for_each fuel f pm s = Some (Inr (pm', fold f L s)) \<and> pagemap_inv pm' \<and> pagemap_pages pm' = {}"
    if len: "length L \<le> fuel" for fuel
  proof -
    obtain pm' where loop: "for_each_loop fuel f (all_mapped_pages pm) pm s = Some (Inr (pm', fold f L s))"
      and ok: "pagemap_ok pm' []"
      using for_each_ok [OF L(1) len, of f s] by auto
    have "all_mapped_pages pm' = None"
      using ok by (simp add: pagemap_ok_def pages_ok_def)
    then have "pm'\<lparr>all_mapped_pages := None\<rparr> = pm'"
      by (cases pm') simp
    then show ?thesis
      using loop ok pagemap_pages_list [OF ok] by (auto simp: pagemap_for_each_def pagemap_inv_def)
  qed
  ultimately show ?thesis
    using dist pages by auto
qed

end
