(* ===== verification/Memlib.thy ===== *)
theory Memlib
  imports C_Prelude Pagemap
begin

text \<open>
  The bridge to \<open>mmap\<close> of the malloc laboratory, \<open>Malloclab/memlib.c\<close>. Mapped memory is a partial
  map from the addresses of its 4 byte cells to their contents; an access outside its domain is
  undefined. The operating system is a parameter: \<open>mmap n S sz\<close> is the address its \<open>n\<close>th call
  returns for \<open>sz\<close> bytes while the cells \<open>S\<close> are mapped, or \<open>None\<close> when it fails; what the program
  relies on is \<open>os_ok\<close>. As in \<open>Pagemap\<close>, \<open>None\<close> is undefined behaviour and \<open>Inl\<close> is an abort.
\<close>

unbundle bit_operations_syntax

type_synonym mem = "int \<Rightarrow> 32 word option"

type_synonym mmap = "nat \<Rightarrow> int set \<Rightarrow> int \<Rightarrow> int option"

definition os_ok :: "mmap \<Rightarrow> bool" where
  "os_ok mmap \<longleftrightarrow> (\<forall>n S sz a. 0 < sz \<longrightarrow> mmap n S sz = Some a \<longrightarrow>
     0 < a \<and> APAGE_SIZE dvd a \<and> a + sz \<le> 2 ^ 47 \<and> {a..<a + sz} \<inter> S = {})"

record memlib =
  mem :: mem
  calls :: nat
  activity_counter :: int
  page_count :: int
  "table" :: pagemap_t

definition memlib0 :: memlib where
  "memlib0 = \<lparr>mem = (\<lambda>_. None), calls = 0, activity_counter = 0, page_count = 0, table = pagemap0\<rparr>"

section \<open>System calls\<close>

definition sys_mmap :: "mmap \<Rightarrow> int \<Rightarrow> memlib \<Rightarrow> int option \<times> memlib" where
  "sys_mmap mmap sz s =
    (case mmap (calls s) (dom (mem s)) sz of
       None \<Rightarrow> (None, s\<lparr>calls := calls s + 1\<rparr>)
     | Some a \<Rightarrow> (Some a, s\<lparr>calls := calls s + 1,
         mem := (\<lambda>x. if a \<le> x \<and> x < a + sz \<and> 4 dvd x then Some 0 else mem s x)\<rparr>))"

definition unmap_cells :: "int \<Rightarrow> int \<Rightarrow> mem \<Rightarrow> mem" where
  "unmap_cells a sz m = (\<lambda>x. if a \<le> x \<and> x < a + sz then None else m x)"

definition munmap :: "int \<Rightarrow> int \<Rightarrow> memlib \<Rightarrow> memlib" where
  "munmap a sz s = s\<lparr>mem := unmap_cells a sz (mem s)\<rparr>"

section \<open>The operations\<close>

definition mem_init :: "int \<Rightarrow> string + unit" where
  "mem_init getpagesize =
    (if APAGE_SIZE \<noteq> getpagesize
     then Inl (''configuration error: APAGE_SIZE does not match '' @ dec_int getpagesize) else Inr ())"

definition mem_pagesize :: int where
  "mem_pagesize = APAGE_SIZE"

text \<open>The product is computed in \<open>int\<close>.\<close>

definition mem_heapsize :: "memlib \<Rightarrow> int option" where
  "mem_heapsize s = (if APAGE_SIZE * page_count s \<le> INT_MAX then Some (APAGE_SIZE * page_count s) else None)"

definition unmap :: "int \<Rightarrow> memlib \<Rightarrow> memlib" where
  "unmap p s = munmap p APAGE_SIZE s"

definition mem_reset :: "memlib \<Rightarrow> (string + memlib) option" where
  "mem_reset s =
    map_option (\<lambda>r. case r of Inl e \<Rightarrow> Inl e
       | Inr (pm, s) \<Rightarrow> Inr (s\<lparr>table := pm, page_count := 0, activity_counter := 0\<rparr>))
      (pagemap_for_each (nat (page_count s)) unmap (table s) s)"

text \<open>The loop over the pages of a new range, for a page table with the operation \<open>modify\<close>.\<close>

function map_loop ::
    "(int \<Rightarrow> bool \<Rightarrow> 't \<Rightarrow> (string + 't) option) \<Rightarrow> int \<Rightarrow> int \<Rightarrow> int \<Rightarrow> int \<Rightarrow> 't \<Rightarrow> (string + int \<times> 't) option" where
  "map_loop modify p i sz count t =
    (if i < sz then
       do {
         r \<leftarrow> modify (p + i) True t;
         (case r of Inl e \<Rightarrow> Some (Inl e)
          | Inr t \<Rightarrow> if count < INT_MAX then map_loop modify p (i + APAGE_SIZE) sz (count + 1) t else None)
       }
     else Some (Inr (count, t)))"
  by pat_completeness auto
termination
  by (relation "measure (\<lambda>(modify, p, i, sz, count, t). nat (sz - i))") (auto simp: APAGE_SIZE_def)

declare map_loop.simps [simp del]

text \<open>The counter of the calls; at powers of two an unrelated page is mapped, and lost.\<close>

definition activity :: "mmap \<Rightarrow> memlib \<Rightarrow> memlib" where
  "activity mmap s =
    (let s = s\<lparr>activity_counter := activity_counter s + 1\<rparr>
     in if activity_counter s AND (activity_counter s - 1) = 0
        then snd (sys_mmap mmap APAGE_SIZE s) else s)"

definition mem_map :: "mmap \<Rightarrow> int \<Rightarrow> memlib \<Rightarrow> (string + int \<times> memlib) option" where
  "mem_map mmap sz s =
    (if sz AND (APAGE_SIZE - 1) \<noteq> 0 then
       Some (Inl (''mem_map: requested size is not a multiple of '' @ dec_int APAGE_SIZE @ '': '' @ dec_int sz))
     else if activity_counter s = INT_MAX then None
     else
       let (p, s) = sys_mmap mmap sz (activity mmap s)
       in case p of
            None \<Rightarrow> Some (Inl ''mmap failed'')
          | Some p \<Rightarrow>
              map_option (\<lambda>r. case r of Inl e \<Rightarrow> Inl e
                 | Inr (count, t) \<Rightarrow> Inr (p, s\<lparr>page_count := count, table := t\<rparr>))
                (map_loop pagemap_modify p 0 sz (page_count s) (table s)))"

function unmap_loop ::
    "(int \<Rightarrow> bool \<Rightarrow> 't \<Rightarrow> (string + 't) option) \<Rightarrow> (int \<Rightarrow> 't \<Rightarrow> bool) \<Rightarrow>
     int \<Rightarrow> int \<Rightarrow> int \<Rightarrow> int \<Rightarrow> 't \<Rightarrow> (string + int \<times> 't) option" where
  "unmap_loop modify is_mapped p i sz count t =
    (if i < sz then
       if \<not> is_mapped (p + i) t then
         Some (Inl (''mem_unmap: given page is not mapped: '' @ dec_int (p + i)))
       else
         do {
           r \<leftarrow> modify (p + i) False t;
           (case r of Inl e \<Rightarrow> Some (Inl e)
            | Inr t \<Rightarrow> unmap_loop modify is_mapped p (i + APAGE_SIZE) sz (count - 1) t)
         }
     else Some (Inr (count, t)))"
  by pat_completeness auto
termination
  by (relation "measure (\<lambda>(modify, is_mapped, p, i, sz, count, t). nat (sz - i))") (auto simp: APAGE_SIZE_def)

declare unmap_loop.simps [simp del]

definition mem_unmap :: "int \<Rightarrow> int \<Rightarrow> memlib \<Rightarrow> (string + memlib) option" where
  "mem_unmap p sz s =
    (if p AND (APAGE_SIZE - 1) \<noteq> 0 then
       Some (Inl (''mem_unmap: given address is not page-aligned: '' @ dec_int p))
     else if sz AND (APAGE_SIZE - 1) \<noteq> 0 then
       Some (Inl (''mem_unmap: given size is not a multiple of '' @ dec_int APAGE_SIZE @ '': '' @ dec_int sz))
     else
       map_option (\<lambda>r. case r of Inl e \<Rightarrow> Inl e
          | Inr (count, t) \<Rightarrow> Inr (munmap p sz (s\<lparr>page_count := count, table := t\<rparr>)))
         (unmap_loop pagemap_modify pagemap_is_mapped p 0 sz (page_count s) (table s)))"

section \<open>Ranges of pages\<close>

lemma APAGE_SIZE_pos [simp]: "0 < APAGE_SIZE" "APAGE_SIZE \<noteq> 0"
  by (simp_all add: APAGE_SIZE_def)

lemma page_of_next: "APAGE_SIZE dvd a \<Longrightarrow> (a + APAGE_SIZE) div APAGE_SIZE = a div APAGE_SIZE + 1"
  by (auto simp: APAGE_SIZE_def)

lemma range_Suc: "{b..<b + int (Suc k)} = insert b {b + 1..<b + 1 + int k}"
  by (rule set_eqI) (simp, linarith)

context page_table
begin

lemma map_loop_ok:
  assumes "inv t" "0 < p" "0 \<le> i" "p + i = APAGE_SIZE * b"
    and "\<And>q. b \<le> q \<Longrightarrow> q < b + int k \<Longrightarrow> q \<notin> pages t" "count + int k \<le> INT_MAX"
  shows "\<exists>t'. map_loop modify p i (i + APAGE_SIZE * int k) count t = Some (Inr (count + int k, t')) \<and> inv t' \<and>
    pages t' = pages t \<union> {b..<b + int k}"
  using assms
proof (induction k arbitrary: i b count t)
  case 0
  then show ?case by (simp add: map_loop.simps)
next
  case (Suc k)
  have page: "(p + i) div APAGE_SIZE = b"
    using Suc.prems(4) by (simp add: APAGE_SIZE_def)
  obtain t1 where t1: "modify (p + i) True t = Some (Inr t1)" "inv t1" "pages t1 = insert b (pages t)"
    using map_page [of t "p + i"] Suc.prems page by auto
  have "\<exists>t'. map_loop modify p (i + APAGE_SIZE) (i + APAGE_SIZE + APAGE_SIZE * int k) (count + 1) t1 =
      Some (Inr (count + 1 + int k, t')) \<and> inv t' \<and> pages t' = pages t1 \<union> {b + 1..<b + 1 + int k}"
  proof (rule Suc.IH [OF t1(2) Suc.prems(2)])
    show "0 \<le> i + APAGE_SIZE"
      using Suc.prems(3) by (simp add: APAGE_SIZE_def)
    show "p + (i + APAGE_SIZE) = APAGE_SIZE * (b + 1)"
      using Suc.prems(4) by (simp add: algebra_simps)
    show "q \<notin> pages t1" if "b + 1 \<le> q" "q < b + 1 + int k" for q
      using Suc.prems(5) [of q] that t1(3) by simp
    show "count + 1 + int k \<le> INT_MAX"
      using Suc.prems(6) by simp
  qed
  then obtain t' where t': "map_loop modify p (i + APAGE_SIZE) (i + APAGE_SIZE + APAGE_SIZE * int k) (count + 1) t1 =
      Some (Inr (count + 1 + int k, t'))" "inv t'" "pages t' = pages t1 \<union> {b + 1..<b + 1 + int k}"
    by blast
  have sz: "i + APAGE_SIZE * int (Suc k) = i + APAGE_SIZE + APAGE_SIZE * int k" "i < i + APAGE_SIZE * int (Suc k)"
    by (simp_all add: algebra_simps APAGE_SIZE_def)
  have "map_loop modify p i (i + APAGE_SIZE * int (Suc k)) count t = Some (Inr (count + 1 + int k, t'))"
    using sz(2) t1(1) t'(1) [folded sz(1)] Suc.prems(6) by (subst map_loop.simps) simp
  moreover have "pages t1 \<union> {b + 1..<b + 1 + int k} = pages t \<union> {b..<b + int (Suc k)}"
    unfolding t1(3) range_Suc by blast
  moreover have "count + 1 + int k = count + int (Suc k)" by simp
  ultimately show ?case
    using t'(2,3) by metis
qed

lemma unmap_loop_ok:
  assumes "inv t" "0 < p" "0 \<le> i" "p + i = APAGE_SIZE * b"
    and "\<And>q. b \<le> q \<Longrightarrow> q < b + int k \<Longrightarrow> q \<in> pages t"
  shows "\<exists>t'. unmap_loop modify is_mapped p i (i + APAGE_SIZE * int k) count t = Some (Inr (count - int k, t')) \<and> inv t' \<and>
    pages t' = pages t - {b..<b + int k}"
  using assms
proof (induction k arbitrary: i b count t)
  case 0
  then show ?case by (simp add: unmap_loop.simps)
next
  case (Suc k)
  have page: "(p + i) div APAGE_SIZE = b"
    using Suc.prems(4) by (simp add: APAGE_SIZE_def)
  have here: "is_mapped (p + i) t"
    using is_mapped [of t "p + i"] Suc.prems(5) [of b] Suc.prems(1-3) page by simp
  obtain t1 where t1: "modify (p + i) False t = Some (Inr t1)" "inv t1" "pages t1 = pages t - {b}"
    using unmap_page [of t "p + i"] Suc.prems page by auto
  have "\<exists>t'. unmap_loop modify is_mapped p (i + APAGE_SIZE) (i + APAGE_SIZE + APAGE_SIZE * int k) (count - 1) t1 =
      Some (Inr (count - 1 - int k, t')) \<and> inv t' \<and> pages t' = pages t1 - {b + 1..<b + 1 + int k}"
  proof (rule Suc.IH [OF t1(2) Suc.prems(2)])
    show "0 \<le> i + APAGE_SIZE"
      using Suc.prems(3) by (simp add: APAGE_SIZE_def)
    show "p + (i + APAGE_SIZE) = APAGE_SIZE * (b + 1)"
      using Suc.prems(4) by (simp add: algebra_simps)
    show "q \<in> pages t1" if "b + 1 \<le> q" "q < b + 1 + int k" for q
      using Suc.prems(5) [of q] that t1(3) by simp
  qed
  then obtain t' where t': "unmap_loop modify is_mapped p (i + APAGE_SIZE) (i + APAGE_SIZE + APAGE_SIZE * int k) (count - 1) t1 =
      Some (Inr (count - 1 - int k, t'))" "inv t'" "pages t' = pages t1 - {b + 1..<b + 1 + int k}"
    by blast
  have sz: "i + APAGE_SIZE * int (Suc k) = i + APAGE_SIZE + APAGE_SIZE * int k" "i < i + APAGE_SIZE * int (Suc k)"
    by (simp_all add: algebra_simps APAGE_SIZE_def)
  have "unmap_loop modify is_mapped p i (i + APAGE_SIZE * int (Suc k)) count t = Some (Inr (count - 1 - int k, t'))"
    using sz(2) t1(1) t'(1) [folded sz(1)] here by (subst unmap_loop.simps) simp
  moreover have "pages t1 - {b + 1..<b + 1 + int k} = pages t - {b..<b + int (Suc k)}"
    unfolding t1(3) range_Suc by blast
  moreover have "count - 1 - int k = count - int (Suc k)" by simp
  ultimately show ?case
    using t'(2,3) by metis
qed

end

section \<open>The invariant\<close>

text \<open>Every page of the table is mapped, and the count is the number of these pages.\<close>

definition memlib_inv :: "memlib \<Rightarrow> bool" where
  "memlib_inv s \<longleftrightarrow> pagemap_inv (table s) \<and> finite (pagemap_pages (table s)) \<and>
     page_count s = int (card (pagemap_pages (table s))) \<and> 0 \<le> activity_counter s \<and>
     (\<forall>x. x div APAGE_SIZE \<in> pagemap_pages (table s) \<longrightarrow> 4 dvd x \<longrightarrow> mem s x \<noteq> None)"

lemma and_page_mask: "x AND (APAGE_SIZE - 1) = x mod APAGE_SIZE" for x :: int
  using take_bit_eq_mask [of 12 x] take_bit_eq_mod [of 12 x] by (simp add: APAGE_SIZE_def mask_eq_exp_minus_1)

lemma memlib0_pages: "pagemap_pages (table memlib0) = {}"
  by (auto simp: memlib0_def pagemap_pages_def pagemap_is_mapped_def pagemap0_def)

lemma memlib0_inv: "memlib_inv memlib0"
  using pagemap0_ok memlib0_pages
  by (auto simp: memlib_inv_def memlib0_def pagemap_inv_def)

text \<open>A page count of 0 says that no page is recorded.\<close>

lemma no_pages: "memlib_inv s \<Longrightarrow> page_count s = 0 \<Longrightarrow> pagemap_pages (table s) = {}"
  by (metis card_0_eq memlib_inv_def of_nat_eq_0_iff)

definition page_range :: "int \<Rightarrow> int \<Rightarrow> int set" where
  "page_range a sz = {a div APAGE_SIZE..<(a + sz) div APAGE_SIZE}"

lemma page_range_iff:
  assumes "APAGE_SIZE dvd a" "APAGE_SIZE dvd sz"
  shows "x div APAGE_SIZE \<in> page_range a sz \<longleftrightarrow> a \<le> x \<and> x < a + sz"
proof -
  obtain b k where "a = 4096 * b" "sz = 4096 * k"
    using assms by (auto simp: APAGE_SIZE_def elim!: dvdE)
  moreover have "b \<le> x div 4096 \<longleftrightarrow> 4096 * b \<le> x" for b
    using div_mult_mod_eq [of x 4096] pos_mod_bound [of 4096 x] pos_mod_sign [of 4096 x] by linarith
  ultimately show ?thesis
    unfolding page_range_def APAGE_SIZE_def atLeastLessThan_iff distrib_left [symmetric] by (simp add: not_le [symmetric])
qed

lemma mem_map_spec:
  assumes os: "os_ok mmap" and inv: "memlib_inv s" and sz: "0 < sz" "APAGE_SIZE dvd sz"
    and room: "activity_counter s < INT_MAX" "page_count s + sz div APAGE_SIZE \<le> INT_MAX"
    and r: "mem_map mmap sz s = r"
  shows "(r = Some (Inl ''mmap failed'') \<and> fst (sys_mmap mmap sz (activity mmap s)) = None) \<or>
    (\<exists>a s'. r = Some (Inr (a, s')) \<and> memlib_inv s' \<and> 0 < a \<and> APAGE_SIZE dvd a \<and> a + sz \<le> 2 ^ 47 \<and>
       {a..<a + sz} \<inter> dom (mem s) = {} \<and>
       (\<forall>x. a \<le> x \<longrightarrow> x < a + sz \<longrightarrow> 4 dvd x \<longrightarrow> mem s' x = Some 0) \<and>
       (\<forall>x. mem s x \<noteq> None \<longrightarrow> mem s' x = mem s x) \<and>
       pagemap_pages (table s') = pagemap_pages (table s) \<union> page_range a sz \<and>
       pagemap_pages (table s) \<inter> page_range a sz = {} \<and>
       activity_counter s' = activity_counter s + 1)"
proof -
  define s1 where "s1 = s\<lparr>activity_counter := activity_counter s + 1\<rparr>"
  define s2 where "s2 = activity mmap s"
  obtain ao s3 where s3: "sys_mmap mmap sz s2 = (ao, s3)"
    by (cases "sys_mmap mmap sz s2")
  have grow1: "table (snd (sys_mmap mmap n u)) = table u" "page_count (snd (sys_mmap mmap n u)) = page_count u"
    "activity_counter (snd (sys_mmap mmap n u)) = activity_counter u" for n u
    by (auto simp: sys_mmap_def split: option.splits)
  have grow2: "mem u x \<noteq> None \<Longrightarrow> 0 < n \<Longrightarrow> mem (snd (sys_mmap mmap n u)) x = mem u x" for n u x
    using os by (fastforce simp: sys_mmap_def os_ok_def split: option.splits)
  have s2: "table s2 = table s" "page_count s2 = page_count s" "activity_counter s2 = activity_counter s + 1"
    "\<And>x. mem s x \<noteq> None \<Longrightarrow> mem s2 x = mem s x"
    using grow2 [of s1 _ APAGE_SIZE] by (auto simp: s2_def s1_def activity_def Let_def grow1)
  have mm: "r = (case ao of None \<Rightarrow> Some (Inl ''mmap failed'')
     | Some p \<Rightarrow> map_option (\<lambda>r. case r of Inl e \<Rightarrow> Inl e
         | Inr (count, t) \<Rightarrow> Inr (p, s3\<lparr>page_count := count, table := t\<rparr>))
        (map_loop pagemap_modify p 0 sz (page_count s3) (table s3)))"
    using sz room r s3 unfolding mem_map_def and_page_mask Let_def s2_def [symmetric]
    by (simp add: dvd_eq_mod_eq_0)
  show ?thesis
  proof (cases ao)
    case None
    then show ?thesis using mm s3 by (simp add: s2_def)
  next
    case (Some a)
    have a: "mmap (calls s2) (dom (mem s2)) sz = Some a"
      and s3': "s3 = s2\<lparr>calls := calls s2 + 1, mem := (\<lambda>x. if a \<le> x \<and> x < a + sz \<and> 4 dvd x then Some 0 else mem s2 x)\<rparr>"
      using s3 Some by (auto simp: sys_mmap_def split: option.splits)
    have os': "0 < a" "APAGE_SIZE dvd a" "a + sz \<le> 2 ^ 47" "{a..<a + sz} \<inter> dom (mem s2) = {}"
      using os a sz(1) by (auto simp: os_ok_def)
    have fresh: "{a..<a + sz} \<inter> dom (mem s) = {}"
      using os'(4) s2(4) by (auto simp: dom_def)
    have disj: "q \<notin> pagemap_pages (table s)" if "q \<in> page_range a sz" for q
    proof
      assume "q \<in> pagemap_pages (table s)"
      moreover have q: "(APAGE_SIZE * q) div APAGE_SIZE = q" by simp
      moreover have "4 dvd APAGE_SIZE * q" by (simp add: APAGE_SIZE_def)
      ultimately have "mem s (APAGE_SIZE * q) \<noteq> None"
        using inv by (auto simp: memlib_inv_def)
      moreover have "a \<le> APAGE_SIZE * q \<and> APAGE_SIZE * q < a + sz"
        using page_range_iff [OF os'(2) sz(2), of "APAGE_SIZE * q"] that q by simp
      ultimately show False
        using fresh by (auto simp: dom_def)
    qed
    obtain b k where b: "a = APAGE_SIZE * b" and k: "sz = APAGE_SIZE * k"
      using os'(2) sz(2) by (auto elim!: dvdE)
    have k0: "0 \<le> k" "sz div APAGE_SIZE = k"
      using k sz(1) by (auto simp: APAGE_SIZE_def)
    have range: "page_range a sz = {b..<b + k}"
      using b k by (simp add: page_range_def distrib_left [symmetric])
    have "\<exists>t'. map_loop pagemap_modify a 0 (0 + APAGE_SIZE * int (nat k)) (page_count s) (table s) =
        Some (Inr (page_count s + int (nat k), t')) \<and> pagemap_inv t' \<and>
        pagemap_pages t' = pagemap_pages (table s) \<union> {b..<b + int (nat k)}"
      using inv os'(1) b disj room(2) k0 range
      by (intro pagemap.map_loop_ok) (auto simp: memlib_inv_def)
    then obtain t' where t': "map_loop pagemap_modify a 0 sz (page_count s) (table s) = Some (Inr (page_count s + k, t'))"
      "pagemap_inv t'" "pagemap_pages t' = pagemap_pages (table s) \<union> page_range a sz"
      using k0 k range by auto
    define s' where "s' = s3\<lparr>page_count := page_count s + k, table := t'\<rparr>"
    have rr: "r = Some (Inr (a, s'))"
      using mm Some t'(1) by (simp add: s3' s2 s'_def)
    have mem': "mem s' x = (if a \<le> x \<and> x < a + sz \<and> 4 dvd x then Some 0 else mem s2 x)" for x
      by (simp add: s'_def s3')
    have keep: "mem s' x = mem s x" if "mem s x \<noteq> None" for x
      using that s2(4) [OF that] fresh by (auto simp: mem' dom_def)
    have "memlib_inv s'"
      unfolding memlib_inv_def
    proof (intro conjI allI impI)
      show "pagemap_inv (table s')" "finite (pagemap_pages (table s'))" "0 \<le> activity_counter s'"
        using t' inv by (simp_all add: s'_def s3' s2 memlib_inv_def page_range_def)
      have "card (pagemap_pages (table s) \<union> page_range a sz) = card (pagemap_pages (table s)) + nat k"
        using disj inv range by (subst card_Un_disjoint) (auto simp: memlib_inv_def)
      then show "page_count s' = int (card (pagemap_pages (table s')))"
        using inv t'(3) k0 by (simp add: s'_def memlib_inv_def)
      fix x assume x: "x div APAGE_SIZE \<in> pagemap_pages (table s')" "4 dvd x"
      then consider "x div APAGE_SIZE \<in> pagemap_pages (table s)" | "a \<le> x" "x < a + sz"
        using t'(3) page_range_iff [OF os'(2) sz(2), of x] by (auto simp: s'_def)
      then show "mem s' x \<noteq> None"
      proof cases
        case 1
        then show ?thesis using inv x(2) keep by (auto simp: memlib_inv_def)
      next
        case 2
        then show ?thesis using x(2) by (simp add: mem')
      qed
    qed
    moreover have "pagemap_pages (table s') = pagemap_pages (table s) \<union> page_range a sz"
      using t'(3) by (simp add: s'_def)
    moreover have "pagemap_pages (table s) \<inter> page_range a sz = {}"
      using disj by auto
    moreover have "activity_counter s' = activity_counter s + 1"
      by (simp add: s'_def s3' s2)
    ultimately show ?thesis
      using rr os' fresh keep mem' by auto
  qed
qed

lemma mem_unmap_spec:
  assumes inv: "memlib_inv s" and p: "0 < p" "APAGE_SIZE dvd p" and sz: "0 \<le> sz" "APAGE_SIZE dvd sz"
    and mapped: "page_range p sz \<subseteq> pagemap_pages (table s)"
  shows "\<exists>s'. mem_unmap p sz s = Some (Inr s') \<and> memlib_inv s' \<and> mem s' = unmap_cells p sz (mem s) \<and>
    pagemap_pages (table s') = pagemap_pages (table s) - page_range p sz \<and>
    page_count s' = page_count s - sz div APAGE_SIZE \<and> activity_counter s' = activity_counter s"
proof -
  obtain b k where b: "p = APAGE_SIZE * b" and k: "sz = APAGE_SIZE * k"
    using p(2) sz(2) by (auto elim!: dvdE)
  have k0: "0 \<le> k" "sz div APAGE_SIZE = k"
    using k sz(1) by (auto simp: APAGE_SIZE_def)
  have range: "page_range p sz = {b..<b + k}"
    using b k by (simp add: page_range_def distrib_left [symmetric])
  have "\<exists>t'. unmap_loop pagemap_modify pagemap_is_mapped p 0 (0 + APAGE_SIZE * int (nat k)) (page_count s) (table s) =
      Some (Inr (page_count s - int (nat k), t')) \<and> pagemap_inv t' \<and>
      pagemap_pages t' = pagemap_pages (table s) - {b..<b + int (nat k)}"
    using inv p(1) b mapped range k0 by (intro pagemap.unmap_loop_ok) (auto simp: memlib_inv_def)
  then obtain t' where t': "unmap_loop pagemap_modify pagemap_is_mapped p 0 sz (page_count s) (table s) =
      Some (Inr (page_count s - k, t'))" "pagemap_inv t'" "pagemap_pages t' = pagemap_pages (table s) - page_range p sz"
    using k0 k range by auto
  define s' where "s' = munmap p sz (s\<lparr>page_count := page_count s - k, table := t'\<rparr>)"
  have "mem_unmap p sz s = Some (Inr s')"
    using p(2) sz(2) t'(1) by (simp add: mem_unmap_def and_page_mask dvd_eq_mod_eq_0 s'_def)
  moreover have "memlib_inv s'"
    unfolding memlib_inv_def
  proof (intro conjI allI impI)
    show "pagemap_inv (table s')" "finite (pagemap_pages (table s'))" "0 \<le> activity_counter s'"
      using t' inv by (simp_all add: s'_def munmap_def memlib_inv_def)
    have "card (pagemap_pages (table s) - page_range p sz) = card (pagemap_pages (table s)) - nat k"
      using mapped range by (subst card_Diff_subset) auto
    moreover have "card (page_range p sz) \<le> card (pagemap_pages (table s))"
      using inv mapped by (intro card_mono) (auto simp: memlib_inv_def)
    ultimately show "page_count s' = int (card (pagemap_pages (table s')))"
      using inv t'(3) k0 range by (simp add: s'_def munmap_def memlib_inv_def of_nat_diff)
    fix x assume x: "x div APAGE_SIZE \<in> pagemap_pages (table s')" "4 dvd x"
    then have "x div APAGE_SIZE \<in> pagemap_pages (table s)" "\<not> (p \<le> x \<and> x < p + sz)"
      using t'(3) page_range_iff [OF p(2) sz(2), of x] by (auto simp: s'_def munmap_def)
    then show "mem s' x \<noteq> None"
      using inv x(2) by (auto simp: s'_def munmap_def unmap_cells_def memlib_inv_def)
  qed
  ultimately show ?thesis
    using t'(3) k0 by (simp add: s'_def munmap_def)
qed

lemma fold_unmap:
  "table (fold unmap L s) = table s \<and> page_count (fold unmap L s) = page_count s \<and>
   (\<forall>x. mem (fold unmap L s) x = None \<or> mem (fold unmap L s) x = mem s x)"
proof (induction L arbitrary: s)
  case (Cons a L)
  have "mem (unmap a s) x = None \<or> mem (unmap a s) x = mem s x" for x
    by (simp add: unmap_def munmap_def unmap_cells_def)
  moreover have "table (unmap a s) = table s" "page_count (unmap a s) = page_count s"
    by (simp_all add: unmap_def munmap_def)
  ultimately show ?case
    using Cons [of "unmap a s"] by (simp, metis)
qed simp

section \<open>The properties\<close>

text \<open>An operating system for the examples: the \<open>n\<close>th call maps at the \<open>n + 1\<close>st multiple of 16 MB, when that is free.\<close>

definition sample_mmap :: mmap where
  "sample_mmap n S sz =
     (let a = 16777216 * int (n + 1)
      in if sz \<le> 16777216 \<and> n < 1000 \<and> {a..<a + sz} \<inter> S = {} then Some a else None)"

lemma sample_mmap_ok: "os_ok sample_mmap"
  by (auto simp: os_ok_def sample_mmap_def Let_def APAGE_SIZE_def split: if_splits)

text \<open>C8. \<open>mem_map\<close> of a positive number of whole pages, while the counters of calls and pages stay within \<open>int\<close>, either fails because \<open>mmap\<close> does, or returns a
  page-aligned range of zero cells that overlaps nothing mapped before, records exactly its pages,
  keeps the invariant that the page count is the number of recorded pages and that these are
  mapped, and leaves all other memory as it was; it neither aborts in the page table nor leaves it.\<close>

theorem mem_map_fresh:
  assumes "os_ok mmap" "memlib_inv s" "0 < sz" "APAGE_SIZE dvd sz"
    and "activity_counter s < INT_MAX" "page_count s + sz div APAGE_SIZE \<le> INT_MAX"
  shows "(mem_map mmap sz s = Some (Inl ''mmap failed'') \<and> fst (sys_mmap mmap sz (activity mmap s)) = None) \<or>
    (\<exists>a s'. mem_map mmap sz s = Some (Inr (a, s')) \<and> memlib_inv s' \<and> 0 < a \<and> APAGE_SIZE dvd a \<and> a + sz \<le> 2 ^ 47 \<and>
       {a..<a + sz} \<inter> dom (mem s) = {} \<and>
       (\<forall>x. a \<le> x \<longrightarrow> x < a + sz \<longrightarrow> 4 dvd x \<longrightarrow> mem s' x = Some 0) \<and>
       (\<forall>x. mem s x \<noteq> None \<longrightarrow> mem s' x = mem s x) \<and>
       pagemap_pages (table s') = pagemap_pages (table s) \<union> page_range a sz \<and>
       pagemap_pages (table s) \<inter> page_range a sz = {} \<and>
       activity_counter s' = activity_counter s + 1)"
  using mem_map_spec [OF assms refl] .

lemma sample_maps: "fst (sys_mmap sample_mmap 8192 (activity sample_mmap memlib0)) \<noteq> None"
  by (auto simp: activity_def APAGE_SIZE_def sys_mmap_def sample_mmap_def memlib0_def Let_def dom_def)

theorem mem_map_fresh_witness:
  "\<exists>a s'. mem_map sample_mmap 8192 memlib0 = Some (Inr (a, s')) \<and> memlib_inv s' \<and> mem s' a = Some 0 \<and>
    pagemap_pages (table s') = page_range a 8192"
proof -
  have "4 dvd a" if "APAGE_SIZE dvd a" for a
    using that by (rule dvd_trans [rotated]) (simp add: APAGE_SIZE_def)
  then show ?thesis
    using mem_map_fresh [OF sample_mmap_ok memlib0_inv, of 8192] sample_maps memlib0_pages
    by (auto simp: APAGE_SIZE_def memlib0_def INT_MAX_def)
qed

text \<open>C9. Unmapping what \<open>mem_map\<close> returned succeeds and undoes it: the page table and the page count
  are as before, the invariant holds, the range is no longer mapped, and memory that was mapped
  before has kept its contents.\<close>

theorem mem_map_unmap:
  assumes "os_ok mmap" "memlib_inv s" "0 < sz" "APAGE_SIZE dvd sz"
    and "activity_counter s < INT_MAX" "page_count s + sz div APAGE_SIZE \<le> INT_MAX"
    and "mem_map mmap sz s = Some (Inr (a, s'))"
  shows "\<exists>s''. mem_unmap a sz s' = Some (Inr s'') \<and> memlib_inv s'' \<and>
    pagemap_pages (table s'') = pagemap_pages (table s) \<and> page_count s'' = page_count s \<and>
    (\<forall>x. a \<le> x \<longrightarrow> x < a + sz \<longrightarrow> mem s'' x = None) \<and>
    (\<forall>x. mem s x \<noteq> None \<longrightarrow> mem s'' x = mem s x)"
proof -
  have spec: "memlib_inv s'" "0 < a" "APAGE_SIZE dvd a" "{a..<a + sz} \<inter> dom (mem s) = {}"
    "\<forall>x. mem s x \<noteq> None \<longrightarrow> mem s' x = mem s x"
    "pagemap_pages (table s') = pagemap_pages (table s) \<union> page_range a sz"
    "pagemap_pages (table s) \<inter> page_range a sz = {}"
    using mem_map_spec [OF assms(1-6) assms(7)] by auto
  have "page_range a sz \<subseteq> pagemap_pages (table s')"
    using spec(6) by blast
  then obtain s'' where s'': "mem_unmap a sz s' = Some (Inr s'')" "memlib_inv s''"
    "mem s'' = unmap_cells a sz (mem s')" "pagemap_pages (table s'') = pagemap_pages (table s') - page_range a sz"
    using mem_unmap_spec [OF spec(1-3) _ assms(4)] assms(3) by auto
  moreover have pages: "pagemap_pages (table s'') = pagemap_pages (table s)"
    using s''(4) spec(6,7) by auto
  moreover have "page_count s'' = page_count s"
    using s''(2) assms(2) pages by (simp add: memlib_inv_def)
  moreover have "mem s'' x = mem s x" if "mem s x \<noteq> None" for x
    using that spec(4,5) s''(3) by (auto simp: unmap_cells_def dom_def)
  ultimately show ?thesis
    by (simp add: unmap_cells_def)
qed

theorem mem_map_unmap_witness:
  "\<exists>a s' s''. mem_map sample_mmap 8192 memlib0 = Some (Inr (a, s')) \<and> mem_unmap a 8192 s' = Some (Inr s'') \<and>
    pagemap_pages (table s'') = {} \<and> page_count s'' = 0"
proof -
  have h: "0 < (8192::int)" "APAGE_SIZE dvd 8192" "activity_counter memlib0 < INT_MAX"
    "page_count memlib0 + 8192 div APAGE_SIZE \<le> INT_MAX"
    by (simp_all add: APAGE_SIZE_def memlib0_def INT_MAX_def)
  obtain a s' where "mem_map sample_mmap 8192 memlib0 = Some (Inr (a, s'))"
    using mem_map_spec [OF sample_mmap_ok memlib0_inv h refl] sample_maps by auto
  then show ?thesis
    using mem_map_unmap [OF sample_mmap_ok memlib0_inv h] memlib0_pages by (force simp: memlib0_def)
qed

text \<open>\<open>mem_reset\<close> releases every recorded page: it succeeds in any state the operations reach, and
  afterwards the table is empty, both counters are 0 and the invariant holds again.\<close>

lemma mem_reset_ok:
  assumes "memlib_inv s"
  shows "\<exists>s'. mem_reset s = Some (Inr s') \<and> memlib_inv s' \<and> pagemap_pages (table s') = {} \<and>
    page_count s' = 0 \<and> activity_counter s' = 0 \<and> (\<forall>x. mem s' x = None \<or> mem s' x = mem s x)"
proof -
  obtain L where L: "pagemap_ok (table s) L" "\<forall>a\<in>set L. 0 < a"
    using assms by (auto simp: memlib_inv_def pagemap_inv_def)
  have "page_ref a = page_ref b \<longleftrightarrow> a div APAGE_SIZE = b div APAGE_SIZE" if "a \<in> set L" "b \<in> set L" for a b
    using page_ref_eq_iff [of a b] L(2) that by force
  then have "distinct (map (\<lambda>a. a div APAGE_SIZE) L)"
    using L(1) by (auto simp: pagemap_ok_def pages_ok_def distinct_map inj_on_def)
  then have "card (pagemap_pages (table s)) = length L"
    unfolding pagemap_pages_list [OF L] by (metis distinct_card length_map set_map)
  then have len: "length L \<le> nat (page_count s)"
    using assms by (simp add: memlib_inv_def)
  obtain pm where pm: "for_each_loop (nat (page_count s)) unmap (all_mapped_pages (table s)) (table s) s = Some (Inr (pm, fold unmap L s))"
    "pagemap_ok pm []"
    using for_each_ok [OF L(1) len, of unmap s] by auto
  have "pm\<lparr>all_mapped_pages := None\<rparr> = pm"
    using pm(2) by (cases pm) (simp add: pagemap_ok_def pages_ok_def)
  then have r: "mem_reset s = Some (Inr ((fold unmap L s)\<lparr>table := pm, page_count := 0, activity_counter := 0\<rparr>))"
    using pm(1) by (simp add: mem_reset_def pagemap_for_each_def)
  moreover have "pagemap_pages pm = {}" "pagemap_inv pm"
    using pagemap_pages_list [OF pm(2)] pm(2) by (auto simp: pagemap_inv_def)
  ultimately show ?thesis
    using fold_unmap [of L s] by (auto simp: memlib_inv_def)
qed

end
