(* ===== verification/MM.thy ===== *)
theory MM
  imports Memlib
begin

text \<open>
  The allocator \<open>Malloclab/mm.c\<close>: an explicit doubly linked free list with first fit, boundary
  tags, immediate coalescing, and pages that are returned when they become empty. The heap is the
  cell memory of \<open>Memlib\<close>: a tag is one 4 byte cell, a pointer two cells, so that tags, list nodes
  and payload share one memory. \<open>None\<close> is undefined behaviour, in particular any access to memory
  that is not mapped or not aligned, and a loop that does not end.
\<close>

unbundle bit_operations_syntax

section \<open>State and memory access\<close>

record mm =
  lib :: memlib
  free_list_ptr :: int

definition cells :: "mm \<Rightarrow> mem" where
  "cells st = mem (lib st)"

definition set_cells :: "mem \<Rightarrow> mm \<Rightarrow> mm" where
  "set_cells m st = st\<lparr>lib := (lib st)\<lparr>mem := m\<rparr>\<rparr>"

text \<open>Conversions to \<open>int\<close> and to \<open>size_t\<close>.\<close>

definition to_int :: "int \<Rightarrow> int" where
  "to_int x = sint (word_of_int x :: 32 word)"

definition to_size :: "int \<Rightarrow> int" where
  "to_size x = x mod 2 ^ 64"

definition GET :: "int \<Rightarrow> mm \<Rightarrow> int option" where
  "GET p st = map_option sint (cells st p)"

definition PUT :: "int \<Rightarrow> int \<Rightarrow> mm \<Rightarrow> mm option" where
  "PUT p v st = (if cells st p = None then None else Some (set_cells ((cells st)(p := Some (word_of_int v))) st))"

definition GET_PTR :: "int \<Rightarrow> mm \<Rightarrow> int option" where
  "GET_PTR p st = do { lo \<leftarrow> cells st p; hi \<leftarrow> cells st (p + 4); Some (uint lo + 2 ^ 32 * uint hi) }"

definition PUT_PTR :: "int \<Rightarrow> int \<Rightarrow> mm \<Rightarrow> mm option" where
  "PUT_PTR p v st = do { st \<leftarrow> PUT p v st; PUT (p + 4) (v div 2 ^ 32) st }"

definition ALIGNMENT :: int where "ALIGNMENT = 16"

definition ALIGN :: "int \<Rightarrow> int" where
  "ALIGN sz = to_size (sz + (ALIGNMENT - 1)) AND NOT (ALIGNMENT - 1)"

definition PAGE_ALIGN :: "int \<Rightarrow> int" where
  "PAGE_ALIGN sz = to_size (sz + (mem_pagesize - 1)) AND NOT (mem_pagesize - 1)"

definition OVERHEAD :: int where "OVERHEAD = 8"

definition PRE_OCCUPIED :: int where "PRE_OCCUPIED = 2 * OVERHEAD"

definition PACK :: "int \<Rightarrow> int \<Rightarrow> int" where
  "PACK sz alloc = sz OR alloc"

definition HDPR :: "int \<Rightarrow> int" where "HDPR bp = bp - 4"

definition GET_SIZE :: "int \<Rightarrow> mm \<Rightarrow> int option" where
  "GET_SIZE p st = map_option (\<lambda>v. v AND NOT 7) (GET p st)"

definition GET_ALLOC :: "int \<Rightarrow> mm \<Rightarrow> int option" where
  "GET_ALLOC p st = map_option (\<lambda>v. v AND 1) (GET p st)"

definition NEXT_BLKP :: "int \<Rightarrow> mm \<Rightarrow> int option" where
  "NEXT_BLKP bp st = do { s \<leftarrow> GET_SIZE (HDPR bp) st; Some (bp + s) }"

definition PREV_BLKP :: "int \<Rightarrow> mm \<Rightarrow> int option" where
  "PREV_BLKP bp st = do { s \<leftarrow> GET_SIZE (bp - OVERHEAD) st; Some (bp - s) }"

definition FTRP :: "int \<Rightarrow> mm \<Rightarrow> int option" where
  "FTRP bp st = do { s \<leftarrow> GET_SIZE (HDPR bp) st; Some (bp + s - OVERHEAD) }"

text \<open>The fields \<open>prev\<close> and \<open>next\<close> of a \<open>list_node\<close> of 16 bytes.\<close>

definition PREV_NODE :: "int \<Rightarrow> mm \<Rightarrow> int option" where
  "PREV_NODE node st = GET_PTR node st"

definition NEXT_NODE :: "int \<Rightarrow> mm \<Rightarrow> int option" where
  "NEXT_NODE node st = GET_PTR (node + 8) st"

definition SET_PREV :: "int \<Rightarrow> int \<Rightarrow> mm \<Rightarrow> mm option" where
  "SET_PREV node v st = PUT_PTR node v st"

definition SET_NEXT :: "int \<Rightarrow> int \<Rightarrow> mm \<Rightarrow> mm option" where
  "SET_NEXT node v st = PUT_PTR (node + 8) v st"

definition list_node_size :: int where "list_node_size = 16"

definition PUT_HDR :: "int \<Rightarrow> int \<Rightarrow> int \<Rightarrow> mm \<Rightarrow> mm option" where
  "PUT_HDR bp sz alloc st = PUT (HDPR bp) (PACK sz alloc) st"

definition PUT_FTR :: "int \<Rightarrow> int \<Rightarrow> int \<Rightarrow> mm \<Rightarrow> mm option" where
  "PUT_FTR bp sz alloc st = do { f \<leftarrow> FTRP bp st; PUT f (PACK sz alloc) st }"

section \<open>The operations\<close>

definition page_set_up :: "int \<Rightarrow> int \<Rightarrow> mm \<Rightarrow> (int \<times> mm) option" where
  "page_set_up bp new_page_size st =
    (let this_size = to_int new_page_size;
         this_size = to_int (this_size - PRE_OCCUPIED);
         bp = bp + OVERHEAD div 2
     in do {
       st \<leftarrow> PUT bp (PACK 8 1) st;
       let bp = bp + OVERHEAD div 2;
       st \<leftarrow> PUT bp (PACK 8 1) st;
       let bp = bp + OVERHEAD div 2;
       st \<leftarrow> PUT bp (PACK this_size 0) st;
       let bp = bp + OVERHEAD div 2;
       st \<leftarrow> PUT_FTR bp this_size 0 st;
       f \<leftarrow> FTRP bp st;
       st \<leftarrow> PUT (f + OVERHEAD div 2) (PACK 0 1) st;
       Some (bp, st)
     })"

definition mm_init :: "mm \<Rightarrow> mm" where
  "mm_init st = st\<lparr>free_list_ptr := 0\<rparr>"

definition add_to_free_list :: "int \<Rightarrow> mm \<Rightarrow> mm option" where
  "add_to_free_list bp st =
    (if free_list_ptr st = 0 then
       let st = st\<lparr>free_list_ptr := bp\<rparr> in
       do {
         st \<leftarrow> SET_PREV (free_list_ptr st) 0 st;
         SET_NEXT (free_list_ptr st) 0 st
       }
     else do {
       st \<leftarrow> SET_NEXT bp (free_list_ptr st) st;
       st \<leftarrow> SET_PREV bp 0 st;
       st \<leftarrow> SET_PREV (free_list_ptr st) bp st;
       Some (st\<lparr>free_list_ptr := bp\<rparr>)
     })"

definition remove_from_free_list :: "int \<Rightarrow> mm \<Rightarrow> mm option" where
  "remove_from_free_list bp st =
    do {
      st \<leftarrow> (if bp = free_list_ptr st then
               do {
                 p \<leftarrow> PREV_NODE bp st;
                 n \<leftarrow> NEXT_NODE bp st;
                 Some (st\<lparr>free_list_ptr := (if p \<noteq> 0 then p else if n \<noteq> 0 then n else 0)\<rparr>)
               }
             else Some st);
      n \<leftarrow> NEXT_NODE bp st;
      st \<leftarrow> (if n \<noteq> 0 then do { p \<leftarrow> PREV_NODE bp st; SET_PREV n p st } else Some st);
      p \<leftarrow> PREV_NODE bp st;
      (if p \<noteq> 0 then do { n \<leftarrow> NEXT_NODE bp st; SET_NEXT p n st } else Some st)
    }"

definition set_allocated :: "int \<Rightarrow> int \<Rightarrow> mm \<Rightarrow> mm option" where
  "set_allocated bp sz st =
    do {
      full_size \<leftarrow> map_option to_size (GET_SIZE (HDPR bp) st);
      let extra_size = to_size (full_size - sz);
      if extra_size > ALIGN (1 + OVERHEAD) then do {
        st \<leftarrow> PUT_HDR bp sz 1 st;
        st \<leftarrow> PUT_FTR bp sz 1 st;
        st \<leftarrow> remove_from_free_list bp st;
        bp \<leftarrow> NEXT_BLKP bp st;
        st \<leftarrow> PUT_HDR bp extra_size 0 st;
        st \<leftarrow> PUT_FTR bp extra_size 0 st;
        add_to_free_list bp st
      } else do {
        st \<leftarrow> PUT_HDR bp full_size 1 st;
        st \<leftarrow> PUT_FTR bp full_size 1 st;
        remove_from_free_list bp st
      }
    }"

text \<open>The sum of two values of type \<open>int\<close>.\<close>

definition int_sum :: "int \<Rightarrow> int \<Rightarrow> int option" where
  "int_sum a b = (if - INT_MAX - 1 \<le> a + b \<and> a + b \<le> INT_MAX then Some (a + b) else None)"

definition coalesce :: "int \<Rightarrow> mm \<Rightarrow> (int \<times> mm) option" where
  "coalesce bp st =
    do {
      sz \<leftarrow> map_option to_size (GET_SIZE (HDPR bp) st);
      f \<leftarrow> FTRP bp st;
      let terminator = f + OVERHEAD div 2;
      let prologue = HDPR bp - OVERHEAD div 2;
      pa \<leftarrow> GET_ALLOC prologue st;
      ps \<leftarrow> GET_SIZE prologue st;
      prev_alloc \<leftarrow> (if pa \<noteq> 0 \<and> ps = OVERHEAD then Some 1
                      else do { q \<leftarrow> PREV_BLKP bp st; GET_ALLOC (HDPR q) st });
      ta \<leftarrow> GET_ALLOC terminator st;
      ts \<leftarrow> GET_SIZE terminator st;
      next_alloc \<leftarrow> (if ta \<noteq> 0 \<and> ts = 0 then Some 1
                      else do { q \<leftarrow> NEXT_BLKP bp st; GET_ALLOC (HDPR q) st });
      if prev_alloc \<noteq> 0 \<and> next_alloc \<noteq> 0 then do {
        st \<leftarrow> add_to_free_list bp st;
        Some (bp, st)
      }
      else if prev_alloc \<noteq> 0 \<and> next_alloc = 0 then do {
        q \<leftarrow> NEXT_BLKP bp st;
        st \<leftarrow> remove_from_free_list q st;
        q \<leftarrow> NEXT_BLKP bp st;
        s \<leftarrow> GET_SIZE (HDPR q) st;
        let sz = to_size (sz + s);
        st \<leftarrow> PUT_HDR bp sz 0 st;
        st \<leftarrow> PUT_FTR bp sz 0 st;
        st \<leftarrow> add_to_free_list bp st;
        Some (bp, st)
      }
      else if prev_alloc = 0 \<and> next_alloc \<noteq> 0 then do {
        q \<leftarrow> PREV_BLKP bp st;
        s \<leftarrow> GET_SIZE (HDPR q) st;
        let sz = to_size (sz + s);
        q \<leftarrow> PREV_BLKP bp st;
        st \<leftarrow> PUT_HDR q sz 0 st;
        st \<leftarrow> PUT_FTR bp sz 0 st;
        q \<leftarrow> PREV_BLKP bp st;
        Some (q, st)
      }
      else do {
        q \<leftarrow> NEXT_BLKP bp st;
        st \<leftarrow> remove_from_free_list q st;
        p \<leftarrow> PREV_BLKP bp st;
        s \<leftarrow> GET_SIZE (HDPR p) st;
        q \<leftarrow> NEXT_BLKP bp st;
        s' \<leftarrow> GET_SIZE (HDPR q) st;
        t \<leftarrow> int_sum s s';
        let sz = to_size (sz + t);
        p \<leftarrow> PREV_BLKP bp st;
        st \<leftarrow> PUT_HDR p sz 0 st;
        q \<leftarrow> NEXT_BLKP bp st;
        st \<leftarrow> PUT_FTR q sz 0 st;
        p \<leftarrow> PREV_BLKP bp st;
        Some (p, st)
      }
    }"

definition extend :: "mmap \<Rightarrow> int \<Rightarrow> mm \<Rightarrow> (string + int \<times> mm) option" where
  "extend mmap sz st =
    (let fit_size = max mem_pagesize sz;
         needed_size = PAGE_ALIGN (to_size (fit_size * 16))
     in do {
       r \<leftarrow> mem_map mmap needed_size (lib st);
       (case r of
          Inl e \<Rightarrow> Some (Inl e)
        | Inr (bp, l) \<Rightarrow> do {
            st \<leftarrow> PUT bp (PACK 0 0) (st\<lparr>lib := l\<rparr>);
            (bp, st) \<leftarrow> page_set_up bp needed_size st;
            st \<leftarrow> add_to_free_list bp st;
            Some (Inr (bp, st))
          })
     })"

text \<open>The first-fit search from \<open>bp\<close>; 0 when the list ends.\<close>

partial_function (option) find_fit :: "int \<Rightarrow> int \<Rightarrow> mm \<Rightarrow> int option" where
  "find_fit bp new_size st =
    (if bp = 0 then Some 0
     else do {
       a \<leftarrow> GET_ALLOC (HDPR bp) st;
       s \<leftarrow> GET_SIZE (HDPR bp) st;
       if a = 0 \<and> new_size \<le> s then Some bp
       else do { n \<leftarrow> NEXT_NODE bp st; find_fit n new_size st }
     })"

definition mm_malloc :: "mmap \<Rightarrow> int \<Rightarrow> mm \<Rightarrow> (string + int \<times> mm) option" where
  "mm_malloc mmap sz st =
    (if sz = 0 then Some (Inr (0, st))
     else
       let needed_size = to_int (max sz list_node_size);
           new_size = to_int (ALIGN (to_size (needed_size + OVERHEAD)))
       in do {
         bp \<leftarrow> find_fit (free_list_ptr st) new_size st;
         if bp \<noteq> 0 then do {
           st \<leftarrow> set_allocated bp (to_size new_size) st;
           Some (Inr (bp, st))
         }
         else do {
           r \<leftarrow> extend mmap (to_size new_size) st;
           (case r of
              Inl e \<Rightarrow> Some (Inl e)
            | Inr (bp, st) \<Rightarrow> do {
                st \<leftarrow> set_allocated bp (to_size new_size) st;
                Some (Inr (bp, st))
              })
         }
       })"

definition mm_free :: "int \<Rightarrow> mm \<Rightarrow> (string + mm) option" where
  "mm_free bp st =
    do {
      this_alloc \<leftarrow> GET_ALLOC (HDPR bp) st;
      if this_alloc = 1 then do {
        sz \<leftarrow> map_option to_size (GET_SIZE (HDPR bp) st);
        st \<leftarrow> PUT_HDR bp sz 0 st;
        st \<leftarrow> PUT_FTR bp sz 0 st;
        (bp, st) \<leftarrow> coalesce bp st;
        let first_pp = HDPR bp - OVERHEAD div 2 - OVERHEAD;
        let prologue_header = HDPR bp - OVERHEAD;
        let prologue_footer = HDPR bp - OVERHEAD div 2;
        f \<leftarrow> FTRP bp st;
        let terminator = f + OVERHEAD div 2;
        fs \<leftarrow> GET_SIZE prologue_footer st;
        fa \<leftarrow> GET_ALLOC prologue_footer st;
        if fs = OVERHEAD \<and> fa \<noteq> 0 then do {
          hs \<leftarrow> GET_SIZE prologue_header st;
          ha \<leftarrow> GET_ALLOC prologue_header st;
          if hs = OVERHEAD \<and> ha \<noteq> 0 then do {
            ta \<leftarrow> GET_ALLOC terminator st;
            ts \<leftarrow> GET_SIZE terminator st;
            if ta \<noteq> 0 \<and> ts = 0 then do {
              st \<leftarrow> remove_from_free_list bp st;
              s \<leftarrow> GET_SIZE (HDPR bp) st;
              r \<leftarrow> mem_unmap first_pp (to_size (s + PRE_OCCUPIED)) (lib st);
              (case r of Inl e \<Rightarrow> Some (Inl e) | Inr l \<Rightarrow> Some (Inr (st\<lparr>lib := l\<rparr>)))
            } else Some (Inr st)
          } else Some (Inr st)
        } else Some (Inr st)
      } else Some (Inr st)
    }"

end
