(* ===== verification/Free_List.thy ===== *)
theory Free_List
  imports MM
begin

text \<open>
  The two data structures that \<open>MM\<close> keeps in its cells, one word at a time: boundary tags, and the
  nodes of the free list. The list operations of the code are shown to push and unlink in the
  sense of \<open>DList\<close> and to change nothing but the nodes of the list.
\<close>

unbundle bit_operations_syntax

section \<open>States that differ in memory and list head\<close>

definition mk :: "mm \<Rightarrow> mem \<Rightarrow> int \<Rightarrow> mm" where
  "mk st m h = st\<lparr>lib := (lib st)\<lparr>mem := m\<rparr>, free_list_ptr := h\<rparr>"

lemma mk_simps [simp]:
  "cells (mk st m h) = m" "free_list_ptr (mk st m h) = h" "mk (mk st m h) m' h' = mk st m' h'"
  "set_cells m' (mk st m h) = mk st m' h" "(mk st m h)\<lparr>free_list_ptr := h'\<rparr> = mk st m h'"
  "lib (mk st m h) = (lib st)\<lparr>mem := m\<rparr>"
  by (simp_all add: mk_def cells_def set_cells_def)

lemma mk_self: "mk st (cells st) (free_list_ptr st) = st"
  by (simp add: mk_def cells_def)

lemma GET_mk [simp]: "GET p (mk st m h) = map_option sint (m p)"
  by (simp add: GET_def)

lemma PUT_mk [simp]:
  "PUT p v (mk st m h) = (if m p = None then None else Some (mk st (m(p := Some (word_of_int v))) h))"
  by (simp add: PUT_def)

section \<open>Tags\<close>

definition tag :: "int \<Rightarrow> bool \<Rightarrow> 32 word" where
  "tag s a = word_of_int (PACK s (of_bool a))"

lemma and_not_7: "x AND NOT 7 = x - x mod 8" for x :: int
proof -
  have "x AND NOT (mask 3) = push_bit 3 (drop_bit 3 x)"
    by (rule bit_eqI) (auto simp: bit_simps)
  moreover have "push_bit 3 (drop_bit 3 x) + take_bit 3 x = x"
    by (rule bits_ident)
  moreover have "mask 3 = (7 :: int)"
    by (simp add: mask_eq_exp_minus_1)
  ultimately show ?thesis
    by (simp add: take_bit_eq_mod)
qed

lemma and_minus_8: "x AND - 8 = x - x mod 8" for x :: int
  using and_not_7 [of x] by simp

lemma or_1: "8 dvd x \<Longrightarrow> x OR 1 = x + 1" for x :: int
  by (auto simp: or_one_eq elim!: dvdE)

definition size_ok :: "int \<Rightarrow> bool" where
  "size_ok s \<longleftrightarrow> 0 \<le> s \<and> s < 2 ^ 31 \<and> 8 dvd s"

lemma sint_word: "- (2 ^ 31) \<le> x \<Longrightarrow> x < 2 ^ 31 \<Longrightarrow> sint (word_of_int x :: 32 word) = x"
  by (simp add: sint_sbintrunc' signed_take_bit_int_eq_self)

lemma sint_tag: "size_ok s \<Longrightarrow> sint (tag s a) = s + of_bool a"
  proof -
  assume s: "size_ok s"
  then have "PACK s (of_bool a) = s + of_bool a"
    by (simp add: PACK_def size_ok_def or_1)
  moreover have "s + of_bool a < 2 ^ 31"
    using s by (auto simp: size_ok_def elim!: dvdE)
  ultimately show ?thesis
    using s by (simp add: tag_def size_ok_def sint_word del: of_int_add)
qed

lemma tag_fields:
  assumes "size_ok s"
  shows "sint (tag s a) AND NOT 7 = s" "sint (tag s a) AND 1 = of_bool a"
proof -
  have "(s + of_bool a) mod 8 = of_bool a"
    using assms by (auto simp: size_ok_def elim!: dvdE)
  then show "sint (tag s a) AND NOT 7 = s"
    by (simp add: sint_tag [OF assms] and_minus_8)
  show "sint (tag s a) AND 1 = of_bool a"
    using assms by (auto simp: sint_tag and_one_eq size_ok_def elim!: dvdE) presburger
qed

lemma GET_SIZE_tag [simp]: "m p = Some (tag s a) \<Longrightarrow> size_ok s \<Longrightarrow> GET_SIZE p (mk st m h) = Some s"
  using tag_fields(1) [of s a] by (simp add: GET_SIZE_def)

lemma GET_ALLOC_tag [simp]: "m p = Some (tag s a) \<Longrightarrow> size_ok s \<Longrightarrow> GET_ALLOC p (mk st m h) = Some (of_bool a)"
  by (simp add: GET_ALLOC_def tag_fields)

lemma size_ok_simps [simp]: "size_ok 0" "size_ok 8"
  by (simp_all add: size_ok_def)

lemma to_size_ok [simp]: "size_ok s \<Longrightarrow> to_size s = s"
  by (simp add: to_size_def size_ok_def)

lemma PUT_HDR_mk:
  "m (bp - 4) \<noteq> None \<Longrightarrow> PUT_HDR bp s (of_bool a) (mk st m h) = Some (mk st (m(bp - 4 := Some (tag s a))) h)"
  by (simp add: PUT_HDR_def HDPR_def tag_def)

lemma PUT_FTR_mk:
  "m (bp - 4) = Some (tag s a) \<Longrightarrow> size_ok s \<Longrightarrow> m (bp + s - 8) \<noteq> None \<Longrightarrow>
   PUT_FTR bp s' (of_bool a') (mk st m h) = Some (mk st (m(bp + s - 8 := Some (tag s' a'))) h)"
  by (simp add: PUT_FTR_def FTRP_def HDPR_def OVERHEAD_def tag_def [of s'])

section \<open>Pointers\<close>

definition ptr :: "mem \<Rightarrow> int \<Rightarrow> int" where
  "ptr m a = (case m a of None \<Rightarrow> 0 | Some lo \<Rightarrow> (case m (a + 4) of None \<Rightarrow> 0 | Some hi \<Rightarrow> uint lo + 2 ^ 32 * uint hi))"

definition put_ptr :: "mem \<Rightarrow> int \<Rightarrow> int \<Rightarrow> mem" where
  "put_ptr m a v = m(a := Some (word_of_int v), a + 4 := Some (word_of_int (v div 2 ^ 32)))"

lemma ptr_put_same: "0 \<le> v \<Longrightarrow> v < 2 ^ 64 \<Longrightarrow> ptr (put_ptr m a v) a = v"
proof -
  assume v: "0 \<le> v" "v < 2 ^ 64"
  have "v div 2 ^ 32 < 2 ^ 32" "0 \<le> v div 2 ^ 32"
    using v by (auto simp: div_less_iff_less_mult pos_imp_zdiv_nonneg_iff)
  then have "v div 2 ^ 32 mod 2 ^ 32 = v div 2 ^ 32"
    by simp
  then show ?thesis
    by (simp add: ptr_def put_ptr_def uint_word_of_int)
qed

lemma ptr_put_other: "b \<noteq> a \<Longrightarrow> b + 4 \<noteq> a \<Longrightarrow> b \<noteq> a + 4 \<Longrightarrow> ptr (put_ptr m a v) b = ptr m b"
  by (simp add: ptr_def put_ptr_def cong: option.case_cong)

lemma put_ptr_frame: "x \<noteq> a \<Longrightarrow> x \<noteq> a + 4 \<Longrightarrow> put_ptr m a v x = m x"
  by (simp add: put_ptr_def)

lemma put_ptr_None [simp]: "m a \<noteq> None \<Longrightarrow> m (a + 4) \<noteq> None \<Longrightarrow> put_ptr m a v x = None \<longleftrightarrow> m x = None"
  by (auto simp: put_ptr_def)

lemma GET_PTR_mk: "m a \<noteq> None \<Longrightarrow> m (a + 4) \<noteq> None \<Longrightarrow> GET_PTR a (mk st m h) = Some (ptr m a)"
  by (auto simp: GET_PTR_def ptr_def)

lemma PUT_PTR_mk: "m a \<noteq> None \<Longrightarrow> m (a + 4) \<noteq> None \<Longrightarrow> PUT_PTR a v (mk st m h) = Some (mk st (put_ptr m a v) h)"
  by (simp add: PUT_PTR_def put_ptr_def)

section \<open>The free list\<close>

definition opt :: "int \<Rightarrow> int option" where
  "opt v = (if v = 0 then None else Some v)"

definition pv :: "mem \<Rightarrow> int \<Rightarrow> int option" where
  "pv m b = opt (ptr m b)"

definition nx :: "mem \<Rightarrow> int \<Rightarrow> int option" where
  "nx m b = opt (ptr m (b + 8))"

definition node_ok :: "mem \<Rightarrow> int \<Rightarrow> bool" where
  "node_ok m b \<longleftrightarrow> 16 dvd b \<and> 0 < b \<and> b < 2 ^ 64 \<and> m b \<noteq> None \<and> m (b + 4) \<noteq> None \<and> m (b + 8) \<noteq> None \<and> m (b + 12) \<noteq> None"

definition links_ok :: "mem \<Rightarrow> int \<Rightarrow> int list \<Rightarrow> bool" where
  "links_ok m h fl \<longleftrightarrow> distinct fl \<and> (\<forall>b\<in>set fl. node_ok m b) \<and> dll (pv m) (nx m) None (opt h) fl"

definition in_node :: "int \<Rightarrow> int \<Rightarrow> bool" where
  "in_node b x \<longleftrightarrow> b \<le> x \<and> x < b + 16"

lemma opt_Some: "opt v = Some w \<longleftrightarrow> v = w \<and> w \<noteq> 0"
  by (auto simp: opt_def)

lemma opt_None [simp]: "opt v = None \<longleftrightarrow> v = 0"
  by (simp add: opt_def)

lemma opt_0 [simp]: "opt 0 = None"
  by (simp add: opt_def)

lemma PREV_NODE_mk: "node_ok m b \<Longrightarrow> PREV_NODE b (mk st m h) = Some (ptr m b)"
  by (simp add: PREV_NODE_def GET_PTR_mk node_ok_def)

lemma NEXT_NODE_mk: "node_ok m b \<Longrightarrow> NEXT_NODE b (mk st m h) = Some (ptr m (b + 8))"
  by (simp add: NEXT_NODE_def GET_PTR_mk node_ok_def algebra_simps)

lemma SET_PREV_mk: "node_ok m b \<Longrightarrow> SET_PREV b v (mk st m h) = Some (mk st (put_ptr m b v) h)"
  by (simp add: SET_PREV_def PUT_PTR_mk node_ok_def)

lemma SET_NEXT_mk: "node_ok m b \<Longrightarrow> SET_NEXT b v (mk st m h) = Some (mk st (put_ptr m (b + 8) v) h)"
  by (simp add: SET_NEXT_def PUT_PTR_mk node_ok_def algebra_simps)

lemma node_ok_put [simp]:
  "node_ok m b \<Longrightarrow> node_ok (put_ptr m b v) c \<longleftrightarrow> node_ok m c"
  "node_ok m b \<Longrightarrow> node_ok (put_ptr m (b + 8) v) c \<longleftrightarrow> node_ok m c"
  by (auto simp: node_ok_def algebra_simps)

lemma node_put_None [simp]:
  "node_ok m b \<Longrightarrow> put_ptr m b v x = None \<longleftrightarrow> m x = None"
  "node_ok m b \<Longrightarrow> put_ptr m (b + 8) v x = None \<longleftrightarrow> m x = None"
  by (auto simp: node_ok_def put_ptr_def add.commute split: if_splits)

lemma nodes_apart: "node_ok m b \<Longrightarrow> node_ok m c \<Longrightarrow> b \<noteq> c \<Longrightarrow> b + 16 \<le> c \<or> c + 16 \<le> b"
proof -
  assume "node_ok m b" "node_ok m c" "b \<noteq> c"
  then have "16 dvd b" "16 dvd c" "b \<noteq> c"
    by (auto simp: node_ok_def)
  then show ?thesis by presburger
qed

text \<open>Setting a field of one node, as an update of the two field functions.\<close>

lemma set_fields:
  assumes "node_ok m b" "node_ok m c" "0 \<le> v" "v < 2 ^ 64"
  shows "pv (put_ptr m b v) c = ((pv m)(b := opt v)) c" "nx (put_ptr m b v) c = nx m c"
    "nx (put_ptr m (b + 8) v) c = ((nx m)(b := opt v)) c" "pv (put_ptr m (b + 8) v) c = pv m c"
proof -
  consider "b = c" | "b + 16 \<le> c" | "c + 16 \<le> b"
    using nodes_apart [OF assms(1,2)] by blast
  then show "pv (put_ptr m b v) c = ((pv m)(b := opt v)) c" "nx (put_ptr m b v) c = nx m c"
    "nx (put_ptr m (b + 8) v) c = ((nx m)(b := opt v)) c" "pv (put_ptr m (b + 8) v) c = pv m c"
    using assms(3,4) by (cases; auto simp: pv_def nx_def ptr_put_same ptr_put_other)+
qed

lemma add_to_free_list_mk:
  assumes links: "links_ok m h fl" and bp: "node_ok m bp" "bp \<notin> set fl"
  shows "\<exists>m'. add_to_free_list bp (mk st m h) = Some (mk st m' bp) \<and> links_ok m' bp (bp # fl) \<and>
    (\<forall>x. m' x = None \<longleftrightarrow> m x = None) \<and> (\<forall>x. (\<forall>b\<in>set (bp # fl). \<not> in_node b x) \<longrightarrow> m' x = m x)"
proof (cases fl)
  case Nil
  then have h: "h = 0"
    using links by (simp add: links_ok_def)
  let ?m = "put_ptr (put_ptr m bp 0) (bp + 8) 0"
  have n1: "node_ok (put_ptr m bp 0) bp"
    using bp by simp
  have "add_to_free_list bp (mk st m h) = Some (mk st ?m bp)"
    using bp by (simp add: add_to_free_list_def h SET_PREV_mk SET_NEXT_mk Let_def)
  moreover have "links_ok ?m bp [bp]"
    using bp n1 set_fields [OF n1 n1, of 0] set_fields [OF bp(1) bp(1), of 0]
    by (simp add: links_ok_def opt_def node_ok_def [of m bp])
  moreover have "\<not> in_node bp x \<Longrightarrow> ?m x = m x" for x
    by (auto simp: in_node_def put_ptr_def)
  moreover have "?m x = None \<longleftrightarrow> m x = None" for x
    using bp(1) n1 by simp
  ultimately show ?thesis
    using Nil by auto
next
  case (Cons f fs)
  then have hf: "h = f" "f \<noteq> 0" and f: "node_ok m f" and fb: "f \<noteq> bp"
    using links bp(2) by (auto simp: links_ok_def opt_Some)
  let ?m1 = "put_ptr m (bp + 8) f" and ?m2 = "put_ptr (put_ptr m (bp + 8) f) bp 0"
  let ?m3 = "put_ptr ?m2 f bp"
  have f64: "0 \<le> f" "f < 2 ^ 64" "0 \<le> bp" "bp < 2 ^ 64" "bp \<noteq> 0"
    using f bp(1) by (auto simp: node_ok_def)
  have n: "node_ok ?m1 c \<longleftrightarrow> node_ok m c" "node_ok ?m2 c \<longleftrightarrow> node_ok m c" "node_ok ?m3 c \<longleftrightarrow> node_ok m c" for c
    using bp(1) f by simp_all
  have "add_to_free_list bp (mk st m h) = Some (mk st ?m3 bp)"
    using bp(1) f hf n by (simp add: add_to_free_list_def SET_PREV_mk SET_NEXT_mk)
  moreover have "links_ok ?m3 bp (bp # fl)"
  proof -
    have "dll (pv m) (nx m) None (Some f) fl"
      using links hf by (simp add: links_ok_def opt_def)
    then have push: "dll (((pv m)(f := Some bp))(bp := None)) ((nx m)(bp := Some f)) None (Some bp) (bp # fl)"
      using dll_push [of "pv m" "nx m" "Some f" fl bp] links bp(2) by (simp add: links_ok_def)
    have "pv ?m3 c = (((pv m)(f := Some bp))(bp := None)) c \<and> nx ?m3 c = ((nx m)(bp := Some f)) c"
      if "c \<in> set (bp # fl)" for c
    proof -
      have c: "node_ok m c"
        using that links bp(1) by (auto simp: links_ok_def)
      show ?thesis
        using c f bp(1) f64 n fb hf(2)
        by (simp add: set_fields [where m = ?m2 and b = f] set_fields [where m = ?m1 and b = bp]
            set_fields [where m = m and b = bp] opt_def)
    qed
    then have "dll (pv ?m3) (nx ?m3) None (Some bp) (bp # fl)"
      by (rule dll_cong [THEN iffD2, OF _ push])
    then show ?thesis
      using links bp n f64 by (simp add: links_ok_def opt_def)
  qed
  moreover have "?m3 x = m x" if "\<forall>b\<in>set (bp # fl). \<not> in_node b x" for x
    using that Cons by (auto simp: in_node_def put_ptr_def)
  moreover have "?m3 x = None \<longleftrightarrow> m x = None" for x
    using bp(1) f n by simp
  ultimately show ?thesis by blast
qed

lemma ptr_range: "0 \<le> ptr m a \<and> ptr m a < 2 ^ 64"
proof -
  have "uint lo + 2 ^ 32 * uint hi < 2 ^ 64" for lo hi :: "32 word"
    using uint_lt2p [of lo] uint_lt2p [of hi] by simp
  then show ?thesis
    by (auto simp: ptr_def split: option.splits)
qed

lemma remove_from_free_list_mk:
  assumes links: "links_ok m h (xs @ bp # ys)"
  shows "\<exists>m' h'. remove_from_free_list bp (mk st m h) = Some (mk st m' h') \<and> links_ok m' h' (xs @ ys) \<and>
    (\<forall>x. m' x = None \<longleftrightarrow> m x = None) \<and> (\<forall>x. (\<forall>b\<in>set (xs @ ys). \<not> in_node b x) \<longrightarrow> m' x = m x)"
proof -
  have bp: "node_ok m bp" and dist: "distinct (xs @ bp # ys)" and nodes: "\<And>b. b \<in> set (xs @ ys) \<Longrightarrow> node_ok m b"
    and dll: "dll (pv m) (nx m) None (opt h) (xs @ bp # ys)"
    using links by (auto simp: links_ok_def)
  have prev: "ptr m bp = (if xs = [] then 0 else last xs)"
    using dll_node(1) [OF dll] by (auto simp: pv_def opt_def split: if_splits)
  have nxt: "ptr m (bp + 8) = (case ys of [] \<Rightarrow> 0 | y # _ \<Rightarrow> y)"
    using dll_node(2) [OF dll] by (cases ys) (auto simp: nx_def opt_def split: if_splits)
  have head: "bp = h \<longleftrightarrow> xs = []"
    using dll_head [OF dll] dist by (cases xs) (auto simp: opt_def split: if_splits)
  have pos: "b \<noteq> 0 \<and> 0 \<le> b \<and> b < 2 ^ 64 \<and> b \<noteq> bp" if "b \<in> set (xs @ ys)" for b
    using nodes [OF that] that dist by (auto simp: node_ok_def)
  have lastx: "xs \<noteq> [] \<Longrightarrow> last xs \<in> set (xs @ ys)"
    by simp
  define h' where "h' = (if xs = [] then ptr m (bp + 8) else h)"
  define m1 where "m1 = (case ys of [] \<Rightarrow> m | y # _ \<Rightarrow> put_ptr m y (ptr m bp))"
  define m2 where "m2 = (if xs = [] then m1 else put_ptr m1 (last xs + 8) (ptr m (bp + 8)))"
  have n1: "node_ok m1 c \<longleftrightarrow> node_ok m c" for c
    using nodes by (cases ys) (simp_all add: m1_def)
  have f1: "pv m1 c = (case nx m bp of None \<Rightarrow> pv m | Some n \<Rightarrow> (pv m)(n := pv m bp)) c" "nx m1 c = nx m c"
    if "node_ok m c" for c
    using set_fields [of m "hd ys" c "ptr m bp"] nodes [of "hd ys"] that ptr_range [of m bp] pos [of "hd ys"]
    by (cases ys; simp add: m1_def nx_def [of m bp] nxt opt_def pv_def [of m bp])+
  have f2: "pv m2 c = pv m1 c" "nx m2 c = (if xs = [] then nx m1 else (nx m1)(last xs := nx m bp)) c"
    if "node_ok m c" for c
    using set_fields [of m1 "last xs" c "ptr m (bp + 8)"] nodes [OF lastx] n1 that ptr_range [of m "bp + 8"]
    by (simp_all add: m2_def nx_def [of m bp])
  have ptr1: "ptr m1 bp = ptr m bp" "ptr m1 (bp + 8) = ptr m (bp + 8)"
    using nodes_apart [OF bp nodes [of "hd ys"]] pos [of "hd ys"]
    by (cases ys; auto simp: m1_def intro!: ptr_put_other)+
  have "remove_from_free_list bp (mk st m h) = Some (mk st m2 h')"
  proof -
    have s1: "(if bp = h then do { p \<leftarrow> PREV_NODE bp (mk st m h); n \<leftarrow> NEXT_NODE bp (mk st m h);
          Some (mk st m (if p \<noteq> 0 then p else if n \<noteq> 0 then n else 0)) } else Some (mk st m h)) = Some (mk st m h')"
      using head prev by (simp add: PREV_NODE_mk NEXT_NODE_mk bp h'_def)
    have s2: "(if ptr m (bp + 8) \<noteq> 0 then do { p \<leftarrow> PREV_NODE bp (mk st m h'); SET_PREV (ptr m (bp + 8)) p (mk st m h') }
          else Some (mk st m h')) = Some (mk st m1 h')"
      using nxt nodes pos by (cases ys) (simp_all add: PREV_NODE_mk SET_PREV_mk bp m1_def)
    have s3: "(if ptr m bp \<noteq> 0 then do { n \<leftarrow> NEXT_NODE bp (mk st m1 h'); SET_NEXT (ptr m bp) n (mk st m1 h') }
          else Some (mk st m1 h')) = Some (mk st m2 h')"
      using prev pos [OF lastx] nodes [OF lastx] n1 bp
      by (auto simp: NEXT_NODE_mk SET_NEXT_mk m2_def ptr1)
    have s4: "NEXT_NODE bp (mk st m h') = Some (ptr m (bp + 8))" "PREV_NODE bp (mk st m1 h') = Some (ptr m bp)"
      using n1 bp by (simp_all add: NEXT_NODE_mk PREV_NODE_mk ptr1)
    show ?thesis
      unfolding remove_from_free_list_def mk_simps s1 bind.bind_lunit s2 s3 s4 ..
  qed
  moreover have "links_ok m2 h' (xs @ ys)"
  proof -
    have "dll (case nx m bp of None \<Rightarrow> pv m | Some n \<Rightarrow> (pv m)(n := if xs = [] then None else Some (last xs)))
        (if xs = [] then nx m else (nx m)(last xs := nx m bp)) None (if xs = [] then nx m bp else opt h) (xs @ ys)"
      by (rule dll_remove [OF dll dist])
    moreover have "(if xs = [] then None else Some (last xs)) = pv m bp"
      using prev pos [OF lastx] by (simp add: pv_def opt_def)
    moreover have "(if xs = [] then nx m bp else opt h) = opt h'"
      by (simp add: h'_def nx_def)
    ultimately have d: "dll (case nx m bp of None \<Rightarrow> pv m | Some n \<Rightarrow> (pv m)(n := pv m bp))
        (if xs = [] then nx m else (nx m)(last xs := nx m bp)) None (opt h') (xs @ ys)"
      by (simp only:)
    have "dll (pv m2) (nx m2) None (opt h') (xs @ ys)"
      using d by (rule dll_cong [THEN iffD1, rotated]) (use nodes f1 f2 in \<open>auto simp: fun_upd_def\<close>)
    moreover have "node_ok m2 c" if "c \<in> set (xs @ ys)" for c
      using nodes [OF that] nodes [OF lastx] n1 by (simp add: m2_def)
    ultimately show ?thesis
      using dist by (simp add: links_ok_def)
  qed
  moreover have "m2 x = None \<longleftrightarrow> m x = None" for x
  proof -
    have "m1 x = None \<longleftrightarrow> m x = None"
      using nodes [of "hd ys"] by (cases ys) (simp_all add: m1_def)
    then show ?thesis
      using nodes [OF lastx] n1 by (simp add: m2_def)
  qed
  moreover have "m2 x = m x" if "\<forall>b\<in>set (xs @ ys). \<not> in_node b x" for x
  proof -
    have "m1 x = m x"
      using that by (cases ys) (auto simp: m1_def in_node_def put_ptr_def)
    moreover have "m2 x = m1 x"
      using bspec [OF that lastx] by (auto simp: m2_def in_node_def put_ptr_def)
    ultimately show ?thesis by simp
  qed
  ultimately show ?thesis
    by (intro exI [of _ m2] exI [of _ h'] conjI allI impI) simp_all
qed

end
