(* ===== verification/Heap_Layout.thy ===== *)
theory Heap_Layout
  imports Free_List
begin

text \<open>
  The heap as its blocks. A page range that \<open>extend\<close> has obtained at \<open>p\<close> holds a prologue, a row of
  blocks from \<open>p + 16\<close> on and a terminator; \<open>H\<close> maps the address of each range to its row, a list of
  sizes with the allocated bit. The allocator's operations replace a segment of one row; what that
  takes is shown once, for any segment.
\<close>

section \<open>Rows of blocks\<close>

type_synonym row = "(int \<times> bool) list"
type_synonym heap = "int \<Rightarrow> row option"
type_synonym block = "int \<times> int \<times> bool"

definition row_total :: "row \<Rightarrow> int" where
  "row_total bs = sum_list (map fst bs)"

lemma row_total_simps [simp]: "row_total [] = 0" "row_total ((s, al) # bs) = s + row_total bs" "row_total (xs @ ys) = row_total xs + row_total ys"
  by (simp_all add: row_total_def)

fun locate :: "int \<Rightarrow> row \<Rightarrow> block list" where
  "locate a [] = []"
| "locate a ((s, al) # bs) = (a, s, al) # locate (a + s) bs"

lemma locate_append [simp]: "locate a (xs @ ys) = locate a xs @ locate (a + row_total xs) ys"
  by (induction a xs rule: locate.induct) (simp_all add: add.assoc)

definition row_ok :: "row \<Rightarrow> bool" where
  "row_ok bs \<longleftrightarrow> (\<forall>(s, al)\<in>set bs. 16 dvd s \<and> 32 \<le> s)"

lemma row_ok_simps [simp]:
  "row_ok []" "row_ok ((s, al) # bs) \<longleftrightarrow> 16 dvd s \<and> 32 \<le> s \<and> row_ok bs" "row_ok (xs @ ys) \<longleftrightarrow> row_ok xs \<and> row_ok ys"
  by (auto simp: row_ok_def)

lemma row_total_pos: "row_ok bs \<Longrightarrow> 0 \<le> row_total bs \<and> 16 dvd row_total bs"
  by (induction bs) auto

lemma locate_bounds:
  "row_ok bs \<Longrightarrow> (b, s, al) \<in> set (locate a bs) \<Longrightarrow>
   a \<le> b \<and> b + s \<le> a + row_total bs \<and> 16 dvd s \<and> 32 \<le> s \<and> 16 dvd (b - a)"
proof (induction a bs rule: locate.induct)
  case (2 a s' al' bs)
  have "0 \<le> row_total bs" using 2 row_total_pos by auto
  then show ?case using 2 by (auto, presburger)
qed simp

lemma locate_apart:
  "row_ok bs \<Longrightarrow> (b, s, al) \<in> set (locate a bs) \<Longrightarrow> (c, t, al') \<in> set (locate a bs) \<Longrightarrow>
   (b, s, al) = (c, t, al') \<or> b + s \<le> c \<or> c + t \<le> b"
proof (induction a bs rule: locate.induct)
  case (2 a s' al'' bs)
  then show ?case
    using locate_bounds [of bs b s al "a + s'"] locate_bounds [of bs c t al' "a + s'"] by auto
qed simp

definition tags :: "mem \<Rightarrow> int \<Rightarrow> row \<Rightarrow> bool" where
  "tags m a bs \<longleftrightarrow> (\<forall>(b, s, al)\<in>set (locate a bs). m (b - 4) = Some (tag s al) \<and> m (b + s - 8) = Some (tag s al))"

lemma tags_simps [simp]:
  "tags m a []"
  "tags m a ((s, al) # bs) \<longleftrightarrow> m (a - 4) = Some (tag s al) \<and> m (a + s - 8) = Some (tag s al) \<and> tags m (a + s) bs"
  "tags m a (xs @ ys) \<longleftrightarrow> tags m a xs \<and> tags m (a + row_total xs) ys"
  by (simp_all add: tags_def ball_Un)

section \<open>Heaps\<close>

definition extent :: "row \<Rightarrow> int" where
  "extent bs = 16 + row_total bs"

definition page_shape :: "int \<Rightarrow> row \<Rightarrow> bool" where
  "page_shape p bs \<longleftrightarrow> 0 < p \<and> APAGE_SIZE dvd p \<and> APAGE_SIZE dvd extent bs \<and> p + extent bs \<le> 2 ^ 47 \<and>
     extent bs < 2 ^ 31 \<and> row_ok bs"

definition layout :: "heap \<Rightarrow> bool" where
  "layout H \<longleftrightarrow> (\<forall>p bs. H p = Some bs \<longrightarrow> page_shape p bs) \<and>
     (\<forall>p bs q cs. H p = Some bs \<longrightarrow> H q = Some cs \<longrightarrow> p \<noteq> q \<longrightarrow> p + extent bs \<le> q \<or> q + extent cs \<le> p)"

definition blocks :: "heap \<Rightarrow> block set" where
  "blocks H = {x. \<exists>p bs. H p = Some bs \<and> x \<in> set (locate (p + 16) bs)}"

definition free_blocks :: "heap \<Rightarrow> int set" where
  "free_blocks H = {b. \<exists>s. (b, s, False) \<in> blocks H}"

definition allocated :: "heap \<Rightarrow> (int \<times> int) set" where
  "allocated H = {(b, s). (b, s, True) \<in> blocks H}"

definition page_tags :: "mem \<Rightarrow> int \<Rightarrow> row \<Rightarrow> bool" where
  "page_tags m p bs \<longleftrightarrow> m (p + 4) = Some (tag 8 True) \<and> m (p + 8) = Some (tag 8 True) \<and>
     m (p + extent bs - 4) = Some (tag 0 True) \<and> tags m (p + 16) bs"

text \<open>No two free blocks are neighbours, and no page range is free as a whole.\<close>

definition no_free_pair :: "row \<Rightarrow> bool" where
  "no_free_pair bs \<longleftrightarrow> successively (\<lambda>(_, al) (_, al'). al \<or> al') bs"

lemma no_free_pair_simps [simp]:
  "no_free_pair []" "no_free_pair [x]"
  "no_free_pair ((s, al) # (t, al') # bs) \<longleftrightarrow> (al \<or> al') \<and> no_free_pair ((t, al') # bs)"
  by (auto simp: no_free_pair_def)

lemma no_free_pair_append:
  "no_free_pair (xs @ ys) \<longleftrightarrow> no_free_pair xs \<and> no_free_pair ys \<and> (xs = [] \<or> ys = [] \<or> snd (last xs) \<or> snd (hd ys))"
  by (auto simp: no_free_pair_def successively_append_iff split: prod.splits)

lemma no_free_pair_Cons:
  "no_free_pair (x # ys) \<longleftrightarrow> no_free_pair ys \<and> (ys = [] \<or> snd x \<or> snd (hd ys))"
  using no_free_pair_append [of "[x]" ys] by auto

definition settled_row :: "row \<Rightarrow> bool" where
  "settled_row bs \<longleftrightarrow> no_free_pair bs \<and> \<not> (\<exists>s. bs = [(s, False)])"

definition settled :: "heap \<Rightarrow> bool" where
  "settled H \<longleftrightarrow> (\<forall>p bs. H p = Some bs \<longrightarrow> settled_row bs)"

text \<open>The pages of the ranges of a heap. The invariant of a heap says that they are exactly the pages that the page
  table records as mapped: no page is used without being mapped, and none stays mapped without belonging to a range.\<close>

definition heap_pages :: "heap \<Rightarrow> int set" where
  "heap_pages H = {y. \<exists>p bs. H p = Some bs \<and> y \<in> page_range p (extent bs)}"

definition heap_inv :: "heap \<Rightarrow> mm \<Rightarrow> bool" where
  "heap_inv H st \<longleftrightarrow> memlib_inv (lib st) \<and> layout H \<and> pagemap_pages (table (lib st)) = heap_pages H \<and>
     (\<forall>p bs. H p = Some bs \<longrightarrow> page_tags (cells st) p bs)"

lemma heap_range: "heap_inv H st \<Longrightarrow> H p = Some bs \<Longrightarrow> page_range p (extent bs) \<subseteq> pagemap_pages (table (lib st))"
  by (auto simp: heap_inv_def heap_pages_def)

lemma heap_pages_upd:
  assumes "H p = Some bs" "extent cs = extent bs"
  shows "heap_pages (H(p \<mapsto> cs)) = heap_pages H"
proof -
  have "(\<exists>ds. (H(p \<mapsto> cs)) q = Some ds \<and> y \<in> page_range q (extent ds)) \<longleftrightarrow> (\<exists>ds. H q = Some ds \<and> y \<in> page_range q (extent ds))" for q y
    using assms by auto
  then show ?thesis unfolding heap_pages_def by blast
qed

lemma heap_pages_add: "H p = None \<Longrightarrow> heap_pages (H(p \<mapsto> bs)) = heap_pages H \<union> page_range p (extent bs)"
  unfolding heap_pages_def by (auto split: if_splits) (metis option.distinct(1))

lemma heap_pages_empty [simp]: "heap_pages Map.empty = {}"
  by (simp add: heap_pages_def)

definition mm_inv :: "heap \<Rightarrow> mm \<Rightarrow> bool" where
  "mm_inv H st \<longleftrightarrow> heap_inv H st \<and> (\<exists>fl. links_ok (cells st) (free_list_ptr st) fl \<and> set fl = free_blocks H)"

lemma layoutD: "layout H \<Longrightarrow> H p = Some bs \<Longrightarrow> page_shape p bs"
  by (auto simp: layout_def)

lemma layout_row: "layout H \<Longrightarrow> H p = Some bs \<Longrightarrow> row_ok bs"
  by (auto simp: layout_def page_shape_def)

lemma layout_apart:
  "layout H \<Longrightarrow> H p = Some bs \<Longrightarrow> H q = Some cs \<Longrightarrow> p \<noteq> q \<Longrightarrow> p + extent bs \<le> q \<or> q + extent cs \<le> p"
  by (auto simp: layout_def)

lemma block_in_page:
  assumes "layout H" "H p = Some bs" "(b, s, al) \<in> set (locate (p + 16) bs)"
  shows "p + 16 \<le> b" "b + s \<le> p + extent bs" "16 dvd b" "16 dvd s" "32 \<le> s" "0 < b" "b + s \<le> 2 ^ 47" "s < 2 ^ 31"
proof -
  have shape: "page_shape p bs" using assms by (auto simp: layout_def)
  then have bs: "row_ok bs" and p: "16 dvd p" "0 < p"
    by (auto simp: page_shape_def APAGE_SIZE_def elim: dvd_trans [rotated])
  show *: "p + 16 \<le> b" "b + s \<le> p + extent bs" "16 dvd s" "32 \<le> s"
    using locate_bounds [OF bs assms(3)] by (auto simp: extent_def)
  show "16 dvd b"
    using locate_bounds [OF bs assms(3)] p by presburger
  show "0 < b" "b + s \<le> 2 ^ 47" "s < 2 ^ 31"
    using * p(2) shape by (auto simp: page_shape_def)
qed

lemma blocks_apart:
  assumes "layout H" "(b, s, al) \<in> blocks H" "(c, t, al') \<in> blocks H"
  shows "(b, s, al) = (c, t, al') \<or> b + s \<le> c \<or> c + t \<le> b"
proof -
  obtain p bs q cs where p: "H p = Some bs" "(b, s, al) \<in> set (locate (p + 16) bs)"
    and q: "H q = Some cs" "(c, t, al') \<in> set (locate (q + 16) cs)"
    using assms(2,3) by (auto simp: blocks_def)
  show ?thesis
  proof (cases "p = q")
    case True
    then show ?thesis
      using p q assms(1) locate_apart [of bs] by (auto simp: layout_def page_shape_def)
  next
    case False
    then have "p + extent bs \<le> q \<or> q + extent cs \<le> p"
      using assms(1) p(1) q(1) by (auto simp: layout_def)
    then show ?thesis
      using block_in_page [OF assms(1) p] block_in_page [OF assms(1) q] by linarith
  qed
qed

lemma blocks_bounds:
  assumes "layout H" "(b, s, al) \<in> blocks H"
  shows "16 dvd b" "16 dvd s" "32 \<le> s" "0 < b" "b + s \<le> 2 ^ 47" "s < 2 ^ 31"
  using assms block_in_page by (auto simp: blocks_def)

section \<open>Replacing a segment of a row\<close>

definition segment :: "heap \<Rightarrow> int \<Rightarrow> row \<Rightarrow> row \<Rightarrow> row \<Rightarrow> int \<Rightarrow> bool" where
  "segment H p us mid vs a \<longleftrightarrow> H p = Some (us @ mid @ vs) \<and> a = p + 16 + row_total us"

lemma locate_split:
  assumes "(b, s, al) \<in> set (locate a bs)"
  shows "\<exists>us vs. bs = us @ (s, al) # vs \<and> b = a + row_total us"
  using assms
proof (induction a bs rule: locate.induct)
  case (2 a t al' bs)
  show ?case
  proof (cases "(b, s, al) = (a, t, al')")
    case True
    then show ?thesis by (intro exI [of _ "[]"] exI [of _ bs]) simp
  next
    case False
    then obtain us vs where "bs = us @ (s, al) # vs" "b = a + t + row_total us" using 2 by auto
    then show ?thesis by (intro exI [of _ "(t, al') # us"] exI [of _ vs]) simp
  qed
qed simp

lemma block_segment: "(b, s, al) \<in> blocks H \<Longrightarrow> \<exists>p us vs. segment H p us [(s, al)] vs b"
  using locate_split by (fastforce simp: blocks_def segment_def)

definition elsewhere :: "heap \<Rightarrow> int \<Rightarrow> block set" where
  "elsewhere H p = {x. \<exists>q bs. q \<noteq> p \<and> H q = Some bs \<and> x \<in> set (locate (q + 16) bs)}"

lemma blocks_page: "H p = Some bs \<Longrightarrow> blocks H = elsewhere H p \<union> set (locate (p + 16) bs)"
  by (auto simp: blocks_def elsewhere_def; metis option.inject)

lemma elsewhere_upd [simp]: "elsewhere (H(p := r)) p = elsewhere H p"
  by (auto simp: elsewhere_def)

definition others :: "heap \<Rightarrow> int \<Rightarrow> row \<Rightarrow> row \<Rightarrow> row \<Rightarrow> block set" where
  "others H p us mid vs = elsewhere H p \<union>
     set (locate (p + 16) us) \<union> set (locate (p + 16 + row_total us + row_total mid) vs)"

lemma blocks_segment:
  assumes "segment H p us mid vs a" "row_total mid' = row_total mid"
  shows "blocks H = others H p us mid vs \<union> set (locate a mid)"
    "blocks (H(p \<mapsto> us @ mid' @ vs)) = others H p us mid vs \<union> set (locate a mid')"
  using assms blocks_page [of H p "us @ mid @ vs"] blocks_page [of "H(p \<mapsto> us @ mid' @ vs)" p "us @ mid' @ vs"]
  by (auto simp: segment_def others_def)

lemma others_apart:
  assumes "layout H" "segment H p us mid vs a" "(b, s, al) \<in> others H p us mid vs"
  shows "b + s \<le> a \<or> a + row_total mid \<le> b"
proof -
  have p: "H p = Some (us @ mid @ vs)" and a: "a = p + 16 + row_total us"
    using assms(2) by (auto simp: segment_def)
  have row: "row_ok us" "row_ok mid" "row_ok vs"
    using layout_row [OF assms(1) p] by auto
  consider q bs where "q \<noteq> p" "H q = Some bs" "(b, s, al) \<in> set (locate (q + 16) bs)"
    | "(b, s, al) \<in> set (locate (p + 16) us)" | "(b, s, al) \<in> set (locate (a + row_total mid) vs)"
    using assms(3) a by (auto simp: others_def elsewhere_def)
  then show ?thesis
  proof cases
    case 1
    then have "p + extent (us @ mid @ vs) \<le> q \<or> q + extent bs \<le> p"
      using assms(1) p by (auto simp: layout_def)
    then show ?thesis
      using block_in_page [OF assms(1) 1(2,3)] row_total_pos [OF row(1)] row_total_pos [OF row(3)]
      by (auto simp: a extent_def)
  next
    case 2
    then show ?thesis using locate_bounds [OF row(1) 2] a by auto
  next
    case 3
    then show ?thesis using locate_bounds [OF row(3) 3] by auto
  qed
qed

lemma others_old: "segment H p us mid vs a \<Longrightarrow> x \<in> others H p us mid vs \<Longrightarrow> x \<in> blocks H"
  using blocks_segment(1) [of H p us mid vs a mid] by blast

lemma segment_row: "layout H \<Longrightarrow> segment H p us mid vs a \<Longrightarrow> row_ok us \<and> row_ok mid \<and> row_ok vs"
  using layout_row [of H p "us @ mid @ vs"] by (auto simp: segment_def)

lemma segment_bounds:
  assumes "layout H" "segment H p us mid vs a"
  shows "0 < p" "p + 16 \<le> a" "a + row_total mid \<le> p + extent (us @ mid @ vs)" "16 dvd a" "16 dvd p"
    "p + extent (us @ mid @ vs) \<le> 2 ^ 47" "extent (us @ mid @ vs) < 2 ^ 31"
proof -
  have row: "row_ok us" "row_ok mid" "row_ok vs"
    using segment_row [OF assms] by auto
  have p: "page_shape p (us @ mid @ vs)" and a: "a = p + 16 + row_total us"
    using assms by (auto simp: segment_def layout_def)
  show "16 dvd p" "0 < p" "p + extent (us @ mid @ vs) \<le> 2 ^ 47" "extent (us @ mid @ vs) < 2 ^ 31"
    using p by (auto simp: page_shape_def APAGE_SIZE_def elim: dvd_trans [rotated])
  then show "p + 16 \<le> a" "a + row_total mid \<le> p + extent (us @ mid @ vs)" "16 dvd a"
    using row_total_pos [OF row(1)] row_total_pos [OF row(3)] a by (auto simp: extent_def)
qed

lemma layout_replace:
  assumes "layout H" "segment H p us mid vs a" "row_total mid' = row_total mid" "row_ok mid'"
  shows "layout (H(p \<mapsto> us @ mid' @ vs))"
proof -
  have "extent (us @ mid' @ vs) = extent (us @ mid @ vs)"
    using assms(3) by (simp add: extent_def)
  moreover have "page_shape p (us @ mid @ vs)"
    using assms by (auto simp: segment_def layout_def)
  ultimately show ?thesis
    using assms by (auto simp: layout_def segment_def page_shape_def)
qed

section \<open>Tag cells are not in nodes\<close>

lemma tag_not_in_node:
  assumes "layout H" "(b, s, al) \<in> blocks H" "(c, t, al') \<in> blocks H"
  shows "\<not> in_node c (b - 4)" "\<not> in_node c (b + s - 8)"
  using blocks_apart [OF assms] blocks_bounds [OF assms(1,2)] blocks_bounds [OF assms(1,3)]
  by (auto simp: in_node_def)

lemma payload_not_in_node:
  assumes "layout H" "(b, s, True) \<in> blocks H" "c \<in> free_blocks H" "b \<le> x" "x < b + s"
  shows "\<not> in_node c x"
proof -
  obtain t where t: "(c, t, False) \<in> blocks H"
    using assms(3) by (auto simp: free_blocks_def)
  show ?thesis
    using blocks_apart [OF assms(1,2) t] blocks_bounds [OF assms(1) t] assms(4,5) by (auto simp: in_node_def)
qed

lemma frame_not_in_node:
  assumes "layout H" "H q = Some cs" "(c, t, al) \<in> blocks H" "x \<in> {q + 4, q + 8, q + extent cs - 4}"
  shows "\<not> in_node c x"
proof -
  obtain r ds where r: "H r = Some ds" "(c, t, al) \<in> set (locate (r + 16) ds)"
    using assms(3) by (auto simp: blocks_def)
  have x: "q \<le> x" "x < q + extent cs" "x < q + 16 \<or> x = q + extent cs - 4"
    using assms(4) row_total_pos [OF layout_row [OF assms(1,2)]] by (auto simp: extent_def)
  show ?thesis
  proof (cases "r = q")
    case True
    then show ?thesis
      using x(3) r assms(2) block_in_page [OF assms(1) r] by (auto simp: in_node_def)
  next
    case False
    then show ?thesis
      using x block_in_page [OF assms(1) r] layout_apart [OF assms(1) r(1) assms(2)] by (auto simp: in_node_def)
  qed
qed

definition same_domain :: "mem \<Rightarrow> mem \<Rightarrow> bool" where
  "same_domain m m' \<longleftrightarrow> (\<forall>x. m' x = None \<longleftrightarrow> m x = None)"

text \<open>\<open>m'\<close> differs from \<open>m\<close> in the tags of a segment and in list nodes only.\<close>

definition changes :: "heap \<Rightarrow> heap \<Rightarrow> int \<Rightarrow> int \<Rightarrow> mem \<Rightarrow> mem \<Rightarrow> bool" where
  "changes H H' a e m m' \<longleftrightarrow> same_domain m m' \<and>
     (\<forall>x. \<not> (a - 4 \<le> x \<and> x < e - 4) \<longrightarrow> (\<forall>b\<in>free_blocks H \<union> free_blocks H'. \<not> in_node b x) \<longrightarrow> m' x = m x)"

lemma memlib_inv_mem: "memlib_inv l \<Longrightarrow> same_domain (mem l) m' \<Longrightarrow> memlib_inv (l\<lparr>mem := m'\<rparr>)"
  by (simp add: memlib_inv_def same_domain_def)

lemma replace_frame:
  assumes H: "layout H" "layout H'" and H': "H' = H(p \<mapsto> us @ mid' @ vs)"
    and seg: "segment H p us mid vs a" "row_total mid' = row_total mid"
    and ch: "changes H H' a (a + row_total mid) m m'" and b: "(b, s, al) \<in> others H p us mid vs"
  shows "m' (b - 4) = m (b - 4)" "m' (b + s - 8) = m (b + s - 8)"
    "al \<Longrightarrow> b \<le> x \<Longrightarrow> x < b + s - 8 \<Longrightarrow> m' x = m x"
proof -
  have old: "(b, s, al) \<in> blocks H" and new: "(b, s, al) \<in> blocks H'"
    using b others_old [OF seg(1)] blocks_segment(2) [OF seg] H' by auto
  note * = others_apart [OF H(1) seg(1) b] blocks_bounds [OF H(1) old]
  have nodes: "\<not> in_node c (b - 4)" "\<not> in_node c (b + s - 8)" if "c \<in> free_blocks H \<union> free_blocks H'" for c
    using that tag_not_in_node [OF H(1) old] tag_not_in_node [OF H(2) new] by (auto simp: free_blocks_def)
  show "m' (b - 4) = m (b - 4)" "m' (b + s - 8) = m (b + s - 8)"
    using ch nodes * by (auto simp: changes_def)
  show "m' x = m x" if x: "al" "b \<le> x" "x < b + s - 8"
  proof -
    have "\<not> in_node c x" if "c \<in> free_blocks H \<union> free_blocks H'" for c
      using that x payload_not_in_node [OF H(1), of b s c x] payload_not_in_node [OF H(2), of b s c x] old new by auto
    moreover have "\<not> (a - 4 \<le> x \<and> x < a + row_total mid - 4)"
      using x * by linarith
    ultimately show ?thesis
      using ch by (simp add: changes_def)
  qed
qed

lemma replace_ok:
  assumes inv: "heap_inv H st" and seg: "segment H p us mid vs a" "row_total mid' = row_total mid" "row_ok mid'"
    and tags: "tags m' a mid'" and H': "H' = H(p \<mapsto> us @ mid' @ vs)"
    and ch: "changes H H' a (a + row_total mid) (cells st) m'"
  shows "heap_inv H' (mk st m' h')"
proof -
  have lay: "layout H" "layout H'" and p: "H p = Some (us @ mid @ vs)" and a: "a = p + 16 + row_total us"
    and row: "row_ok us" "row_ok mid" "row_ok vs"
    using inv layout_replace [OF _ seg] H' seg segment_row [of H p us mid vs a] by (auto simp: heap_inv_def segment_def)
  have ext: "extent (us @ mid' @ vs) = extent (us @ mid @ vs)"
    using seg(2) by (simp add: extent_def)
  note frame = replace_frame [OF lay H' seg(1,2) ch]
  have border: "m' x = cells st x" if "H q = Some cs" "x \<in> {q + 4, q + 8, q + extent cs - 4}" for q cs x
  proof -
    have H'q: "H' q = Some (if q = p then us @ mid' @ vs else cs)" 
      using that(1) H' by auto
    have x': "x \<in> {q + 4, q + 8, q + extent (if q = p then us @ mid' @ vs else cs) - 4}"
      using that p ext by auto
    have "\<not> in_node c x" if c: "c \<in> free_blocks H \<union> free_blocks H'" for c
      using c frame_not_in_node [OF lay(1) \<open>H q = Some cs\<close> _ \<open>x \<in> {q + 4, q + 8, q + extent cs - 4}\<close>]
        frame_not_in_node [OF lay(2) H'q _ x'] by (auto simp: free_blocks_def)
    moreover have "\<not> (a - 4 \<le> x \<and> x < a + row_total mid - 4)"
    proof (cases "q = p")
      case True
      then show ?thesis
        using that p a row_total_pos [OF row(1)] row_total_pos [OF row(3)] by (auto simp: extent_def)
    next
      case False
      have "q \<le> x" "x < q + extent cs"
        using that(2) row_total_pos [OF layout_row [OF lay(1) that(1)]] by (auto simp: extent_def)
      then show ?thesis
        using layout_apart [OF lay(1) that(1) p False] segment_bounds [OF lay(1) seg(1)] by auto
    qed
    ultimately show ?thesis
      using ch by (simp add: changes_def)
  qed
  have "page_tags m' q cs" if q: "H' q = Some cs" for q cs
  proof -
    obtain ds where ds: "H q = Some ds" "extent ds = extent cs" and tg: "page_tags (cells st) q ds"
      using q H' p ext inv by (auto simp: heap_inv_def split: if_splits)
    have old: "cells st (b - 4) = Some (tag s al) \<and> cells st (b + s - 8) = Some (tag s al)"
      if "(b, s, al) \<in> others H p us mid vs" for b s al
    proof -
      have "(b, s, al) \<in> blocks H"
        using others_old [OF seg(1) that] .
      then show ?thesis
        using inv by (fastforce simp: blocks_def heap_inv_def page_tags_def tags_def)
    qed
    have "tags m' (q + 16) cs"
      unfolding tags_def
    proof (clarsimp)
      fix b s al assume b: "(b, s, al) \<in> set (locate (q + 16) cs)"
      show "m' (b - 4) = Some (tag s al) \<and> m' (b + s - 8) = Some (tag s al)"
      proof (cases "(b, s, al) \<in> others H p us mid vs")
        case True
        then show ?thesis using old frame by simp
      next
        case False
        have "(b, s, al) \<in> blocks H'"
          using b q by (auto simp: blocks_def)
        then have "(b, s, al) \<in> set (locate a mid')"
          using False blocks_segment(2) [OF seg(1,2)] H' by auto
        then show ?thesis
          using tags by (auto simp: tags_def)
      qed
    qed
    then show ?thesis
      using tg border [OF ds(1)] ds(2) by (simp add: page_tags_def)
  qed
  moreover have "memlib_inv ((lib st)\<lparr>mem := m'\<rparr>)"
    using inv ch by (auto simp: heap_inv_def changes_def cells_def intro: memlib_inv_mem)
  moreover have "heap_pages H' = heap_pages H"
    unfolding H' using p ext by (rule heap_pages_upd)
  ultimately show ?thesis
    using inv lay by (simp add: heap_inv_def)
qed

section \<open>Free blocks and allocated blocks of a replaced segment\<close>

definition free_in :: "block list \<Rightarrow> int set" where
  "free_in L = {b. \<exists>s. (b, s, False) \<in> set L}"

definition alloc_in :: "block list \<Rightarrow> (int \<times> int) set" where
  "alloc_in L = {(b, s). (b, s, True) \<in> set L}"

lemma free_in_simps [simp]:
  "free_in [] = {}" "free_in ((b, s, al) # L) = (if al then free_in L else insert b (free_in L))"
  by (auto simp: free_in_def)

lemma alloc_in_simps [simp]:
  "alloc_in [] = {}" "alloc_in ((b, s, al) # L) = (if al then insert (b, s) (alloc_in L) else alloc_in L)"
  by (auto simp: alloc_in_def)

lemma segment_free:
  assumes "layout H" "segment H p us mid vs a" "row_total mid' = row_total mid" "row_ok mid'"
  shows "free_blocks (H(p \<mapsto> us @ mid' @ vs)) = free_blocks H - free_in (locate a mid) \<union> free_in (locate a mid')"
    "allocated (H(p \<mapsto> us @ mid' @ vs)) = allocated H - alloc_in (locate a mid) \<union> alloc_in (locate a mid')"
proof -
  let ?O = "others H p us mid vs"
  have row: "row_ok mid" using segment_row [OF assms(1,2)] by auto
  have apart: False if o: "(b, s, al) \<in> ?O" and l: "(b, t, al') \<in> set (locate a mid)" for b s t al al'
    using others_apart [OF assms(1,2) o] locate_bounds [OF row l]
      blocks_bounds(3) [OF assms(1) others_old [OF assms(2) o]] by linarith
  note bl = blocks_segment [OF assms(2,3)]
  show "free_blocks (H(p \<mapsto> us @ mid' @ vs)) = free_blocks H - free_in (locate a mid) \<union> free_in (locate a mid')"
    using apart by (auto simp: free_blocks_def free_in_def bl)
  show "allocated (H(p \<mapsto> us @ mid' @ vs)) = allocated H - alloc_in (locate a mid) \<union> alloc_in (locate a mid')"
    using apart by (auto simp: allocated_def alloc_in_def bl)
qed

text \<open>What a client owns keeps its contents.\<close>

definition payloads_kept :: "(int \<times> int) set \<Rightarrow> mem \<Rightarrow> mem \<Rightarrow> bool" where
  "payloads_kept A m m' \<longleftrightarrow> (\<forall>(b, s)\<in>A. \<forall>x. 4 dvd x \<longrightarrow> b \<le> x \<longrightarrow> x < b + s - 8 \<longrightarrow> m' x = m x)"

lemma payloads_keptD:
  "payloads_kept A m m' \<Longrightarrow> (b, s) \<in> A \<Longrightarrow> 4 dvd x \<Longrightarrow> b \<le> x \<Longrightarrow> x < b + s - 8 \<Longrightarrow> m' x = m x"
  by (auto simp: payloads_kept_def)

lemma replace_payloads:
  assumes "layout H" "segment H p us mid vs a" "row_total mid' = row_total mid" "row_ok mid'"
    and H': "H' = H(p \<mapsto> us @ mid' @ vs)" and ch: "changes H H' a (a + row_total mid) m m'"
  shows "payloads_kept (allocated H - alloc_in (locate a mid)) m m'"
proof -
  have "layout H'"
    using layout_replace [OF assms(1-4)] H' by simp
  note fr = replace_frame(3) [OF assms(1) this H' assms(2,3) ch]
  show ?thesis
    using blocks_segment(1) [OF assms(2,3)] fr
    by (auto simp: payloads_kept_def allocated_def alloc_in_def)
qed

section \<open>Reading the invariant\<close>

lemma links_cells:
  assumes "links_ok m h fl" "\<And>b k. b \<in> set fl \<Longrightarrow> k \<in> {0, 4, 8, 12} \<Longrightarrow> m' (b + k) = m (b + k)"
  shows "links_ok m' h fl"
proof -
  have cell: "m' b = m b" "m' (b + 4) = m (b + 4)" "m' (b + 8) = m (b + 8)" "m' (b + 12) = m (b + 12)" if "b \<in> set fl" for b
    using assms(2) [OF that, of 0] assms(2) [OF that, of 4] assms(2) [OF that, of 8] assms(2) [OF that, of 12] by simp_all
  have "node_ok m' b" if "b \<in> set fl" for b
    using assms(1) that cell [OF that] by (auto simp: links_ok_def node_ok_def)
  moreover have "pv m b = pv m' b \<and> nx m b = nx m' b" if "b \<in> set fl" for b
    using cell [OF that] by (simp add: pv_def nx_def ptr_def add.assoc cong: option.case_cong)
  ultimately show ?thesis
    using assms(1) dll_cong [of fl "pv m" "pv m'" "nx m" "nx m'"] by (auto simp: links_ok_def)
qed

lemma links_frame:
  assumes "links_ok m h fl" "\<And>b x. b \<in> set fl \<Longrightarrow> in_node b x \<Longrightarrow> m' x = m x"
  shows "links_ok m' h fl"
  by (rule links_cells [OF assms(1)]) (auto simp: in_node_def intro!: assms(2))

lemma links_kept:
  assumes "links_ok m h fl" "\<And>x. m x \<noteq> None \<Longrightarrow> m' x = m x"
  shows "links_ok m' h fl"
  by (rule links_cells [OF assms(1)]) (use assms(1) in \<open>auto simp: links_ok_def node_ok_def intro!: assms(2)\<close>)

lemma mapped_cell:
  assumes "heap_inv H st" "H p = Some bs" "p \<le> x" "x < p + extent bs" "4 dvd x"
  shows "cells st x \<noteq> None"
proof -
  have "x div APAGE_SIZE \<in> page_range p (extent bs)"
    using page_range_iff assms layoutD [of H p bs] by (auto simp: heap_inv_def page_shape_def)
  then have "x div APAGE_SIZE \<in> pagemap_pages (table (lib st))"
    using heap_range [OF assms(1,2)] by auto
  then show ?thesis
    using assms(1,5) by (simp add: heap_inv_def memlib_inv_def cells_def)
qed

lemma heap_inv_page: "heap_inv H st \<Longrightarrow> H p = Some bs \<Longrightarrow> page_tags (cells st) p bs"
  by (simp add: heap_inv_def)

lemma segment_tags:
  assumes "heap_inv H st" "segment H p us mid vs a"
  shows "tags (cells st) a mid"
  using assms by (auto simp: heap_inv_def segment_def page_tags_def dest!: spec [of _ p] spec [of _ "us @ mid @ vs"])

lemma node_okI:
  assumes "heap_inv H st" "segment H p us mid vs a" "a \<le> b" "b + 16 \<le> a + row_total mid" "16 dvd b"
    "same_domain (cells st) m"
  shows "node_ok m b"
proof -
  have lay: "layout H" using assms(1) by (simp add: heap_inv_def)
  note s = segment_bounds [OF lay assms(2)]
  have c: "cells st (b + k) \<noteq> None" if "k \<in> {0, 4, 8, 12}" for k
    using that assms(2-5) s by (intro mapped_cell [OF assms(1)]) (auto simp: segment_def elim: dvd_trans [rotated])
  show ?thesis
    using c [of 0] c [of 4] c [of 8] c [of 12] assms s by (auto simp: node_ok_def same_domain_def)
qed

lemma size_okI: "16 dvd s \<Longrightarrow> 0 \<le> s \<Longrightarrow> s < 2 ^ 31 \<Longrightarrow> size_ok s"
  by (auto simp: size_ok_def elim: dvd_trans [rotated])

lemma free_node_apart:
  assumes "layout H" "segment H p us mid vs a" "c \<in> free_blocks H" "c \<notin> free_in (locate a mid)" "in_node c x"
  shows "x + 16 < a \<or> a + row_total mid \<le> x"
proof -
  obtain t where t: "(c, t, False) \<in> blocks H"
    using assms(3) by (auto simp: free_blocks_def)
  then have "(c, t, False) \<in> others H p us mid vs"
    using assms(4) blocks_segment(1) [OF assms(2) refl] by (auto simp: free_in_def)
  then show ?thesis
    using others_apart [OF assms(1,2)] blocks_bounds [OF assms(1) t] assms(5) by (fastforce simp: in_node_def)
qed

lemma segment_free_in: "segment H p us mid vs a \<Longrightarrow> free_in (locate a mid) \<subseteq> free_blocks H"
  using blocks_segment(1) [of H p us mid vs a mid] by (auto simp: free_in_def free_blocks_def)

lemma segment_alloc_in: "segment H p us mid vs a \<Longrightarrow> alloc_in (locate a mid) \<subseteq> allocated H"
  using blocks_segment(1) [of H p us mid vs a mid] by (auto simp: alloc_in_def allocated_def)

end
