(* ===== verification/MM_Alloc.thy ===== *)
theory MM_Alloc
  imports Heap_Layout
begin

text \<open>
  Allocation: \<open>set_allocated\<close> cuts a free block, \<open>extend\<close> adds a page range with one free block, the
  first-fit search ends, and \<open>mm_malloc\<close> puts them together.
\<close>

unbundle bit_operations_syntax

definition cut :: "int \<Rightarrow> int \<Rightarrow> row" where
  "cut s sz = (if 16 < s - sz then [(sz, True), (s - sz, False)] else [(s, True)])"

lemma split_limit: "ALIGN (1 + OVERHEAD) = 16"
  by (simp add: ALIGN_def ALIGNMENT_def OVERHEAD_def to_size_def)

lemma tag_bools: "of_bool True = (1 :: int)" "of_bool False = (0 :: int)"
  by simp_all

lemma set_allocated_ok:
  assumes inv: "heap_inv H st" and links: "links_ok (cells st) (free_list_ptr st) fl" "set fl = free_blocks H"
    and seg: "segment H p us [(s, False)] vs b" and sz: "16 dvd sz" "32 \<le> sz" "sz \<le> s"
    and H': "H' = H(p \<mapsto> us @ cut s sz @ vs)"
  shows "\<exists>m' h'. set_allocated b sz st = Some (mk st m' h') \<and> mm_inv H' (mk st m' h') \<and>
    payloads_kept (allocated H) (cells st) m'"
proof -
  define m h where "m = cells st" and "h = free_list_ptr st"
  have st: "st = mk st m h" by (simp add: m_def h_def mk_self)
  have lay: "layout H" using inv by (simp add: heap_inv_def)
  have row: "16 dvd s" "32 \<le> s" using segment_row [OF lay seg] by auto
  note bnd = segment_bounds [OF lay seg]
  have s31: "s < 2 ^ 31" "16 dvd b"
    using blocks_bounds [OF lay, of b s False] blocks_segment(1) [OF seg refl] by auto
  then have ok: "size_ok s" "size_ok sz" "size_ok (s - sz)"
    using row sz by (auto intro!: size_okI)
  have mb: "m (b - 4) = Some (tag s False)" "m (b + s - 8) = Some (tag s False)"
    using segment_tags [OF inv seg] by (simp_all add: m_def)
  have here: "m x \<noteq> None" if "b - 4 \<le> x" "x < b + s" "4 dvd x" for x
    using that bnd seg unfolding m_def by (intro mapped_cell [OF inv, of p "us @ [(s, False)] @ vs"]) (auto simp: segment_def)
  have "b \<in> set fl" using segment_free_in [OF seg] links(2) by auto
  then obtain xs ys where fl: "fl = xs @ b # ys" by (auto simp: in_set_conv_decomp)
  have dist: "distinct fl" using links(1) by (simp add: links_ok_def)
  have node_b: "node_ok m' b" if "same_domain m m'" for m'
    using that by (intro node_okI [OF inv seg]) (use row s31 in \<open>auto simp: m_def\<close>)
  have apart: "x + 16 < b \<or> b + s \<le> x" if "c \<in> set (xs @ ys)" "in_node c x" for c x
    using free_node_apart [OF lay seg _ _ that(2)] that(1) links(2) fl dist by auto
  have fr: "links_ok m' h fl" if "\<And>x. x \<noteq> b - 4 \<Longrightarrow> \<not> (b + 16 \<le> x \<and> x < b + s) \<Longrightarrow> m' x = m x" for m'
  proof (rule links_frame [OF links(1) [folded m_def h_def]])
    fix c x assume "c \<in> set fl" "in_node c x"
    then show "m' x = m x"
      using apart [of c x] fl row that [of x] by (cases "c = b") (auto simp: in_node_def)
  qed
  show ?thesis
  proof (cases "16 < s - sz")
    case False
    define m2 where "m2 = m(b - 4 := Some (tag s True), b + s - 8 := Some (tag s True))"
    have dom2: "same_domain m m2" using mb by (auto simp: same_domain_def m2_def)
    have "links_ok m2 h fl" using row by (intro fr) (auto simp: m2_def)
    then obtain m3 h3 where m3: "remove_from_free_list b (mk st m2 h) = Some (mk st m3 h3)" "links_ok m3 h3 (xs @ ys)"
      "\<And>x. m3 x = None \<longleftrightarrow> m2 x = None" "\<And>x. (\<forall>c\<in>set (xs @ ys). \<not> in_node c x) \<Longrightarrow> m3 x = m2 x"
      using remove_from_free_list_mk [of m2 h xs b ys st] unfolding fl by blast
    have H'': "H' = H(p \<mapsto> us @ [(s, True)] @ vs)" using False H' by (simp add: cut_def)
    have in3: "m3 x = m2 x" if "b - 4 \<le> x" "x < b + s" for x
      using apart [of _ x] that by (intro m3(4)) fastforce
    have op: "set_allocated b sz (mk st m h) = Some (mk st m3 h3)"
    proof -
      have "PUT_HDR b s (of_bool True) (mk st m h) = Some (mk st (m(b - 4 := Some (tag s True))) h)"
        using mb by (intro PUT_HDR_mk) simp
      moreover have "PUT_FTR b s (of_bool True) (mk st (m(b - 4 := Some (tag s True))) h) = Some (mk st m2 h)"
        using ok mb by (subst PUT_FTR_mk [of _ b s True]) (auto simp: m2_def)
      moreover have "\<not> 16 < to_size (s - sz)" using False ok by simp
      ultimately show ?thesis
        unfolding set_allocated_def using mb ok m3(1) False by (simp add: HDPR_def split_limit Let_def)
    qed
    have new: "free_blocks H' = free_blocks H - {b}" "allocated H' = insert (b, s) (allocated H)"
      using segment_free [OF lay seg, of "[(s, True)]"] row unfolding H'' by auto
    have ch: "changes H H' b (b + row_total [(s, False)]) m m3"
      unfolding changes_def
    proof (intro conjI allI impI)
      show "same_domain m m3" using dom2 m3(3) by (simp add: same_domain_def)
      fix x assume x: "\<not> (b - 4 \<le> x \<and> x < b + row_total [(s, False)] - 4)" and n: "\<forall>c\<in>free_blocks H \<union> free_blocks H'. \<not> in_node c x"
      have "m3 x = m2 x" using n links(2) fl by (intro m3(4)) auto
      then show "m3 x = m x" using x row by (auto simp: m2_def)
    qed
    have "tags m3 b [(s, True)]" using in3 row by (simp add: m2_def)
    then have "heap_inv H' (mk st m3 h3)"
      using row by (intro replace_ok [OF inv seg _ _ _ H'' ch [unfolded m_def]]) auto
    moreover have "set (xs @ ys) = free_blocks H'" using new links(2) fl dist by auto
    ultimately have "mm_inv H' (mk st m3 h3)" using m3(2) by (auto simp: mm_inv_def)
    moreover have "payloads_kept (allocated H) m m3"
      using replace_payloads [OF lay seg _ _ H'' ch] row by simp
    ultimately show ?thesis using op st m_def by auto
  next
    case True
    define r where "r = s - sz"
    have r: "16 dvd r" "32 \<le> r" "size_ok r" "s = sz + r" using True sz row ok unfolding r_def by (auto, presburger)
    define m2 where "m2 = m(b - 4 := Some (tag sz True), b + sz - 8 := Some (tag sz True))"
    have d1: "m (b + sz - 8) \<noteq> None" "m (b + sz - 4) \<noteq> None"
      by (rule here; use sz r s31 in \<open>linarith | presburger\<close>)+
    have dom2: "same_domain m m2" using mb d1 by (auto simp: same_domain_def m2_def)
    have "links_ok m2 h fl" using row sz by (intro fr) (auto simp: m2_def)
    then obtain m3 h3 where m3: "remove_from_free_list b (mk st m2 h) = Some (mk st m3 h3)" "links_ok m3 h3 (xs @ ys)"
      "\<And>x. m3 x = None \<longleftrightarrow> m2 x = None" "\<And>x. (\<forall>c\<in>set (xs @ ys). \<not> in_node c x) \<Longrightarrow> m3 x = m2 x"
      using remove_from_free_list_mk [of m2 h xs b ys st] unfolding fl by blast
    have in3: "m3 x = m2 x" if "b - 4 \<le> x" "x < b + s" for x
      using apart [of _ x] that by (intro m3(4)) fastforce
    define m4 where "m4 = m3(b + sz - 4 := Some (tag r False), b + sz + r - 8 := Some (tag r False))"
    have m3b: "m3 (b - 4) = Some (tag sz True)" "m3 (b + sz - 4) \<noteq> None" "m3 (b + s - 8) \<noteq> None"
      using in3 [of "b - 4"] m3(3) sz row d1 mb by (auto simp: m2_def)
    have dom4: "same_domain m m4" using dom2 m3(3) m3b r(4) by (auto simp: same_domain_def m4_def add.assoc)
    have l4: "links_ok m4 h3 (xs @ ys)"
    proof (rule links_frame [OF m3(2)])
      fix c x assume "c \<in> set (xs @ ys)" "in_node c x"
      then show "m4 x = m3 x" using apart [of c x] sz r by (auto simp: m4_def)
    qed
    have node: "node_ok m4 (b + sz)"
      using dom4 sz r s31 by (intro node_okI [OF inv seg]) (auto simp: m_def)
    have out: "b + sz \<notin> set (xs @ ys)"
      using apart [of "b + sz" "b + sz"] sz r by (auto simp: in_node_def)
    obtain m5 where m5: "add_to_free_list (b + sz) (mk st m4 h3) = Some (mk st m5 (b + sz))"
      "links_ok m5 (b + sz) ((b + sz) # xs @ ys)" "\<And>x. m5 x = None \<longleftrightarrow> m4 x = None"
      "\<And>x. (\<forall>c\<in>set ((b + sz) # xs @ ys). \<not> in_node c x) \<Longrightarrow> m5 x = m4 x"
      using add_to_free_list_mk [OF l4 node out, of st] by blast
    have H'': "H' = H(p \<mapsto> us @ [(sz, True), (r, False)] @ vs)" using True H' by (simp add: cut_def r_def)
    have op: "set_allocated b sz (mk st m h) = Some (mk st m5 (b + sz))"
    proof -
      have "PUT_HDR b sz (of_bool True) (mk st m h) = Some (mk st (m(b - 4 := Some (tag sz True))) h)"
        using mb by (intro PUT_HDR_mk) simp
      moreover have "PUT_FTR b sz (of_bool True) (mk st (m(b - 4 := Some (tag sz True))) h) = Some (mk st m2 h)"
        using ok d1 by (subst PUT_FTR_mk [of _ b sz True]) (auto simp: m2_def)
      moreover have "NEXT_BLKP b (mk st m3 h3) = Some (b + sz)"
        using m3b ok by (simp add: NEXT_BLKP_def HDPR_def)
      moreover have "PUT_HDR (b + sz) r (of_bool False) (mk st m3 h3) = Some (mk st (m3(b + sz - 4 := Some (tag r False))) h3)"
        using m3b by (intro PUT_HDR_mk) simp
      moreover have "PUT_FTR (b + sz) r (of_bool False) (mk st (m3(b + sz - 4 := Some (tag r False))) h3) = Some (mk st m4 h3)"
        using r m3b by (subst PUT_FTR_mk [of _ "b + sz" r False]) (auto simp: m4_def add.assoc)
      ultimately show ?thesis
        unfolding set_allocated_def using mb ok m3(1) m5(1) True by (simp add: HDPR_def split_limit Let_def r_def)
    qed
    have new: "free_blocks H' = free_blocks H - {b} \<union> {b + sz}" "allocated H' = insert (b, sz) (allocated H)"
      using segment_free [OF lay seg, of "[(sz, True), (r, False)]"] r sz unfolding H'' by auto
    have ch: "changes H H' b (b + row_total [(s, False)]) m m5"
      unfolding changes_def
    proof (intro conjI allI impI)
      show "same_domain m m5" using dom4 m5(3) by (simp add: same_domain_def)
      fix x assume x: "\<not> (b - 4 \<le> x \<and> x < b + row_total [(s, False)] - 4)" and n: "\<forall>c\<in>free_blocks H \<union> free_blocks H'. \<not> in_node c x"
      have "m5 x = m4 x" using n new links(2) fl by (intro m5(4)) auto
      moreover have "m3 x = m2 x" using n links(2) fl by (intro m3(4)) auto
      ultimately show "m5 x = m x" using x r sz by (auto simp: m2_def m4_def)
    qed
    have in5: "m5 x = m4 x" if "b - 4 \<le> x" "x < b + s" "\<not> in_node (b + sz) x" for x
      using apart [of _ x] that by (intro m5(4)) fastforce
    have "tags m5 b [(sz, True), (r, False)]"
      using in3 [of "b - 4"] in3 [of "b + sz - 8"] in5 [of "b - 4"] in5 [of "b + sz - 8"] in5 [of "b + sz - 4"] in5 [of "b + sz + r - 8"]
        sz r by (simp add: m2_def m4_def in_node_def)
    then have "heap_inv H' (mk st m5 (b + sz))"
      using sz r by (intro replace_ok [OF inv seg _ _ _ H'' ch [unfolded m_def]]) auto
    moreover have "set ((b + sz) # xs @ ys) = free_blocks H'" using new links(2) fl dist by auto
    ultimately have "mm_inv H' (mk st m5 (b + sz))" using m5(2) unfolding mm_inv_def by (metis mk_simps(1,2))
    moreover have "payloads_kept (allocated H) m m5"
      using replace_payloads [OF lay seg _ _ H'' ch] r sz by simp
    ultimately show ?thesis using op st m_def by auto
  qed
qed

section \<open>The first-fit search\<close>

definition block_size :: "mem \<Rightarrow> int \<Rightarrow> int" where
  "block_size m b = (case m (b - 4) of None \<Rightarrow> 0 | Some w \<Rightarrow> sint w AND NOT 7)"

lemma find_fit_ok:
  assumes "dll (pv m) (nx m) q (opt h) fl" "\<forall>b\<in>set fl. node_ok m b \<and> (\<exists>s. m (b - 4) = Some (tag s False) \<and> size_ok s)"
  shows "find_fit h n (mk st m h0) = Some (case find (\<lambda>b. n \<le> block_size m b) fl of None \<Rightarrow> 0 | Some b \<Rightarrow> b)"
  using assms
proof (induction fl arbitrary: q h)
  case Nil
  then show ?case by (simp add: find_fit.simps)
next
  case (Cons b fl)
  then obtain s where b: "h = b" "b \<noteq> 0" "node_ok m b" "m (b - 4) = Some (tag s False)" "size_ok s"
    by (auto simp: opt_Some)
  have IH: "find_fit (ptr m (b + 8)) n (mk st m h0) =
      Some (case find (\<lambda>b. n \<le> block_size m b) fl of None \<Rightarrow> 0 | Some b \<Rightarrow> b)"
    using Cons by (intro Cons.IH [of "Some b"]) (auto simp: nx_def)
  have "block_size m b = s"
    using tag_fields(1) [OF b(5), of False] b(4) by (simp add: block_size_def)
  then show ?case
    using b IH by (subst find_fit.simps) (simp add: HDPR_def NEXT_NODE_mk)
qed

lemma block_size_tag: "m (b - 4) = Some (tag s a) \<Longrightarrow> size_ok s \<Longrightarrow> block_size m b = s"
  using tag_fields(1) [of s a] by (simp add: block_size_def)

section \<open>New pages\<close>

definition range_for :: "int \<Rightarrow> int" where
  "range_for sz = PAGE_ALIGN (to_size (max mem_pagesize sz * 16))"

lemma and_not_mask: "x AND NOT (mask n) = x - x mod 2 ^ n" for x :: int
proof -
  have "x AND NOT (mask n) = push_bit n (drop_bit n x)"
    by (rule bit_eqI) (auto simp: bit_simps)
  then show ?thesis
    using bits_ident [of n x] by (simp add: take_bit_eq_mod)
qed

lemma PAGE_ALIGN_eq: "0 \<le> x \<Longrightarrow> x < 2 ^ 63 \<Longrightarrow> PAGE_ALIGN x = x + 4095 - (x + 4095) mod 4096"
  using and_not_mask [of "x + 4095" 12]
  by (simp add: PAGE_ALIGN_def mem_pagesize_def APAGE_SIZE_def to_size_def mask_eq_exp_minus_1)

lemma ALIGN_eq: "0 \<le> x \<Longrightarrow> x < 2 ^ 63 \<Longrightarrow> ALIGN x = x + 15 - (x + 15) mod 16"
  using and_not_mask [of "x + 15" 4]
  by (simp add: ALIGN_def ALIGNMENT_def to_size_def mask_eq_exp_minus_1)

lemma to_int_small: "- (2 ^ 31) \<le> x \<Longrightarrow> x < 2 ^ 31 \<Longrightarrow> to_int x = x"
  unfolding to_int_def by (rule sint_word)

lemma needed_size:
  assumes "0 \<le> sz" "sz \<le> 134217472"
  defines "N \<equiv> range_for sz"
  shows "4096 dvd N" "sz + 16 \<le> N" "65536 \<le> N" "N < 2 ^ 31"
proof -
  let ?f = "max 4096 sz * 16"
  have N: "N = ?f + 4095 - (?f + 4095) mod 4096"
    using assms by (simp add: N_def range_for_def mem_pagesize_def APAGE_SIZE_def to_size_def PAGE_ALIGN_eq)
  show d: "4096 dvd N" unfolding N by (rule dvd_minus_mod)
  have "0 \<le> (?f + 4095) mod 4096" "(?f + 4095) mod 4096 < 4096" by simp_all
  then have le: "?f \<le> N" "N \<le> ?f + 4095" unfolding N by linarith+
  then show "65536 \<le> N" "sz + 16 \<le> N" using assms by linarith+
  have "?f \<le> 2147479552" using assms(2) by simp
  then have "N \<le> 2147483647" using le(2) by linarith
  then show "N < 2 ^ 31" by simp
qed

lemma page_set_up_steps:
  "page_set_up p N st =
    (let s = to_int (to_int N - 16)
     in do {
       st \<leftarrow> PUT (p + 4) (PACK 8 1) st;
       st \<leftarrow> PUT (p + 8) (PACK 8 1) st;
       st \<leftarrow> PUT (p + 12) (PACK s 0) st;
       st \<leftarrow> PUT_FTR (p + 16) s 0 st;
       f \<leftarrow> FTRP (p + 16) st;
       st \<leftarrow> PUT (f + 4) (PACK 0 1) st;
       Some (p + 16, st)
     })"
  by (simp add: page_set_up_def Let_def OVERHEAD_def PRE_OCCUPIED_def add.assoc)

lemma page_set_up_mk:
  assumes "65536 \<le> N" "N < 2 ^ 31" "4096 dvd N" "\<forall>x. p \<le> x \<longrightarrow> x < p + N \<longrightarrow> 4 dvd x \<longrightarrow> m x \<noteq> None" "4 dvd p"
  shows "\<exists>m'. page_set_up p N (mk st m h) = Some (p + 16, mk st m' h) \<and> same_domain m m' \<and>
    page_tags m' p [(N - 16, False)] \<and> (\<forall>x. \<not> (p \<le> x \<and> x < p + N) \<longrightarrow> m' x = m x)"
proof -
  have d: "16 dvd N" "4 dvd N"
    using dvd_trans [OF _ assms(3), of 16] dvd_trans [OF _ assms(3), of 4] by simp_all
  have ok: "size_ok (N - 16)"
    using assms(1,2) d by (auto intro!: size_okI)
  have i: "to_int N = N" "to_int (N - 16) = N - 16"
    using assms(1,2) by (auto intro!: to_int_small)
  define m1 where "m1 = m(p + 4 := Some (tag 8 True), p + 8 := Some (tag 8 True), p + 12 := Some (tag (N - 16) False))"
  define m' where "m' = m1(p + N - 8 := Some (tag (N - 16) False), p + N - 4 := Some (tag 0 True))"
  have c: "m (p + 4) \<noteq> None" "m (p + 8) \<noteq> None" "m (p + 12) \<noteq> None" "m (p + N - 8) \<noteq> None" "m (p + N - 4) \<noteq> None"
    by (rule assms(4) [rule_format]; use assms(1,5) d(2) in \<open>simp | presburger\<close>)+
  have s1: "PUT_FTR (p + 16) (N - 16) 0 (mk st m1 h) = Some (mk st (m1(p + N - 8 := Some (tag (N - 16) False))) h)"
    using PUT_FTR_mk [of m1 "p + 16" "N - 16" False "N - 16" False st h] ok c by (simp add: m1_def algebra_simps)
  have s2: "FTRP (p + 16) (mk st (m1(p + N - 8 := Some (tag (N - 16) False))) h) = Some (p + N - 8)"
    using ok assms(1) by (simp add: FTRP_def HDPR_def OVERHEAD_def m1_def)
  have "page_set_up p N (mk st m h) = Some (p + 16, mk st m' h)"
    using c s1 s2 assms(1)
    by (simp add: page_set_up_steps Let_def i m1_def m'_def tag_def)
  moreover have "same_domain m m'"
    using c by (auto simp: same_domain_def m'_def m1_def)
  moreover have "page_tags m' p [(N - 16, False)]"
    using assms(1) by (simp add: page_tags_def extent_def m'_def m1_def)
  ultimately show ?thesis
    using assms(1) by (intro exI [of _ m']) (auto simp: m'_def m1_def)
qed

text \<open>What a new range needs: room for the two counters of \<open>memlib\<close>.\<close>

definition mem_room :: "mm \<Rightarrow> bool" where
  "mem_room st \<longleftrightarrow> activity_counter (lib st) < INT_MAX \<and> page_count (lib st) + 2 ^ 19 \<le> INT_MAX"

lemma page_tags_cong:
  assumes "page_tags m p bs" "\<And>x. m x \<noteq> None \<Longrightarrow> m' x = m x"
  shows "page_tags m' p bs"
proof -
  have "m' x = Some w" if "m x = Some w" for x w
    using that assms(2) [of x] by simp
  then show ?thesis
    using assms(1) by (fastforce simp: page_tags_def tags_def)
qed

lemma blocks_add:
  assumes "H p = None"
  shows "blocks (H(p \<mapsto> bs)) = blocks H \<union> set (locate (p + 16) bs)"
proof -
  have "elsewhere H p = blocks H"
    using assms by (auto simp: elsewhere_def blocks_def; metis option.distinct(1))
  then show ?thesis
    using blocks_page [of "H(p \<mapsto> bs)" p bs] by simp
qed

lemma heap_inv_add:
  assumes inv: "heap_inv H st" and l: "memlib_inv l" and kept: "\<And>x. cells st x \<noteq> None \<Longrightarrow> mem l x = cells st x"
    and new: "page_shape p bs" "{p..<p + extent bs} \<inter> dom (cells st) = {}" "page_tags (mem l) p bs"
    and pages: "pagemap_pages (table l) = pagemap_pages (table (lib st)) \<union> page_range p (extent bs)"
  shows "H p = None \<and> heap_inv (H(p \<mapsto> bs)) (st\<lparr>lib := l, free_list_ptr := h\<rparr>)"
proof -
  have lay: "layout H" using inv by (simp add: heap_inv_def)
  have apart: "q + extent cs \<le> p \<or> p + extent bs \<le> q" if q: "H q = Some cs" for q cs
  proof (rule ccontr)
    have "0 < extent cs" "0 < extent bs"
      using row_total_pos [OF layout_row [OF lay q]] row_total_pos [of bs] new(1) by (auto simp: extent_def page_shape_def)
    moreover assume "\<not> ?thesis"
    ultimately have x: "q \<le> max p q" "max p q < q + extent cs" "p \<le> max p q" "max p q < p + extent bs" by auto
    have "4 dvd max p q"
      using layoutD [OF lay q] new(1) by (auto simp: page_shape_def APAGE_SIZE_def max_def elim: dvd_trans [rotated])
    then have "cells st (max p q) \<noteq> None"
      using mapped_cell [OF inv q x(1,2)] by simp
    then have "max p q \<in> {p..<p + extent bs} \<inter> dom (cells st)" using x(3,4) by (simp add: domIff)
    then show False using new(2) by simp
  qed
  have none: "H p = None"
  proof (cases "H p")
    case (Some cs)
    then show ?thesis
      using apart [OF Some] layout_row [OF lay Some] row_total_pos [of cs] row_total_pos [of bs] new(1)
      by (auto simp: extent_def page_shape_def)
  qed simp
  have "layout (H(p \<mapsto> bs))"
    using lay new(1) apart unfolding layout_def by (auto split: if_splits)
  moreover have "page_tags (mem l) q cs" if "H q = Some cs" for q cs
    using inv that page_tags_cong [of "cells st" q cs, OF _ kept] by (simp add: heap_inv_def)
  ultimately have "page_tags (mem l) q cs" if "(H(p \<mapsto> bs)) q = Some cs" for q cs
    using that new(3) by (cases "q = p") simp_all
  moreover have "pagemap_pages (table l) = heap_pages (H(p \<mapsto> bs))"
    using inv pages heap_pages_add [of H p bs] none by (simp add: heap_inv_def)
  ultimately show ?thesis
    using none l \<open>layout (H(p \<mapsto> bs))\<close> by (simp add: heap_inv_def cells_def)
qed

lemma extend_ok:
  assumes os: "os_ok mmap" and inv: "mm_inv H st" and sz: "0 \<le> sz" "sz \<le> 134217472" and room: "mem_room st"
  shows "(extend mmap sz st = Some (Inl ''mmap failed'') \<and>
      fst (sys_mmap mmap (range_for sz) (activity mmap (lib st))) = None) \<or>
    (\<exists>p N st'. extend mmap sz st = Some (Inr (p + 16, st')) \<and> H p = None \<and>
       mm_inv (H(p \<mapsto> [(N - 16, False)])) st' \<and> sz \<le> N - 16 \<and> payloads_kept (allocated H) (cells st) (cells st'))"
proof -
  define N where "N = range_for sz"
  note N = needed_size [OF sz, folded N_def]
  have hinv: "heap_inv H st" using inv by (simp add: mm_inv_def)
  obtain fl where fl: "links_ok (cells st) (free_list_ptr st) fl" "set fl = free_blocks H"
    using inv by (auto simp: mm_inv_def)
  have pre: "memlib_inv (lib st)" "0 < N" "APAGE_SIZE dvd N" "activity_counter (lib st) < INT_MAX"
      "page_count (lib st) + N div APAGE_SIZE \<le> INT_MAX"
    using hinv N room by (auto simp: heap_inv_def APAGE_SIZE_def mem_room_def)
  show ?thesis
  proof (cases "mem_map mmap N (lib st) = Some (Inl ''mmap failed'')")
    case True
    then have "fst (sys_mmap mmap N (activity mmap (lib st))) = None"
      using mem_map_spec [OF os pre refl] by auto
    then show ?thesis using True by (simp add: extend_def N_def range_for_def)
  next
    case False
    then obtain a l where map: "mem_map mmap N (lib st) = Some (Inr (a, l))" and l: "memlib_inv l" "0 < a" "APAGE_SIZE dvd a"
        "a + N \<le> 2 ^ 47" "{a..<a + N} \<inter> dom (mem (lib st)) = {}"
        "\<And>x. a \<le> x \<Longrightarrow> x < a + N \<Longrightarrow> 4 dvd x \<Longrightarrow> mem l x = Some 0"
        "\<And>x. mem (lib st) x \<noteq> None \<Longrightarrow> mem l x = mem (lib st) x"
        "pagemap_pages (table l) = pagemap_pages (table (lib st)) \<union> page_range a N"
      using mem_map_spec [OF os pre refl] by blast
    define st1 h where "st1 = st\<lparr>lib := l\<rparr>" and "h = free_list_ptr st"
    have st1: "st\<lparr>lib := l\<rparr> = mk st1 (mem l) h" by (simp add: st1_def h_def mk_def)
    define m0 where "m0 = (mem l)(a := Some (word_of_int (PACK 0 0)))"
    have a4: "4 dvd a" "16 dvd a" using l(3) by (auto simp: APAGE_SIZE_def elim: dvd_trans [rotated])
    have m0: "PUT a (PACK 0 0) (mk st1 (mem l) h) = Some (mk st1 m0 h)"
      using l(6) [of a] N a4 by (simp add: m0_def)
    have "\<forall>x. a \<le> x \<longrightarrow> x < a + N \<longrightarrow> 4 dvd x \<longrightarrow> m0 x \<noteq> None" using l(6) by (simp add: m0_def)
    then obtain m1 where m1: "page_set_up a N (mk st1 m0 h) = Some (a + 16, mk st1 m1 h)" "same_domain m0 m1"
        "page_tags m1 a [(N - 16, False)]" "\<And>x. \<not> (a \<le> x \<and> x < a + N) \<Longrightarrow> m1 x = m0 x"
      using page_set_up_mk [OF N(3,4,1) _ a4(1), of m0 st1 h] by blast
    have kept: "m1 x = cells st x" if "cells st x \<noteq> None" for x
    proof -
      have "\<not> (a \<le> x \<and> x < a + N)" using l(5) that by (auto simp: cells_def dom_def)
      then show ?thesis using m1(4) [of x] l(7) [of x] N that by (auto simp: m0_def cells_def)
    qed
    define H' where "H' = H(a \<mapsto> [(N - 16, False)])"
    have dom1: "same_domain (mem l) m1" using m1(2) l(6) [of a] N a4 by (auto simp: same_domain_def m0_def)
    have shape: "page_shape a [(N - 16, False)]"
      using l(2-4) N by (auto simp: page_shape_def extent_def APAGE_SIZE_def elim: dvd_trans [rotated])
    have H'1: "H a = None" "heap_inv H' (mk st1 m1 h)"
      using heap_inv_add [OF hinv memlib_inv_mem [OF l(1) dom1] _ shape, of h] kept l(5,8) m1(3)
      by (auto simp: extent_def H'_def cells_def mk_def st1_def)
    have new: "blocks H' = insert (a + 16, N - 16, False) (blocks H)"
      using blocks_add [of H a, OF H'1(1), of "[(N - 16, False)]"] by (simp add: H'_def)
    have links1: "links_ok m1 h fl" using links_kept [OF fl(1) kept] by (simp add: h_def)
    have seg: "segment H' a [] [(N - 16, False)] [] (a + 16)" by (simp add: segment_def H'_def)
    have node: "node_ok m1 (a + 16)"
      using N a4 by (intro node_okI [OF H'1(2) seg]) (auto simp: same_domain_def)
    have out: "a + 16 \<notin> set fl"
      using fl(1) l(5) N by (auto simp: links_ok_def node_ok_def dom_def cells_def disjoint_iff)
    obtain m2 where m2: "add_to_free_list (a + 16) (mk st1 m1 h) = Some (mk st1 m2 (a + 16))"
        "links_ok m2 (a + 16) ((a + 16) # fl)" "\<And>x. m2 x = None \<longleftrightarrow> m1 x = None"
        "\<And>x. (\<forall>b\<in>set ((a + 16) # fl). \<not> in_node b x) \<Longrightarrow> m2 x = m1 x"
      using add_to_free_list_mk [OF links1 node out, of st1] by blast
    have free: "set ((a + 16) # fl) = free_blocks H'" "allocated H' = allocated H"
      using new fl(2) by (auto simp: free_blocks_def allocated_def)
    have ch: "changes H' H' (a + 16) (a + 16 + row_total [(N - 16, False)]) m1 m2"
      using m2(3,4) free(1) by (auto simp: changes_def same_domain_def)
    have lay: "layout H'" using H'1(2) by (simp add: heap_inv_def)
    have row: "row_ok [(N - 16, False)]" using shape by (simp add: page_shape_def)
    have H'u: "H' = H'(a \<mapsto> [] @ [(N - 16, False)] @ [])" by (simp add: H'_def)
    have tags2: "tags m2 (a + 16) [(N - 16, False)]"
    proof -
      have b: "(a + 16, N - 16, False) \<in> blocks H'" using new by simp
      have "m2 (a + 16 - 4) = m1 (a + 16 - 4)" "m2 (a + 16 + (N - 16) - 8) = m1 (a + 16 + (N - 16) - 8)"
        using tag_not_in_node [OF lay b] free(1) by (auto intro!: m2(4) simp: free_blocks_def)
      then show ?thesis using m1(3) by (simp add: page_tags_def)
    qed
    have "heap_inv H' (mk st1 m2 (a + 16))"
      using replace_ok [OF H'1(2) seg refl row tags2 H'u] ch by simp
    then have "mm_inv H' (mk st1 m2 (a + 16))" using m2(2) free(1) unfolding mm_inv_def by (metis mk_simps(1,2))
    moreover have "extend mmap sz st = Some (Inr (a + 16, mk st1 m2 (a + 16)))"
      by (simp add: extend_def N_def [unfolded range_for_def, symmetric] Let_def map st1 m0 m1(1) m2(1) del: PUT_mk)
    moreover have "payloads_kept (allocated H) (cells st) m2"
      unfolding payloads_kept_def
    proof (clarify)
      fix b s x assume b: "(b, s) \<in> allocated H" "4 dvd x" "b \<le> x" "x < b + s - 8"
      have "m2 x = m1 x"
        using payload_not_in_node [OF lay, of b s _ x] b new free(1) by (intro m2(4)) (auto simp: allocated_def)
      moreover obtain q cs where q: "H q = Some cs" "(b, s, True) \<in> set (locate (q + 16) cs)"
        using b by (auto simp: allocated_def blocks_def)
      have "cells st x \<noteq> None"
        using block_in_page [of H q cs, OF _ q] hinv b by (intro mapped_cell [OF hinv q(1)]) (auto simp: heap_inv_def)
      ultimately show "m2 x = cells st x" using kept by simp
    qed
    ultimately show ?thesis using H'1(1) N H'_def by (auto intro!: exI [of _ a] exI [of _ N])
  qed
qed

section \<open>malloc\<close>

lemma cut_row: "no_free_pair (us @ (s, False) # vs) \<Longrightarrow> settled_row (us @ cut s sz @ vs)"
  by (cases us rule: rev_cases) (auto simp: settled_row_def cut_def no_free_pair_append no_free_pair_Cons)

lemma settled_upd: "settled (H(p \<mapsto> bs)) \<longleftrightarrow> settled (H(p := None)) \<and> settled_row bs"
  by (auto simp: settled_def)

definition MAX_REQUEST :: int where
  "MAX_REQUEST = 134217464"

definition block_for :: "int \<Rightarrow> int" where
  "block_for sz = ALIGN (max sz list_node_size + OVERHEAD)"

lemma block_for_bounds:
  assumes "0 < sz" "sz \<le> MAX_REQUEST"
  shows "16 dvd block_for sz" "32 \<le> block_for sz" "sz + 8 \<le> block_for sz" "block_for sz \<le> 134217472"
    "to_int (ALIGN (to_size (to_int (max sz list_node_size) + OVERHEAD))) = block_for sz"
    "to_size (block_for sz) = block_for sz"
proof -
  let ?x = "max sz 16 + 23"
  have small: "0 \<le> max sz 16 + 8" "max sz 16 + 8 < 2 ^ 63" "?x \<le> 134217487" using assms by (simp_all add: MAX_REQUEST_def)
  have n: "block_for sz = ?x - ?x mod 16"
    using ALIGN_eq [OF small(1,2)] by (simp add: block_for_def list_node_size_def OVERHEAD_def add.commute)
  show d: "16 dvd block_for sz" unfolding n by (rule dvd_minus_mod)
  have m: "0 \<le> ?x mod 16" "?x mod 16 < 16" by simp_all
  then show "32 \<le> block_for sz" "sz + 8 \<le> block_for sz" unfolding n using d by presburger+
  show *: "block_for sz \<le> 134217472" using d m(1) small(3) unfolding n by presburger
  have "to_int (max sz 16) = max sz 16" "to_int (block_for sz) = block_for sz"
    using assms * \<open>32 \<le> block_for sz\<close> by (auto intro!: to_int_small simp: MAX_REQUEST_def)
  then show "to_int (ALIGN (to_size (to_int (max sz list_node_size) + OVERHEAD))) = block_for sz"
    "to_size (block_for sz) = block_for sz"
    using small(1,2) * \<open>32 \<le> block_for sz\<close> by (simp_all add: block_for_def list_node_size_def OVERHEAD_def to_size_def)
qed

text \<open>Cutting a free block for a request: what \<open>malloc\<close> promises once it has a block.\<close>

definition allocates :: "heap \<Rightarrow> mm \<Rightarrow> int \<Rightarrow> int \<Rightarrow> mm \<Rightarrow> bool" where
  "allocates H st sz b st' \<longleftrightarrow> (\<exists>s H'. mm_inv H' st' \<and> settled H' \<and> allocated H' = insert (b, s) (allocated H) \<and>
     sz + 8 \<le> s \<and> 16 dvd b \<and> 0 < b \<and> (\<forall>(c, t)\<in>allocated H. b + s \<le> c \<or> c + t \<le> b) \<and>
     payloads_kept (allocated H) (cells st) (cells st'))"

lemma mm_inv_layout: "mm_inv H st \<Longrightarrow> layout H"
  by (simp add: mm_inv_def heap_inv_def)

lemma set_allocated_allocates:
  assumes inv: "mm_inv H st" and seg: "segment H p us [(s, False)] vs b"
    and settled: "settled (H(p := None))" "no_free_pair (us @ (s, False) # vs)"
    and sz: "0 < sz" "sz \<le> MAX_REQUEST" "block_for sz \<le> s"
  shows "\<exists>st'. set_allocated b (block_for sz) st = Some st' \<and> allocates H st sz b st'"
proof -
  note n = block_for_bounds [OF sz(1,2)]
  obtain fl where h: "heap_inv H st" "links_ok (cells st) (free_list_ptr st) fl" "set fl = free_blocks H"
    using inv by (auto simp: mm_inv_def)
  have lay: "layout H" using inv by (rule mm_inv_layout)
  define H' where "H' = H(p \<mapsto> us @ cut s (block_for sz) @ vs)"
  obtain m' h' where op: "set_allocated b (block_for sz) st = Some (mk st m' h')" "mm_inv H' (mk st m' h')"
      "payloads_kept (allocated H) (cells st) m'"
    using set_allocated_ok [OF h seg n(1,2) sz(3) H'_def] by blast
  define t where "t = (if 16 < s - block_for sz then block_for sz else s)"
  have "16 dvd s" "32 \<le> s" using segment_row [OF lay seg] by auto
  then have row: "row_total (cut s (block_for sz)) = row_total [(s, False)]" "row_ok (cut s (block_for sz))"
    using n(1,2) by (auto simp: cut_def) presburger
  have al: "allocated H' = insert (b, t) (allocated H)"
    using segment_free(2) [OF lay seg row] by (auto simp: H'_def cut_def t_def)
  have old: "(b, s, False) \<in> blocks H" using blocks_segment(1) [OF seg refl] by simp
  have t: "t \<le> s" "sz + 8 \<le> t" using sz(3) n(3) by (auto simp: t_def)
  have "b + t \<le> c \<or> c + u \<le> b" if "(c, u) \<in> allocated H" for c u
    using blocks_apart [OF lay old, of c u True] that t by (auto simp: allocated_def)
  moreover have "settled H'"
    using cut_row [OF settled(2)] settled(1) by (simp add: H'_def settled_upd)
  ultimately show ?thesis
    using op al t blocks_bounds [OF lay old] by (auto simp: allocates_def)
qed

lemma mm_inv_fit:
  assumes "mm_inv H st"
  obtains fl where "links_ok (cells st) (free_list_ptr st) fl" "set fl = free_blocks H"
    "\<forall>b\<in>set fl. \<exists>s. (b, s, False) \<in> blocks H \<and> cells st (b - 4) = Some (tag s False) \<and> size_ok s"
proof -
  obtain fl where fl: "links_ok (cells st) (free_list_ptr st) fl" "set fl = free_blocks H"
    using assms by (auto simp: mm_inv_def)
  have "\<exists>s. (b, s, False) \<in> blocks H \<and> cells st (b - 4) = Some (tag s False) \<and> size_ok s" if "b \<in> set fl" for b
  proof -
    have "b \<in> free_blocks H" using that fl(2) by simp
    then obtain s where b: "(b, s, False) \<in> blocks H" by (auto simp: free_blocks_def)
    obtain p us vs where seg: "segment H p us [(s, False)] vs b" using block_segment [OF b] by blast
    have "heap_inv H st" using assms by (simp add: mm_inv_def)
    then show ?thesis
      using b segment_tags [OF _ seg, of st] blocks_bounds [OF mm_inv_layout [OF assms] b] by (auto intro!: size_okI)
  qed
  then show thesis using that fl by blast
qed

lemma mm_inv_find_fit:
  assumes "mm_inv H st" "links_ok (cells st) (free_list_ptr st) fl" "set fl = free_blocks H"
    "\<forall>b\<in>set fl. \<exists>s. (b, s, False) \<in> blocks H \<and> cells st (b - 4) = Some (tag s False) \<and> size_ok s"
  shows "find_fit (free_list_ptr st) n st =
    Some (case find (\<lambda>b. n \<le> block_size (cells st) b) fl of None \<Rightarrow> 0 | Some b \<Rightarrow> b)"
proof -
  have "find_fit (free_list_ptr st) n (mk st (cells st) (free_list_ptr st)) =
    Some (case find (\<lambda>b. n \<le> block_size (cells st) b) fl of None \<Rightarrow> 0 | Some b \<Rightarrow> b)"
    using assms(2,4) by (intro find_fit_ok [where q = None]) (auto simp: links_ok_def)
  then show ?thesis by (simp add: mk_self)
qed

lemma mm_malloc_ok:
  assumes os: "os_ok mmap" and inv: "mm_inv H st" "settled H" and room: "mem_room st" and sz: "0 < sz" "sz \<le> MAX_REQUEST"
  shows "(mm_malloc mmap sz st = Some (Inl ''mmap failed'') \<and>
      fst (sys_mmap mmap (range_for (block_for sz)) (activity mmap (lib st))) = None) \<or>
    (\<exists>b st'. mm_malloc mmap sz st = Some (Inr (b, st')) \<and> allocates H st sz b st')"
proof -
  note n = block_for_bounds [OF sz]
  obtain fl where fl: "links_ok (cells st) (free_list_ptr st) fl" "set fl = free_blocks H"
      "\<forall>b\<in>set fl. \<exists>s. (b, s, False) \<in> blocks H \<and> cells st (b - 4) = Some (tag s False) \<and> size_ok s"
    using mm_inv_fit [OF inv(1)] by blast
  note fit = mm_inv_find_fit [OF inv(1) fl, of "block_for sz"]
  have op: "mm_malloc mmap sz st =
      do {
        bp \<leftarrow> find_fit (free_list_ptr st) (block_for sz) st;
        if bp \<noteq> 0 then do { st \<leftarrow> set_allocated bp (block_for sz) st; Some (Inr (bp, st)) }
        else do {
          r \<leftarrow> extend mmap (block_for sz) st;
          (case r of Inl e \<Rightarrow> Some (Inl e)
           | Inr (bp, st) \<Rightarrow> do { st \<leftarrow> set_allocated bp (block_for sz) st; Some (Inr (bp, st)) })
        }
      }"
    unfolding mm_malloc_def Let_def n(5) n(6) using sz(1) by simp
  show ?thesis
  proof (cases "find (\<lambda>b. block_for sz \<le> block_size (cells st) b) fl")
    case (Some b)
    then have b: "b \<in> set fl" "block_for sz \<le> block_size (cells st) b"
      by (auto simp: find_Some_iff)
    then obtain s where s: "(b, s, False) \<in> blocks H" "block_for sz \<le> s"
      using fl(3) block_size_tag by fastforce
    obtain p us vs where seg: "segment H p us [(s, False)] vs b" using block_segment [OF s(1)] by blast
    have "settled (H(p := None))" "no_free_pair (us @ (s, False) # vs)"
      using inv(2) seg by (auto simp: settled_def segment_def settled_row_def)
    then obtain st' where "set_allocated b (block_for sz) st = Some st'" "allocates H st sz b st'"
      using set_allocated_allocates [OF inv(1) seg _ _ sz s(2)] by blast
    moreover have "b \<noteq> 0" using blocks_bounds(4) [OF mm_inv_layout [OF inv(1)] s(1)] by simp
    ultimately show ?thesis using op fit Some by simp
  next
    case None
    then have fit0: "find_fit (free_list_ptr st) (block_for sz) st = Some 0" using fit by simp
    show ?thesis
    proof (cases "extend mmap (block_for sz) st = Some (Inl ''mmap failed'')")
      case True
      then show ?thesis using op fit0 extend_ok [OF os inv(1) _ n(4) room] n(2) by auto
    next
      case False
      then obtain p N st1 where ext: "extend mmap (block_for sz) st = Some (Inr (p + 16, st1))" "H p = None"
          "mm_inv (H(p \<mapsto> [(N - 16, False)])) st1" "block_for sz \<le> N - 16"
          "payloads_kept (allocated H) (cells st) (cells st1)"
        using extend_ok [OF os inv(1) _ n(4) room] n(2) by auto
      let ?H = "H(p \<mapsto> [(N - 16, False)])"
      have seg: "segment ?H p [] [(N - 16, False)] [] (p + 16)" by (simp add: segment_def)
      have "settled (?H(p := None))" using inv(2) ext(2) by (auto simp: settled_def)
      then obtain st' where st': "set_allocated (p + 16) (block_for sz) st1 = Some st'" "allocates ?H st1 sz (p + 16) st'"
        using set_allocated_allocates [OF ext(3) seg _ _ sz ext(4)] by auto
      have "allocated ?H = allocated H"
        using blocks_add [of H p, OF ext(2), of "[(N - 16, False)]"] by (auto simp: allocated_def)
      then have "allocates H st sz (p + 16) st'"
        using st'(2) ext(5) unfolding allocates_def payloads_kept_def by fastforce
      then show ?thesis using op fit0 ext(1) st'(1) by auto
    qed
  qed
qed

section \<open>The properties of allocation\<close>

lemma client_write:
  assumes inv: "mm_inv H st" and b: "(b, s) \<in> allocated H" and x: "4 dvd x" "b \<le> x" "x < b + s - 8"
  shows "\<exists>st'. PUT x v st = Some st' \<and> mm_inv H st' \<and> cells st' = (cells st)(x := Some (word_of_int v)) \<and>
    free_list_ptr st' = free_list_ptr st \<and> page_count (lib st') = page_count (lib st) \<and>
    activity_counter (lib st') = activity_counter (lib st)"
proof -
  have lay: "layout H" and h: "heap_inv H st" using inv by (simp_all add: mm_inv_def heap_inv_def)
  have old: "(b, s, True) \<in> blocks H" using b by (simp add: allocated_def)
  obtain p us vs where seg: "segment H p us [(s, True)] vs b" using block_segment [OF old] by blast
  have "cells st x \<noteq> None"
    using x segment_bounds [OF lay seg] seg by (intro mapped_cell [OF h, of p "us @ [(s, True)] @ vs"]) (auto simp: segment_def)
  define m where "m = (cells st)(x := Some (word_of_int v))"
  have dom: "same_domain (cells st) m" using \<open>cells st x \<noteq> None\<close> by (auto simp: same_domain_def m_def)
  have op: "PUT x v st = Some (mk st m (free_list_ptr st))"
    using PUT_mk [of x v st "cells st" "free_list_ptr st"] \<open>cells st x \<noteq> None\<close> by (simp add: mk_self m_def)
  have "tags m b [(s, True)]"
    using segment_tags [OF h seg] x by (auto simp: m_def)
  moreover have "changes H H b (b + row_total [(s, True)]) (cells st) m"
    using x dom by (auto simp: changes_def m_def)
  moreover have "H = H(p \<mapsto> us @ [(s, True)] @ vs)" using seg by (auto simp: segment_def)
  ultimately have "heap_inv H (mk st m (free_list_ptr st))"
    using segment_row [OF lay seg] by (intro replace_ok [OF h seg refl]) auto
  moreover have "links_ok m (free_list_ptr st) fl" if "links_ok (cells st) (free_list_ptr st) fl" "set fl = free_blocks H" for fl
  proof (rule links_frame [OF that(1)])
    fix c y assume "c \<in> set fl" "in_node c y"
    then show "m y = cells st y"
      using payload_not_in_node [OF lay old, of c x] that(2) x by (auto simp: m_def)
  qed
  ultimately have "mm_inv H (mk st m (free_list_ptr st))" using inv by (auto simp: mm_inv_def)
  then show ?thesis using op m_def by simp
qed

text \<open>C2. In any state the allocator reaches while its page and call counters are far from overflow (\<open>mem_room\<close>),
  \<open>mm_malloc\<close> of 1 to \<open>MAX_REQUEST\<close> bytes either fails because
  \<open>mmap\<close> refuses the range it asks for, or returns a 16-byte aligned block with room for the request
  that overlaps no allocated block, keeps the contents of every allocated block, and leaves a heap
  that is well formed again: tags, free list and page table agree, no two free blocks are
  neighbours, and no range of pages is free as a whole.\<close>

theorem mm_malloc_allocates:
  assumes "os_ok mmap" "mm_inv H st" "settled H" "mem_room st" "0 < sz" "sz \<le> MAX_REQUEST"
  shows "(mm_malloc mmap sz st = Some (Inl ''mmap failed'') \<and>
      fst (sys_mmap mmap (range_for (block_for sz)) (activity mmap (lib st))) = None) \<or>
    (\<exists>b s st' H'. mm_malloc mmap sz st = Some (Inr (b, st')) \<and> mm_inv H' st' \<and> settled H' \<and>
       allocated H' = insert (b, s) (allocated H) \<and> sz + 8 \<le> s \<and> 16 dvd b \<and> 0 < b \<and>
       (\<forall>(c, t)\<in>allocated H. b + s \<le> c \<or> c + t \<le> b) \<and>
       payloads_kept (allocated H) (cells st) (cells st'))"
  using mm_malloc_ok [OF assms] unfolding allocates_def by blast

definition mm0 :: mm where
  "mm0 = mm_init \<lparr>lib = memlib0, free_list_ptr = 0\<rparr>"

lemma mm0_inv: "mm_inv Map.empty mm0" "settled Map.empty" "mem_room mm0" "allocated Map.empty = {}"
proof -
  have "heap_inv Map.empty mm0"
    using memlib0_inv memlib0_pages by (simp add: heap_inv_def layout_def mm0_def mm_init_def)
  moreover have "links_ok (cells mm0) (free_list_ptr mm0) []" "free_blocks Map.empty = {}"
    by (simp_all add: links_ok_def mm0_def mm_init_def free_blocks_def blocks_def)
  ultimately show "mm_inv Map.empty mm0" by (auto simp: mm_inv_def)
  show "settled Map.empty" "allocated Map.empty = {}" by (simp_all add: settled_def allocated_def blocks_def)
  show "mem_room mm0" by (simp add: mem_room_def mm0_def mm_init_def memlib0_def INT_MAX_def)
qed

lemma sample_range: "fst (sys_mmap sample_mmap (range_for (block_for 100)) (activity sample_mmap (lib mm0))) \<noteq> None"
proof -
  have "range_for (block_for 100) = 65536"
    by code_simp
  then show ?thesis
    by (auto simp: activity_def APAGE_SIZE_def sys_mmap_def sample_mmap_def mm0_def mm_init_def memlib0_def Let_def dom_def)
qed

theorem mm_malloc_allocates_witness:
  "\<exists>b s st' H'. mm_malloc sample_mmap 100 mm0 = Some (Inr (b, st')) \<and> mm_inv H' st' \<and> allocated H' = {(b, s)} \<and> 108 \<le> s"
proof -
  show ?thesis
    using mm_malloc_allocates [OF sample_mmap_ok mm0_inv(1-3), of 100] sample_range mm0_inv(4)
    by (simp add: MAX_REQUEST_def) blast
qed

text \<open>C4. The search of the free list ends, without reading outside the list, and is first fit: it
  returns the first block in list order that is at least as large as the request, and 0 exactly
  when every free block is smaller.\<close>

theorem find_fit_first:
  assumes "mm_inv H st"
  shows "\<exists>fl r. links_ok (cells st) (free_list_ptr st) fl \<and> set fl = free_blocks H \<and>
    find_fit (free_list_ptr st) n st = Some r \<and>
    (r = 0 \<and> (\<forall>b s. (b, s, False) \<in> blocks H \<longrightarrow> s < n) \<or>
     (\<exists>xs ys s. fl = xs @ r # ys \<and> (r, s, False) \<in> blocks H \<and> n \<le> s \<and>
        (\<forall>b\<in>set xs. \<forall>s. (b, s, False) \<in> blocks H \<longrightarrow> s < n)))"
proof -
  obtain fl where fl: "links_ok (cells st) (free_list_ptr st) fl" "set fl = free_blocks H"
      "\<forall>b\<in>set fl. \<exists>s. (b, s, False) \<in> blocks H \<and> cells st (b - 4) = Some (tag s False) \<and> size_ok s"
    using mm_inv_fit [OF assms] by blast
  note fit = mm_inv_find_fit [OF assms fl, of n]
  have size: "block_size (cells st) b = s" if b: "(b, s, False) \<in> blocks H" for b s
  proof -
    have "b \<in> set fl" using b fl(2) by (auto simp: free_blocks_def)
    then obtain t where t: "(b, t, False) \<in> blocks H" "block_size (cells st) b = t"
      using fl(3) block_size_tag by blast
    then show ?thesis
      using blocks_apart [OF mm_inv_layout [OF assms] b t(1)] blocks_bounds(3) [OF mm_inv_layout [OF assms] b]
        blocks_bounds(3) [OF mm_inv_layout [OF assms] t(1)] by auto
  qed
  show ?thesis
  proof (cases "find (\<lambda>b. n \<le> block_size (cells st) b) fl")
    case None
    then have "s < n" if "(b, s, False) \<in> blocks H" for b s
      using that size [OF that] fl(2) by (force simp: find_None_iff free_blocks_def)
    then show ?thesis using fl(1,2) fit None by auto
  next
    case (Some r)
    then obtain i where i: "i < List.length fl" "n \<le> block_size (cells st) (fl ! i)" "r = fl ! i"
        "\<forall>j<i. \<not> n \<le> block_size (cells st) (fl ! j)"
      by (auto simp: find_Some_iff)
    have "fl = take i fl @ r # drop (Suc i) fl" using i(1,3) by (simp add: id_take_nth_drop)
    moreover obtain s where s: "(r, s, False) \<in> blocks H" using fl(3) i(1,3) nth_mem by blast
    moreover have "\<forall>b\<in>set (take i fl). \<forall>s. (b, s, False) \<in> blocks H \<longrightarrow> s < n"
      using i(1,4) size by (fastforce simp: in_set_conv_nth)
    ultimately show ?thesis using fl(1,2) fit Some i(2,3) size [OF s] by fastforce
  qed
qed

theorem find_fit_first_witness: "find_fit (free_list_ptr mm0) 32 mm0 = Some 0"
proof -
  have "blocks Map.empty = {}" "free_blocks Map.empty = {}" by (simp_all add: blocks_def free_blocks_def)
  then show ?thesis using find_fit_first [OF mm0_inv(1), of 32] by auto
qed

text \<open>A client may write to any aligned cell of a block it owns.\<close>

lemma client_write_safe:
  assumes "mm_inv H st" "(b, s) \<in> allocated H" "4 dvd x" "b \<le> x" "x < b + s - 8"
  shows "\<exists>st'. PUT x v st = Some st' \<and> mm_inv H st' \<and> cells st' = (cells st)(x := Some (word_of_int v))"
  using client_write [OF assms] by blast

end
