(* ===== verification/Allocator.thy ===== *)
theory Allocator
  imports Heap_Layout
begin

text \<open>
  What the clients of an allocator rely on, and what follows for any client program. A client
  requests blocks, writes to them and releases them in any order; \<open>run\<close> collects the states it can
  reach, with the blocks it holds and the values it has written.
\<close>

type_synonym handles = "(int \<times> int) list"
type_synonym shadow = "int \<Rightarrow> 32 word option"

definition forget :: "int \<Rightarrow> int \<Rightarrow> shadow \<Rightarrow> shadow" where
  "forget b n sh = (\<lambda>x. if b \<le> x \<and> x < b + n then None else sh x)"

definition in_block :: "int \<Rightarrow> int \<Rightarrow> int \<Rightarrow> bool" where
  "in_block b n x \<longleftrightarrow> 4 dvd x \<and> b \<le> x \<and> x + 4 \<le> b + n"

inductive run ::
  "(int \<Rightarrow> 's \<Rightarrow> (string + int \<times> 's) option) \<Rightarrow> (int \<Rightarrow> 's \<Rightarrow> (string + 's) option) \<Rightarrow>
   (int \<Rightarrow> int \<Rightarrow> 's \<Rightarrow> 's option) \<Rightarrow> (int \<Rightarrow> 's \<Rightarrow> bool) \<Rightarrow> 's \<Rightarrow> handles \<Rightarrow> shadow \<Rightarrow> 's \<Rightarrow> bool"
  for malloc free put ok st0
where
  start: "run malloc free put ok st0 [] (\<lambda>_. None) st0"
| request: "run malloc free put ok st0 hs sh st \<Longrightarrow> ok n st \<Longrightarrow> malloc n st = Some (Inr (b, st')) \<Longrightarrow>
    run malloc free put ok st0 ((b, n) # hs) (forget b n sh) st'"
| release: "run malloc free put ok st0 hs sh st \<Longrightarrow> (b, n) \<in> set hs \<Longrightarrow> free b st = Some (Inr st') \<Longrightarrow>
    run malloc free put ok st0 (remove1 (b, n) hs) sh st'"
| store: "run malloc free put ok st0 hs sh st \<Longrightarrow> (b, n) \<in> set hs \<Longrightarrow> in_block b n x \<Longrightarrow> put x v st = Some st' \<Longrightarrow>
    run malloc free put ok st0 hs (sh(x := Some (word_of_int v))) st'"

locale allocator =
  fixes env_ok :: "'e \<Rightarrow> bool" and malloc :: "'e \<Rightarrow> int \<Rightarrow> 's \<Rightarrow> (string + int \<times> 's) option"
    and free :: "int \<Rightarrow> 's \<Rightarrow> (string + 's) option" and put :: "int \<Rightarrow> int \<Rightarrow> 's \<Rightarrow> 's option"
    and ok :: "int \<Rightarrow> 's \<Rightarrow> bool" and st0 :: 's and cells :: "'s \<Rightarrow> mem" and owned :: "(int \<times> int) set \<Rightarrow> 's \<Rightarrow> bool"
  assumes start: "owned {} st0"
    and malloc: "env_ok e \<Longrightarrow> owned A st \<Longrightarrow> ok n st \<Longrightarrow> (\<exists>msg. malloc e n st = Some (Inl msg)) \<or>
      (\<exists>b s st'. malloc e n st = Some (Inr (b, st')) \<and> owned (insert (b, s) A) st' \<and> n + 8 \<le> s \<and> 0 < n \<and>
         (\<forall>(c, t)\<in>A. b + s \<le> c \<or> c + t \<le> b) \<and> payloads_kept A (cells st) (cells st'))"
    and free: "owned A st \<Longrightarrow> (b, s) \<in> A \<Longrightarrow>
      \<exists>st'. free b st = Some (Inr st') \<and> owned (A - {(b, s)}) st' \<and> payloads_kept (A - {(b, s)}) (cells st) (cells st')"
    and put: "owned A st \<Longrightarrow> (b, s) \<in> A \<Longrightarrow> 4 dvd x \<Longrightarrow> b \<le> x \<Longrightarrow> x < b + s - 8 \<Longrightarrow>
      \<exists>st'. put x v st = Some st' \<and> owned A st' \<and> cells st' = (cells st)(x := Some (word_of_int v))"
    and apart: "owned A st \<Longrightarrow> (b, s) \<in> A \<Longrightarrow> (c, t) \<in> A \<Longrightarrow> (b, s) = (c, t) \<or> b + s \<le> c \<or> c + t \<le> b"
begin

definition holds :: "handles \<Rightarrow> shadow \<Rightarrow> (int \<times> int) set \<Rightarrow> 's \<Rightarrow> bool" where
  "holds hs sh A st \<longleftrightarrow> owned A st \<and> distinct (map fst hs) \<and>
     (\<forall>(b, n)\<in>set hs. 0 < n \<and> (\<exists>s. (b, s) \<in> A \<and> n + 8 \<le> s)) \<and>
     (\<forall>(b, n)\<in>set hs. \<forall>x w. in_block b n x \<longrightarrow> sh x = Some w \<longrightarrow> cells st x = Some w)"

lemma holds_start: "holds [] (\<lambda>_. None) {} st0"
  by (simp add: holds_def start)

lemma holds_handle:
  assumes "holds hs sh A st" "(b, n) \<in> set hs"
  obtains s where "(b, s) \<in> A" "n + 8 \<le> s" "0 < n"
  using assms unfolding holds_def by blast

lemma holds_request:
  assumes e: "env_ok e" and h: "holds hs sh A st" and n: "ok n st" "malloc e n st = Some (Inr (b, st'))"
  shows "\<exists>A'. holds ((b, n) # hs) (forget b n sh) A' st'"
proof -
  have own: "owned A st" using h by (simp add: holds_def)
  obtain s where s: "owned (insert (b, s) A) st'" "n + 8 \<le> s" "0 < n" "\<forall>(c, t)\<in>A. b + s \<le> c \<or> c + t \<le> b"
      "payloads_kept A (cells st) (cells st')"
    using malloc [OF e own n(1)] n(2) by auto
  have fresh: "b \<noteq> c" if "(c, k) \<in> set hs" for c k
    using holds_handle [OF h that] s(2-4) by fastforce
  have kept: "cells st' x = Some w"
    if c: "(c, k) \<in> set hs" and x: "in_block c k x" "forget b n sh x = Some w" for c k x w
  proof -
    obtain t where t: "(c, t) \<in> A" "k + 8 \<le> t" using holds_handle [OF h c] by metis
    then have "cells st' x = cells st x" using payloads_keptD [OF s(5) t(1), of x] x(1) by (simp add: in_block_def)
    moreover have "sh x = Some w" using x(2) by (simp add: forget_def split: if_splits)
    ultimately show ?thesis using h c x(1) by (auto simp: holds_def)
  qed
  have "holds ((b, n) # hs) (forget b n sh) (insert (b, s) A) st'"
    unfolding holds_def
  proof (intro conjI)
    have "b \<notin> set (map fst hs)" using fresh by fastforce
    then show "distinct (map fst ((b, n) # hs))" using h by (simp add: holds_def)
    show "\<forall>(c, k)\<in>set ((b, n) # hs). 0 < k \<and> (\<exists>s'. (c, s') \<in> insert (b, s) A \<and> k + 8 \<le> s')"
      using h s(2,3) by (auto simp: holds_def)
    show "\<forall>(c, k)\<in>set ((b, n) # hs). \<forall>x w. in_block c k x \<longrightarrow> forget b n sh x = Some w \<longrightarrow> cells st' x = Some w"
      using kept by (auto simp: forget_def in_block_def split: if_splits)
  qed (rule s(1))
  then show ?thesis by blast
qed

lemma holds_release:
  assumes h: "holds hs sh A st" and b: "(b, n) \<in> set hs"
  shows "\<exists>st' A'. free b st = Some (Inr st') \<and> holds (remove1 (b, n) hs) sh A' st'"
proof -
  have own: "owned A st" and d: "distinct (map fst hs)" using h by (simp_all add: holds_def)
  obtain s where s: "(b, s) \<in> A" using holds_handle [OF h b] by metis
  obtain st' where st': "free b st = Some (Inr st')" "owned (A - {(b, s)}) st'"
      "payloads_kept (A - {(b, s)}) (cells st) (cells st')"
    using free [OF own s] by blast
  have rest: "(c, k) \<in> set hs \<and> c \<noteq> b" if "(c, k) \<in> set (remove1 (b, n) hs)" for c k
  proof -
    have "distinct hs" using d by (simp add: distinct_map)
    then have "(c, k) \<in> set hs" "(c, k) \<noteq> (b, n)" using that by (simp_all add: set_remove1_eq)
    then show ?thesis using eq_key_imp_eq_value [OF d _ b] by blast
  qed
  have "holds (remove1 (b, n) hs) sh (A - {(b, s)}) st'"
    unfolding holds_def
  proof (intro conjI ballI)
    show "distinct (map fst (remove1 (b, n) hs))" using d by (simp add: distinct_map inj_on_def)
    fix ck assume ck_in: "ck \<in> set (remove1 (b, n) hs)"
    obtain c k where eq: "ck = (c, k)" by (cases ck)
    have "(c, k) \<in> set (remove1 (b, n) hs)" using ck_in by (simp only: eq)
    note ck = eq conjunct1 [OF rest [OF this]] conjunct2 [OF rest [OF this]]
    obtain t where t: "(c, t) \<in> A - {(b, s)}" "k + 8 \<le> t" "0 < k" using holds_handle [OF h ck(2)] ck(3) by auto
    then show "case ck of (c, k) \<Rightarrow> 0 < k \<and> (\<exists>s'. (c, s') \<in> A - {(b, s)} \<and> k + 8 \<le> s')" using ck(1) by blast
    have "cells st' x = cells st x" if "in_block c k x" for x
      using payloads_keptD [OF st'(3) t(1), of x] t(2) that by (simp add: in_block_def)
    then show "case ck of (c, k) \<Rightarrow> \<forall>x w. in_block c k x \<longrightarrow> sh x = Some w \<longrightarrow> cells st' x = Some w"
      using h ck by (auto simp: holds_def)
  qed (rule st'(2))
  then show ?thesis using st'(1) by blast
qed

lemma holds_store:
  assumes h: "holds hs sh A st" and b: "(b, n) \<in> set hs" and x: "in_block b n x"
  shows "\<exists>st'. put x v st = Some st' \<and> holds hs (sh(x := Some (word_of_int v))) A st'"
proof -
  have own: "owned A st" using h by (simp add: holds_def)
  obtain s where s: "(b, s) \<in> A" "n + 8 \<le> s" using holds_handle [OF h b] by metis
  obtain st' where "put x v st = Some st'" "owned A st'" "cells st' = (cells st)(x := Some (word_of_int v))"
    using put [OF own s(1), of x v] x s(2) by (auto simp: in_block_def)
  then show ?thesis using h by (auto simp: holds_def)
qed

lemma run_holds:
  assumes e: "env_ok e" and r: "run (malloc e) free put ok st0 hs sh st"
  shows "\<exists>A. holds hs sh A st"
  using r
proof induction
  case start
  then show ?case using holds_start by blast
next
  case (request hs sh st n b st')
  then show ?case using holds_request [OF e] by blast
next
  case (release hs sh st b n st')
  then obtain A where A: "holds hs sh A st" by blast
  show ?case using holds_release [OF A release.hyps(2)] release.hyps(3) by auto
next
  case (store hs sh st b n x v st')
  then obtain A where A: "holds hs sh A st" by blast
  obtain st'' where "put x v st = Some st''" "holds hs (sh(x := Some (word_of_int v))) A st''"
    using holds_store [OF A store.hyps(2,3)] by blast
  then show ?case using store.hyps(4) by (intro exI [of _ A]) (simp del: fun_upd_apply add: fun_upd_def)
qed

lemma holds_apart:
  assumes h: "holds hs sh A st" and b: "(b, n) \<in> set hs" "(c, k) \<in> set hs"
  shows "(b, n) = (c, k) \<or> b + n \<le> c \<or> c + k \<le> b"
proof -
  obtain s where s: "(b, s) \<in> A" "n + 8 \<le> s" using holds_handle [OF h b(1)] by metis
  obtain t where t: "(c, t) \<in> A" "k + 8 \<le> t" using holds_handle [OF h b(2)] by metis
  have "owned A st" using h by (simp add: holds_def)
  from apart [OF this s(1) t(1)] show ?thesis
  proof
    assume "(b, s) = (c, t)"
    moreover have "inj_on fst (set hs)" using h by (simp add: holds_def distinct_map)
    ultimately show ?thesis using inj_onD [of fst "set hs" "(b, n)" "(c, k)"] b by auto
  next
    assume "b + s \<le> c \<or> c + t \<le> b"
    then show ?thesis using s(2) t(2) by auto
  qed
qed

text \<open>In every state a client reaches: its blocks are apart and hold what it wrote last, and none of
  its next steps is undefined.\<close>

lemma client_safe:
  assumes e: "env_ok e" and r: "run (malloc e) free put ok st0 hs sh st"
  shows "((b, n) \<in> set hs \<longrightarrow> (c, k) \<in> set hs \<longrightarrow> (b, n) = (c, k) \<or> b + n \<le> c \<or> c + k \<le> b) \<and>
    ((b, n) \<in> set hs \<longrightarrow> in_block b n x \<longrightarrow> sh x = Some w \<longrightarrow> cells st x = Some w) \<and>
    ((b, n) \<in> set hs \<longrightarrow> (\<exists>st'. free b st = Some (Inr st'))) \<and>
    ((b, n) \<in> set hs \<longrightarrow> in_block b n x \<longrightarrow> (\<exists>st'. put x v st = Some st')) \<and>
    (ok m st \<longrightarrow> malloc e m st \<noteq> None)"
proof -
  obtain A where h: "holds hs sh A st" using run_holds [OF e r] by blast
  then have own: "owned A st" by (simp add: holds_def)
  show ?thesis
  proof (intro conjI impI)
    assume b: "(b, n) \<in> set hs"
    show "(b, n) = (c, k) \<or> b + n \<le> c \<or> c + k \<le> b" if "(c, k) \<in> set hs"
      using holds_apart [OF h b that] .
    show "cells st x = Some w" if "in_block b n x" "sh x = Some w"
      using h b that by (auto simp: holds_def)
    show "\<exists>st'. free b st = Some (Inr st')"
      using holds_release [OF h b] by blast
    show "\<exists>st'. put x v st = Some st'" if "in_block b n x"
      using holds_store [OF h b that, of v] by blast
  next
    show "malloc e m st \<noteq> None" if "ok m st"
      using malloc [OF e own that] by auto
  qed
qed

end

end
