(* ===== verification/MM_Free.thy ===== *)
theory MM_Free
  imports MM_Alloc Allocator
begin

text \<open>
  Release: \<open>coalesce\<close> merges a block with its free neighbours in four cases, \<open>mm_free\<close> then returns
  the page range when the block fills it. At the end the allocator as its clients see it.
\<close>

unbundle bit_operations_syntax

section \<open>Coalescing\<close>

text \<open>An allocated block, the prologue or the terminator at an edge of a segment.\<close>

definition left_edge :: "mem \<Rightarrow> int \<Rightarrow> bool" where
  "left_edge m a \<longleftrightarrow> (\<exists>t. m (a - 8) = Some (tag t True) \<and> size_ok t \<and> 0 < t \<and> (t = 8 \<or> m (a - t - 4) = Some (tag t True)))"

definition right_edge :: "mem \<Rightarrow> int \<Rightarrow> bool" where
  "right_edge m e \<longleftrightarrow> (\<exists>t. m (e - 4) = Some (tag t True) \<and> size_ok t)"

definition block_tags :: "mem \<Rightarrow> int \<Rightarrow> int \<Rightarrow> bool" where
  "block_tags m b s \<longleftrightarrow> m (b - 4) = Some (tag s False) \<and> m (b + s - 8) = Some (tag s False) \<and> size_ok s \<and> 32 \<le> s"

text \<open>List nodes other than those of \<open>K\<close> lie outside a segment.\<close>

definition clear_of :: "int list \<Rightarrow> int set \<Rightarrow> int \<Rightarrow> int \<Rightarrow> bool" where
  "clear_of fl K a S \<longleftrightarrow> (\<forall>c\<in>set fl - K. \<forall>x. in_node c x \<longrightarrow> x < a - 4 \<or> a + S - 4 \<le> x)"

lemma clear_ofD: "clear_of fl K a S \<Longrightarrow> c \<in> set fl \<Longrightarrow> c \<notin> K \<Longrightarrow> in_node c x \<Longrightarrow> x < a - 4 \<or> a + S - 4 \<le> x"
  by (auto simp: clear_of_def)

definition coalesced :: "mem \<Rightarrow> int list \<Rightarrow> mem \<Rightarrow> int \<Rightarrow> int \<Rightarrow> int \<Rightarrow> int set \<Rightarrow> bool" where
  "coalesced m fl m' h' a S R \<longleftrightarrow> (\<exists>fl'. links_ok m' h' fl' \<and> set fl' = R) \<and> block_tags m' a S \<and> same_domain m m' \<and>
     (\<forall>x. \<not> (a - 4 \<le> x \<and> x < a + S - 4) \<longrightarrow> (\<forall>c\<in>set fl \<union> R. \<not> in_node c x) \<longrightarrow> m' x = m x)"

lemma block_tags_reads:
  assumes "block_tags m b s"
  shows "GET_SIZE (b - 4) (mk st m h) = Some s" "GET_ALLOC (b - 4) (mk st m h) = Some 0" "to_size s = s"
    "FTRP b (mk st m h) = Some (b + s - 8)" "NEXT_BLKP b (mk st m h) = Some (b + s)"
    "GET_ALLOC (b + s - 8) (mk st m h) = Some 0" "GET_SIZE (b + s - 8) (mk st m h) = Some s"
  using assms by (simp_all add: block_tags_def FTRP_def NEXT_BLKP_def HDPR_def OVERHEAD_def)

lemma left_edge_reads:
  assumes "left_edge m b"
  obtains t where "GET_ALLOC (b - 8) (mk st m h) = Some 1" "GET_SIZE (b - 8) (mk st m h) = Some t"
    "t = 8 \<or> PREV_BLKP b (mk st m h) = Some (b - t) \<and> GET_ALLOC (b - t - 4) (mk st m h) = Some 1"
proof -
  obtain t where t: "m (b - 8) = Some (tag t True)" "size_ok t" "t = 8 \<or> m (b - t - 4) = Some (tag t True)"
    using assms by (auto simp: left_edge_def)
  then show thesis using that [of t] by (auto simp: PREV_BLKP_def OVERHEAD_def)
qed

lemma right_edge_reads:
  assumes "right_edge m e"
  obtains t where "GET_ALLOC (e - 4) (mk st m h) = Some 1" "GET_SIZE (e - 4) (mk st m h) = Some t"
  using assms by (auto simp: right_edge_def)

text \<open>The test on the neighbours, in each of the four cases.\<close>

lemma coalesce_neither:
  assumes b: "block_tags m b s" and e: "left_edge m b" "right_edge m (b + s)"
    and links: "links_ok m h fl" "clear_of fl {} b s" "node_ok m b" "b \<notin> set fl"
  shows "\<exists>m' h'. coalesce b (mk st m h) = Some (b, mk st m' h') \<and> coalesced m fl m' h' b s (insert b (set fl))"
proof -
  obtain m' where add: "add_to_free_list b (mk st m h) = Some (mk st m' b)" "links_ok m' b (b # fl)"
      "\<And>x. m' x = None \<longleftrightarrow> m x = None" "\<And>x. (\<forall>c\<in>set (b # fl). \<not> in_node c x) \<Longrightarrow> m' x = m x"
    using add_to_free_list_mk [OF links(1,3,4), of st] by blast
  obtain t where l: "GET_ALLOC (b - 8) (mk st m h) = Some 1" "GET_SIZE (b - 8) (mk st m h) = Some t"
      "t = 8 \<or> PREV_BLKP b (mk st m h) = Some (b - t) \<and> GET_ALLOC (b - t - 4) (mk st m h) = Some 1"
    using left_edge_reads [OF e(1)] by blast
  obtain u where r: "GET_ALLOC (b + s - 4) (mk st m h) = Some 1" "GET_SIZE (b + s - 4) (mk st m h) = Some u"
    using right_edge_reads [OF e(2)] by blast
  have "coalesce b (mk st m h) = Some (b, mk st m' b)"
    using l(3) by (auto simp: coalesce_def Let_def HDPR_def OVERHEAD_def block_tags_reads [OF b] l(1,2) r add(1))
  moreover have "coalesced m fl m' b b s (insert b (set fl))"
  proof -
    have "\<forall>c\<in>set (b # fl). \<not> in_node c x" if "x \<in> {b - 4, b + s - 8}" for x
      using that links(2) b by (fastforce simp: clear_of_def in_node_def block_tags_def)
    then have "m' (b - 4) = m (b - 4)" "m' (b + s - 8) = m (b + s - 8)" using add(4) by blast+
    then show ?thesis
      using add(2-4) b by (auto simp: coalesced_def block_tags_def same_domain_def intro!: exI [of _ "b # fl"])
  qed
  ultimately show ?thesis by blast
qed

lemma unlink_next:
  assumes links: "links_ok m h fl" "n \<in> set fl"
  obtains m' h' fl' where "remove_from_free_list n (mk st m h) = Some (mk st m' h')" "links_ok m' h' fl'"
    "set fl' = set fl - {n}" "\<And>x. m' x = None \<longleftrightarrow> m x = None" "\<And>x. (\<forall>c\<in>set fl - {n}. \<not> in_node c x) \<Longrightarrow> m' x = m x"
proof -
  obtain xs ys where fl: "fl = xs @ n # ys" using links(2) by (auto simp: in_set_conv_decomp)
  have "set (xs @ ys) = set fl - {n}" using links(1) fl by (auto simp: links_ok_def)
  then show thesis
    using remove_from_free_list_mk [of m h xs n ys st] links(1) that unfolding fl by metis
qed

lemma clear_cell:
  assumes "clear_of fl K a S" "K \<subseteq> K'" "a - 4 \<le> x" "x < a + S - 4"
  shows "\<forall>c\<in>set fl - K'. \<not> in_node c x"
  using assms by (fastforce simp: clear_of_def)

lemma block_tags_write:
  "m x = Some (tag s False) \<or> m x \<noteq> None \<Longrightarrow> PUT x (PACK v 0) (mk st m h) = Some (mk st (m(x := Some (tag v False))) h)"
  by (auto simp: tag_def)

lemma coalesce_next:
  assumes b: "block_tags m b s" "block_tags m (b + s) s1" "size_ok (s + s1)"
    and e: "left_edge m b" "right_edge m (b + (s + s1))"
    and links: "links_ok m h fl" "clear_of fl {b + s} b (s + s1)" "node_ok m b" "b \<notin> set fl" "b + s \<in> set fl"
  shows "\<exists>m' h'. coalesce b (mk st m h) = Some (b, mk st m' h') \<and>
    coalesced m fl m' h' b (s + s1) (insert b (set fl - {b + s}))"
proof -
  define S where "S = s + s1"
  obtain m2 h2 fl2 where rem: "remove_from_free_list (b + s) (mk st m h) = Some (mk st m2 h2)" "links_ok m2 h2 fl2"
      "set fl2 = set fl - {b + s}" "\<And>x. m2 x = None \<longleftrightarrow> m x = None"
      "\<And>x. (\<forall>c\<in>set fl - {b + s}. \<not> in_node c x) \<Longrightarrow> m2 x = m x"
    using unlink_next [OF links(1,5), of st] by blast
  have in2: "m2 x = m x" if "b - 4 \<le> x" "x < b + S - 4" for x
    using clear_cell [OF links(2) order_refl] that by (intro rem(5)) (simp add: S_def)
  have s: "32 \<le> s" "32 \<le> s1" "size_ok S" "to_size (s + s1) = S" using b by (auto simp: block_tags_def S_def)
  have b2: "block_tags m2 b s" "block_tags m2 (b + s) s1"
    using b s in2 by (auto simp: block_tags_def S_def)
  define m4 where "m4 = m2(b - 4 := Some (tag S False), b + S - 8 := Some (tag S False))"
  have m2S: "m2 (b - 4) \<noteq> None" "m2 (b + S - 8) \<noteq> None"
    using b2 by (auto simp: block_tags_def S_def add.assoc)
  have w: "PUT_HDR b S 0 (mk st m2 h2) = Some (mk st (m2(b - 4 := Some (tag S False))) h2)"
    "PUT_FTR b S 0 (mk st (m2(b - 4 := Some (tag S False))) h2) = Some (mk st m4 h2)"
    using PUT_HDR_mk [of m2 b S False st h2] PUT_FTR_mk [of "m2(b - 4 := Some (tag S False))" b S False S False st h2] m2S s
    by (simp_all add: m4_def)
  have dom4: "m4 x = None \<longleftrightarrow> m x = None" for x using m2S rem(4) by (auto simp: m4_def)
  have l4: "links_ok m4 h2 fl2"
  proof (rule links_frame [OF rem(2)])
    fix c x assume c: "c \<in> set fl2" "in_node c x"
    have "x < b - 4 \<or> b + (s + s1) - 4 \<le> x"
      by (rule clear_ofD [OF links(2) _ _ c(2)]) (use c(1) rem(3) in auto)
    then have "x \<noteq> b - 4" "x \<noteq> b + S - 8" using s unfolding S_def by linarith+
    then show "m4 x = m2 x" by (simp add: m4_def)
  qed
  have nb: "node_ok m4 b" using links(3) dom4 unfolding node_ok_def by metis
  have out: "b \<notin> set fl2" using links(4) rem(3) by simp
  obtain m' where add: "add_to_free_list b (mk st m4 h2) = Some (mk st m' b)" "links_ok m' b (b # fl2)"
      "\<And>x. m' x = None \<longleftrightarrow> m4 x = None" "\<And>x. (\<forall>c\<in>set (b # fl2). \<not> in_node c x) \<Longrightarrow> m' x = m4 x"
    using add_to_free_list_mk [OF l4 nb out, of st] by blast
  obtain t where l: "GET_ALLOC (b - 8) (mk st m h) = Some 1" "GET_SIZE (b - 8) (mk st m h) = Some t"
      "t = 8 \<or> PREV_BLKP b (mk st m h) = Some (b - t) \<and> GET_ALLOC (b - t - 4) (mk st m h) = Some 1"
    using left_edge_reads [OF e(1)] by blast
  have "coalesce b (mk st m h) = Some (b, mk st m' b)"
    using l(3) by (auto simp: coalesce_def Let_def HDPR_def OVERHEAD_def block_tags_reads [OF b(1)] block_tags_reads [OF b(2)]
        l(1,2) rem(1) block_tags_reads [OF b2(1)] block_tags_reads [OF b2(2)] s(4) w add(1))
  moreover have "coalesced m fl m' b b S (insert b (set fl - {b + s}))"
  proof -
    have keep: "m' x = m4 x" if "b - 4 \<le> x" "x < b + S - 4" "\<not> in_node b x" for x
      using clear_cell [OF links(2) order_refl that(1)] that(2,3) rem(3) by (intro add(4)) (simp add: S_def)
    have "m' (b - 4) = m4 (b - 4)" "m' (b + S - 8) = m4 (b + S - 8)"
      using s by (auto intro!: keep simp: in_node_def S_def)
    then have "block_tags m' b S" using s by (simp add: block_tags_def m4_def S_def)
    moreover have "m' x = m x" if "\<not> (b - 4 \<le> x \<and> x < b + S - 4)" "\<forall>c\<in>set fl \<union> insert b (set fl - {b + s}). \<not> in_node c x" for x
    proof -
      have "m' x = m4 x" using that(2) rem(3) by (intro add(4)) simp
      moreover have "m2 x = m x" using that(2) by (intro rem(5)) simp
      moreover have "x \<noteq> b - 4" "x \<noteq> b + S - 8" using that(1) s unfolding S_def by linarith+
      ultimately show ?thesis by (simp add: m4_def)
    qed
    ultimately show ?thesis
      using add(2,3) dom4 rem(3) by (auto simp: coalesced_def same_domain_def intro!: exI [of _ "b # fl2"])
  qed
  ultimately show ?thesis by (auto simp: S_def)
qed

lemma coalesce_prev:
  assumes b: "block_tags m a s0" "block_tags m (a + s0) s" "size_ok (s0 + s)" and e: "right_edge m (a + (s0 + s))"
    and links: "links_ok m h fl" "clear_of fl {a} a (s0 + s)" "a \<in> set fl"
  shows "\<exists>m' h'. coalesce (a + s0) (mk st m h) = Some (a, mk st m' h') \<and> coalesced m fl m' h' a (s0 + s) (set fl)"
proof -
  define S where "S = s0 + s"
  define b where "b = a + s0"
  note bb = b(2) [folded b_def]
  have s: "32 \<le> s" "32 \<le> s0" "size_ok S" "to_size (s + s0) = S" using b by (auto simp: block_tags_def S_def add.commute)
  define m1 where "m1 = m(a - 4 := Some (tag S False))"
  define m' where "m' = m1(b + s - 8 := Some (tag S False))"
  have mS: "m (a - 4) \<noteq> None" "m (b + s - 8) \<noteq> None" using b(1) bb by (auto simp: block_tags_def)
  have b1: "m1 (b - 4) = Some (tag s False)" "m1 (b - 8) = Some (tag s0 False)" "m' (b - 8) = Some (tag s0 False)"
    "m (b - 8) = Some (tag s0 False)" "size_ok s" "size_ok s0"
    using b(1) bb s by (auto simp: block_tags_def m1_def m'_def b_def)
  have w: "PUT_HDR a S 0 (mk st m h) = Some (mk st m1 h)" "PUT_FTR b S 0 (mk st m1 h) = Some (mk st m' h)"
    using PUT_HDR_mk [of m a S False st h] PUT_FTR_mk [of m1 b s False S False st h] mS b1 s
    by (auto simp: m1_def m'_def)
  have p: "PREV_BLKP b (mk st m h) = Some a" "PREV_BLKP b (mk st m' h) = Some a"
    using b1 by (simp_all add: PREV_BLKP_def OVERHEAD_def b_def)
  obtain u where r: "GET_ALLOC (b + s - 4) (mk st m h) = Some 1" "GET_SIZE (b + s - 4) (mk st m h) = Some u"
    using right_edge_reads [OF e, of st h] by (auto simp: b_def add.assoc)
  have x: "b - 4 - 4 = b - 8" "b + s - 8 + 4 = b + s - 4" by simp_all
  have "coalesce b (mk st m h) = Some (a, mk st m' h)"
    using b1 by (simp add: coalesce_def Let_def HDPR_def OVERHEAD_def block_tags_reads [OF bb] block_tags_reads [OF b(1)] p r s(4) w)
  moreover have "links_ok m' h fl"
  proof (rule links_frame [OF links(1)])
    fix c y assume c: "c \<in> set fl" "in_node c y"
    show "m' y = m y"
    proof (cases "c = a")
      case True
      then show ?thesis using c(2) s by (auto simp: m'_def m1_def in_node_def b_def)
    next
      case False
      then show ?thesis using c clear_ofD [OF links(2), of c y] s by (auto simp: m'_def m1_def b_def)
    qed
  qed
  moreover have "block_tags m' a S" using s by (auto simp: block_tags_def m'_def m1_def S_def b_def)
  moreover have "same_domain m m'" using mS by (auto simp: same_domain_def m'_def m1_def)
  moreover have "m' x = m x" if "\<not> (a - 4 \<le> x \<and> x < a + S - 4)" for x
    using that s by (auto simp: m'_def m1_def b_def S_def)
  ultimately show ?thesis
    unfolding coalesced_def S_def b_def by blast
qed

lemma coalesce_both:
  assumes b: "block_tags m a s0" "block_tags m (a + s0) s" "block_tags m (a + s0 + s) s1" "size_ok (s0 + s + s1)"
    and e: "right_edge m (a + (s0 + s + s1))"
    and links: "links_ok m h fl" "clear_of fl {a, a + s0 + s} a (s0 + s + s1)" "a \<in> set fl" "a + s0 + s \<in> set fl"
  shows "\<exists>m' h'. coalesce (a + s0) (mk st m h) = Some (a, mk st m' h') \<and>
    coalesced m fl m' h' a (s0 + s + s1) (set fl - {a + s0 + s})"
proof -
  define S where "S = s0 + s + s1"
  define b n where "b = a + s0" and "n = a + s0 + s"
  note bb = b(2) [folded b_def] and bn = b(3) [folded n_def]
  have s: "32 \<le> s" "32 \<le> s0" "32 \<le> s1" "size_ok S" "to_size (s + (s0 + s1)) = S" "b + s = n" "b - s0 = a" "n + s1 = a + S"
    using b by (auto simp: block_tags_def S_def b_def n_def algebra_simps)
  have "n \<in> set fl" using links(4) by (simp add: n_def)
  then obtain m2 h2 fl2 where rem: "remove_from_free_list n (mk st m h) = Some (mk st m2 h2)" "links_ok m2 h2 fl2"
      "set fl2 = set fl - {n}" "\<And>x. m2 x = None \<longleftrightarrow> m x = None"
      "\<And>x. (\<forall>c\<in>set fl - {n}. \<not> in_node c x) \<Longrightarrow> m2 x = m x"
    using unlink_next [OF links(1), of n st] by blast
  have in2: "m2 x = m x" if "a - 4 \<le> x" "x < a + S - 4" "\<not> in_node a x" for x
  proof (rule rem(5))
    show "\<forall>c\<in>set fl - {n}. \<not> in_node c x"
      using clear_cell [OF links(2) order_refl that(1)] that(2,3) by (auto simp: S_def n_def)
  qed
  have "m2 x = m x" if "x \<in> {a - 4, b - 8, b - 4, n - 8, n - 4, a + S - 8}" for x
    using that s by (intro in2) (auto simp: in_node_def S_def b_def n_def)
  then have b2: "block_tags m2 a s0" "block_tags m2 b s" "block_tags m2 n s1"
    using b(1) bb bn s by (auto simp: block_tags_def b_def n_def S_def)
  define m3 where "m3 = m2(a - 4 := Some (tag S False))"
  define m' where "m' = m3(a + S - 8 := Some (tag S False))"
  have m2S: "m2 (a - 4) \<noteq> None" "m2 (a + S - 8) \<noteq> None" using b2(1,3) s(8) by (auto simp: block_tags_def)
  have sz: "size_ok s" "size_ok s0" "size_ok s1" using b by (auto simp: block_tags_def)
  have cell: "m3 (b - 4) = Some (tag s False)" "m3 (n - 4) = Some (tag s1 False)" "m' (b - 8) = Some (tag s0 False)"
      "m2 (b - 8) = Some (tag s0 False)" "m (b - 8) = Some (tag s0 False)"
    using b2 b(1) s by (auto simp: block_tags_def m3_def m'_def b_def n_def S_def)
  have w: "PUT_HDR a S 0 (mk st m2 h2) = Some (mk st m3 h2)" "PUT_FTR n S 0 (mk st m3 h2) = Some (mk st m' h2)"
    using PUT_HDR_mk [of m2 a S False st h2] PUT_FTR_mk [of m3 n s1 False S False st h2] m2S cell(2) sz s(8)
    by (auto simp: m3_def m'_def)
  have p: "PREV_BLKP b (mk st m h) = Some a" "PREV_BLKP b (mk st m2 h2) = Some a" "PREV_BLKP b (mk st m' h2) = Some a"
      "NEXT_BLKP b (mk st m3 h2) = Some n"
    using cell sz s(6,7) by (simp_all add: PREV_BLKP_def NEXT_BLKP_def HDPR_def OVERHEAD_def)
  have nx: "NEXT_BLKP b (mk st m h) = Some n" "NEXT_BLKP b (mk st m2 h2) = Some n"
    using block_tags_reads(5) [OF bb, of st h] block_tags_reads(5) [OF b2(2), of st h2] s(6) by simp_all
  have pre: "GET_ALLOC (b - 8) (mk st m h) = Some 0" "GET_SIZE (b - 8) (mk st m h) = Some s0"
    using cell sz by simp_all
  have nxt: "GET_ALLOC (b + s - 4) (mk st m h) = Some 0" "GET_SIZE (b + s - 4) (mk st m h) = Some s1"
    using block_tags_reads(1,2) [OF bn, of st h] s(6) by simp_all
  have fits: "int_sum s0 s1 = Some (s0 + s1)" using s(1-4) by (simp add: int_sum_def size_ok_def S_def INT_MAX_def)
  have "coalesce b (mk st m h) = Some (a, mk st m' h2)"
    by (simp add: coalesce_def Let_def HDPR_def OVERHEAD_def block_tags_reads [OF bb] block_tags_reads [OF b(1)] pre nxt p nx
        block_tags_reads [OF bn] s(6) rem(1) block_tags_reads [OF b2(1)] block_tags_reads [OF b2(3)] s(5) w fits)
  moreover have "coalesced m fl m' h2 a S (set fl - {n})"
    unfolding coalesced_def
  proof (intro conjI)
    have "links_ok m' h2 fl2"
    proof (rule links_frame [OF rem(2)])
    fix c y assume c: "c \<in> set fl2" "in_node c y"
    show "m' y = m2 y"
    proof (cases "c = a")
      case True
      then have "y \<noteq> a - 4" "y \<noteq> a + S - 8" using c(2) s unfolding S_def in_node_def by linarith+
      then show ?thesis by (simp add: m'_def m3_def)
    next
      case False
      have "y < a - 4 \<or> a + (s0 + s + s1) - 4 \<le> y"
        by (rule clear_ofD [OF links(2) _ _ c(2)]) (use c(1) rem(3) False in \<open>auto simp: n_def\<close>)
      then have "y \<noteq> a - 4" "y \<noteq> a + S - 8" using s unfolding S_def by linarith+
      then show ?thesis by (simp add: m'_def m3_def)
    qed
  qed
    then show "\<exists>fl'. links_ok m' h2 fl' \<and> set fl' = set fl - {n}" using rem(3) by blast
    show "block_tags m' a S" using s by (auto simp: block_tags_def m'_def m3_def S_def)
    show "same_domain m m'" using m2S rem(4) by (auto simp: same_domain_def m'_def m3_def)
    show "\<forall>x. \<not> (a - 4 \<le> x \<and> x < a + S - 4) \<longrightarrow> (\<forall>c\<in>set fl \<union> (set fl - {n}). \<not> in_node c x) \<longrightarrow> m' x = m x"
    proof (intro allI impI)
      fix x assume x: "\<not> (a - 4 \<le> x \<and> x < a + S - 4)" "\<forall>c\<in>set fl \<union> (set fl - {n}). \<not> in_node c x"
      have "m2 x = m x" using x(2) by (intro rem(5)) simp
      moreover have "x \<noteq> a - 4" "x \<noteq> a + S - 8" using x(1) s unfolding S_def by linarith+
      ultimately show "m' x = m x" by (simp add: m'_def m3_def)
    qed
  qed
  ultimately show ?thesis
    unfolding S_def b_def n_def by blast
qed

section \<open>Merging in the heap\<close>

lemma left_edgeI:
  assumes inv: "heap_inv H st" and seg: "segment H p us mid vs a" and us: "us = [] \<or> snd (last us)"
    and m: "\<And>x. x < a - 4 \<Longrightarrow> m x = cells st x"
  shows "left_edge m a"
proof (cases us rule: rev_cases)
  case Nil
  then have "a - 8 = p + 8" "H p = Some (mid @ vs)" using seg by (simp_all add: segment_def)
  then have "cells st (a - 8) = Some (tag 8 True)"
    using heap_inv_page [OF inv, of p] by (simp only: page_tags_def)
  then show ?thesis using m [of "a - 8"] by (auto simp: left_edge_def intro!: exI [of _ 8])
next
  case (snoc ws w)
  then obtain t where w: "w = (t, True)" using us by (cases w) auto
  have lay: "layout H" using inv by (simp add: heap_inv_def)
  have seg': "segment H p ws [(t, True)] (mid @ vs) (a - t)" using seg snoc w by (auto simp: segment_def)
  have t: "(a - t, t, True) \<in> blocks H" using blocks_segment(1) [OF seg' refl] by auto
  have "32 \<le> t" "size_ok t" using blocks_bounds [OF lay t] by (auto intro!: size_okI)
  then show ?thesis
    using segment_tags [OF inv seg'] m [of "a - 8"] m [of "a - t - 4"] by (auto simp: left_edge_def)
qed

lemma right_edgeI:
  assumes inv: "heap_inv H st" and seg: "segment H p us mid vs a" and vs: "vs = [] \<or> snd (hd vs)"
    and m: "\<And>x. a + row_total mid - 4 \<le> x \<Longrightarrow> m x = cells st x"
  shows "right_edge m (a + row_total mid)"
proof (cases vs)
  case Nil
  then have "a + row_total mid - 4 = p + extent (us @ mid) - 4" "H p = Some (us @ mid)"
    using seg by (simp_all add: segment_def extent_def)
  then have "cells st (a + row_total mid - 4) = Some (tag 0 True)"
    using heap_inv_page [OF inv, of p] by (simp only: page_tags_def)
  then show ?thesis using m by (auto simp: right_edge_def intro!: exI [of _ 0])
next
  case (Cons w ws)
  then obtain t where w: "w = (t, True)" using vs by (cases w) auto
  have lay: "layout H" using inv by (simp add: heap_inv_def)
  have seg': "segment H p (us @ mid) [(t, True)] ws (a + row_total mid)" using seg Cons w by (auto simp: segment_def)
  have t: "(a + row_total mid, t, True) \<in> blocks H" using blocks_segment(1) [OF seg' refl] by auto
  have "size_ok t" using blocks_bounds [OF lay t] by (auto intro!: size_okI)
  then show ?thesis using segment_tags [OF inv seg'] m by (auto simp: right_edge_def)
qed

lemma coalesce_segment:
  assumes inv: "heap_inv H st" and links: "links_ok (cells st) h fl" "set fl = free_blocks H"
    and seg: "segment H p us mid vs a" and mid: "mid = pre @ [(s, True)] @ post" and b: "b = a + row_total pre"
    and pre: "pre = [] \<or> pre = [(s0, False)]" and post: "post = [] \<or> post = [(s1, False)]"
    and edges: "us = [] \<or> snd (last us)" "vs = [] \<or> snd (hd vs)"
    and m1: "m1 = (cells st)(b - 4 := Some (tag s False), b + s - 8 := Some (tag s False))"
  shows "\<exists>m' h'. coalesce b (mk st m1 h) = Some (a, mk st m' h') \<and>
    coalesced m1 fl m' h' a (row_total mid) (free_blocks H - free_in (locate a mid) \<union> {a})"
proof -
  have lay: "layout H" using inv by (simp add: heap_inv_def)
  have row: "row_ok mid" using segment_row [OF lay seg] by simp
  have bnd: "16 dvd a" "row_total mid < 2 ^ 31" using segment_bounds [OF lay seg] by simp_all
  have S: "size_ok (row_total mid)" using row_total_pos [OF row] bnd by (auto intro!: size_okI)
  have pos: "0 \<le> row_total pre" "0 \<le> row_total post" "32 \<le> s" "16 dvd b"
    using row row_total_pos [of pre] row_total_pos [of post] mid bnd(1) b by auto
  note tg = segment_tags [OF inv seg, unfolded mid, simplified]
  have dom: "same_domain (cells st) m1"
    using tg pos b by (auto simp: same_domain_def m1)
  have e: "left_edge m1 a" "right_edge m1 (a + row_total mid)"
    using left_edgeI [OF inv seg edges(1), of m1] right_edgeI [OF inv seg edges(2), of m1] pos b mid by (auto simp: m1)
  have clear: "clear_of fl (free_in (locate a mid)) a (row_total mid)"
    using free_node_apart [OF lay seg] links(2) unfolding clear_of_def by fastforce
  have in_fl: "free_in (locate a mid) \<subseteq> set fl" using segment_free_in [OF seg] links(2) by simp
  have new: "b \<notin> set fl"
  proof
    assume "b \<in> set fl"
    then obtain t where t: "(b, t, False) \<in> blocks H" using links(2) by (auto simp: free_blocks_def)
    have "(b, s, True) \<in> blocks H" using blocks_segment(1) [OF seg refl] mid b by auto
    then show False using blocks_apart [OF lay t] blocks_bounds(3) [OF lay t] blocks_bounds(3) [of H b s True] lay by fastforce
  qed
  have l1: "links_ok m1 h fl"
  proof (rule links_frame [OF links(1)])
    fix c x assume c: "c \<in> set fl" "in_node c x"
    then obtain t where t: "(c, t, False) \<in> blocks H" using links(2) by (auto simp: free_blocks_def)
    have old: "(b, s, True) \<in> blocks H" using blocks_segment(1) [OF seg refl] mid b by auto
    have "x \<noteq> b - 4" "x \<noteq> b + s - 8" using tag_not_in_node [OF lay old t] c(2) by auto
    then show "m1 x = cells st x" by (simp add: m1)
  qed
  have node: "node_ok m1 b" using dom pos b mid by (intro node_okI [OF inv seg]) auto
  consider "pre = []" "post = []" | "pre = []" "post = [(s1, False)]" | "pre = [(s0, False)]" "post = []"
    | "pre = [(s0, False)]" "post = [(s1, False)]"
    using pre post by blast
  then show ?thesis
  proof cases
    case 1
    then have "b = a" "block_tags m1 b s" using S row b mid by (auto simp: block_tags_def m1)
    then show ?thesis
      using coalesce_neither [of m1 b s h fl st] e l1 clear node new 1 mid links(2) by simp
  next
    case 2
    then have "b = a" "block_tags m1 b s" "block_tags m1 (b + s) s1"
      using S row b mid tg pos by (auto simp: block_tags_def m1 size_ok_def elim: dvd_trans [rotated])
    then show ?thesis
      using coalesce_next [of m1 b s s1 h fl st] S e l1 clear node new in_fl 2 mid links(2) by (simp add: Un_commute)
  next
    case 3
    then have "b = a + s0" "block_tags m1 a s0" "block_tags m1 (a + s0) s"
      using S row b mid tg pos by (auto simp: block_tags_def m1 size_ok_def elim: dvd_trans [rotated])
    then show ?thesis
      using coalesce_prev [of m1 a s0 s h fl st] S e l1 clear in_fl 3 mid links(2) by (simp add: insert_absorb)
  next
    case 4
    then have "b = a + s0" "block_tags m1 a s0" "block_tags m1 (a + s0) s" "block_tags m1 (a + s0 + s) s1"
      using S row b mid tg pos by (auto simp: block_tags_def m1 size_ok_def elim: dvd_trans [rotated])
    moreover have "insert a (free_blocks H - {a, a + s0 + s}) = free_blocks H - {a + s0 + s}"
      using in_fl links(2) 4 mid pos row by auto
    ultimately show ?thesis
      using coalesce_both [of m1 a s0 s s1 h fl st] S e l1 clear in_fl 4 mid links(2) by (simp add: add.assoc)
  qed
qed

lemma split_last_free:
  assumes "no_free_pair us0"
  obtains us pre s0 where "us0 = us @ pre" "pre = [] \<or> pre = [(s0, False)]" "us = [] \<or> snd (last us)"
proof (cases "us0 = [] \<or> snd (last us0)")
  case True
  then show thesis using that [of us0 "[]"] by auto
next
  case False
  then obtain us s0 where us: "us0 = us @ [(s0, False)]" by (cases us0 rule: rev_cases) auto
  then have "us = [] \<or> snd (last us)" using assms by (auto simp: no_free_pair_append)
  then show thesis using that [of us "[(s0, False)]"] us by auto
qed

lemma split_first_free:
  assumes "no_free_pair vs0"
  obtains vs post s1 where "vs0 = post @ vs" "post = [] \<or> post = [(s1, False)]" "vs = [] \<or> snd (hd vs)"
proof (cases "vs0 = [] \<or> snd (hd vs0)")
  case True
  then show thesis using that [of "[]" vs0] by auto
next
  case False
  then obtain vs s1 where vs: "vs0 = (s1, False) # vs" by (cases vs0) auto
  then have "vs = [] \<or> snd (hd vs)" using assms by (auto simp: no_free_pair_Cons)
  then show thesis using that [of "[(s1, False)]" vs] vs by auto
qed

lemma merge_row:
  assumes "no_free_pair (us @ mid @ vs)" "us = [] \<or> snd (last us)" "vs = [] \<or> snd (hd vs)"
  shows "no_free_pair (us @ [(S, False)] @ vs)"
  using assms by (auto simp: no_free_pair_append no_free_pair_Cons)

text \<open>The part of \<open>mm_free\<close> after coalescing.\<close>

definition release_page :: "int \<Rightarrow> mm \<Rightarrow> (string + mm) option" where
  "release_page bp st =
    (let first_pp = HDPR bp - OVERHEAD div 2 - OVERHEAD;
         prologue_header = HDPR bp - OVERHEAD;
         prologue_footer = HDPR bp - OVERHEAD div 2
     in do {
        f \<leftarrow> FTRP bp st;
        let terminator = f + OVERHEAD div 2;
        fs \<leftarrow> GET_SIZE prologue_footer st;
        fa \<leftarrow> GET_ALLOC prologue_footer st;
        if fs = OVERHEAD \<and> fa \<noteq> 0 then do {
          hs \<leftarrow> GET_SIZE prologue_header st;
          ha \<leftarrow> GET_ALLOC prologue_header st;
          if hs = OVERHEAD \<and> ha \<noteq> 0 then do {
            ta \<leftarrow> GET_ALLOC terminator st;
            ts \<leftarrow> GET_SIZE terminator st;
            if ta \<noteq> 0 \<and> ts = 0 then do {
              st \<leftarrow> remove_from_free_list bp st;
              s \<leftarrow> GET_SIZE (HDPR bp) st;
              r \<leftarrow> mem_unmap first_pp (to_size (s + PRE_OCCUPIED)) (lib st);
              (case r of Inl e \<Rightarrow> Some (Inl e) | Inr l \<Rightarrow> Some (Inr (st\<lparr>lib := l\<rparr>)))
            } else Some (Inr st)
          } else Some (Inr st)
        } else Some (Inr st)
      })"

text \<open>The pages of different ranges are different.\<close>

lemma heap_pages_remove:
  assumes lay: "layout H" and p: "H p = Some bs"
  shows "heap_pages (H(p := None)) = heap_pages H - page_range p (extent bs)"
proof -
  have ranges: "y \<notin> page_range p (extent bs)" if q: "H q = Some cs" "q \<noteq> p" and y: "y \<in> page_range q (extent cs)" for q cs y
  proof -
    have yp: "APAGE_SIZE * y div APAGE_SIZE = y" by (simp add: APAGE_SIZE_def)
    have sh: "page_shape q cs" "page_shape p bs" using layoutD [OF lay] q p by auto
    have "q \<le> APAGE_SIZE * y \<and> APAGE_SIZE * y < q + extent cs"
      using page_range_iff [of q "extent cs" "APAGE_SIZE * y"] sh(1) y yp by (simp add: page_shape_def)
    then show ?thesis
      using page_range_iff [of p "extent bs" "APAGE_SIZE * y"] sh(2) yp layout_apart [OF lay q(1) p q(2)]
      by (auto simp: page_shape_def)
  qed
  then show ?thesis
    unfolding heap_pages_def using p by (auto split: if_splits) (metis option.inject)
qed

lemma heap_inv_remove:
  assumes inv: "heap_inv H st" and p: "H p = Some bs" and l: "memlib_inv l"
    and kept: "\<And>x. \<not> (p \<le> x \<and> x < p + extent bs) \<Longrightarrow> (\<forall>b\<in>free_blocks H. \<not> in_node b x) \<Longrightarrow> mem l x = cells st x"
    and pages: "pagemap_pages (table l) = pagemap_pages (table (lib st)) - page_range p (extent bs)"
  shows "heap_inv (H(p := None)) (st\<lparr>lib := l, free_list_ptr := h\<rparr>)"
proof -
  have lay: "layout H" using inv by (simp add: heap_inv_def)
  have tags: "page_tags (mem l) q cs" if q: "H q = Some cs" "q \<noteq> p" for q cs
  proof -
    note apart = layout_apart [OF lay q(1) p q(2)]
    have border: "mem l x = cells st x" if "x \<in> {q + 4, q + 8, q + extent cs - 4}" for x
      using frame_not_in_node [OF lay q(1) _ that] that apart row_total_pos [OF layout_row [OF lay q(1)]]
        row_total_pos [OF layout_row [OF lay p]]
      by (intro kept) (auto simp: free_blocks_def extent_def)
    have "mem l (b - 4) = cells st (b - 4)" "mem l (b + s - 8) = cells st (b + s - 8)"
      if b: "(b, s, al) \<in> set (locate (q + 16) cs)" for b s al
    proof -
      have old: "(b, s, al) \<in> blocks H" using b q(1) by (auto simp: blocks_def)
      note bb = block_in_page [of H q cs, OF lay q(1) b]
      have out: "\<not> (p \<le> b - 4 \<and> b - 4 < p + extent bs)" "\<not> (p \<le> b + s - 8 \<and> b + s - 8 < p + extent bs)"
        using apart bb by linarith+
      show "mem l (b - 4) = cells st (b - 4)" "mem l (b + s - 8) = cells st (b + s - 8)"
        using tag_not_in_node [OF lay old] by (auto intro!: kept out simp: free_blocks_def)
    qed
    then show ?thesis
      using heap_inv_page [OF inv q(1)] border by (auto simp: page_tags_def tags_def)
  qed
  have mapped: "pagemap_pages (table l) = heap_pages (H(p := None))"
    using inv pages heap_pages_remove [OF lay p] by (simp add: heap_inv_def)
  have "layout (H(p := None))" using lay unfolding layout_def by (auto split: if_splits)
  then show ?thesis
    using tags mapped l by (simp add: heap_inv_def cells_def)
qed

lemma blocks_remove: "blocks (H(p := None)) = elsewhere H p"
  by (auto simp: blocks_def elsewhere_def split: if_splits)

lemma release_unmaps:
  assumes inv: "mm_inv H st" and p: "H p = Some [(S, False)]"
  shows "\<exists>st'. release_page (p + 16) st = Some (Inr st') \<and> mm_inv (H(p := None)) st' \<and>
    allocated (H(p := None)) = allocated H \<and> payloads_kept (allocated H) (cells st) (cells st')"
proof -
  define a N m h where "a = p + 16" and "N = extent [(S, False)]" and "m = cells st" and "h = free_list_ptr st"
  have hinv: "heap_inv H st" and lay: "layout H" using inv by (simp_all add: mm_inv_def heap_inv_def)
  obtain fl where fl: "links_ok m h fl" "set fl = free_blocks H" using inv by (auto simp: mm_inv_def m_def h_def)
  have st: "st = mk st m h" by (simp add: m_def h_def mk_self)
  have seg: "segment H p [] [(S, False)] [] a" using p by (simp add: segment_def a_def)
  have blk: "(a, S, False) \<in> blocks H" using blocks_segment(1) [OF seg refl] by auto
  have N: "N = S + 16" "p + N = a + S" by (simp_all add: N_def extent_def a_def)
  have pt: "page_tags m p [(S, False)]" using heap_inv_page [OF hinv p] by (simp add: m_def)
  have shape: "page_shape p [(S, False)]" using layoutD [OF lay p] .
  note bb = blocks_bounds [OF lay blk]
  have Sok: "size_ok S" "size_ok (S + 16)" "32 \<le> S"
    using bb shape N by (auto intro!: size_okI simp: page_shape_def N_def [symmetric])
  have cell: "m (a - 8) = Some (tag 8 True)" "m (a - 12) = Some (tag 8 True)" "m (a + S - 4) = Some (tag 0 True)"
      "m (a - 4) = Some (tag S False)"
    using pt N by (auto simp: page_tags_def a_def N_def [symmetric] algebra_simps)
  have "a \<in> set fl" using blk fl(2) by (auto simp: free_blocks_def)
  then obtain m' h' fl' where rem: "remove_from_free_list a (mk st m h) = Some (mk st m' h')" "links_ok m' h' fl'"
      "set fl' = set fl - {a}" "\<And>x. m' x = None \<longleftrightarrow> m x = None"
      "\<And>x. (\<forall>c\<in>set fl - {a}. \<not> in_node c x) \<Longrightarrow> m' x = m x"
    using unlink_next [OF fl(1)] by blast
  have apart: "x < p \<or> p + N \<le> x" if "c \<in> set fl - {a}" "in_node c x" for c x
    using free_node_apart [OF lay seg _ _ that(2)] that(1) fl(2) N by (auto simp: a_def)
  have inpage: "m' x = m x" if "p \<le> x" "x < p + N" for x
    using apart that by (intro rem(5)) fastforce
  have hd': "m' (a - 4) = Some (tag S False)" using inpage [of "a - 4"] cell(4) N Sok(3) by (simp add: a_def)
  have l': "memlib_inv (lib (mk st m' h'))"
    using hinv rem(4) by (auto simp: heap_inv_def same_domain_def m_def cells_def intro!: memlib_inv_mem)
  have "page_range p N \<subseteq> pagemap_pages (table (lib (mk st m' h')))"
    using heap_range [OF hinv p] by (simp add: N_def)
  then obtain l where l: "mem_unmap p N (lib (mk st m' h')) = Some (Inr l)" "memlib_inv l" "mem l = unmap_cells p N m'"
      "pagemap_pages (table l) = pagemap_pages (table (lib st)) - page_range p N"
    using mem_unmap_spec [OF l', of p N] shape Sok(3) N by (auto simp: page_shape_def N_def [symmetric])
  define st' where "st' = st\<lparr>lib := l, free_list_ptr := h'\<rparr>"
  have op: "release_page a (mk st m h) = Some (Inr st')"
  proof -
    have "GET_SIZE (a - 8) (mk st m h) = Some 8" "GET_ALLOC (a - 8) (mk st m h) = Some 1"
      "GET_SIZE (a - 12) (mk st m h) = Some 8" "GET_ALLOC (a - 12) (mk st m h) = Some 1"
      "GET_SIZE (a + S - 4) (mk st m h) = Some 0" "GET_ALLOC (a + S - 4) (mk st m h) = Some 1"
      "FTRP a (mk st m h) = Some (a + S - 8)" "GET_SIZE (a - 4) (mk st m' h') = Some S"
      "a - 16 = p" "to_size (S + 16) = N"
      using cell hd' Sok N by (simp_all add: FTRP_def HDPR_def OVERHEAD_def a_def)
    moreover have "(mk st m' h')\<lparr>lib := l\<rparr> = st'" by (simp add: mk_def st'_def)
    ultimately show ?thesis
      using rem(1) l(1) by (simp add: release_page_def Let_def HDPR_def OVERHEAD_def PRE_OCCUPIED_def del: mk_simps(6))
  qed
  have "heap_inv (H(p := None)) st'"
    unfolding st'_def
  proof (rule heap_inv_remove [OF hinv p l(2)])
    fix x assume "\<not> (p \<le> x \<and> x < p + extent [(S, False)])" "\<forall>b\<in>free_blocks H. \<not> in_node b x"
    then show "mem l x = cells st x"
      using rem(5) [of x] fl(2) by (auto simp: l(3) unmap_cells_def N_def m_def)
  qed (use l(4) N_def in simp)
  moreover have "links_ok (mem l) h' fl'"
    by (rule links_frame [OF rem(2)]) (use apart rem(3) in \<open>fastforce simp: l(3) unmap_cells_def\<close>)
  moreover have bl: "blocks H = insert (a, S, False) (blocks (H(p := None)))"
    using blocks_page [of H p, OF p] by (simp add: blocks_remove a_def)
  moreover have "(a, t, al) \<notin> blocks (H(p := None))" for t al
  proof
    assume "(a, t, al) \<in> blocks (H(p := None))"
    then have "(a, t, al) \<in> others H p [] [(S, False)] []" by (simp add: blocks_remove others_def)
    then show False
      using others_apart [OF lay seg] blocks_bounds(3) [OF lay others_old [OF seg]] Sok(3) by fastforce
  qed
  then have free: "free_blocks (H(p := None)) = set fl'" "allocated (H(p := None)) = allocated H"
    using bl rem(3) fl(2) by (auto simp: free_blocks_def allocated_def)
  ultimately have "mm_inv (H(p := None)) st'" unfolding mm_inv_def by (auto simp: st'_def cells_def)
  moreover have "payloads_kept (allocated H) (cells st) (cells st')"
    unfolding payloads_kept_def
  proof (clarify)
    fix c t x assume c: "(c, t) \<in> allocated H" "c \<le> x" "x < c + t - 8"
    then have old: "(c, t, True) \<in> blocks H" by (simp add: allocated_def)
    then have "(c, t, True) \<in> others H p [] [(S, False)] []"
      using bl blk by (auto simp: blocks_remove others_def)
    then have "c + t \<le> a \<or> a + S \<le> c" using others_apart [OF lay seg] by fastforce
    moreover obtain q cs where q: "H q = Some cs" "(c, t, True) \<in> set (locate (q + 16) cs)"
      using old by (auto simp: blocks_def)
    moreover have "q \<noteq> p" using q p by auto
    ultimately have "x < p \<or> p + N \<le> x"
      using layout_apart [OF lay q(1) p] block_in_page [of H q cs, OF lay q] c by (auto simp: N_def)
    moreover have "m' x = m x"
      using payload_not_in_node [OF lay old _ c(2)] c(3) fl(2) by (intro rem(5)) auto
    ultimately show "cells st' x = cells st x"
      by (auto simp: st'_def cells_def l(3) unmap_cells_def m_def)
  qed
  ultimately show ?thesis using op free(2) st a_def by auto
qed

lemma release_keeps:
  assumes inv: "mm_inv H st" and seg: "segment H p us [(S, False)] vs a"
    and edges: "us = [] \<or> snd (last us)" "vs = [] \<or> snd (hd vs)" and more: "us \<noteq> [] \<or> vs \<noteq> []"
  shows "release_page a st = Some (Inr st)"
proof -
  define m h where "m = cells st" and "h = free_list_ptr st"
  have hinv: "heap_inv H st" and lay: "layout H" using inv by (simp_all add: mm_inv_def heap_inv_def)
  have st: "st = mk st m h" by (simp add: m_def h_def mk_self)
  have blk: "(a, S, False) \<in> blocks H" using blocks_segment(1) [OF seg refl] by auto
  have "size_ok S" using blocks_bounds [OF lay blk] by (auto intro!: size_okI)
  then have f: "FTRP a (mk st m h) = Some (a + S - 8)"
    using segment_tags [OF hinv seg] by (simp add: FTRP_def HDPR_def OVERHEAD_def m_def)
  have "release_page a (mk st m h) = Some (Inr (mk st m h))"
  proof (cases us rule: rev_cases)
    case (snoc ws w)
    then obtain t where w: "w = (t, True)" using edges by (cases w) auto
    have seg': "segment H p ws [(t, True)] ([(S, False)] @ vs) (a - t)" using seg snoc w by (auto simp: segment_def)
    have t: "(a - t, t, True) \<in> blocks H" using blocks_segment(1) [OF seg' refl] by auto
    have ok: "size_ok t" "32 \<le> t" using blocks_bounds [OF lay t] by (auto intro!: size_okI)
    have "GET_SIZE (a - 8) (mk st m h) = Some t" "GET_ALLOC (a - 8) (mk st m h) = Some 1"
      using segment_tags [OF hinv seg'] ok by (simp_all add: m_def)
    then show ?thesis using f ok by (simp add: release_page_def Let_def HDPR_def OVERHEAD_def)
  next
    case Nil
    then obtain t ws where vs: "vs = (t, True) # ws" using more edges by (cases vs) auto
    have seg': "segment H p (us @ [(S, False)]) [(t, True)] ws (a + S)" using seg vs by (auto simp: segment_def)
    have t: "(a + S, t, True) \<in> blocks H" using blocks_segment(1) [OF seg' refl] by auto
    have ok: "size_ok t" "32 \<le> t" using blocks_bounds [OF lay t] by (auto intro!: size_okI)
    have "a - 8 = p + 8" "a - 12 = p + 4" "H p = Some (us @ [(S, False)] @ vs)" using seg Nil by (simp_all add: segment_def)
    then have "cells st (a - 8) = Some (tag 8 True)" "cells st (a - 12) = Some (tag 8 True)"
      using heap_inv_page [OF hinv, of p] by (simp_all only: page_tags_def)
    then have "GET_SIZE (a - 8) (mk st m h) = Some 8" "GET_ALLOC (a - 8) (mk st m h) = Some 1"
        "GET_SIZE (a - 12) (mk st m h) = Some 8" "GET_ALLOC (a - 12) (mk st m h) = Some 1"
        "GET_SIZE (a + S - 4) (mk st m h) = Some t" "GET_ALLOC (a + S - 4) (mk st m h) = Some 1"
      using segment_tags [OF hinv seg'] ok by (simp_all add: m_def)
    then show ?thesis using f ok by (simp add: release_page_def Let_def HDPR_def OVERHEAD_def)
  qed
  then show ?thesis by (simp add: st [symmetric])
qed

lemma mm_free_release:
  "mm_free bp st =
    do {
      this_alloc \<leftarrow> GET_ALLOC (HDPR bp) st;
      if this_alloc = 1 then do {
        sz \<leftarrow> map_option to_size (GET_SIZE (HDPR bp) st);
        st \<leftarrow> PUT_HDR bp sz 0 st;
        st \<leftarrow> PUT_FTR bp sz 0 st;
        (bp, st) \<leftarrow> coalesce bp st;
        release_page bp st
      } else Some (Inr st)
    }"
  unfolding mm_free_def release_page_def Let_def ..

text \<open>The freed block's range becomes free as a whole if and only if it was the only allocated block there.\<close>

lemma only_allocated:
  assumes "row_ok (us @ mid @ vs)" "alloc_in (locate (q + row_total us) mid) = {(b, s)}"
    and "us = [] \<or> snd (last us)" "vs = [] \<or> snd (hd vs)"
  shows "alloc_in (locate q (us @ mid @ vs)) = {(b, s)} \<longleftrightarrow> us = [] \<and> vs = []"
proof -
  define a where "a = q + row_total us"
  have "(b, s, True) \<in> set (locate a mid)" using assms(2) by (auto simp: alloc_in_def a_def)
  then have b: "a \<le> b" "b < a + row_total mid" using locate_bounds [of mid b s True a] assms(1) by auto
  have "us = []" if all: "alloc_in (locate q (us @ mid @ vs)) = {(b, s)}"
  proof (cases us rule: rev_cases)
    case (snoc ws w)
    then obtain t where w: "w = (t, True)" using assms(3) by (cases w) auto
    then have "(q + row_total ws, t) \<in> alloc_in (locate q (us @ mid @ vs))" using snoc by (simp add: alloc_in_def)
    then have "q + row_total ws = b" using all by simp
    moreover have "a = q + row_total ws + t" "32 \<le> t" using snoc w assms(1) by (simp_all add: a_def)
    ultimately show ?thesis using b(1) by simp
  qed simp
  moreover have "vs = []" if all: "alloc_in (locate q (us @ mid @ vs)) = {(b, s)}"
  proof (cases vs)
    case (Cons v ws)
    then obtain t where v: "v = (t, True)" using assms(4) by (cases v) auto
    then have "(a + row_total mid, t) \<in> alloc_in (locate q (us @ mid @ vs))" using Cons by (simp add: a_def alloc_in_def algebra_simps)
    then show ?thesis using all b(2) by simp
  qed simp
  moreover have "alloc_in (locate q (us @ mid @ vs)) = {(b, s)}" if "us = []" "vs = []"
    using that assms(2) by simp
  ultimately show ?thesis by blast
qed

lemma mm_free_merges:
  assumes inv: "mm_inv H st" and pair: "no_free_pair (us0 @ [(s, True)] @ vs0)"
    and seg0: "segment H p us0 [(s, True)] vs0 b"
  obtains us S vs a st' H' where "mm_free b st = release_page a st'" "H' = H(p \<mapsto> us @ [(S, False)] @ vs)" "mm_inv H' st'"
    "segment H' p us [(S, False)] vs a" "us = [] \<or> snd (last us)" "vs = [] \<or> snd (hd vs)"
    "no_free_pair (us @ [(S, False)] @ vs)" "allocated H' = allocated H - {(b, s)}"
    "payloads_kept (allocated H - {(b, s)}) (cells st) (cells st')"
    "extent (us @ [(S, False)] @ vs) = extent (us0 @ [(s, True)] @ vs0)"
    "alloc_in (locate (p + 16) (us0 @ [(s, True)] @ vs0)) = {(b, s)} \<longleftrightarrow> us = [] \<and> vs = []"
proof -
  define m h where "m = cells st" and "h = free_list_ptr st"
  have st: "st = mk st m h" by (simp add: m_def h_def mk_self)
  have hinv: "heap_inv H st" and lay: "layout H" using inv by (simp_all add: mm_inv_def heap_inv_def)
  obtain fl where fl: "links_ok m h fl" "set fl = free_blocks H" using inv by (auto simp: mm_inv_def m_def h_def)
  obtain us pre s0 where us: "us0 = us @ pre" "pre = [] \<or> pre = [(s0, False)]" "us = [] \<or> snd (last us)"
    using split_last_free pair by (metis no_free_pair_append)
  obtain vs post s1 where vs: "vs0 = post @ vs" "post = [] \<or> post = [(s1, False)]" "vs = [] \<or> snd (hd vs)"
    using split_first_free pair by (metis no_free_pair_append)
  define mid a where "mid = pre @ [(s, True)] @ post" and "a = p + 16 + row_total us"
  have seg: "segment H p us mid vs a" and b: "b = a + row_total pre"
    using seg0 us vs by (simp_all add: segment_def mid_def a_def)
  define m1 where "m1 = m(b - 4 := Some (tag s False), b + s - 8 := Some (tag s False))"
  define S H' where "S = row_total mid" and "H' = H(p \<mapsto> us @ [(S, False)] @ vs)"
  obtain m' h' where co: "coalesce b (mk st m1 h) = Some (a, mk st m' h')"
      "coalesced m1 fl m' h' a S (free_blocks H - free_in (locate a mid) \<union> {a})"
    using coalesce_segment [OF hinv fl(1) [unfolded m_def] fl(2) seg mid_def b us(2) vs(2) us(3) vs(3) m1_def [unfolded m_def]] S_def
    by auto
  have row: "row_ok mid" using segment_row [OF lay seg] by simp
  have tot: "0 \<le> row_total pre" "0 \<le> row_total post" "32 \<le> s" "S = row_total pre + s + row_total post"
    using row row_total_pos [of pre] row_total_pos [of post] by (auto simp: mid_def S_def)
  have new: "row_total [(S, False)] = row_total mid" "row_ok [(S, False)]"
    using tot row_total_pos [OF row] by (auto simp: S_def)
  have fr: "free_blocks H' = free_blocks H - free_in (locate a mid) \<union> {a}" "allocated H' = allocated H - alloc_in (locate a mid)"
    using segment_free [OF lay seg new] by (auto simp: H'_def)
  have al: "alloc_in (locate a mid) = {(b, s)}"
    using us(2) vs(2) b by (auto simp: mid_def)
  have mb: "m (b - 4) = Some (tag s True)" "m (b + s - 8) = Some (tag s True)"
    using segment_tags [OF hinv seg0] by (simp_all add: m_def)
  have ch: "changes H H' a (a + row_total mid) m m'"
    unfolding changes_def
  proof (intro conjI allI impI)
    show "same_domain m m'" using co(2) mb by (auto simp: coalesced_def same_domain_def m1_def)
    fix x assume x: "\<not> (a - 4 \<le> x \<and> x < a + row_total mid - 4)" "\<forall>c\<in>free_blocks H \<union> free_blocks H'. \<not> in_node c x"
    have "m' x = m1 x" using co(2) x fr(1) fl(2) by (simp add: coalesced_def S_def)
    moreover have "x \<noteq> b - 4" "x \<noteq> b + s - 8" using x(1) tot b unfolding S_def [symmetric] by linarith+
    ultimately show "m' x = m x" by (simp add: m1_def)
  qed
  have tg: "tags m' a [(S, False)]" using co(2) by (simp add: coalesced_def block_tags_def)
  have "heap_inv H' (mk st m' h')" using replace_ok [OF hinv seg new tg H'_def] ch by (simp add: m_def)
  then have inv': "mm_inv H' (mk st m' h')" using co(2) fr(1) by (auto simp: mm_inv_def coalesced_def)
  have sok: "size_ok s"
    using blocks_bounds [OF lay, of b s True] blocks_segment(1) [OF seg0 refl] by (auto intro!: size_okI)
  have w: "PUT_HDR b s 0 (mk st m h) = Some (mk st (m(b - 4 := Some (tag s False))) h)"
    "PUT_FTR b s 0 (mk st (m(b - 4 := Some (tag s False))) h) = Some (mk st m1 h)"
    using PUT_HDR_mk [of m b s False st h] PUT_FTR_mk [of "m(b - 4 := Some (tag s False))" b s False s False st h] mb sok
    by (simp_all add: m1_def)
  have "mm_free b (mk st m h) = release_page a (mk st m' h')"
    using mb sok by (simp add: mm_free_release HDPR_def w co(1))
  moreover have "payloads_kept (allocated H - {(b, s)}) m m'"
    using replace_payloads [OF lay seg new H'_def ch] al by simp
  moreover have "no_free_pair (us @ [(S, False)] @ vs)"
    using pair merge_row [of us mid vs S] us vs by (simp add: mid_def)
  moreover have "segment H' p us [(S, False)] vs a" by (simp add: H'_def segment_def a_def)
  moreover have "us0 @ [(s, True)] @ vs0 = us @ mid @ vs" using us(1) vs(1) by (simp add: mid_def)
  moreover have "extent (us @ [(S, False)] @ vs) = extent (us @ mid @ vs)" by (simp add: extent_def S_def)
  moreover have "alloc_in (locate (p + 16) (us @ mid @ vs)) = {(b, s)} \<longleftrightarrow> us = [] \<and> vs = []"
    using only_allocated [of us mid vs "p + 16" b s] segment_row [OF lay seg] al us(3) vs(3) by (simp add: a_def)
  ultimately show thesis
    using that [of a "mk st m' h'" H' us S vs] inv' H'_def us(3) vs(3) fr(2) al st by (simp add: m_def)
qed

lemma payloads_kept_trans: "payloads_kept A m m1 \<Longrightarrow> payloads_kept A m1 m2 \<Longrightarrow> payloads_kept A m m2"
  by (simp add: payloads_kept_def split: prod.splits)

text \<open>What becomes of the range of pages of a block \<open>(b, s)\<close> that is freed: it leaves the heap when \<open>(b, s)\<close> is the only
  allocated block in it; otherwise its row of blocks changes.\<close>

definition freed_range :: "heap \<Rightarrow> int \<Rightarrow> int \<Rightarrow> int \<Rightarrow> row \<Rightarrow> heap \<Rightarrow> bool" where
  "freed_range H b s p bs H' \<longleftrightarrow> H p = Some bs \<and> (b, s, True) \<in> set (locate (p + 16) bs) \<and>
     (if alloc_in (locate (p + 16) bs) = {(b, s)} then H' = H(p := None)
      else \<exists>cs. H' = H(p \<mapsto> cs) \<and> extent cs = extent bs)"

lemma mm_free_ranges:
  assumes inv: "mm_inv H st" "settled H" and b: "(b, s) \<in> allocated H"
  shows "\<exists>st' H' p bs. mm_free b st = Some (Inr st') \<and> mm_inv H' st' \<and> settled H' \<and> allocated H' = allocated H - {(b, s)} \<and>
    payloads_kept (allocated H - {(b, s)}) (cells st) (cells st') \<and> freed_range H b s p bs H'"
proof -
  obtain p us0 vs0 where seg0: "segment H p us0 [(s, True)] vs0 b"
    using b block_segment [of b s True H] by (auto simp: allocated_def)
  have pair: "no_free_pair (us0 @ [(s, True)] @ vs0)" and rest: "settled (H(p := None))"
    using inv(2) seg0 by (auto simp: settled_def segment_def settled_row_def)
  obtain us S vs a st1 H1 where m: "mm_free b st = release_page a st1" "H1 = H(p \<mapsto> us @ [(S, False)] @ vs)" "mm_inv H1 st1"
      "segment H1 p us [(S, False)] vs a" "us = [] \<or> snd (last us)" "vs = [] \<or> snd (hd vs)"
      "no_free_pair (us @ [(S, False)] @ vs)" "allocated H1 = allocated H - {(b, s)}"
      "payloads_kept (allocated H - {(b, s)}) (cells st) (cells st1)"
      "extent (us @ [(S, False)] @ vs) = extent (us0 @ [(s, True)] @ vs0)"
      "alloc_in (locate (p + 16) (us0 @ [(s, True)] @ vs0)) = {(b, s)} \<longleftrightarrow> us = [] \<and> vs = []"
    by (rule mm_free_merges [OF inv(1) pair seg0])
  have row: "H p = Some (us0 @ [(s, True)] @ vs0)" "(b, s, True) \<in> set (locate (p + 16) (us0 @ [(s, True)] @ vs0))"
    using seg0 by (simp_all add: segment_def)
  show ?thesis
  proof (cases "us = [] \<and> vs = []")
    case True
    then have H1: "H1 p = Some [(S, False)]" "a = p + 16" "H1(p := None) = H(p := None)"
      using m(2,4) by (simp_all add: segment_def)
    obtain st' where st': "release_page (p + 16) st1 = Some (Inr st')" "mm_inv (H1(p := None)) st'"
        "allocated (H1(p := None)) = allocated H1" "payloads_kept (allocated H1) (cells st1) (cells st')"
      using release_unmaps [OF m(3) H1(1)] by blast
    have "payloads_kept (allocated H - {(b, s)}) (cells st) (cells st')"
      using payloads_kept_trans [OF m(9)] st'(4) m(8) by simp
    then show ?thesis
      using m(1,8,11) rest st' H1 row True
      by (intro exI [of _ st'] exI [of _ "H(p := None)"] exI [of _ p] exI [of _ "us0 @ [(s, True)] @ vs0"])
        (simp add: freed_range_def)
  next
    case False
    then have "settled H1"
      using m(2,7) rest by (auto simp: settled_upd settled_row_def append_eq_Cons_conv)
    then show ?thesis
      using release_keeps [OF m(3,4,5,6)] False m(1,3,8,9) m(2,10,11) row
      by (intro exI [of _ st1] exI [of _ H1] exI [of _ p] exI [of _ "us0 @ [(s, True)] @ vs0"])
        (auto simp: freed_range_def)
  qed
qed

lemma mm_free_ok:
  assumes "mm_inv H st" "settled H" "(b, s) \<in> allocated H"
  shows "\<exists>st' H'. mm_free b st = Some (Inr st') \<and> mm_inv H' st' \<and> settled H' \<and> allocated H' = allocated H - {(b, s)} \<and>
    payloads_kept (allocated H - {(b, s)}) (cells st) (cells st')"
  using mm_free_ranges [OF assms] by blast

text \<open>The pages that are mapped after that.\<close>

lemma freed_pages:
  assumes "mm_inv H st" "mm_inv H' st'" "freed_range H b s p bs H'"
  shows "pagemap_pages (table (lib st')) =
    (if alloc_in (locate (p + 16) bs) = {(b, s)} then pagemap_pages (table (lib st)) - page_range p (extent bs)
     else pagemap_pages (table (lib st)))"
proof -
  have inv: "heap_inv H st" "heap_inv H' st'" "layout H" using assms(1,2) by (simp_all add: mm_inv_def heap_inv_def)
  have p: "H p = Some bs" using assms(3) by (simp add: freed_range_def)
  have "heap_pages (H(p := None)) = heap_pages H - page_range p (extent bs)"
    using heap_pages_remove [OF inv(3) p] .
  moreover have "pagemap_pages (table (lib st)) = heap_pages H" "pagemap_pages (table (lib st')) = heap_pages H'"
    using inv(1,2) by (simp_all add: heap_inv_def)
  moreover have "(H' = H(p := None) \<and> alloc_in (locate (p + 16) bs) = {(b, s)}) \<or>
      (alloc_in (locate (p + 16) bs) \<noteq> {(b, s)} \<and> (\<exists>cs. H' = H(p \<mapsto> cs) \<and> extent cs = extent bs))"
    using assms(3) by (simp add: freed_range_def split: if_splits)
  ultimately show ?thesis
    using heap_pages_upd [of H p bs, OF p] by (elim disjE conjE exE) simp_all
qed

section \<open>The allocator as its clients see it\<close>

definition mm_owned :: "(int \<times> int) set \<Rightarrow> mm \<Rightarrow> bool" where
  "mm_owned A st \<longleftrightarrow> (\<exists>H. mm_inv H st \<and> settled H \<and> allocated H = A)"

definition mm_ok :: "int \<Rightarrow> mm \<Rightarrow> bool" where
  "mm_ok n st \<longleftrightarrow> mem_room st \<and> 0 < n \<and> n \<le> MAX_REQUEST"

interpretation mm_alloc: allocator os_ok mm_malloc mm_free PUT mm_ok mm0 cells mm_owned
proof
  show "mm_owned {} mm0" using mm0_inv by (auto simp: mm_owned_def)
next
  fix mmap A st n assume e: "os_ok mmap" and own: "mm_owned A st" and n: "mm_ok n st"
  obtain H where H: "mm_inv H st" "settled H" "allocated H = A" using own by (auto simp: mm_owned_def)
  show "(\<exists>msg. mm_malloc mmap n st = Some (Inl msg)) \<or>
      (\<exists>b s st'. mm_malloc mmap n st = Some (Inr (b, st')) \<and> mm_owned (insert (b, s) A) st' \<and> n + 8 \<le> s \<and> 0 < n \<and>
         (\<forall>(c, t)\<in>A. b + s \<le> c \<or> c + t \<le> b) \<and> payloads_kept A (cells st) (cells st'))"
    using mm_malloc_ok [OF e H(1,2), of n] n H(3) unfolding mm_ok_def allocates_def mm_owned_def by blast
next
  fix A st b s assume own: "mm_owned A st" and b: "(b, s) \<in> A"
  obtain H where H: "mm_inv H st" "settled H" "allocated H = A" using own by (auto simp: mm_owned_def)
  show "\<exists>st'. mm_free b st = Some (Inr st') \<and> mm_owned (A - {(b, s)}) st' \<and>
      payloads_kept (A - {(b, s)}) (cells st) (cells st')"
    using mm_free_ok [OF H(1,2), of b s] b H(3) unfolding mm_owned_def by blast
next
  fix A st b s x v assume own: "mm_owned A st" and b: "(b, s) \<in> A" "4 dvd x" "b \<le> x" "x < b + s - 8"
  obtain H where H: "mm_inv H st" "settled H" "allocated H = A" using own by (auto simp: mm_owned_def)
  show "\<exists>st'. PUT x v st = Some st' \<and> mm_owned A st' \<and> cells st' = (cells st)(x := Some (word_of_int v))"
    using client_write [OF H(1), of b s x v] b H unfolding mm_owned_def by blast
next
  fix A st b s c t assume own: "mm_owned A st" and b: "(b, s) \<in> A" "(c, t) \<in> A"
  obtain H where H: "mm_inv H st" "settled H" "allocated H = A" using own by (auto simp: mm_owned_def)
  show "(b, s) = (c, t) \<or> b + s \<le> c \<or> c + t \<le> b"
    using blocks_apart [OF mm_inv_layout [OF H(1)], of b s True c t True] b H(3) by (auto simp: allocated_def)
qed

text \<open>C3. \<open>mm_free\<close> of an allocated block always succeeds: the block is no longer allocated, every other
  allocated block stays and keeps its contents, and the heap is well formed again: the block is
  merged with its free neighbours (\<open>settled\<close>: no two are left side by side). The block lies in a range of pages, \<open>p\<close> with
  the row of blocks \<open>bs\<close>. When it was the only allocated block there, the whole range leaves the page table; otherwise
  the page table is as before.\<close>

theorem mm_free_releases:
  assumes "mm_inv H st" "settled H" "(b, s) \<in> allocated H"
  shows "\<exists>st' H' p bs. mm_free b st = Some (Inr st') \<and> mm_inv H' st' \<and> settled H' \<and>
    allocated H' = allocated H - {(b, s)} \<and> payloads_kept (allocated H - {(b, s)}) (cells st) (cells st') \<and>
    H p = Some bs \<and> (b, s, True) \<in> set (locate (p + 16) bs) \<and>
    pagemap_pages (table (lib st')) =
      (if alloc_in (locate (p + 16) bs) = {(b, s)} then pagemap_pages (table (lib st)) - page_range p (extent bs)
       else pagemap_pages (table (lib st)))"
proof -
  obtain st' H' p bs where r: "mm_free b st = Some (Inr st')" "mm_inv H' st'" "settled H'" "allocated H' = allocated H - {(b, s)}"
      "payloads_kept (allocated H - {(b, s)}) (cells st) (cells st')" "freed_range H b s p bs H'"
    using mm_free_ranges [OF assms] by (elim exE conjE) blast
  then show ?thesis using freed_pages [OF assms(1) r(2,6)] by (auto simp only: freed_range_def)
qed

theorem mm_free_releases_witness:
  "\<exists>b st st' H. mm_malloc sample_mmap 100 mm0 = Some (Inr (b, st)) \<and> mm_free b st = Some (Inr st') \<and> mm_inv H st' \<and>
     allocated H = {}"
proof -
  obtain b st where m: "mm_malloc sample_mmap 100 mm0 = Some (Inr (b, st))" "allocates Map.empty mm0 100 b st"
    using mm_malloc_ok [OF sample_mmap_ok mm0_inv(1-3), of 100] sample_range by (auto simp: MAX_REQUEST_def)
  then obtain s H where H: "mm_inv H st" "settled H" "allocated H = {(b, s)}"
    using mm0_inv(4) by (auto simp: allocates_def)
  then show ?thesis
    using mm_free_releases [OF H(1,2), of b s] m(1) by auto
qed

text \<open>C1. A client program requests 1 to \<open>MAX_REQUEST\<close> = 134217464 bytes at a time, only while the counters of pages and
  of calls are not about to overflow (\<open>mm_ok\<close>), and it writes to and releases only blocks it holds. Whatever it does within
  these limits, in every state it reaches the blocks
  it holds do not overlap, each of their cells holds the value written to it last, releasing a
  held block and writing to one succeed, a further request within the limits is answered or refused but never undefined,
  and a request of 0 bytes yields \<open>NULL\<close> and changes nothing. Beyond the limits this is false: see \<open>mm_malloc_truncates\<close> below.\<close>

theorem mm_clients_safe:
  assumes "os_ok mmap" "run (mm_malloc mmap) mm_free PUT mm_ok mm0 hs sh st"
  shows "((b, n) \<in> set hs \<longrightarrow> (c, k) \<in> set hs \<longrightarrow> (b, n) = (c, k) \<or> b + n \<le> c \<or> c + k \<le> b) \<and>
    ((b, n) \<in> set hs \<longrightarrow> in_block b n x \<longrightarrow> sh x = Some w \<longrightarrow> cells st x = Some w) \<and>
    ((b, n) \<in> set hs \<longrightarrow> (\<exists>st'. mm_free b st = Some (Inr st'))) \<and>
    ((b, n) \<in> set hs \<longrightarrow> in_block b n x \<longrightarrow> (\<exists>st'. PUT x v st = Some st')) \<and>
    (mm_ok m st \<longrightarrow> mm_malloc mmap m st \<noteq> None) \<and> mm_malloc mmap 0 st = Some (Inr (0, st))"
  using mm_alloc.client_safe [OF assms] by (simp add: mm_malloc_def)

theorem mm_clients_safe_witness:
  "\<exists>b st st'. mm_malloc sample_mmap 100 mm0 = Some (Inr (b, st)) \<and> mm_free b st = Some (Inr st')"
proof -
  obtain b st where m: "mm_malloc sample_mmap 100 mm0 = Some (Inr (b, st))"
    using mm_malloc_ok [OF sample_mmap_ok mm0_inv(1-3), of 100] sample_range by (auto simp: MAX_REQUEST_def)
  have "mm_ok 100 mm0" using mm0_inv(3) by (simp add: mm_ok_def MAX_REQUEST_def)
  then have "run (mm_malloc sample_mmap) mm_free PUT mm_ok mm0 [(b, 100)] (forget b 100 (\<lambda>_. None)) st"
    using run.request [OF run.start, of mm_ok 100 mm0 "mm_malloc sample_mmap" b st] m by blast
  from mm_clients_safe [OF sample_mmap_ok this, of b 100] show ?thesis using m by auto
qed

text \<open>\<open>needed_size\<close> is an \<open>int\<close>: a request of \<open>2 ^ 32\<close> bytes is served from any free block of 16 bytes.\<close>

lemma mm_malloc_truncates:
  "mm_malloc mmap (2 ^ 32) st =
    do {
      bp \<leftarrow> find_fit (free_list_ptr st) 16 st;
      if bp \<noteq> 0 then do { st \<leftarrow> set_allocated bp 16 st; Some (Inr (bp, st)) }
      else do {
        r \<leftarrow> extend mmap 16 st;
        (case r of Inl e \<Rightarrow> Some (Inl e)
         | Inr (bp, st) \<Rightarrow> do { st \<leftarrow> set_allocated bp 16 st; Some (Inr (bp, st)) })
      }
    }"
proof -
  have n: "to_int (ALIGN (to_size (to_int (max (2 ^ 32) list_node_size) + OVERHEAD))) = 16" "to_size 16 = 16"
    by code_simp+
  show ?thesis unfolding mm_malloc_def Let_def n(1) n(2) by simp
qed

end
