(* ===== verification/Mdriver.thy ===== *)
theory Mdriver
  imports MM_Free Complex_Main
begin

text \<open>
  The driver of the malloc lab, \<open>Malloclab/mdriver.c\<close>: the range list that records the payloads in
  use, the trace files, and the routines that run a trace against \<open>mm.c\<close> and against the C
  library. A result is \<open>None\<close> where the C program has undefined behaviour or fails an assertion,
  \<open>Inl\<close> with the last message when it exits, and \<open>Inr\<close> otherwise.
\<close>

unbundle bit_operations_syntax


section \<open>Data\<close>

definition LINENUM :: "int \<Rightarrow> int" where
  "LINENUM i = i + 5"

definition IS_ALIGNED :: "int \<Rightarrow> bool" where
  "IS_ALIGNED p \<longleftrightarrow> p mod ALIGNMENT = 0"

record range_t =
  lo :: int
  hi :: int

datatype op_type = ALLOC | FREE | REALLOC

record traceop_t =
  op_type :: op_type
  op_index :: int
  op_size :: int

text \<open>The arrays \<open>blocks\<close> and \<open>block_sizes\<close> have \<open>num_ids\<close> elements, which \<open>malloc\<close> leaves without a value.\<close>

record trace_t =
  sugg_heapsize :: int
  num_ids :: int
  num_ops :: int
  weight :: int
  ops :: "traceop_t list"
  blocks :: "int option list"
  block_sizes :: "int option list"

text \<open>The number of errors, what has been printed about them, the range list, and the allocator.\<close>

record driver =
  errors :: int
  reports :: string
  ranges :: "range_t list"
  heap :: mm

definition malloc_error :: "int \<Rightarrow> int \<Rightarrow> string \<Rightarrow> driver \<Rightarrow> driver" where
  "malloc_error tracenum opnum msg d =
    d\<lparr>errors := errors d + 1,
      reports := reports d @ ''ERROR [trace '' @ dec_int tracenum @ '', line '' @ dec_int (LINENUM opnum) @ '']: '' @ msg @ [CHR 0x0A]\<rparr>"

text \<open>\<open>%p\<close>\<close>

fun hex_digits :: "nat \<Rightarrow> string" where
  "hex_digits n = (if n < 16 then [''0123456789abcdef'' ! n] else hex_digits (n div 16) @ [''0123456789abcdef'' ! (n mod 16)])"

declare hex_digits.simps [simp del]

definition ptr_string :: "int \<Rightarrow> string" where
  "ptr_string p = ''0x'' @ hex_digits (nat (to_size p))"

section \<open>The range list\<close>

function unmapped_page :: "pagemap_t \<Rightarrow> int \<Rightarrow> int \<Rightarrow> int \<Rightarrow> bool" where
  "unmapped_page pm lo' sz i =
    (if i < sz then \<not> pagemap_is_mapped (lo' + i) pm \<or> unmapped_page pm lo' sz (i + mem_pagesize) else False)"
  by pat_completeness auto
termination
  by (relation "measure (\<lambda>(pm, lo', sz, i). nat (sz - i))") (auto simp: mem_pagesize_def APAGE_SIZE_def)

declare unmapped_page.simps [simp del]

fun overlapped :: "int \<Rightarrow> int \<Rightarrow> range_t list \<Rightarrow> range_t option" where
  "overlapped lo' hi' [] = None"
| "overlapped lo' hi' (p # ps) =
    (if lo p \<le> lo' \<and> lo' \<le> hi p \<or> lo p \<le> hi' \<and> hi' \<le> hi p then Some p else overlapped lo' hi' ps)"

definition add_range :: "int \<Rightarrow> int \<Rightarrow> int \<Rightarrow> int \<Rightarrow> driver \<Rightarrow> (bool \<times> driver) option" where
  "add_range lo' sz tracenum opnum d =
    (let hi' = lo' + sz - 1; pm = table (lib (heap d)) in
     if \<not> 0 < sz then None
     else if \<not> IS_ALIGNED lo' then
       Some (False, malloc_error tracenum opnum
         (''Payload address ('' @ ptr_string lo' @ '') not aligned to '' @ dec_int ALIGNMENT @ '' bytes'') d)
     else if unmapped_page pm lo' sz 0 then
       Some (False, malloc_error tracenum opnum
         (''Payload ('' @ ptr_string lo' @ '':'' @ ptr_string hi' @ '') includes an unmapped page'') d)
     else if \<not> pagemap_is_mapped (lo' + sz - 1) pm then
       Some (False, malloc_error tracenum opnum
         (''Payload ('' @ ptr_string lo' @ '':'' @ ptr_string hi' @ '') ends at an unmapped page'') d)
     else
       case overlapped lo' hi' (ranges d) of
         Some p \<Rightarrow>
           Some (False, malloc_error tracenum opnum
             (''Payload ('' @ ptr_string lo' @ '':'' @ ptr_string hi' @ '') overlaps another payload ('' @
              ptr_string (lo p) @ '':'' @ ptr_string (hi p) @ '')'' @ [CHR 0x0A]) d)
       | None \<Rightarrow> Some (True, d\<lparr>ranges := \<lparr>lo = lo', hi = hi'\<rparr> # ranges d\<rparr>))"

fun remove_range :: "range_t list \<Rightarrow> int \<Rightarrow> range_t list" where
  "remove_range [] lo' = []"
| "remove_range (p # ps) lo' = (if lo p = lo' then ps else p # remove_range ps lo')"

definition clear_ranges :: "driver \<Rightarrow> driver" where
  "clear_ranges d = d\<lparr>ranges := []\<rparr>"

section \<open>Trace files\<close>

text \<open>\<open>fscanf\<close>: \<open>%s\<close> reads a word, \<open>None\<close> at the end of the file; \<open>%u\<close> and \<open>%d\<close> read a number. When
  there is none the variable keeps its value (\<open>None\<close> inside), and what was matched of a sign is
  consumed. A number out of range is undefined.\<close>

definition scan_word :: "string \<Rightarrow> (string \<times> string) option" where
  "scan_word s =
    (let s = dropWhile isspace s
     in if s = [] then None else Some (takeWhile (\<lambda>c. \<not> isspace c) s, dropWhile (\<lambda>c. \<not> isspace c) s))"

definition scan_sign :: "string \<Rightarrow> bool \<times> string" where
  "scan_sign s = (case s of c # t \<Rightarrow> if c = CHR ''-'' then (True, t) else if c = CHR ''+'' then (False, t) else (False, s) | [] \<Rightarrow> (False, s))"

definition scan_u :: "string \<Rightarrow> (int option \<times> string) option" where
  "scan_u s =
    (let (neg, t) = scan_sign (dropWhile isspace s); ds = takeWhile isdigit t; v = read_digits 0 ds
     in if ds = [] then Some (None, t)
        else if 2 ^ 32 \<le> v then None
        else Some (Some ((if neg then - v else v) mod 2 ^ 32), dropWhile isdigit t))"

definition scan_d :: "string \<Rightarrow> (int option \<times> string) option" where
  "scan_d s =
    (let (neg, t) = scan_sign (dropWhile isspace s); ds = takeWhile isdigit t;
         v = (if neg then - read_digits 0 ds else read_digits 0 ds)
     in if ds = [] then Some (None, t)
        else if v < - (2 ^ 31) \<or> 2 ^ 31 \<le> v then None
        else Some (Some v, dropWhile isdigit t))"

definition MAXLINE :: nat where
  "MAXLINE = 1024"

text \<open>\<open>fscanf(tracefile, "%u %u", &index, &size)\<close>\<close>

definition scan_pair :: "int \<Rightarrow> int option \<Rightarrow> string \<Rightarrow> (int \<times> int option \<times> string) option" where
  "scan_pair index sz s =
    do {
      (i, s) \<leftarrow> scan_u s;
      (case i of None \<Rightarrow> Some (index, sz, s)
       | Some i \<Rightarrow> do { (n, s) \<leftarrow> scan_u s; Some (i, (case n of None \<Rightarrow> sz | Some n \<Rightarrow> Some n), s) })
    }"

text \<open>\<open>fscanf(tracefile, "%ud", &index)\<close>: a letter \<open>d\<close> after the number is read as well.\<close>

definition scan_ud :: "int \<Rightarrow> string \<Rightarrow> (int \<times> string) option" where
  "scan_ud index s =
    do {
      (i, s) \<leftarrow> scan_u s;
      (case i of None \<Rightarrow> Some (index, s)
       | Some i \<Rightarrow> Some (i, case s of c # t \<Rightarrow> if c = CHR ''d'' then t else s | [] \<Rightarrow> s))
    }"

text \<open>One request: the new \<open>index\<close>, \<open>size\<close> and \<open>max_index\<close>, the operation and the rest of the file. The
  size of a \<open>FREE\<close> request is not written; no routine uses it.\<close>

definition read_request ::
  "string \<Rightarrow> string \<Rightarrow> int \<Rightarrow> int option \<Rightarrow> int \<Rightarrow> string \<Rightarrow> (string + int \<times> int option \<times> int \<times> traceop_t \<times> string) option" where
  "read_request path type index sz max_index s =
    (if hd type = CHR ''a'' \<or> hd type = CHR ''r'' then
       do {
         (index, sz, s) \<leftarrow> scan_pair index sz s;
         n \<leftarrow> sz;
         Some (Inr (index, sz, max index max_index,
           \<lparr>op_type = (if hd type = CHR ''a'' then ALLOC else REALLOC), op_index = to_int index, op_size = to_int n\<rparr>, s))
       }
     else if hd type = CHR ''f'' then
       do {
         (index, s) \<leftarrow> scan_ud index s;
         Some (Inr (index, sz, max_index, \<lparr>op_type = FREE, op_index = to_int index, op_size = 0\<rparr>, s))
       }
     else Some (Inl (''Bogus type character ('' @ [hd type] @ '') in tracefile '' @ path)))"

lemma length_scan_u: "scan_u s = Some (i, t) \<Longrightarrow> length t \<le> length s"
  using length_dropWhile_le [of isspace s]
  by (auto simp: scan_u_def scan_sign_def Let_def split: if_splits list.splits prod.splits
      intro: le_trans [OF length_dropWhile_le] dest: sym)

lemma length_read_request: "read_request path type index sz m s = Some (Inr (i, n, m', r, t)) \<Longrightarrow> length t \<le> length s"
  by (fastforce simp: read_request_def scan_pair_def scan_ud_def Option.bind_eq_Some_conv
      split: if_splits option.splits list.splits dest!: length_scan_u)

lemma length_scan_word: "scan_word s = Some (w, t) \<Longrightarrow> length t < length s"
proof -
  assume *: "scan_word s = Some (w, t)"
  define u where "u = dropWhile isspace s"
  have "u \<noteq> []" "t = dropWhile (\<lambda>c. \<not> isspace c) u" using * by (auto simp: scan_word_def Let_def u_def split: if_splits)
  moreover from this(1) have "\<not> isspace (hd u)" unfolding u_def by (rule hd_dropWhile)
  ultimately have "length t < length u" using length_dropWhile_le [of "\<lambda>c. \<not> isspace c" "tl u"] by (cases u) auto
  then show ?thesis using length_dropWhile_le [of isspace s] by (simp add: u_def)
qed

text \<open>The loop over the requests, with the array \<open>ops\<close> of \<open>n\<close> elements filled so far.\<close>

function read_requests ::
  "string \<Rightarrow> int \<Rightarrow> int \<Rightarrow> int option \<Rightarrow> int \<Rightarrow> traceop_t list \<Rightarrow> string \<Rightarrow> (string + int \<times> traceop_t list) option" where
  "read_requests path n index sz max_index acc s =
    (case scan_word s of
       None \<Rightarrow> Some (Inr (max_index, acc))
     | Some (type, s) \<Rightarrow>
         if MAXLINE \<le> length type then None
         else
           (case read_request path type index sz max_index s of
             None \<Rightarrow> None
           | Some (Inl e) \<Rightarrow> Some (Inl e)
           | Some (Inr (index, sz, max_index, r, s)) \<Rightarrow>
               if int (length acc) < n then read_requests path n index sz max_index (acc @ [r]) s else None))"
  by pat_completeness auto
termination
  by (relation "measure (\<lambda>(path, n, index, sz, m, acc, s). length s)")
    (use length_scan_word length_read_request in \<open>fastforce+\<close>)

declare read_requests.simps [simp del]

text \<open>The file is \<open>None\<close> when it cannot be opened; the text that the system adds to the message is left out.\<close>

definition read_trace :: "string \<Rightarrow> string \<Rightarrow> string option \<Rightarrow> (string + trace_t) option" where
  "read_trace tracedir filename file =
    (let path = tracedir @ filename in
     if MAXLINE \<le> length path then None
     else
       case file of
         None \<Rightarrow>
           if MAXLINE \<le> length (''Could not open '' @ path @ '' in read_trace'') then None
           else Some (Inl (''Could not open '' @ path @ '' in read_trace''))
       | Some s \<Rightarrow>
           do {
             (heapsize, s) \<leftarrow> scan_d s;
             (ids, s) \<leftarrow> scan_d s;
             ids \<leftarrow> ids;
             (n, s) \<leftarrow> scan_d s;
             n \<leftarrow> n;
             (w, s) \<leftarrow> scan_d s;
             if n < 0 then Some (Inl ''malloc 2 failed in read_trace'')
             else if ids < 0 then Some (Inl ''malloc 3 failed in read_trace'')
             else
               andthen (read_requests path n 0 None 0 [] s) (\<lambda>(max_index, acc).
                 if max_index = (ids - 1) mod 2 ^ 32 \<and> int (length acc) = n then
                   Some (Inr \<lparr>sugg_heapsize = (case heapsize of None \<Rightarrow> 0 | Some x \<Rightarrow> x), num_ids = ids, num_ops = n,
                     weight = (case w of None \<Rightarrow> 0 | Some x \<Rightarrow> x), ops = acc,
                     blocks = replicate (nat ids) None, block_sizes = replicate (nat ids) None\<rparr>)
                 else None)
           })"

definition get_block :: "int \<Rightarrow> trace_t \<Rightarrow> int option" where
  "get_block index tr = (if 0 \<le> index \<and> index < int (length (blocks tr)) then blocks tr ! nat index else None)"

definition set_block :: "int \<Rightarrow> int \<Rightarrow> trace_t \<Rightarrow> trace_t option" where
  "set_block index p tr =
    (if 0 \<le> index \<and> index < int (length (blocks tr)) then Some (tr\<lparr>blocks := (blocks tr)[nat index := Some p]\<rparr>) else None)"

definition get_block_size :: "int \<Rightarrow> trace_t \<Rightarrow> int option" where
  "get_block_size index tr = (if 0 \<le> index \<and> index < int (length (block_sizes tr)) then block_sizes tr ! nat index else None)"

definition set_block_size :: "int \<Rightarrow> int \<Rightarrow> trace_t \<Rightarrow> trace_t option" where
  "set_block_size index sz tr =
    (if 0 \<le> index \<and> index < int (length (block_sizes tr))
     then Some (tr\<lparr>block_sizes := (block_sizes tr)[nat index := Some (to_size sz)]\<rparr>) else None)"

definition remember :: "int \<Rightarrow> int \<Rightarrow> int \<Rightarrow> trace_t \<Rightarrow> trace_t option" where
  "remember index p sz tr = do { tr \<leftarrow> set_block index p tr; set_block_size index sz tr }"

text \<open>\<open>memset\<close>: the cells of the model hold four bytes, the first of them in the low bits.\<close>

definition put_byte :: "int \<Rightarrow> int \<Rightarrow> mm \<Rightarrow> mm option" where
  "put_byte p v st =
    (let a = p - p mod 4; k = nat (8 * (p mod 4))
     in do { w \<leftarrow> GET a st; PUT a (w AND NOT (push_bit k 255) OR push_bit k v) st })"

fun memset :: "int \<Rightarrow> int \<Rightarrow> nat \<Rightarrow> mm \<Rightarrow> mm option" where
  "memset p v 0 st = Some st"
| "memset p v (Suc n) st = do { st \<leftarrow> put_byte p v st; memset (p + 1) v n st }"

section \<open>Correctness of the allocator on a trace\<close>

text \<open>One request of the trace. The flag is \<open>False\<close> where \<open>eval_mm_valid\<close> returns 0.\<close>

definition valid_alloc :: "mmap \<Rightarrow> int \<Rightarrow> int \<Rightarrow> traceop_t \<Rightarrow> trace_t \<Rightarrow> driver \<Rightarrow> (string + bool \<times> trace_t \<times> driver) option" where
  "valid_alloc mmap tracenum i r tr d =
    andthen (mm_malloc mmap (to_size (op_size r)) (heap d)) (\<lambda>(p, st).
      let d = d\<lparr>heap := st\<rparr> in
      if p = 0 then Some (Inr (False, tr, malloc_error tracenum i ''mm_malloc failed.'' d))
      else do {
        (ok, d) \<leftarrow> add_range p (op_size r) tracenum i d;
        if \<not> ok then Some (Inr (False, tr, d))
        else do {
          st \<leftarrow> memset p (op_index r AND 255) (nat (to_size (op_size r))) (heap d);
          tr \<leftarrow> remember (op_index r) p (op_size r) tr;
          Some (Inr (True, tr, d\<lparr>heap := st\<rparr>))
        }
      })"

definition valid_realloc :: "mmap \<Rightarrow> int \<Rightarrow> int \<Rightarrow> traceop_t \<Rightarrow> trace_t \<Rightarrow> driver \<Rightarrow> (string + bool \<times> trace_t \<times> driver) option" where
  "valid_realloc mmap tracenum i r tr d =
    do {
      oldp \<leftarrow> get_block (op_index r) tr;
      andthen (mm_malloc mmap (to_size (op_size r)) (heap d)) (\<lambda>(newp, st).
        let d = d\<lparr>heap := st\<rparr> in
        if newp = 0 then Some (Inr (False, tr, malloc_error tracenum i ''mm_malloc failed.'' d))
        else do {
          (ok, d) \<leftarrow> add_range newp (op_size r) tracenum i (d\<lparr>ranges := remove_range (ranges d) oldp\<rparr>);
          if \<not> ok then Some (Inr (False, tr, d))
          else do {
            st \<leftarrow> memset newp (op_index r AND 255) (nat (to_size (op_size r))) (heap d);
            andthen (mm_free oldp st) (\<lambda>st. do {
              tr \<leftarrow> remember (op_index r) newp (op_size r) tr;
              Some (Inr (True, tr, d\<lparr>heap := st\<rparr>))
            })
          }
        })
    }"

definition valid_free :: "traceop_t \<Rightarrow> trace_t \<Rightarrow> driver \<Rightarrow> (string + bool \<times> trace_t \<times> driver) option" where
  "valid_free r tr d =
    do {
      p \<leftarrow> get_block (op_index r) tr;
      andthen (mm_free p (heap d)) (\<lambda>st.
        Some (Inr (True, tr, d\<lparr>ranges := remove_range (ranges d) p, heap := st\<rparr>)))
    }"

definition valid_op :: "mmap \<Rightarrow> int \<Rightarrow> int \<Rightarrow> traceop_t \<Rightarrow> trace_t \<Rightarrow> driver \<Rightarrow> (string + bool \<times> trace_t \<times> driver) option" where
  "valid_op mmap tracenum i r tr d =
    (case op_type r of
       ALLOC \<Rightarrow> valid_alloc mmap tracenum i r tr d
     | REALLOC \<Rightarrow> valid_realloc mmap tracenum i r tr d
     | FREE \<Rightarrow> valid_free r tr d)"

fun valid_loop ::
  "mmap \<Rightarrow> int \<Rightarrow> int \<Rightarrow> traceop_t list \<Rightarrow> trace_t \<Rightarrow> driver \<Rightarrow> (string + bool \<times> trace_t \<times> driver) option" where
  "valid_loop mmap tracenum i [] tr d = Some (Inr (True, tr, d))"
| "valid_loop mmap tracenum i (r # rs) tr d =
    andthen (valid_op mmap tracenum i r tr d) (\<lambda>(ok, tr, d).
      if ok then valid_loop mmap tracenum (i + 1) rs tr d else Some (Inr (False, tr, d)))"

definition reset_heap :: "mm \<Rightarrow> (string + mm) option" where
  "reset_heap st = andthen (mem_reset (lib st)) (\<lambda>l. Some (Inr (st\<lparr>lib := l\<rparr>)))"

definition eval_mm_valid :: "mmap \<Rightarrow> trace_t \<Rightarrow> int \<Rightarrow> driver \<Rightarrow> (string + bool \<times> trace_t \<times> driver) option" where
  "eval_mm_valid mmap tr tracenum d =
    (let d = clear_ranges d; d = d\<lparr>heap := mm_init (heap d)\<rparr>
     in andthen (valid_loop mmap tracenum 0 (ops tr) tr d) (\<lambda>(ok, tr, d).
          if ok then andthen (reset_heap (heap d)) (\<lambda>st. Some (Inr (True, tr, d\<lparr>heap := st\<rparr>)))
          else Some (Inr (False, tr, d))))"

section \<open>Space utilization\<close>

text \<open>The sizes are \<open>size_t\<close>. \<open>double\<close> is read as the real numbers.\<close>

record util_t =
  total_size :: int
  max_total_size :: int
  max_heap_size :: int
  accum_ratio_frac :: real
  accum_ratio_exp :: int

definition util0 :: util_t where
  "util0 = \<lparr>total_size = 0, max_total_size = 0, max_heap_size = 0, accum_ratio_frac = 1, accum_ratio_exp = 0\<rparr>"

text \<open>\<open>frexp\<close> of a positive number: a fraction in \<open>[1/2, 1)\<close> and an exponent.\<close>

definition frexp :: "real \<Rightarrow> real \<times> int" where
  "frexp x = (let e = \<lfloor>log 2 x\<rfloor> + 1 in (x / 2 powi e, e))"

definition util_op :: "mmap \<Rightarrow> traceop_t \<Rightarrow> trace_t \<Rightarrow> mm \<Rightarrow> int \<Rightarrow> (string + trace_t \<times> mm \<times> int) option" where
  "util_op mmap r tr st tot =
    (case op_type r of
       ALLOC \<Rightarrow>
         andthen (mm_malloc mmap (to_size (op_size r)) st) (\<lambda>(p, st).
           if p = 0 then Some (Inl ''mm_malloc failed in eval_mm_util'')
           else do {
             tr \<leftarrow> remember (op_index r) p (op_size r) tr;
             Some (Inr (tr, st, to_size (tot + op_size r)))
           })
     | REALLOC \<Rightarrow> do {
         oldsize \<leftarrow> map_option to_int (get_block_size (op_index r) tr);
         oldp \<leftarrow> get_block (op_index r) tr;
         andthen (mm_malloc mmap (to_size (op_size r)) st) (\<lambda>(newp, st).
           if newp = 0 then Some (Inl ''mm_realloc failed in eval_mm_util'')
           else
             andthen (mm_free oldp st) (\<lambda>st. do {
               tr \<leftarrow> remember (op_index r) newp (op_size r) tr;
               let diff = op_size r - oldsize;
               if - (2 ^ 31) \<le> diff \<and> diff \<le> INT_MAX then Some (Inr (tr, st, to_size (tot + diff))) else None
             }))
       }
     | FREE \<Rightarrow> do {
         size \<leftarrow> map_option to_int (get_block_size (op_index r) tr);
         p \<leftarrow> get_block (op_index r) tr;
         andthen (mm_free p st) (\<lambda>st. Some (Inr (tr, st, to_size (tot - size))))
       })"

definition util_stats :: "mm \<Rightarrow> int \<Rightarrow> util_t \<Rightarrow> util_t option" where
  "util_stats st tot u =
    map_option (\<lambda>heap_size.
      let (ratio_frac, ratio_exp) = frexp (real_of_int (tot + 1) / real_of_int (heap_size + 1));
          (frac, e) = frexp (accum_ratio_frac u * ratio_frac)
      in \<lparr>total_size = tot, max_total_size = max tot (max_total_size u),
          max_heap_size = max heap_size (max_heap_size u),
          accum_ratio_frac = frac, accum_ratio_exp = accum_ratio_exp u + ratio_exp + e\<rparr>)
     (mem_heapsize (lib st))"

fun util_loop :: "mmap \<Rightarrow> traceop_t list \<Rightarrow> trace_t \<Rightarrow> mm \<Rightarrow> util_t \<Rightarrow> (string + trace_t \<times> mm \<times> util_t) option" where
  "util_loop mmap [] tr st u = Some (Inr (tr, st, u))"
| "util_loop mmap (r # rs) tr st u =
    andthen (util_op mmap r tr st (total_size u)) (\<lambda>(tr, st, tot).
      Option.bind (util_stats st tot u) (util_loop mmap rs tr st))"

text \<open>The utilization and \<open>*inst_ratio\<close>; for a trace without requests the divisions by 0 have no value here.\<close>

definition eval_mm_util :: "mmap \<Rightarrow> trace_t \<Rightarrow> driver \<Rightarrow> (string + real \<times> real \<times> trace_t \<times> driver) option" where
  "eval_mm_util mmap tr d =
    andthen (util_loop mmap (ops tr) tr (mm_init (heap d)) util0) (\<lambda>(tr, st, u).
      andthen (reset_heap st) (\<lambda>st.
        if num_ops tr = 0 \<or> max_heap_size u = 0 then None
        else
          let ratio = accum_ratio_frac u * 2 powr (real_of_int (accum_ratio_exp u) / real_of_int (num_ops tr))
          in Some (Inr (real_of_int (max_total_size u) / real_of_int (max_heap_size u), ratio, tr, d\<lparr>heap := st\<rparr>))))"

section \<open>The routines that are timed\<close>

definition speed_op :: "mmap \<Rightarrow> traceop_t \<Rightarrow> trace_t \<Rightarrow> mm \<Rightarrow> (string + trace_t \<times> mm) option" where
  "speed_op mmap r tr st =
    (case op_type r of
       ALLOC \<Rightarrow>
         andthen (mm_malloc mmap (to_size (op_size r)) st) (\<lambda>(p, st).
           if p = 0 then Some (Inl ''mm_malloc error in eval_mm_speed'')
           else do { tr \<leftarrow> set_block (op_index r) p tr; Some (Inr (tr, st)) })
     | REALLOC \<Rightarrow> do {
         oldp \<leftarrow> get_block (op_index r) tr;
         andthen (mm_malloc mmap (to_size (op_size r)) st) (\<lambda>(newp, st).
           if newp = 0 then Some (Inl ''mm_realloc error in eval_mm_speed'')
           else
             andthen (mm_free oldp st) (\<lambda>st. do { tr \<leftarrow> set_block (op_index r) newp tr; Some (Inr (tr, st)) }))
       }
     | FREE \<Rightarrow> do {
         p \<leftarrow> get_block (op_index r) tr;
         andthen (mm_free p st) (\<lambda>st. Some (Inr (tr, st)))
       })"

fun speed_loop :: "mmap \<Rightarrow> traceop_t list \<Rightarrow> trace_t \<Rightarrow> mm \<Rightarrow> (string + trace_t \<times> mm) option" where
  "speed_loop mmap [] tr st = Some (Inr (tr, st))"
| "speed_loop mmap (r # rs) tr st = andthen (speed_op mmap r tr st) (\<lambda>(tr, st). speed_loop mmap rs tr st)"

definition eval_mm_speed :: "mmap \<Rightarrow> trace_t \<Rightarrow> mm \<Rightarrow> (string + trace_t \<times> mm) option" where
  "eval_mm_speed mmap tr st =
    andthen (speed_loop mmap (ops tr) tr (mm_init st)) (\<lambda>(tr, st).
      andthen (reset_heap st) (\<lambda>st. Some (Inr (tr, st))))"

text \<open>The C library's allocator, with a state of its own; a null pointer is 0.\<close>

record 'h libc =
  libc_malloc :: "int \<Rightarrow> 'h \<Rightarrow> int \<times> 'h"
  libc_realloc :: "int \<Rightarrow> int \<Rightarrow> 'h \<Rightarrow> int \<times> 'h"
  libc_free :: "int \<Rightarrow> 'h \<Rightarrow> 'h"

definition libc_valid_op :: "'h libc \<Rightarrow> traceop_t \<Rightarrow> trace_t \<Rightarrow> 'h \<Rightarrow> (string + trace_t \<times> 'h) option" where
  "libc_valid_op c r tr h =
    (case op_type r of
       ALLOC \<Rightarrow>
         let (p, h) = libc_malloc c (to_size (op_size r)) h in
         if p = 0 then Some (Inl ''System message'')
         else do { tr \<leftarrow> set_block (op_index r) p tr; Some (Inr (tr, h)) }
     | REALLOC \<Rightarrow> do {
         oldp \<leftarrow> get_block (op_index r) tr;
         let (newp, h) = libc_realloc c oldp (to_size (op_size r)) h;
         if newp = 0 then Some (Inl ''System message'')
         else do { tr \<leftarrow> set_block (op_index r) newp tr; Some (Inr (tr, h)) }
       }
     | FREE \<Rightarrow> do {
         p \<leftarrow> get_block (op_index r) tr;
         Some (Inr (tr, libc_free c p h))
       })"

fun eval_libc_valid :: "'h libc \<Rightarrow> traceop_t list \<Rightarrow> trace_t \<Rightarrow> 'h \<Rightarrow> (string + trace_t \<times> 'h) option" where
  "eval_libc_valid c [] tr h = Some (Inr (tr, h))"
| "eval_libc_valid c (r # rs) tr h = andthen (libc_valid_op c r tr h) (\<lambda>(tr, h). eval_libc_valid c rs tr h)"

definition libc_speed_op :: "'h libc \<Rightarrow> traceop_t \<Rightarrow> trace_t \<Rightarrow> 'h \<Rightarrow> (string + trace_t \<times> 'h) option" where
  "libc_speed_op c r tr h =
    (case op_type r of
       ALLOC \<Rightarrow>
         let (p, h) = libc_malloc c (to_size (op_size r)) h in
         if p = 0 then Some (Inl ''malloc failed in eval_libc_speed'')
         else do { tr \<leftarrow> set_block (op_index r) p tr; Some (Inr (tr, h)) }
     | REALLOC \<Rightarrow> do {
         oldp \<leftarrow> get_block (op_index r) tr;
         let (newp, h) = libc_malloc c (to_size (op_size r)) h;
         if newp = 0 then Some (Inl ''malloc failed in eval_libc_speed'')
         else do { tr \<leftarrow> set_block (op_index r) newp tr; Some (Inr (tr, libc_free c oldp h)) }
       }
     | FREE \<Rightarrow> do {
         p \<leftarrow> get_block (op_index r) tr;
         Some (Inr (tr, libc_free c p h))
       })"

fun eval_libc_speed :: "'h libc \<Rightarrow> traceop_t list \<Rightarrow> trace_t \<Rightarrow> 'h \<Rightarrow> (string + trace_t \<times> 'h) option" where
  "eval_libc_speed c [] tr h = Some (Inr (tr, h))"
| "eval_libc_speed c (r # rs) tr h = andthen (libc_speed_op c r tr h) (\<lambda>(tr, h). eval_libc_speed c rs tr h)"

section \<open>The program\<close>

record stats_t =
  stat_ops :: int
  valid :: bool
  secs :: real
  util :: real
  inst_util :: real

record options =
  tracedir :: string
  tracefiles :: "string list"
  run_libc :: bool
  autograder :: bool
  verbose :: int

definition TRACEDIR :: string where
  "TRACEDIR = ''/home/cs4400/malloclab/traces/''"

definition DEFAULT_TRACEFILES :: "string list" where
  "DEFAULT_TRACEFILES = [''amptjp-bal.rep'', ''cccp-bal.rep'', ''cp-decl-bal.rep'', ''expr-bal.rep'', ''coalescing-bal.rep'',
     ''random-bal.rep'', ''random2-bal.rep'', ''binary-bal.rep'', ''binary2-bal.rep'']"

definition options0 :: options where
  "options0 = \<lparr>tracedir = TRACEDIR, tracefiles = [], run_libc = False, autograder = False, verbose = 0\<rparr>"

text \<open>The options as \<open>getopt\<close> delivers them, each with its argument. \<open>Inl\<close> is the exit status; \<open>None\<close>
  where the buffer \<open>tracedir\<close> is exceeded.\<close>

fun main_options :: "(char \<times> string) list \<Rightarrow> options \<Rightarrow> (int + options) option" where
  "main_options [] oo = Some (Inr (if tracefiles oo = [] then oo\<lparr>tracefiles := DEFAULT_TRACEFILES\<rparr> else oo))"
| "main_options ((c, optarg) # rest) oo =
    (if c = CHR ''g'' then main_options rest (oo\<lparr>autograder := True\<rparr>)
     else if c = CHR ''f'' then main_options rest (oo\<lparr>tracedir := ''./'', tracefiles := [optarg]\<rparr>)
     else if c = CHR ''t'' then
       if length (tracefiles oo) = 1 then main_options rest oo
       else
         let dir = (if optarg \<noteq> [] \<and> last optarg \<noteq> CHR ''/'' then optarg @ ''/'' else optarg)
         in if optarg = [] \<or> MAXLINE \<le> length dir then None else main_options rest (oo\<lparr>tracedir := dir\<rparr>)
     else if c = CHR ''l'' then main_options rest (oo\<lparr>run_libc := True\<rparr>)
     else if c = CHR ''v'' then main_options rest (oo\<lparr>verbose := 1\<rparr>)
     else if c = CHR ''V'' then main_options rest (oo\<lparr>verbose := 2\<rparr>)
     else if c = CHR ''h'' then Some (Inl 0)
     else Some (Inl 1))"

text \<open>\<open>fsecs\<close> runs a routine ten times between two readings of the clock, in seconds and microseconds.\<close>

type_synonym clock = "(int \<times> int) \<times> (int \<times> int)"

definition ftimer_gettod :: "clock \<Rightarrow> nat \<Rightarrow> real" where
  "ftimer_gettod c n =
    (let ((tv_sec, tv_usec), (tv_sec', tv_usec')) = c;
         diff = 1000 * real_of_int (tv_sec' - tv_sec) + real_of_int (tv_usec' - tv_usec) / 1000
     in diff / real n / 1000)"

definition fsecs :: "clock \<Rightarrow> real" where
  "fsecs c = ftimer_gettod c 10"

fun fsecs_runs :: "nat \<Rightarrow> mmap \<Rightarrow> trace_t \<Rightarrow> mm \<Rightarrow> (string + trace_t \<times> mm) option" where
  "fsecs_runs 0 mmap tr st = Some (Inr (tr, st))"
| "fsecs_runs (Suc n) mmap tr st = andthen (eval_mm_speed mmap tr st) (\<lambda>(tr, st). fsecs_runs n mmap tr st)"

definition run_trace ::
  "mmap \<Rightarrow> clock \<Rightarrow> string \<Rightarrow> int \<Rightarrow> string \<Rightarrow> string option \<Rightarrow> driver \<Rightarrow> (string + stats_t \<times> driver) option" where
  "run_trace mmap timing dir i filename file d =
    andthen (read_trace dir filename file) (\<lambda>tr.
    andthen (eval_mm_valid mmap tr i d) (\<lambda>(ok, tr, d).
      if \<not> ok then Some (Inr (\<lparr>stat_ops = num_ops tr, valid = False, secs = 0, util = 0, inst_util = 0\<rparr>, d))
      else
        andthen (eval_mm_util mmap tr d) (\<lambda>(u, ui, tr, d).
        andthen (fsecs_runs 10 mmap tr (heap d)) (\<lambda>(tr, st).
          Some (Inr (\<lparr>stat_ops = num_ops tr, valid = True, secs = fsecs timing, util = u, inst_util = ui\<rparr>, d\<lparr>heap := st\<rparr>))))))"

text \<open>The libc part of the program, when \<open>-l\<close> asks for it.\<close>

fun libc_runs :: "nat \<Rightarrow> 'h libc \<Rightarrow> trace_t \<Rightarrow> 'h \<Rightarrow> (string + trace_t \<times> 'h) option" where
  "libc_runs 0 c tr h = Some (Inr (tr, h))"
| "libc_runs (Suc n) c tr h = andthen (eval_libc_speed c (ops tr) tr h) (\<lambda>(tr, h). libc_runs n c tr h)"

fun libc_traces ::
  "'h libc \<Rightarrow> (string \<Rightarrow> string option) \<Rightarrow> (int \<Rightarrow> clock) \<Rightarrow> string \<Rightarrow> int \<Rightarrow> string list \<Rightarrow> 'h \<Rightarrow> (string + stats_t list \<times> 'h) option"
where
  "libc_traces c files timing dir i [] h = Some (Inr ([], h))"
| "libc_traces c files timing dir i (name # names) h =
    andthen (read_trace dir name (files (dir @ name))) (\<lambda>tr.
    andthen (eval_libc_valid c (ops tr) tr h) (\<lambda>(tr, h).
    andthen (libc_runs 10 c tr h) (\<lambda>(tr, h).
    andthen (libc_traces c files timing dir (i + 1) names h) (\<lambda>(ss, h).
      Some (Inr (\<lparr>stat_ops = num_ops tr, valid = True, secs = fsecs (timing i), util = 0, inst_util = 0\<rparr> # ss, h))))))"

fun mm_traces ::
  "mmap \<Rightarrow> (string \<Rightarrow> string option) \<Rightarrow> (int \<Rightarrow> clock) \<Rightarrow> string \<Rightarrow> int \<Rightarrow> string list \<Rightarrow> driver \<Rightarrow> (string + stats_t list \<times> driver) option"
where
  "mm_traces mmap files timing dir i [] d = Some (Inr ([], d))"
| "mm_traces mmap files timing dir i (name # names) d =
    andthen (run_trace mmap (timing i) dir i name (files (dir @ name)) d) (\<lambda>(s, d).
    andthen (mm_traces mmap files timing dir (i + 1) names d) (\<lambda>(ss, d).
      Some (Inr (s # ss, d))))"

definition UTIL_WEIGHT :: real where "UTIL_WEIGHT = 3 / 10"
definition UTIL_I_WEIGHT :: real where "UTIL_I_WEIGHT = 3 / 10"
definition AVG_LIBC_THRUPUT :: real where "AVG_LIBC_THRUPUT = 7500000"

text \<open>The performance index, and the traces that were processed correctly. A division by 0 seconds
  gives infinity, which is above any throughput; 0 operations in 0 seconds give no number (\<open>None\<close>).\<close>

definition perf_index :: "stats_t list \<Rightarrow> int \<Rightarrow> real option" where
  "perf_index stats errs =
    (let n = real (length stats);
         secs' = sum_list (map secs stats);
         ops' = sum_list (map (\<lambda>s. real_of_int (stat_ops s)) stats);
         avg_util = sum_list (map util stats) / n;
         avg_inst_util = sum_list (map inst_util stats) / n;
         p1 = UTIL_WEIGHT * avg_util;
         p1i = UTIL_I_WEIGHT * avg_inst_util;
         p2 = (if secs' = 0 \<or> AVG_LIBC_THRUPUT < ops' / secs' then 1 - (UTIL_WEIGHT + UTIL_I_WEIGHT)
               else (1 - (UTIL_WEIGHT + UTIL_I_WEIGHT)) * (ops' / secs' / AVG_LIBC_THRUPUT))
     in if errs \<noteq> 0 then Some 0 else if secs' = 0 \<and> ops' = 0 then None else Some ((p1 + p1i + p2) * 100))"

definition numcorrect :: "stats_t list \<Rightarrow> nat" where
  "numcorrect stats = length (filter valid stats)"

text \<open>What \<open>main\<close> reports: the index, the number of correct traces and of errors.\<close>

definition main ::
  "mmap \<Rightarrow> 'h libc \<Rightarrow> 'h \<Rightarrow> (string \<Rightarrow> string option) \<Rightarrow> (int \<Rightarrow> clock) \<Rightarrow> (int \<Rightarrow> clock) \<Rightarrow> int \<Rightarrow>
   (char \<times> string) list \<Rightarrow> (string + int + real option \<times> nat \<times> driver) option" where
  "main mmap c h files libc_timing timing getpagesize args =
    (case main_options args options0 of
       None \<Rightarrow> None
     | Some (Inl status) \<Rightarrow> Some (Inr (Inl status))
     | Some (Inr oo) \<Rightarrow>
         andthen (if run_libc oo then libc_traces c files libc_timing (tracedir oo) 0 (tracefiles oo) h else Some (Inr ([], h))) (\<lambda>_.
         andthen (Some (mem_init getpagesize)) (\<lambda>_.
         andthen (mm_traces mmap files timing (tracedir oo) 0 (tracefiles oo)
           \<lparr>errors = 0, reports = [], ranges = [], heap = \<lparr>lib = memlib0, free_list_ptr = 0\<rparr>\<rparr>) (\<lambda>(stats, d).
           Some (Inr (Inr (perf_index stats (errors d), numcorrect stats, d)))))))"

text \<open>The overlap check looks at the two ends of the new payload only: one that encloses an old payload passes.\<close>

lemma overlap_misses_enclosing: "lo' < lo r \<Longrightarrow> hi r < hi' \<Longrightarrow> lo r \<le> hi r \<Longrightarrow> overlapped lo' hi' [r] = None"
  by simp

end
