(* ===== verification/MM_Pages.thy ===== *)
theory MM_Pages
  imports MM_Free
begin

text \<open>
  How much of the memory model's counters an allocator call can use, and that the payload of an
  allocated block lies on mapped pages.
\<close>

lemma case_exit [simp]:
  "(case y of Inl e \<Rightarrow> Some (Inl e) | Inr x \<Rightarrow> f x) = Some (Inr z) \<longleftrightarrow> (\<exists>x. y = Inr x \<and> f x = Some (Inr z))"
  "(case y of Inl e \<Rightarrow> Inl e | Inr x \<Rightarrow> g x) = Inr z \<longleftrightarrow> (\<exists>x. y = Inr x \<and> g x = Inr z)"
  by (cases y; simp)+

definition meta :: "mm \<Rightarrow> int \<times> int" where
  "meta st = (page_count (lib st), activity_counter (lib st))"

lemma meta_simps [simp]:
  "meta (st\<lparr>free_list_ptr := h\<rparr>) = meta st" "meta (set_cells m st) = meta st"
  by (simp_all add: meta_def set_cells_def)

text \<open>\<open>keeps m c\<close>: if \<open>m\<close> returns a state, its counters are \<open>c\<close>. The rules follow the text of an operation.\<close>

definition keeps :: "mm option \<Rightarrow> int \<times> int \<Rightarrow> bool" where
  "keeps m c \<longleftrightarrow> (\<forall>st. m = Some st \<longrightarrow> meta st = c)"

definition keeps_pair :: "(int \<times> mm) option \<Rightarrow> int \<times> int \<Rightarrow> bool" where
  "keeps_pair m c \<longleftrightarrow> (\<forall>b st. m = Some (b, st) \<longrightarrow> meta st = c)"

named_theorems keeping

lemma keeps_rules [keeping]:
  "meta st = c \<Longrightarrow> keeps (Some st) c"
  "meta st = c \<Longrightarrow> keeps_pair (Some (b, st)) c"
  "keeps m c \<Longrightarrow> (\<And>st. meta st = c \<Longrightarrow> keeps (f st) c) \<Longrightarrow> keeps (Option.bind m f) c"
  "keeps m c \<Longrightarrow> (\<And>st. meta st = c \<Longrightarrow> keeps_pair (g st) c) \<Longrightarrow> keeps_pair (Option.bind m g) c"
  "(\<And>x. keeps (h x) c) \<Longrightarrow> keeps (Option.bind (r :: int option) h) c"
  "(\<And>x. keeps_pair (k x) c) \<Longrightarrow> keeps_pair (Option.bind (r :: int option) k) c"
  "(P \<Longrightarrow> keeps m c) \<Longrightarrow> (\<not> P \<Longrightarrow> keeps m' c) \<Longrightarrow> keeps (if P then m else m') c"
  "(P \<Longrightarrow> keeps_pair n c) \<Longrightarrow> (\<not> P \<Longrightarrow> keeps_pair n' c) \<Longrightarrow> keeps_pair (if P then n else n') c"
  by (auto simp: keeps_def keeps_pair_def Option.bind_eq_Some_conv)

lemma keeps_PUT [keeping]: "meta st = c \<Longrightarrow> keeps (PUT p v st) c"
  by (auto simp: keeps_def PUT_def)

lemma keeps_stores [keeping]:
  "meta st = c \<Longrightarrow> keeps (PUT_PTR p v st) c" "meta st = c \<Longrightarrow> keeps (PUT_HDR b n al st) c"
  "meta st = c \<Longrightarrow> keeps (PUT_FTR b n al st) c" "meta st = c \<Longrightarrow> keeps (SET_PREV p v st) c"
  "meta st = c \<Longrightarrow> keeps (SET_NEXT p v st) c"
  unfolding PUT_PTR_def PUT_HDR_def PUT_FTR_def SET_PREV_def SET_NEXT_def by (intro keeping; assumption)+

lemma keeps_lists [keeping]:
  "meta st = c \<Longrightarrow> keeps (add_to_free_list b st) c" "meta st = c \<Longrightarrow> keeps (remove_from_free_list b st) c"
  unfolding add_to_free_list_def remove_from_free_list_def Let_def by ((intro keeping; simp)+)

lemma keeps_set_allocated [keeping]: "meta st = c \<Longrightarrow> keeps (set_allocated b n st) c"
  unfolding set_allocated_def Let_def by ((intro keeping; simp)+)

lemma keeps_coalesce: "meta st = c \<Longrightarrow> keeps_pair (coalesce b st) c"
  unfolding coalesce_def Let_def by ((intro keeping; assumption)+)

lemma keeps_page_set_up: "meta st = c \<Longrightarrow> keeps_pair (page_set_up b n st) c"
  unfolding page_set_up_def Let_def by ((intro keeping; assumption)+)

section \<open>Mapping and unmapping\<close>

lemma map_loop_count:
  "map_loop modify p i sz count t = Some (Inr (c, t')) \<Longrightarrow> c \<le> count + max 0 ((sz - i + 4095) div 4096)"
proof (induction modify p i sz count t rule: map_loop.induct)
  case (1 modify p i sz count t)
  show ?case
  proof (cases "i < sz")
    case True
    then obtain t1 where "modify (p + i) True t = Some (Inr t1)" "count < INT_MAX"
        "map_loop modify p (i + APAGE_SIZE) sz (count + 1) t1 = Some (Inr (c, t'))"
      using "1.prems" unfolding map_loop.simps [of modify p i sz count t]
      by (auto simp: Option.bind_eq_Some_conv split: if_splits)
    then have "c \<le> count + 1 + max 0 ((sz - (i + 4096) + 4095) div 4096)"
      using "1.IH" [OF True] by (simp add: APAGE_SIZE_def)
    then show ?thesis using True by linarith
  next
    case False
    then show ?thesis using "1.prems" unfolding map_loop.simps [of modify p i sz count t] by simp
  qed
qed

lemma unmap_loop_count:
  "unmap_loop modify mapped p i sz count t = Some (Inr (c, t')) \<Longrightarrow> c \<le> count"
proof (induction modify mapped p i sz count t rule: unmap_loop.induct)
  case (1 modify mapped p i sz count t)
  show ?case
  proof (cases "i < sz")
    case True
    then obtain t1 where "mapped (p + i) t" "modify (p + i) False t = Some (Inr t1)"
        "unmap_loop modify mapped p (i + APAGE_SIZE) sz (count - 1) t1 = Some (Inr (c, t'))"
      using "1.prems" unfolding unmap_loop.simps [of modify mapped p i sz count t]
      by (auto simp: Option.bind_eq_Some_conv split: if_splits)
    then show ?thesis using "1.IH" [OF True] by simp
  next
    case False
    then show ?thesis using "1.prems" unfolding unmap_loop.simps [of modify mapped p i sz count t] by simp
  qed
qed

lemma sys_mmap_counters: "sys_mmap mmap sz s = (r, s') \<Longrightarrow> page_count s' = page_count s \<and> activity_counter s' = activity_counter s"
  by (auto simp: sys_mmap_def split: option.splits)

lemma activity_counters:
  "page_count (activity mmap s) = page_count s \<and> activity_counter (activity mmap s) = activity_counter s + 1"
  by (cases "sys_mmap mmap APAGE_SIZE (s\<lparr>activity_counter := activity_counter s + 1\<rparr>)")
     (auto simp: activity_def Let_def dest: sys_mmap_counters)

lemma mem_map_counters:
  assumes "mem_map mmap sz s = Some (Inr (p, s'))"
  shows "page_count s' \<le> page_count s + max 0 ((sz + 4095) div 4096) \<and> activity_counter s' = activity_counter s + 1"
proof -
  obtain r s1 where s1: "sys_mmap mmap sz (activity mmap s) = (r, s1)" by (cases "sys_mmap mmap sz (activity mmap s)")
  note c = sys_mmap_counters [OF s1] activity_counters [of mmap s]
  obtain count t where "map_loop pagemap_modify p 0 sz (page_count s1) (table s1) = Some (Inr (count, t))"
      "s' = s1\<lparr>page_count := count, table := t\<rparr>"
    using assms s1 by (auto simp: mem_map_def split: if_splits option.splits)
  then show ?thesis using map_loop_count [of pagemap_modify p 0 sz] c by force
qed

lemma mem_unmap_counters:
  "mem_unmap p sz s = Some (Inr s') \<Longrightarrow> page_count s' \<le> page_count s \<and> activity_counter s' = activity_counter s"
  by (auto simp: mem_unmap_def munmap_def split: if_splits dest!: unmap_loop_count)

section \<open>Allocator calls\<close>

text \<open>The pages that a request of \<open>n\<close> bytes may need.\<close>

definition pages_for :: "int \<Rightarrow> int" where
  "pages_for n = range_for (block_for n) div APAGE_SIZE"

lemma pages_for_bounds:
  assumes "0 < n" "n \<le> MAX_REQUEST"
  shows "16 \<le> pages_for n" "pages_for n < 2 ^ 19" "max 0 ((range_for (block_for n) + 4095) div 4096) = pages_for n"
proof -
  have "0 \<le> block_for n" "block_for n \<le> 134217472" using block_for_bounds [OF assms] by linarith+
  note r = needed_size [OF this]
  obtain k where k: "range_for (block_for n) = 4096 * k" using r(1) by (elim dvdE)
  then have "pages_for n = k" by (simp add: pages_for_def APAGE_SIZE_def)
  then show "16 \<le> pages_for n" "pages_for n < 2 ^ 19" "max 0 ((range_for (block_for n) + 4095) div 4096) = pages_for n"
    using k r(3,4) by auto
qed

lemma set_allocated_meta: "set_allocated b n st = Some st' \<Longrightarrow> meta st' = meta st"
  using keeps_set_allocated [of st "meta st" b n] by (simp add: keeps_def)

lemma extend_counters:
  assumes "extend mmap (block_for n) st = Some (Inr (b, st'))" "0 < n" "n \<le> MAX_REQUEST"
  shows "page_count (lib st') \<le> page_count (lib st) + pages_for n \<and> activity_counter (lib st') = activity_counter (lib st) + 1"
proof -
  obtain p l st1 st2 where m: "mem_map mmap (range_for (block_for n)) (lib st) = Some (Inr (p, l))"
      "PUT p (PACK 0 0) (st\<lparr>lib := l\<rparr>) = Some st1" "page_set_up p (range_for (block_for n)) st1 = Some (b, st2)"
      "add_to_free_list b st2 = Some st'"
    using assms(1) unfolding extend_def Let_def range_for_def [symmetric]
    by (auto simp: Option.bind_eq_Some_conv)
  have "meta st1 = meta (st\<lparr>lib := l\<rparr>)" using keeps_PUT [OF refl] m(2) by (auto simp: keeps_def)
  moreover have "meta st2 = meta st1" using keeps_page_set_up [OF refl] m(3) by (auto simp: keeps_pair_def)
  moreover have "meta st' = meta st2" using keeps_lists(1) [OF refl] m(4) by (auto simp: keeps_def)
  ultimately have "meta st' = (page_count l, activity_counter l)" by (simp add: meta_def)
  then show ?thesis
    using mem_map_counters [OF m(1)] pages_for_bounds(3) [OF assms(2,3)] by (simp add: meta_def)
qed

lemma mm_malloc_counters:
  assumes "mm_malloc mmap n st = Some (Inr (b, st'))" "0 < n" "n \<le> MAX_REQUEST"
  shows "page_count (lib st') \<le> page_count (lib st) + pages_for n"
    "activity_counter (lib st') \<le> activity_counter (lib st) + 1"
proof -
  note bf = block_for_bounds [OF assms(2,3)]
  have op: "mm_malloc mmap n st =
      do {
        bp \<leftarrow> find_fit (free_list_ptr st) (block_for n) st;
        if bp \<noteq> 0 then do { st \<leftarrow> set_allocated bp (block_for n) st; Some (Inr (bp, st)) }
        else do {
          r \<leftarrow> extend mmap (block_for n) st;
          (case r of Inl e \<Rightarrow> Some (Inl e)
           | Inr (bp, st) \<Rightarrow> do { st \<leftarrow> set_allocated bp (block_for n) st; Some (Inr (bp, st)) })
        }
      }"
    unfolding mm_malloc_def Let_def bf(5) bf(6) using assms(2) by simp
  have "meta st' = meta st \<or>
      page_count (lib st') \<le> page_count (lib st) + pages_for n \<and> activity_counter (lib st') = activity_counter (lib st) + 1"
    using assms(1) unfolding op
    by (auto simp: Option.bind_eq_Some_conv meta_def split: if_splits
        dest!: set_allocated_meta extend_counters [OF _ assms(2,3)])
  then show "page_count (lib st') \<le> page_count (lib st) + pages_for n"
    "activity_counter (lib st') \<le> activity_counter (lib st) + 1"
    using pages_for_bounds(1) [OF assms(2,3)] by (auto simp: meta_def)
qed

text \<open>\<open>keeps_free m c\<close>: the counters of the state that \<open>m\<close> returns, if any, are at most \<open>c\<close>.\<close>

definition below :: "int \<times> int \<Rightarrow> int \<times> int \<Rightarrow> bool" where
  "below c c' \<longleftrightarrow> fst c \<le> fst c' \<and> snd c = snd c'"

lemma release_page_counters: "release_page b st = Some (Inr st') \<Longrightarrow> below (meta st') (meta st)"
  unfolding release_page_def Let_def
  by (auto simp: Option.bind_eq_Some_conv below_def split: if_splits)
     (auto simp: meta_def dest!: mem_unmap_counters keeps_lists(2) [OF refl, unfolded keeps_def meta_def, rule_format])

lemma mm_free_counters:
  assumes "mm_free b st = Some (Inr st')"
  shows "page_count (lib st') \<le> page_count (lib st)" "activity_counter (lib st') = activity_counter (lib st)"
proof -
  have "below (meta st') (meta st)"
    using assms unfolding mm_free_release
    by (auto simp: Option.bind_eq_Some_conv below_def split: if_splits
        dest!: release_page_counters [unfolded below_def] keeps_coalesce [OF refl, unfolded keeps_pair_def, rule_format]
          keeps_stores(2,3) [OF refl, unfolded keeps_def, rule_format])
  then show "page_count (lib st') \<le> page_count (lib st)" "activity_counter (lib st') = activity_counter (lib st)"
    by (simp_all add: below_def meta_def)
qed

section \<open>Payloads lie on mapped pages\<close>

lemma payload_mapped:
  assumes inv: "mm_inv H st" and b: "(b, s) \<in> allocated H" and x: "b \<le> x" "x < b + s"
  shows "pagemap_is_mapped x (table (lib st))"
proof -
  have h: "heap_inv H st" using inv by (simp add: mm_inv_def)
  then have lay: "layout H" and l: "memlib_inv (lib st)" by (simp_all add: heap_inv_def)
  obtain p bs where p: "H p = Some bs" "(b, s, True) \<in> set (locate (p + 16) bs)"
    using b by (auto simp: allocated_def blocks_def)
  note bp = block_in_page [OF lay p]
  have "APAGE_SIZE dvd p" "APAGE_SIZE dvd extent bs" using layoutD [OF lay p(1)] by (simp_all add: page_shape_def)
  then have "x div APAGE_SIZE \<in> page_range p (extent bs)" using page_range_iff bp x by auto
  then have "x div APAGE_SIZE \<in> pagemap_pages (table (lib st))" using heap_range [OF h p(1)] by auto
  then show ?thesis using pagemap.is_mapped [of "table (lib st)" x] l bp(6) x by (simp add: memlib_inv_def)
qed

end
