(* ===== verification/Mdriver_Valid.thy ===== *)
theory Mdriver_Valid
  imports Mdriver MM_Pages
begin

text \<open>
  The malloc driver and the allocator together: on every well formed trace the driver's checks
  pass, and its utilization is a proper fraction.
\<close>

section \<open>Traces and the blocks they hold\<close>

text \<open>A trace is well formed when it releases and resizes only blocks it holds, and requests sizes that
  the allocator supports.\<close>

fun trace_ok :: "int \<Rightarrow> int set \<Rightarrow> traceop_t list \<Rightarrow> bool" where
  "trace_ok ids live [] \<longleftrightarrow> True"
| "trace_ok ids live (r # rs) \<longleftrightarrow> 0 \<le> op_index r \<and> op_index r < ids \<and>
    (case op_type r of
       ALLOC \<Rightarrow> op_index r \<notin> live \<and> 0 < op_size r \<and> op_size r \<le> MAX_REQUEST \<and> trace_ok ids (insert (op_index r) live) rs
     | REALLOC \<Rightarrow> op_index r \<in> live \<and> 0 < op_size r \<and> op_size r \<le> MAX_REQUEST \<and> trace_ok ids live rs
     | FREE \<Rightarrow> op_index r \<in> live \<and> trace_ok ids (live - {op_index r}) rs)"

text \<open>The pages its requests may need; \<open>B\<close> bounds the number of pages in use.\<close>

definition op_pages :: "traceop_t \<Rightarrow> int" where
  "op_pages r = (if op_type r = FREE then 0 else pages_for (op_size r))"

definition trace_pages :: "traceop_t list \<Rightarrow> int" where
  "trace_pages rs = sum_list (map op_pages rs)"

definition room_for :: "int \<Rightarrow> traceop_t list \<Rightarrow> mm \<Rightarrow> bool" where
  "room_for B rs st \<longleftrightarrow> page_count (lib st) + trace_pages rs \<le> B \<and> B + 2 ^ 19 \<le> INT_MAX \<and>
     activity_counter (lib st) + int (length rs) < INT_MAX"

text \<open>\<open>L\<close> maps the index of each block the trace holds to its address and size; \<open>A\<close> are the allocated
  blocks.\<close>

type_synonym live = "int \<Rightarrow> (int \<times> int) option"

definition holding :: "live \<Rightarrow> (int \<times> int) set \<Rightarrow> trace_t \<Rightarrow> bool" where
  "holding L A tr \<longleftrightarrow>
     (\<forall>k p n. L k = Some (p, n) \<longrightarrow> get_block k tr = Some p \<and> 0 < n \<and> n \<le> MAX_REQUEST \<and> (\<exists>s. (p, s) \<in> A \<and> n + 8 \<le> s)) \<and>
     (\<forall>k j p n m. L k = Some (p, n) \<longrightarrow> L j = Some (p, m) \<longrightarrow> k = j)"

definition sized :: "live \<Rightarrow> trace_t \<Rightarrow> bool" where
  "sized L tr \<longleftrightarrow> (\<forall>k p n. L k = Some (p, n) \<longrightarrow> get_block_size k tr = Some n)"

definition arrays :: "int \<Rightarrow> trace_t \<Rightarrow> bool" where
  "arrays ids tr \<longleftrightarrow> int (length (blocks tr)) = ids \<and> int (length (block_sizes tr)) = ids"

definition payload :: "int \<times> int \<Rightarrow> range_t" where
  "payload = (\<lambda>(p, n). \<lparr>lo = p, hi = p + n - 1\<rparr>)"

definition ranges_for :: "live \<Rightarrow> range_t list \<Rightarrow> bool" where
  "ranges_for L rs \<longleftrightarrow> distinct (map lo rs) \<and> set rs = payload ` ran L"

lemma payload_simps [simp]: "lo (payload x) = fst x" "hi (payload x) = fst x + snd x - 1"
  by (simp_all add: payload_def split: prod.split)

lemma inj_payload: "inj payload"
  by (rule injI) (auto simp: payload_def)

lemma to_size_request [simp]: "0 < n \<Longrightarrow> n \<le> MAX_REQUEST \<Longrightarrow> to_size n = n"
  by (simp add: to_size_def MAX_REQUEST_def)

lemma to_int_request [simp]: "0 < n \<Longrightarrow> n \<le> MAX_REQUEST \<Longrightarrow> to_int n = n"
  by (rule to_int_small) (simp_all add: MAX_REQUEST_def)

section \<open>The arrays of the trace\<close>

lemma set_block_ok:
  assumes "arrays ids tr" "0 \<le> k" "k < ids"
  obtains tr' where "set_block k p tr = Some tr'" "arrays ids tr'" "ops tr' = ops tr" "num_ops tr' = num_ops tr"
    "\<And>j. get_block j tr' = (if j = k then Some p else get_block j tr)" "\<And>j. get_block_size j tr' = get_block_size j tr"
  using assms
  by (intro that [of "tr\<lparr>blocks := (blocks tr)[nat k := Some p]\<rparr>"])
     (auto simp: set_block_def arrays_def get_block_def get_block_size_def nat_eq_iff)

lemma remember_ok:
  assumes "arrays ids tr" "0 \<le> k" "k < ids"
  obtains tr' where "remember k p n tr = Some tr'" "arrays ids tr'" "ops tr' = ops tr" "num_ops tr' = num_ops tr"
    "\<And>j. get_block j tr' = (if j = k then Some p else get_block j tr)"
    "\<And>j. get_block_size j tr' = (if j = k then Some (to_size n) else get_block_size j tr)"
proof -
  obtain tr1 where 1: "set_block k p tr = Some tr1" "arrays ids tr1" "ops tr1 = ops tr" "num_ops tr1 = num_ops tr"
      "\<And>j. get_block j tr1 = (if j = k then Some p else get_block j tr)" "\<And>j. get_block_size j tr1 = get_block_size j tr"
    using set_block_ok [OF assms, of p] by blast
  let ?tr = "tr1\<lparr>block_sizes := (block_sizes tr1)[nat k := Some (to_size n)]\<rparr>"
  have "remember k p n tr = Some ?tr" using 1(1,2) assms(2,3) by (simp add: remember_def set_block_size_def arrays_def)
  moreover have "arrays ids ?tr" using 1(2) by (simp add: arrays_def)
  moreover have "get_block j ?tr = (if j = k then Some p else get_block j tr)" for j
    unfolding 1(5) [of j, symmetric] by (simp add: get_block_def)
  moreover have "get_block_size j ?tr = (if j = k then Some (to_size n) else get_block_size j tr)" for j
    using 1(2) 1(6) [of j] assms(2,3) by (auto simp: get_block_size_def arrays_def nat_eq_iff)
  ultimately show thesis using that 1(3,4) by simp
qed

lemma holdingD:
  assumes "holding L A tr" "L k = Some (p, n)"
  obtains s where "(p, s) \<in> A" "n + 8 \<le> s" "0 < n" "n \<le> MAX_REQUEST" "get_block k tr = Some p"
  using assms unfolding holding_def by blast

lemma holding_mono: "holding L A tr \<Longrightarrow> A \<subseteq> B \<Longrightarrow> holding L B tr"
  unfolding holding_def by blast

lemma holding_set:
  assumes "holding (L(k := None)) A tr" "(p, s) \<in> A" "n + 8 \<le> s" "0 < n" "n \<le> MAX_REQUEST" "\<And>j m. L j \<noteq> Some (p, m)"
    "\<And>j. get_block j tr' = (if j = k then Some p else get_block j tr)"
  shows "holding (L(k \<mapsto> (p, n))) A tr'"
  unfolding holding_def
proof (intro conjI allI impI)
  fix j q m assume j: "(L(k \<mapsto> (p, n))) j = Some (q, m)"
  have "get_block j tr' = Some q \<and> 0 < m \<and> m \<le> MAX_REQUEST \<and> (\<exists>s. (q, s) \<in> A \<and> m + 8 \<le> s)"
  proof (cases "j = k")
    case False
    then have "(L(k := None)) j = Some (q, m)" using j by simp
    then show ?thesis using assms(1,7) False unfolding holding_def by metis
  qed (use j assms in auto)
  then show "get_block j tr' = Some q" "0 < m" "m \<le> MAX_REQUEST" "\<exists>s. (q, s) \<in> A \<and> m + 8 \<le> s" by blast+
next
  fix i j q m m' assume ij: "(L(k \<mapsto> (p, n))) i = Some (q, m)" "(L(k \<mapsto> (p, n))) j = Some (q, m')"
  show "i = j"
  proof (cases "i = k \<or> j = k")
    case True
    then show ?thesis using ij assms(6) by (auto split: if_splits)
  next
    case False
    then show ?thesis using ij assms(1) unfolding holding_def by (metis fun_upd_other)
  qed
qed

lemma holding_drop:
  assumes "holding L A tr" "L k = Some (p, n)"
  shows "holding (L(k := None)) (A - {(p, s)}) tr"
proof -
  have "q \<noteq> p" if "L j = Some (q, m)" "j \<noteq> k" for j q m
    using that assms unfolding holding_def by metis
  then show ?thesis using assms unfolding holding_def by (auto split: if_splits)
qed

lemma sized_set: "sized (L(k := None)) tr \<Longrightarrow> (\<And>j. get_block_size j tr' = (if j = k then Some n else get_block_size j tr)) \<Longrightarrow>
    sized (L(k \<mapsto> (p, n))) tr'"
  by (auto simp: sized_def split: if_splits)

lemma sized_drop: "sized L tr \<Longrightarrow> sized (L(k := None)) tr"
  by (auto simp: sized_def split: if_splits)

section \<open>The range list\<close>

lemma overlapped_None:
  "overlapped l h rs = None \<longleftrightarrow> (\<forall>r\<in>set rs. \<not> (lo r \<le> l \<and> l \<le> hi r \<or> lo r \<le> h \<and> h \<le> hi r))"
  by (induction l h rs rule: overlapped.induct) auto

lemma unmapped_page_iff:
  "unmapped_page pm l sz i \<longleftrightarrow> (\<exists>k. i + 4096 * int k < sz \<and> \<not> pagemap_is_mapped (l + (i + 4096 * int k)) pm)"
proof (induction pm l sz i rule: unmapped_page.induct)
  case (1 pm l sz i)
  show ?case
  proof (cases "i < sz")
    case True
    have "(\<exists>k. i + 4096 * int k < sz \<and> \<not> pagemap_is_mapped (l + (i + 4096 * int k)) pm) \<longleftrightarrow>
      \<not> pagemap_is_mapped (l + i) pm \<or> (\<exists>k. (i + 4096) + 4096 * int k < sz \<and> \<not> pagemap_is_mapped (l + ((i + 4096) + 4096 * int k)) pm)"
      (is "?L \<longleftrightarrow> ?R")
    proof
      assume ?L
      then obtain k where k: "i + 4096 * int k < sz" "\<not> pagemap_is_mapped (l + (i + 4096 * int k)) pm" by blast
      show ?R
      proof (cases k)
        case 0
        then show ?thesis using k by simp
      next
        case (Suc k')
        then show ?thesis using k by (intro disjI2 exI [of _ k']) (simp add: algebra_simps)
      qed
    next
      assume ?R
      then show ?L
      proof
        assume "\<not> pagemap_is_mapped (l + i) pm"
        then show ?L using True by (intro exI [of _ 0]) simp
      next
        assume "\<exists>k. (i + 4096) + 4096 * int k < sz \<and> \<not> pagemap_is_mapped (l + ((i + 4096) + 4096 * int k)) pm"
        then obtain k where "(i + 4096) + 4096 * int k < sz" "\<not> pagemap_is_mapped (l + ((i + 4096) + 4096 * int k)) pm" by blast
        then show ?L by (intro exI [of _ "Suc k"]) (simp add: algebra_simps)
      qed
    qed
    then show ?thesis
      using "1.IH" [OF True] True by (subst unmapped_page.simps) (simp add: mem_pagesize_def APAGE_SIZE_def)
  next
    case False
    then have "\<not> i + 4096 * int k < sz" for k by simp
    then show ?thesis using False by (subst unmapped_page.simps) simp
  qed
qed

lemma add_range_ok:
  assumes "0 < n" "16 dvd p" "\<And>x. p \<le> x \<Longrightarrow> x < p + n \<Longrightarrow> pagemap_is_mapped x (table (lib (heap d)))"
    "\<And>r. r \<in> set (ranges d) \<Longrightarrow> p + n \<le> lo r \<or> hi r < p"
  shows "add_range p n tn i d = Some (True, d\<lparr>ranges := payload (p, n) # ranges d\<rparr>)"
proof -
  have "\<not> unmapped_page (table (lib (heap d))) p n 0"
    unfolding unmapped_page_iff using assms(3) by auto
  moreover have "IS_ALIGNED p" using assms(2) by (simp add: IS_ALIGNED_def ALIGNMENT_def)
  moreover have "overlapped p (p + n - 1) (ranges d) = None"
    unfolding overlapped_None using assms(1,4) by fastforce
  moreover have "pagemap_is_mapped (p + n - 1) (table (lib (heap d)))" using assms(1,3) by simp
  ultimately show ?thesis using assms(1) by (simp add: add_range_def payload_def Let_def)
qed

lemma remove_range_set:
  "distinct (map lo rs) \<Longrightarrow> r \<in> set rs \<Longrightarrow> set (remove_range rs (lo r)) = set rs - {r} \<and> distinct (map lo (remove_range rs (lo r)))"
proof (induction rs)
  case (Cons a rs)
  have sub: "set (remove_range rs l) \<subseteq> set rs" for l by (induction rs) auto
  show ?case
  proof (cases "lo a = lo r")
    case True
    then have "a = r" using Cons.prems by (auto simp: image_iff)
    then show ?thesis using Cons.prems by auto
  next
    case False
    then show ?thesis using Cons sub [of "lo r"] by auto
  qed
qed simp

lemma ranges_for_elem:
  assumes "ranges_for L rs" "r \<in> set rs"
  obtains j q m where "L j = Some (q, m)" "r = payload (q, m)"
proof -
  obtain x where x: "x \<in> ran L" "r = payload x" using assms by (auto simp: ranges_for_def)
  then obtain j where "L j = Some x" by (auto simp: ran_def)
  then show thesis using that x(2) by (cases x) auto
qed

lemma ranges_for_drop:
  assumes "ranges_for L rs" "holding L A tr" "L k = Some (p, n)"
  shows "ranges_for (L(k := None)) (remove_range rs p)"
proof -
  have "(p, n) \<in> ran L" using assms(3) by (auto simp: ran_def)
  then have "payload (p, n) \<in> set rs" using assms(1) by (auto simp: ranges_for_def)
  then have "set (remove_range rs p) = set rs - {payload (p, n)}" "distinct (map lo (remove_range rs p))"
    using remove_range_set [of rs "payload (p, n)"] assms(1) by (simp_all add: ranges_for_def)
  moreover have "ran (L(k := None)) = ran L - {(p, n)}"
  proof -
    have k: "j = k" if "L j = Some (p, n)" for j
      using that assms(2,3) unfolding holding_def by metis
    show ?thesis
    proof (rule set_eqI)
      fix x
      have "x \<in> ran (L(k := None)) \<longleftrightarrow> (\<exists>j. j \<noteq> k \<and> L j = Some x)"
        unfolding ran_def fun_upd_apply mem_Collect_eq by (rule ex_cong1) simp
      also have "\<dots> \<longleftrightarrow> (\<exists>j. L j = Some x) \<and> x \<noteq> (p, n)" using k assms(3) by (metis option.inject)
      finally show "x \<in> ran (L(k := None)) \<longleftrightarrow> x \<in> ran L - {(p, n)}" by (simp add: ran_def)
    qed
  qed
  ultimately show ?thesis
    using assms(1) image_set_diff [OF inj_payload, of "ran L" "{(p, n)}"] by (simp add: ranges_for_def)
qed

lemma ranges_for_set:
  assumes "ranges_for (L(k := None)) rs" "\<And>j m. (L(k := None)) j \<noteq> Some (p, m)"
  shows "ranges_for (L(k \<mapsto> (p, n))) (payload (p, n) # rs)"
proof -
  have "ran (L(k \<mapsto> (p, n))) = insert (p, n) (ran (L(k := None)))"
    by (auto simp: ran_def split: if_splits)
  moreover have "p \<notin> lo ` set rs"
  proof
    assume "p \<in> lo ` set rs"
    then obtain m where "(p, m) \<in> ran (L(k := None))" using assms(1) by (force simp: ranges_for_def)
    then show False using assms(2) by (auto simp: ran_def split: if_splits)
  qed
  ultimately show ?thesis using assms(1) by (auto simp: ranges_for_def)
qed

section \<open>Writing the payload\<close>

lemma owned_apart:
  assumes "mm_owned A st" "(b, s) \<in> A" "(c, t) \<in> A"
  shows "(b, s) = (c, t) \<or> b + s \<le> c \<or> c + t \<le> b"
  using mm_alloc.apart [OF assms] .

lemma owned_block:
  assumes "mm_owned A st" "(b, s) \<in> A"
  shows "16 dvd b" "0 < b" "32 \<le> s" "b \<le> x \<Longrightarrow> x < b + s \<Longrightarrow> pagemap_is_mapped x (table (lib st))"
proof -
  obtain H where H: "mm_inv H st" "allocated H = A" using assms(1) by (auto simp: mm_owned_def)
  then have "(b, s, True) \<in> Heap_Layout.blocks H" using assms(2) by (auto simp: allocated_def)
  then show "16 dvd b" "0 < b" "32 \<le> s" using blocks_bounds [OF mm_inv_layout [OF H(1)]] by blast+
  show "b \<le> x \<Longrightarrow> x < b + s \<Longrightarrow> pagemap_is_mapped x (table (lib st))"
    using payload_mapped [OF H(1)] assms(2) H(2) by auto
qed

definition same_pages :: "mm \<Rightarrow> mm \<Rightarrow> bool" where
  "same_pages st st' \<longleftrightarrow> meta st' = meta st \<and> table (lib st') = table (lib st)"

lemma PUT_same_pages: "PUT p v st = Some st' \<Longrightarrow> same_pages st st'"
  by (auto simp: PUT_def same_pages_def meta_def set_cells_def split: if_splits)

lemma put_byte_ok:
  assumes own: "mm_owned A st" and b: "(b, s) \<in> A" and p: "b \<le> p" "p < b + s - 8"
  shows "\<exists>st'. put_byte p v st = Some st' \<and> mm_owned A st' \<and> same_pages st st'"
proof -
  define a where "a = p - p mod 4"
  have "4 dvd b" using owned_block(1) [OF own b] by presburger
  then have a: "4 dvd a" "b \<le> a" "a < b + s - 8" using p unfolding a_def by presburger+
  have put: "\<exists>st'. PUT a w st = Some st' \<and> mm_owned A st' \<and> same_pages st st'" for w
    using mm_alloc.put [OF own b a, of w] PUT_same_pages by blast
  have "GET a st \<noteq> None" using put [of 0] by (auto simp: GET_def PUT_def split: if_splits)
  then show ?thesis using put by (auto simp: put_byte_def Let_def a_def [symmetric])
qed

lemma memset_ok:
  assumes "mm_owned A st" "(b, s) \<in> A" "b \<le> p" "p + int n \<le> b + s - 8"
  shows "\<exists>st'. memset p v n st = Some st' \<and> mm_owned A st' \<and> same_pages st st'"
  using assms
proof (induction n arbitrary: p st)
  case 0
  then show ?case by (simp add: same_pages_def)
next
  case (Suc n)
  then obtain st1 where st1: "put_byte p v st = Some st1" "mm_owned A st1" "same_pages st st1"
    using put_byte_ok [of A st b s p v] by auto
  then obtain st' where "memset (p + 1) v n st1 = Some st'" "mm_owned A st'" "same_pages st1 st'"
    using Suc.IH [of st1 "p + 1"] Suc.prems by auto
  then show ?case using st1 by (simp add: same_pages_def)
qed

section \<open>Running a trace\<close>

definition running :: "int \<Rightarrow> int \<Rightarrow> traceop_t list \<Rightarrow> live \<Rightarrow> (int \<times> int) set \<Rightarrow> trace_t \<Rightarrow> mm \<Rightarrow> bool" where
  "running B ids rs L A tr st \<longleftrightarrow> trace_ok ids (dom L) rs \<and> mm_owned A st \<and> holding L A tr \<and> arrays ids tr \<and> room_for B rs st"

lemma running_holding: "running B ids rs L A tr st \<Longrightarrow> holding L A tr"
  by (simp add: running_def)

lemma running_arrays: "running B ids rs L A tr st \<Longrightarrow> arrays ids tr"
  by (simp add: running_def)

lemma trace_pages_pos: "trace_ok ids live rs \<Longrightarrow> 0 \<le> trace_pages rs"
proof (induction rs arbitrary: live)
  case (Cons r rs)
  have "0 \<le> op_pages r"
    using Cons.prems pages_for_bounds(1) [of "op_size r"] by (auto simp: op_pages_def split: op_type.splits)
  moreover have "0 \<le> trace_pages rs" using Cons by (auto split: op_type.splits)
  ultimately show ?case by (simp add: trace_pages_def)
qed (simp add: trace_pages_def)

lemma running_tail: "running B ids (r # rs) L A tr st \<Longrightarrow> 0 \<le> trace_pages rs \<and> 0 \<le> op_index r \<and> op_index r < ids"
  by (auto simp: running_def intro: trace_pages_pos split: op_type.splits)

text \<open>What a request of the trace gets, and what it keeps.\<close>

lemma running_request:
  assumes os: "os_ok mmap" and run: "running B ids (r # rs) L A tr st" and r: "op_type r \<noteq> FREE"
  shows "mm_malloc mmap (op_size r) st = Some (Inl ''mmap failed'') \<or>
    (\<exists>p s st'. mm_malloc mmap (op_size r) st = Some (Inr (p, st')) \<and> p \<noteq> 0 \<and> mm_owned (insert (p, s) A) st' \<and>
       op_size r + 8 \<le> s \<and> 16 dvd p \<and> (\<forall>j m. L j \<noteq> Some (p, m)) \<and>
       (\<forall>j q m. L j = Some (q, m) \<longrightarrow> p + op_size r \<le> q \<or> q + m \<le> p) \<and> room_for B rs st')"
proof -
  have n: "0 < op_size r" "op_size r \<le> MAX_REQUEST" using run r by (auto simp: running_def split: op_type.splits)
  note pb = pages_for_bounds [OF n]
  have tp: "trace_pages (r # rs) = pages_for (op_size r) + trace_pages rs" using r by (simp add: trace_pages_def op_pages_def)
  have room: "mem_room st"
    using run running_tail [OF run] pb(1) tp by (auto simp: running_def room_for_def mem_room_def)
  obtain H where H: "mm_inv H st" "settled H" "allocated H = A" using run by (auto simp: running_def mm_owned_def)
  consider "mm_malloc mmap (op_size r) st = Some (Inl ''mmap failed'')"
    | p st' where "mm_malloc mmap (op_size r) st = Some (Inr (p, st'))" "allocates H st (op_size r) p st'"
    using mm_malloc_ok [OF os H(1,2) room n] by blast
  then show ?thesis
  proof cases
    case 2
    then obtain s where s: "mm_owned (insert (p, s) A) st'" "op_size r + 8 \<le> s" "16 dvd p" "0 < p"
        "\<forall>(c, t)\<in>A. p + s \<le> c \<or> c + t \<le> p"
      using H(3) unfolding allocates_def mm_owned_def by auto
    have apart: "q \<noteq> p \<and> (p + op_size r \<le> q \<or> q + m \<le> p)" if j: "L j = Some (q, m)" for j q m
    proof -
      obtain t where "(q, t) \<in> A" "m + 8 \<le> t" "0 < m" using holdingD [OF running_holding [OF run] j] by metis
      moreover from this(1) have "p + s \<le> q \<or> q + t \<le> p" using s(5) by auto
      ultimately show ?thesis using s(2) n(1) by linarith
    qed
    moreover have "room_for B rs st'"
      using run mm_malloc_counters [OF 2(1) n] tp by (auto simp: running_def room_for_def)
    ultimately show ?thesis using 2(1) s by (intro disjI2 exI [of _ p] exI [of _ s] exI [of _ st']) auto
  qed simp
qed

lemma same_pages_room: "same_pages st st' \<Longrightarrow> room_for B rs st' \<longleftrightarrow> room_for B rs st"
  by (simp add: same_pages_def room_for_def meta_def)

lemma running_alloc:
  assumes run: "running B ids (r # rs) L A tr st" and r: "op_type r = ALLOC"
    and p: "mm_owned (insert (p, s) A) st'" "op_size r + 8 \<le> s" "\<forall>j m. L j \<noteq> Some (p, m)" "room_for B rs st'"
    and tr: "arrays ids tr'" "\<And>j. get_block j tr' = (if j = op_index r then Some p else get_block j tr)"
  shows "running B ids rs (L(op_index r \<mapsto> (p, op_size r))) (insert (p, s) A) tr' st'"
proof -
  have ok: "op_index r \<notin> dom L" "0 < op_size r" "op_size r \<le> MAX_REQUEST" "trace_ok ids (insert (op_index r) (dom L)) rs"
    "holding L A tr" using run r by (auto simp: running_def)
  have "L(op_index r := None) = L" using ok(1) by (auto simp: domIff)
  then have "holding (L(op_index r := None)) (insert (p, s) A) tr" using holding_mono [OF ok(5)] by auto
  from holding_set [OF this _ p(2) ok(2,3) _ tr(2)] p(3)
  show ?thesis using ok p(1,4) tr(1) by (simp add: running_def)
qed

lemma running_free:
  assumes run: "running B ids (r # rs) L A tr st" and r: "op_type r = FREE"
  obtains p n s st' where "L (op_index r) = Some (p, n)" "get_block (op_index r) tr = Some p"
    "mm_free p st = Some (Inr st')" "running B ids rs (L(op_index r := None)) (A - {(p, s)}) tr st'"
proof -
  obtain p n where p: "L (op_index r) = Some (p, n)" using run r by (auto simp: running_def)
  obtain s where s: "(p, s) \<in> A" "get_block (op_index r) tr = Some p"
    using holdingD [OF running_holding [OF run] p] by metis
  obtain st' where st': "mm_free p st = Some (Inr st')" "mm_owned (A - {(p, s)}) st'"
    using mm_alloc.free [of A st p s] run s(1) by (auto simp: running_def)
  have "room_for B rs st'" using run r mm_free_counters [OF st'(1)] by (auto simp: running_def room_for_def trace_pages_def op_pages_def)
  moreover have "trace_ok ids (dom (L(op_index r := None))) rs" using run r by (auto simp: running_def)
  ultimately show thesis
    using that [OF p s(2) st'(1)] st'(2) holding_drop [of L A tr "op_index r" p n s] run p by (auto simp: running_def)
qed

lemma running_realloc:
  assumes run: "running B ids (r # rs) L A tr st" and r: "op_type r = REALLOC"
    and p: "mm_owned (insert (p, s) A) st'" "op_size r + 8 \<le> s" "\<forall>j m. L j \<noteq> Some (p, m)" "room_for B rs st'"
    and tr: "arrays ids tr'" "\<And>j. get_block j tr' = (if j = op_index r then Some p else get_block j tr)"
    and q: "L (op_index r) = Some (q, n)"
  obtains t st'' where "mm_free q st' = Some (Inr st'')"
    "running B ids rs (L(op_index r \<mapsto> (p, op_size r))) (insert (p, s) A - {(q, t)}) tr' st''"
proof -
  have ok: "op_index r \<in> dom L" "0 < op_size r" "op_size r \<le> MAX_REQUEST" "trace_ok ids (dom L) rs" "holding L A tr"
    using run r by (auto simp: running_def)
  obtain t where t: "(q, t) \<in> A" using holdingD [OF running_holding [OF run] q] by metis
  obtain st'' where st'': "mm_free q st' = Some (Inr st'')" "mm_owned (insert (p, s) A - {(q, t)}) st''"
    using mm_alloc.free [OF p(1), of q t] t by auto
  have "q \<noteq> p" using p(3) q by auto
  have "holding L (insert (p, s) A) tr" using holding_mono [OF ok(5)] by auto
  from holding_drop [OF this q, of t] have h: "holding (L(op_index r := None)) (insert (p, s) A - {(q, t)}) tr" .
  have "holding (L(op_index r \<mapsto> (p, op_size r))) (insert (p, s) A - {(q, t)}) tr'"
    using holding_set [OF h _ p(2) ok(2,3) _ tr(2)] p(3) \<open>q \<noteq> p\<close> by simp
  moreover have "room_for B rs st''" using p(4) mm_free_counters [OF st''(1)] by (auto simp: room_for_def)
  moreover have "insert (op_index r) (dom L) = dom L" using ok(1) by blast
  ultimately show thesis using that [OF st''(1)] st''(2) ok(4) tr(1) by (simp add: running_def)
qed

lemma running_old:
  "running B ids (r # rs) L A tr st \<Longrightarrow> op_type r = REALLOC \<Longrightarrow>
   \<exists>q n. L (op_index r) = Some (q, n) \<and> get_block (op_index r) tr = Some q"
  by (auto simp: running_def holding_def)

section \<open>The checks pass\<close>

fun live_step :: "traceop_t \<Rightarrow> int set \<Rightarrow> int set" where
  "live_step r live = (if op_type r = FREE then live - {op_index r} else insert (op_index r) live)"

definition valid_inv :: "int \<Rightarrow> int \<Rightarrow> traceop_t list \<Rightarrow> live \<Rightarrow> trace_t \<Rightarrow> driver \<Rightarrow> bool" where
  "valid_inv B ids rs L tr d \<longleftrightarrow> (\<exists>A. running B ids rs L A tr (heap d)) \<and> ranges_for L (ranges d)"

definition same_report :: "trace_t \<Rightarrow> driver \<Rightarrow> trace_t \<Rightarrow> driver \<Rightarrow> bool" where
  "same_report tr d tr' d' \<longleftrightarrow> ops tr' = ops tr \<and> num_ops tr' = num_ops tr \<and> errors d' = errors d \<and> reports d' = reports d"

text \<open>The new block is entered into the list, and filled.\<close>

lemma check_block:
  assumes own: "mm_owned (insert (p, s) A) (heap d)" and n: "0 < n" "n \<le> MAX_REQUEST" "n + 8 \<le> s"
    and rs: "ranges_for M (ranges d)" "\<forall>j q m. M j = Some (q, m) \<longrightarrow> p + n \<le> q \<or> q + m \<le> p"
  obtains st where "add_range p n tn i d = Some (True, d\<lparr>ranges := payload (p, n) # ranges d\<rparr>)"
    "memset p v (nat (to_size n)) (heap d) = Some st" "mm_owned (insert (p, s) A) st" "same_pages (heap d) st"
proof -
  note b = owned_block [OF own, of p s, OF insertI1]
  have "p + n \<le> lo r \<or> hi r < p" if r: "r \<in> set (ranges d)" for r
  proof -
    obtain j q m where "M j = Some (q, m)" "r = payload (q, m)"
      using ranges_for_elem [OF rs(1) r] by metis
    then show ?thesis using rs(2) by fastforce
  qed
  then have "add_range p n tn i d = Some (True, d\<lparr>ranges := payload (p, n) # ranges d\<rparr>)"
    using b n by (intro add_range_ok) auto
  moreover obtain st where "memset p v (nat (to_size n)) (heap d) = Some st" "mm_owned (insert (p, s) A) st" "same_pages (heap d) st"
    using memset_ok [OF own, of p s p "nat n" v] n by auto
  ultimately show thesis by (rule that)
qed

lemma valid_alloc_ok:
  assumes os: "os_ok mmap" and inv: "valid_inv B ids (r # rs) L tr d" and r: "op_type r = ALLOC"
  shows "valid_alloc mmap tn i r tr d = Some (Inl ''mmap failed'') \<or>
    (\<exists>L' tr' d'. valid_alloc mmap tn i r tr d = Some (Inr (True, tr', d')) \<and> valid_inv B ids rs L' tr' d' \<and>
       dom L' = live_step r (dom L) \<and> same_report tr d tr' d')"
proof -
  let ?k = "op_index r" and ?n = "op_size r"
  obtain A where run: "running B ids (r # rs) L A tr (heap d)" and rng: "ranges_for L (ranges d)"
    using inv by (auto simp: valid_inv_def)
  have n: "0 < ?n" "?n \<le> MAX_REQUEST" and k: "?k \<notin> dom L" using run r by (auto simp: running_def)
  consider "mm_malloc mmap ?n (heap d) = Some (Inl ''mmap failed'')"
    | p s st1 where "mm_malloc mmap ?n (heap d) = Some (Inr (p, st1))" "p \<noteq> 0" "mm_owned (insert (p, s) A) st1"
        "?n + 8 \<le> s" "16 dvd p" "\<forall>j m. L j \<noteq> Some (p, m)" "\<forall>j q m. L j = Some (q, m) \<longrightarrow> p + ?n \<le> q \<or> q + m \<le> p"
        "room_for B rs st1"
    using running_request [OF os run] r by force
  then show ?thesis
  proof cases
    case 1
    then show ?thesis using n by (simp add: valid_alloc_def)
  next
    case 2
    let ?d = "d\<lparr>heap := st1\<rparr>"
    obtain st2 where c: "add_range p ?n tn i ?d = Some (True, ?d\<lparr>ranges := payload (p, ?n) # ranges d\<rparr>)"
        "memset p (?k AND 255) (nat (to_size ?n)) st1 = Some st2" "mm_owned (insert (p, s) A) st2" "same_pages st1 st2"
      using check_block [of p s A ?d ?n L tn i "?k AND 255"] 2(3,4,7) n rng by auto
    obtain tr' where tr': "remember ?k p ?n tr = Some tr'" "arrays ids tr'" "ops tr' = ops tr" "num_ops tr' = num_ops tr"
        "\<And>j. get_block j tr' = (if j = ?k then Some p else get_block j tr)"
      using remember_ok [OF running_arrays [OF run], of ?k p ?n] running_tail [OF run] by metis
    have "running B ids rs (L(?k \<mapsto> (p, ?n))) (insert (p, s) A) tr' st2"
      using running_alloc [OF run r c(3) 2(4,6) _ tr'(2,5)] 2(8) same_pages_room [OF c(4)] by simp
    moreover have "ranges_for (L(?k \<mapsto> (p, ?n))) (payload (p, ?n) # ranges d)"
      using ranges_for_set [of L ?k "ranges d" p ?n] rng 2(6) k by (auto simp: fun_upd_idem domIff)
    ultimately have "valid_inv B ids rs (L(?k \<mapsto> (p, ?n))) tr' (d\<lparr>heap := st2, ranges := payload (p, ?n) # ranges d\<rparr>)"
      by (auto simp: valid_inv_def)
    moreover have "valid_alloc mmap tn i r tr d = Some (Inr (True, tr', d\<lparr>heap := st2, ranges := payload (p, ?n) # ranges d\<rparr>))"
      using 2(1,2) c(1,2) tr'(1) n by (simp add: valid_alloc_def Let_def)
    ultimately show ?thesis
      using r tr'(3,4) by (intro disjI2 exI [of _ "L(?k \<mapsto> (p, ?n))"] exI) (auto simp: same_report_def)
  qed
qed

lemma valid_realloc_ok:
  assumes os: "os_ok mmap" and inv: "valid_inv B ids (r # rs) L tr d" and r: "op_type r = REALLOC"
  shows "valid_realloc mmap tn i r tr d = Some (Inl ''mmap failed'') \<or>
    (\<exists>L' tr' d'. valid_realloc mmap tn i r tr d = Some (Inr (True, tr', d')) \<and> valid_inv B ids rs L' tr' d' \<and>
       dom L' = live_step r (dom L) \<and> same_report tr d tr' d')"
proof -
  let ?k = "op_index r" and ?n = "op_size r"
  obtain A where run: "running B ids (r # rs) L A tr (heap d)" and rng: "ranges_for L (ranges d)"
    using inv by (auto simp: valid_inv_def)
  have n: "0 < ?n" "?n \<le> MAX_REQUEST" and k: "?k \<in> dom L" using run r by (auto simp: running_def)
  obtain q m where q: "L ?k = Some (q, m)" "get_block ?k tr = Some q" using running_old [OF run r] by blast
  consider "mm_malloc mmap ?n (heap d) = Some (Inl ''mmap failed'')"
    | p s st1 where "mm_malloc mmap ?n (heap d) = Some (Inr (p, st1))" "p \<noteq> 0" "mm_owned (insert (p, s) A) st1"
        "?n + 8 \<le> s" "16 dvd p" "\<forall>j m. L j \<noteq> Some (p, m)" "\<forall>j q m. L j = Some (q, m) \<longrightarrow> p + ?n \<le> q \<or> q + m \<le> p"
        "room_for B rs st1"
    using running_request [OF os run] r by force
  then show ?thesis
  proof cases
    case 1
    then show ?thesis using n q by (simp add: valid_realloc_def)
  next
    case 2
    let ?M = "L(?k := None)"
    let ?d = "d\<lparr>heap := st1, ranges := remove_range (ranges d) q\<rparr>"
    have rng': "ranges_for ?M (remove_range (ranges d) q)"
      using ranges_for_drop [OF rng running_holding [OF run] q(1)] .
    have apart: "\<forall>j q m. ?M j = Some (q, m) \<longrightarrow> p + ?n \<le> q \<or> q + m \<le> p" "\<And>j m. ?M j \<noteq> Some (p, m)"
      using 2(6,7) by (auto split: if_splits)
    obtain st2 where c: "add_range p ?n tn i ?d = Some (True, ?d\<lparr>ranges := payload (p, ?n) # remove_range (ranges d) q\<rparr>)"
        "memset p (?k AND 255) (nat (to_size ?n)) st1 = Some st2" "mm_owned (insert (p, s) A) st2" "same_pages st1 st2"
      using check_block [of p s A ?d ?n ?M tn i "?k AND 255"] 2(3,4) n rng' apart(1) by auto
    obtain tr' where tr': "remember ?k p ?n tr = Some tr'" "arrays ids tr'" "ops tr' = ops tr" "num_ops tr' = num_ops tr"
        "\<And>j. get_block j tr' = (if j = ?k then Some p else get_block j tr)"
      using remember_ok [OF running_arrays [OF run], of ?k p ?n] running_tail [OF run] by metis
    have room: "room_for B rs st2" using 2(8) same_pages_room [OF c(4)] by simp
    obtain t st3 where f: "mm_free q st2 = Some (Inr st3)"
        "running B ids rs (L(?k \<mapsto> (p, ?n))) (insert (p, s) A - {(q, t)}) tr' st3"
      by (rule running_realloc [OF run r c(3) 2(4,6) room tr'(2,5) q(1)])
    have "ranges_for (L(?k \<mapsto> (p, ?n))) (payload (p, ?n) # remove_range (ranges d) q)"
      using ranges_for_set [OF rng' apart(2), where n = ?n] .
    then have "valid_inv B ids rs (L(?k \<mapsto> (p, ?n))) tr' (d\<lparr>heap := st3, ranges := payload (p, ?n) # remove_range (ranges d) q\<rparr>)"
      using f(2) by (auto simp: valid_inv_def)
    moreover have "valid_realloc mmap tn i r tr d =
        Some (Inr (True, tr', d\<lparr>heap := st3, ranges := payload (p, ?n) # remove_range (ranges d) q\<rparr>))"
      using 2(1,2) c(1,2) tr'(1) n q(2) f(1) by (simp add: valid_realloc_def Let_def)
    ultimately show ?thesis
      using r tr'(3,4) by (intro disjI2 exI [of _ "L(?k \<mapsto> (p, ?n))"] exI) (auto simp: same_report_def)
  qed
qed

lemma valid_free_ok:
  assumes inv: "valid_inv B ids (r # rs) L tr d" and r: "op_type r = FREE"
  shows "\<exists>L' d'. valid_free r tr d = Some (Inr (True, tr, d')) \<and> valid_inv B ids rs L' tr d' \<and>
       dom L' = live_step r (dom L) \<and> same_report tr d tr d'"
proof -
  let ?k = "op_index r"
  obtain A where run: "running B ids (r # rs) L A tr (heap d)" and rng: "ranges_for L (ranges d)"
    using inv by (auto simp: valid_inv_def)
  obtain p n s st where f: "L ?k = Some (p, n)" "get_block ?k tr = Some p" "mm_free p (heap d) = Some (Inr st)"
      "running B ids rs (L(?k := None)) (A - {(p, s)}) tr st"
    by (rule running_free [OF run r])
  have "valid_inv B ids rs (L(?k := None)) tr (d\<lparr>ranges := remove_range (ranges d) p, heap := st\<rparr>)"
    using f(4) ranges_for_drop [OF rng running_holding [OF run] f(1)] by (auto simp: valid_inv_def)
  moreover have "valid_free r tr d = Some (Inr (True, tr, d\<lparr>ranges := remove_range (ranges d) p, heap := st\<rparr>))"
    using f by (simp add: valid_free_def)
  ultimately show ?thesis using r by (intro exI [of _ "L(?k := None)"] exI) (auto simp: same_report_def)
qed

lemma valid_op_ok:
  assumes os: "os_ok mmap" and inv: "valid_inv B ids (r # rs) L tr d"
  shows "valid_op mmap tn i r tr d = Some (Inl ''mmap failed'') \<or>
    (\<exists>L' tr' d'. valid_op mmap tn i r tr d = Some (Inr (True, tr', d')) \<and> valid_inv B ids rs L' tr' d' \<and>
       dom L' = live_step r (dom L) \<and> same_report tr d tr' d')"
  using valid_alloc_ok [OF os inv] valid_realloc_ok [OF os inv] valid_free_ok [OF inv]
  unfolding valid_op_def by (cases "op_type r") (simp_all del: live_step.simps, blast)

lemma valid_loop_ok:
  assumes os: "os_ok mmap"
  shows "valid_inv B ids rs L tr d \<Longrightarrow>
    valid_loop mmap tn i rs tr d = Some (Inl ''mmap failed'') \<or>
    (\<exists>L' tr' d'. valid_loop mmap tn i rs tr d = Some (Inr (True, tr', d')) \<and> valid_inv B ids [] L' tr' d' \<and>
       dom L' = fold live_step rs (dom L) \<and> same_report tr d tr' d')"
proof (induction rs arbitrary: i L tr d)
  case Nil
  then show ?case by (intro disjI2 exI [of _ L]) (simp add: same_report_def)
next
  case (Cons r rs)
  consider "valid_op mmap tn i r tr d = Some (Inl ''mmap failed'')"
    | L' tr' d' where "valid_op mmap tn i r tr d = Some (Inr (True, tr', d'))" "valid_inv B ids rs L' tr' d'"
        "dom L' = live_step r (dom L)" "same_report tr d tr' d'"
    using valid_op_ok [OF os Cons.prems, of tn i] by (elim disjE exE conjE) blast+
  then show ?case
  proof cases
    case 2
    then show ?thesis using Cons.IH [OF 2(2), of "i + 1"] by (auto simp: same_report_def simp del: live_step.simps)
  qed simp
qed

section \<open>The correctness run\<close>

definition fits :: "int \<Rightarrow> traceop_t list \<Rightarrow> bool" where
  "fits B rs \<longleftrightarrow> trace_pages rs \<le> B \<and> B + 2 ^ 19 \<le> INT_MAX \<and> int (length rs) < INT_MAX"

definition fresh :: "mm \<Rightarrow> bool" where
  "fresh st \<longleftrightarrow> memlib_inv (lib st) \<and> meta st = (0, 0)"

lemma mm_init_owned: "memlib_inv (lib st) \<Longrightarrow> page_count (lib st) = 0 \<Longrightarrow> mm_owned {} (mm_init st)"
proof -
  assume "memlib_inv (lib st)" "page_count (lib st) = 0"
  then have "heap_inv Map.empty (mm_init st)" using no_pages by (simp add: heap_inv_def layout_def mm_init_def)
  moreover have "links_ok (cells (mm_init st)) (free_list_ptr (mm_init st)) []" "free_blocks Map.empty = {}"
    by (simp_all add: links_ok_def mm_init_def free_blocks_def Heap_Layout.blocks_def)
  ultimately have "mm_inv Map.empty (mm_init st)" by (auto simp: mm_inv_def)
  then show ?thesis using mm0_inv(2,4) by (auto simp: mm_owned_def)
qed

lemma running_start:
  assumes "fresh st" "trace_ok ids {} rs" "arrays ids tr" "fits B rs"
  shows "running B ids rs Map.empty {} tr (mm_init st)"
  using assms mm_init_owned [of st]
  by (auto simp: running_def fresh_def holding_def fits_def room_for_def meta_def mm_init_def)

lemma owned_reset: "mm_owned A st \<Longrightarrow> \<exists>st'. reset_heap st = Some (Inr st') \<and> fresh st'"
proof -
  assume "mm_owned A st"
  then have "memlib_inv (lib st)" by (auto simp: mm_owned_def mm_inv_def heap_inv_def)
  then obtain l where "mem_reset (lib st) = Some (Inr l)" "memlib_inv l" "page_count l = 0" "activity_counter l = 0"
    using mem_reset_ok by blast
  then show ?thesis by (simp add: reset_heap_def fresh_def meta_def)
qed

lemma finite_live: "arrays ids tr \<Longrightarrow> holding L A tr \<Longrightarrow> finite (dom L)"
  by (rule finite_subset [of _ "{0..<ids}"])
     (auto simp: holding_def arrays_def get_block_def domIff split: if_splits)

text \<open>The ranges the driver remembers do not overlap, and are as many as the blocks held.\<close>

definition apart :: "range_t list \<Rightarrow> bool" where
  "apart rs \<longleftrightarrow> (\<forall>r\<in>set rs. \<forall>r'\<in>set rs. r = r' \<or> hi r < lo r' \<or> hi r' < lo r)"

lemma ranges_apart:
  assumes "mm_owned A st" "holding L A tr" "ranges_for L rs"
  shows "apart rs"
  unfolding apart_def
proof (intro ballI)
  fix r r' assume r: "r \<in> set rs" "r' \<in> set rs"
  obtain j q m where j: "L j = Some (q, m)" "r = payload (q, m)" using ranges_for_elem [OF assms(3) r(1)] by metis
  obtain k p n where k: "L k = Some (p, n)" "r' = payload (p, n)" using ranges_for_elem [OF assms(3) r(2)] by metis
  obtain s where s: "(q, s) \<in> A" "m + 8 \<le> s" "0 < m" using holdingD [OF assms(2) j(1)] by metis
  obtain t where t: "(p, t) \<in> A" "n + 8 \<le> t" "0 < n" using holdingD [OF assms(2) k(1)] by metis
  show "r = r' \<or> hi r < lo r' \<or> hi r' < lo r"
  proof (cases "q = p")
    case True
    then have "j = k" using assms(2) j(1) k(1) unfolding holding_def by metis
    then show ?thesis using j k by simp
  next
    case False
    then show ?thesis using owned_apart [OF assms(1) s(1) t(1)] j k s t by auto
  qed
qed

lemma ranges_length:
  assumes "holding L A tr" "ranges_for L rs"
  shows "length rs = card (dom L)"
proof -
  have "distinct rs" using assms(2) by (simp add: ranges_for_def distinct_map)
  then have "length rs = card (set rs)" by (rule distinct_card [symmetric])
  also have "\<dots> = card (ran L)"
    using assms(2) card_image [of payload "ran L"] inj_on_subset [OF inj_payload] by (simp add: ranges_for_def)
  also have "card (ran L) = card (dom L)"
  proof -
    have "inj_on (\<lambda>k. the (L k)) (dom L)"
    using assms(1) unfolding holding_def inj_on_def by (metis domD option.sel prod.collapse)
    moreover have "ran L = (\<lambda>k. the (L k)) ` dom L" by (force simp: ran_def)
    ultimately show ?thesis using card_image [of "\<lambda>k. the (L k)" "dom L"] by simp
  qed
  finally show ?thesis .
qed

lemma eval_mm_valid_ok:
  assumes os: "os_ok mmap" and f: "fresh (heap d)" "fits B (ops tr)" and tr: "trace_ok ids {} (ops tr)" "arrays ids tr"
  shows "eval_mm_valid mmap tr tn d = Some (Inl ''mmap failed'') \<or>
    (\<exists>tr' d'. eval_mm_valid mmap tr tn d = Some (Inr (True, tr', d')) \<and> same_report tr d tr' d' \<and> arrays ids tr' \<and>
       fresh (heap d') \<and> apart (ranges d') \<and> length (ranges d') = card (fold live_step (ops tr) {}))"
proof -
  let ?d = "(clear_ranges d)\<lparr>heap := mm_init (heap d)\<rparr>"
  have "running B ids (ops tr) Map.empty {} tr (mm_init (heap d))" using running_start [OF f(1) tr f(2)] .
  then have "valid_inv B ids (ops tr) Map.empty tr ?d"
    by (auto simp: valid_inv_def ranges_for_def clear_ranges_def)
  then consider "valid_loop mmap tn 0 (ops tr) tr ?d = Some (Inl ''mmap failed'')"
    | L' tr' d' where "valid_loop mmap tn 0 (ops tr) tr ?d = Some (Inr (True, tr', d'))" "valid_inv B ids [] L' tr' d'"
        "dom L' = fold live_step (ops tr) {}" "same_report tr ?d tr' d'"
    using valid_loop_ok [OF os, of B ids "ops tr" Map.empty tr ?d tn 0] by fastforce
  then show ?thesis
  proof cases
    case 1
    then show ?thesis by (simp add: eval_mm_valid_def clear_ranges_def)
  next
    case 2
    then obtain A where A: "running B ids [] L' A tr' (heap d')" "ranges_for L' (ranges d')" by (auto simp: valid_inv_def)
    then have own: "mm_owned A (heap d')" by (simp add: running_def)
    obtain st where st: "reset_heap (heap d') = Some (Inr st)" "fresh st" using owned_reset [OF own] by blast
    have "eval_mm_valid mmap tr tn d = Some (Inr (True, tr', d'\<lparr>heap := st\<rparr>))"
      using 2(1) st(1) by (simp add: eval_mm_valid_def clear_ranges_def Let_def)
    then show ?thesis
      using 2(3,4) st(2) ranges_apart [OF own running_holding [OF A(1)] A(2)] ranges_length [OF running_holding [OF A(1)] A(2)]
        running_arrays [OF A(1)] by (simp add: same_report_def clear_ranges_def)
  qed
qed

end
