(* ===== verification/Mdriver_Util.thy ===== *)
theory Mdriver_Util
  imports Mdriver_Valid
begin

text \<open>
  The space utilization of a trace: the bytes in use never exceed the heap, the driver's high water
  marks are those of the trace, and its instantaneous utilization is compared with the geometric mean.
\<close>

section \<open>The bytes in use fit into the heap\<close>

definition live_sum :: "live \<Rightarrow> int" where
  "live_sum L = (\<Sum>k\<in>dom L. snd (the (L k)))"

lemma live_sum_upd:
  "finite (dom L) \<Longrightarrow> live_sum (L(k \<mapsto> (p, n))) = live_sum (L(k := None)) + n"
  "finite (dom L) \<Longrightarrow> L k = Some (q, m) \<Longrightarrow> live_sum (L(k := None)) = live_sum L - m"
proof -
  assume f: "finite (dom L)"
  have d: "dom (L(k \<mapsto> (p, n))) = insert k (dom L - {k})" by auto
  have "(\<Sum>j\<in>dom L - {k}. snd (the ((L(k \<mapsto> (p, n))) j))) = (\<Sum>j\<in>dom L - {k}. snd (the ((L(k := None)) j)))"
    by (rule sum.cong) auto
  then show "live_sum (L(k \<mapsto> (p, n))) = live_sum (L(k := None)) + n"
    using f unfolding live_sum_def d by (simp add: sum.insert_remove)
  show "live_sum (L(k := None)) = live_sum L - m" if "L k = Some (q, m)"
  proof -
    have "(\<Sum>j\<in>dom L - {k}. snd (the ((L(k := None)) j))) = (\<Sum>j\<in>dom L - {k}. snd (the (L j)))"
      by (rule sum.cong) auto
    moreover have "k \<in> dom L" "snd (the (L k)) = m" using that by auto
    ultimately show ?thesis
      using f sum.remove [of "dom L" k "\<lambda>j. snd (the (L j))"] by (simp add: live_sum_def)
  qed
qed

lemma live_sum_pos: "holding L A tr \<Longrightarrow> 0 \<le> live_sum L"
proof -
  assume h: "holding L A tr"
  have "0 \<le> snd (the (L k))" if "k \<in> dom L" for k
  proof -
    obtain p n where "L k = Some (p, n)" using \<open>k \<in> dom L\<close> by auto
    then show ?thesis using holdingD [OF h] by fastforce
  qed
  then show ?thesis by (simp add: live_sum_def sum_nonneg)
qed

lemma live_sum_le:
  assumes own: "mm_owned A st" and h: "holding L A tr" and fin: "finite (dom L)"
  shows "live_sum L \<le> APAGE_SIZE * page_count (lib st)"
proof -
  define P I where "P = pagemap_pages (table (lib st))"
    and "I = (\<lambda>k. case the (L k) of (p, n) \<Rightarrow> {p..<p + n})"
  have inv: "memlib_inv (lib st)" using own by (auto simp: mm_owned_def mm_inv_def heap_inv_def)
  then have P: "finite P" "page_count (lib st) = int (card P)" by (simp_all add: memlib_inv_def P_def)
  have I: "int (card (I k)) = snd (the (L k)) \<and> finite (I k) \<and> I k \<subseteq> (\<Union>q\<in>P. {4096 * q..<4096 * q + 4096})" if k: "k \<in> dom L" for k
  proof -
    obtain p n where p: "L k = Some (p, n)" using k by auto
    obtain s where s: "(p, s) \<in> A" "n + 8 \<le> s" "0 < n" using holdingD [OF h p] by metis
    have "x div 4096 \<in> P" if "p \<le> x" "x < p + n" for x
    proof -
      have "pagemap_is_mapped x (table (lib st))" "0 \<le> x" using owned_block [OF own s(1)] s that by auto
      then show ?thesis by (auto simp: P_def pagemap_pages_def APAGE_SIZE_def)
    qed
    moreover have "4096 * (x div 4096) \<le> x \<and> x < 4096 * (x div 4096) + 4096" for x :: int by linarith
    ultimately have "I k \<subseteq> (\<Union>q\<in>P. {4096 * q..<4096 * q + 4096})" using p by (force simp: I_def)
    then show ?thesis using p s(3) by (simp add: I_def)
  qed
  have disj: "I j \<inter> I k = {}" if jk: "j \<in> dom L" "k \<in> dom L" "j \<noteq> k" for j k
  proof -
    obtain p n q m where p: "L j = Some (p, n)" "L k = Some (q, m)" using jk by auto
    obtain s where s: "(p, s) \<in> A" "n + 8 \<le> s" using holdingD [OF h p(1)] by metis
    obtain t where t: "(q, t) \<in> A" "m + 8 \<le> t" using holdingD [OF h p(2)] by metis
    have "p \<noteq> q" using h p jk(3) unfolding holding_def by metis
    then have "p + s \<le> q \<or> q + t \<le> p" using owned_apart [OF own s(1) t(1)] by auto
    then show ?thesis using p s t by (auto simp: I_def)
  qed
  have "live_sum L = (\<Sum>k\<in>dom L. int (card (I k)))" using I by (simp add: live_sum_def)
  also have "\<dots> = int (card (\<Union>k\<in>dom L. I k))"
    using card_UN_disjoint [of "dom L" I] fin I disj by simp
  also have "\<dots> \<le> int (card (\<Union>q\<in>P. {4096 * q..<4096 * q + 4096}))"
    using I P(1) by (intro of_nat_mono card_mono) auto
  also have "\<dots> \<le> int (\<Sum>q\<in>P. card {4096 * q..<4096 * q + 4096})"
    using card_UN_le [OF P(1)] by (intro of_nat_mono)
  also have "\<dots> = 4096 * page_count (lib st)" using P(2) by simp
  finally show ?thesis by (simp add: APAGE_SIZE_def)
qed

section \<open>The high water marks\<close>

text \<open>The bytes in use after each request: \<open>S\<close> maps an index to the size of its block.\<close>

fun totals :: "(int \<Rightarrow> int) \<Rightarrow> int \<Rightarrow> traceop_t list \<Rightarrow> int list" where
  "totals S t [] = []"
| "totals S t (r # rs) =
    (let n = (if op_type r = FREE then 0 else op_size r); t' = t + n - S (op_index r)
     in t' # totals (S(op_index r := n)) t' rs)"

text \<open>With the sizes of the heap, as the run of the trace gives them.\<close>

fun trail :: "mmap \<Rightarrow> traceop_t list \<Rightarrow> trace_t \<Rightarrow> mm \<Rightarrow> int \<Rightarrow> (int \<times> int) list" where
  "trail mmap [] tr st t = []"
| "trail mmap (r # rs) tr st t =
    (case util_op mmap r tr st t of
       Some (Inr (tr', st', t')) \<Rightarrow> (t', APAGE_SIZE * page_count (lib st')) # trail mmap rs tr' st' t'
     | _ \<Rightarrow> [])"

definition size_of :: "live \<Rightarrow> int \<Rightarrow> int" where
  "size_of L k = (case L k of None \<Rightarrow> 0 | Some (p, n) \<Rightarrow> n)"

lemma size_of_upd [simp]: "size_of (L(k \<mapsto> (p, n))) = (size_of L)(k := n)" "size_of (L(k := None)) = (size_of L)(k := 0)"
  by (auto simp: size_of_def)

definition util_inv :: "int \<Rightarrow> int \<Rightarrow> traceop_t list \<Rightarrow> live \<Rightarrow> trace_t \<Rightarrow> mm \<Rightarrow> bool" where
  "util_inv B ids rs L tr st \<longleftrightarrow> (\<exists>A. running B ids rs L A tr st) \<and> sized L tr \<and> APAGE_SIZE * B \<le> INT_MAX"

lemma util_inv_bounds:
  assumes "util_inv B ids rs L tr st"
  shows "0 \<le> live_sum L" "live_sum L \<le> APAGE_SIZE * page_count (lib st)" "APAGE_SIZE * page_count (lib st) \<le> INT_MAX"
    "to_size (live_sum L) = live_sum L" "finite (dom L)" "trace_ok ids (dom L) rs"
proof -
  obtain A where run: "running B ids rs L A tr st" and B: "APAGE_SIZE * B \<le> INT_MAX" using assms by (auto simp: util_inv_def)
  then have own: "mm_owned A st" and room: "room_for B rs st" and ok: "trace_ok ids (dom L) rs" by (simp_all add: running_def)
  show f: "finite (dom L)" using finite_live [OF running_arrays [OF run] running_holding [OF run]] .
  show 1: "0 \<le> live_sum L" "live_sum L \<le> APAGE_SIZE * page_count (lib st)"
    using live_sum_pos [OF running_holding [OF run]] live_sum_le [OF own running_holding [OF run] f] by blast+
  have "page_count (lib st) \<le> B" using room trace_pages_pos [OF ok] by (simp add: room_for_def)
  then show 2: "APAGE_SIZE * page_count (lib st) \<le> INT_MAX" using B by (simp add: APAGE_SIZE_def)
  show "to_size (live_sum L) = live_sum L" using 1 2 by (simp add: to_size_def INT_MAX_def)
  show "trace_ok ids (dom L) rs" by (rule ok)
qed

text \<open>One request: the total is again the sum over the blocks held.\<close>

lemma util_op_ok:
  assumes os: "os_ok mmap" and inv: "util_inv B ids (r # rs) L tr st"
  shows "util_op mmap r tr st (live_sum L) = Some (Inl ''mmap failed'') \<or>
    (\<exists>L' tr' st'. util_op mmap r tr st (live_sum L) = Some (Inr (tr', st', live_sum L')) \<and> util_inv B ids rs L' tr' st' \<and>
       live_sum L' = live_sum L + (if op_type r = FREE then 0 else op_size r) - size_of L (op_index r) \<and>
       size_of L' = (size_of L)(op_index r := if op_type r = FREE then 0 else op_size r) \<and>
       ops tr' = ops tr \<and> num_ops tr' = num_ops tr)"
proof -
  let ?k = "op_index r" and ?n = "op_size r"
  obtain A where run: "running B ids (r # rs) L A tr st" and sz: "sized L tr" and B: "APAGE_SIZE * B \<le> INT_MAX"
    using inv by (auto simp: util_inv_def)
  note fin = util_inv_bounds(5) [OF inv]
  have old: "get_block ?k tr = Some q \<and> get_block_size ?k tr = Some m \<and> to_int m = m \<and> 0 < m \<and> m \<le> MAX_REQUEST \<and>
      size_of L ?k = m \<and> live_sum (L(?k := None)) = live_sum L - m" if qm: "L ?k = Some (q, m)" for q m
  proof -
    obtain s where "0 < m" "m \<le> MAX_REQUEST" "get_block ?k tr = Some q"
      using holdingD [OF running_holding [OF run] qm] by metis
    moreover have "get_block_size ?k tr = Some m" using sz qm by (simp add: sized_def)
    ultimately show ?thesis using qm live_sum_upd(2) [OF fin qm] by (simp add: size_of_def)
  qed
  show ?thesis
  proof (cases "op_type r = FREE")
    case True
    obtain p n s st' where f: "L ?k = Some (p, n)" "get_block ?k tr = Some p" "mm_free p st = Some (Inr st')"
        "running B ids rs (L(?k := None)) (A - {(p, s)}) tr st'"
      by (rule running_free [OF run True])
    have inv': "util_inv B ids rs (L(?k := None)) tr st'" using f(4) B sized_drop [OF sz] by (auto simp: util_inv_def)
    have "util_op mmap r tr st (live_sum L) = Some (Inr (tr, st', live_sum (L(?k := None))))"
      using True f(3) old [OF f(1)] util_inv_bounds(4) [OF inv'] by (simp add: util_op_def)
    then show ?thesis
      using True inv' old [OF f(1)] by (intro disjI2 exI [of _ "L(?k := None)"]) auto
  next
    case False
    have n: "0 < ?n" "?n \<le> MAX_REQUEST" using run False by (auto simp: running_def split: op_type.splits)
    consider "mm_malloc mmap ?n st = Some (Inl ''mmap failed'')"
      | p s st1 where "mm_malloc mmap ?n st = Some (Inr (p, st1))" "p \<noteq> 0" "mm_owned (insert (p, s) A) st1"
          "?n + 8 \<le> s" "\<forall>j m. L j \<noteq> Some (p, m)" "room_for B rs st1"
      using running_request [OF os run False] by force
    then show ?thesis
    proof cases
      case 1
      then show ?thesis
        using False n old running_old [OF run] by (cases "op_type r") (auto simp: util_op_def)
    next
      case 2
      let ?L = "L(?k \<mapsto> (p, ?n))"
      obtain tr' where tr': "remember ?k p ?n tr = Some tr'" "arrays ids tr'" "ops tr' = ops tr" "num_ops tr' = num_ops tr"
          "\<And>j. get_block j tr' = (if j = ?k then Some p else get_block j tr)"
          "\<And>j. get_block_size j tr' = (if j = ?k then Some (to_size ?n) else get_block_size j tr)"
        using remember_ok [OF running_arrays [OF run], of ?k p ?n] running_tail [OF run] by metis
      have sz': "sized ?L tr'" using sized_set [OF sized_drop [OF sz], of tr' ?k ?n] tr'(6) n by simp
      show ?thesis
      proof (cases "op_type r = ALLOC")
        case True
        have k: "L ?k = None" using run True by (auto simp: running_def)
        have inv': "util_inv B ids rs ?L tr' st1"
          using running_alloc [OF run True 2(3-6) tr'(2,5)] sz' B by (auto simp: util_inv_def)
        have L: "live_sum ?L = live_sum L + ?n" using live_sum_upd(1) [OF fin, of ?k p ?n] k by (simp add: fun_upd_idem)
        have "util_op mmap r tr st (live_sum L) = Some (Inr (tr', st1, live_sum ?L))"
          using True 2(1,2) n tr'(1) util_inv_bounds(4) [OF inv'] L by (simp add: util_op_def)
        then show ?thesis
          using False inv' L tr'(3,4) k by (intro disjI2 exI [of _ ?L] exI) (auto simp: size_of_def)
      next
        case nalloc: False
        then have r: "op_type r = REALLOC" using False by (cases "op_type r") auto
        obtain q m where q: "L ?k = Some (q, m)" using running_old [OF run r] by blast
        obtain t st2 where f: "mm_free q st1 = Some (Inr st2)"
            "running B ids rs ?L (insert (p, s) A - {(q, t)}) tr' st2"
          by (rule running_realloc [OF run r 2(3-6) tr'(2,5) q])
        have inv': "util_inv B ids rs ?L tr' st2" using f(2) sz' B by (auto simp: util_inv_def)
        note o = old [OF q]
        have L: "live_sum ?L = live_sum L + (?n - m)" using live_sum_upd(1) [OF fin, of ?k p ?n] o by simp
        have "util_op mmap r tr st (live_sum L) = Some (Inr (tr', st2, live_sum ?L))"
          using r 2(1,2) n tr'(1) util_inv_bounds(4) [OF inv'] L o f(1)
          by (simp add: util_op_def INT_MAX_def MAX_REQUEST_def)
        then show ?thesis
          using False inv' L tr'(3,4) o by (intro disjI2 exI [of _ ?L] exI) auto
      qed
    qed
  qed
qed

text \<open>The statistics as a function of the trail.\<close>

definition record_step :: "util_t \<Rightarrow> int \<times> int \<Rightarrow> util_t" where
  "record_step u = (\<lambda>(t, h).
     let (ratio_frac, ratio_exp) = frexp (real_of_int (t + 1) / real_of_int (h + 1));
         (frac, e) = frexp (accum_ratio_frac u * ratio_frac)
     in \<lparr>total_size = t, max_total_size = max t (max_total_size u), max_heap_size = max h (max_heap_size u),
         accum_ratio_frac = frac, accum_ratio_exp = accum_ratio_exp u + ratio_exp + e\<rparr>)"

lemma util_stats_step:
  "util_inv B ids rs L tr st \<Longrightarrow> util_stats st t u = Some (record_step u (t, APAGE_SIZE * page_count (lib st)))"
  using util_inv_bounds(3) [of B ids rs L tr st] by (simp add: util_stats_def record_step_def mem_heapsize_def)

lemma total_record_step [simp]: "total_size (record_step u (t, h)) = t"
  by (simp add: record_step_def split: prod.split)

lemma util_loop_ok:
  assumes os: "os_ok mmap"
  shows "util_inv B ids rs L tr st \<Longrightarrow> total_size u = live_sum L \<Longrightarrow>
    util_loop mmap rs tr st u = Some (Inl ''mmap failed'') \<or>
    (\<exists>L' tr' st' T. util_loop mmap rs tr st u = Some (Inr (tr', st', foldl record_step u T)) \<and>
       T = trail mmap rs tr st (live_sum L) \<and> map fst T = totals (size_of L) (live_sum L) rs \<and>
       (\<forall>(t, h)\<in>set T. 0 \<le> t \<and> t \<le> h) \<and> util_inv B ids [] L' tr' st' \<and> ops tr' = ops tr \<and> num_ops tr' = num_ops tr)"
proof (induction rs arbitrary: L tr st u)
  case Nil
  then show ?case by (intro disjI2 exI [of _ L]) auto
next
  case (Cons r rs)
  consider "util_op mmap r tr st (live_sum L) = Some (Inl ''mmap failed'')"
    | L1 tr1 st1 where "util_op mmap r tr st (live_sum L) = Some (Inr (tr1, st1, live_sum L1))" "util_inv B ids rs L1 tr1 st1"
        "live_sum L1 = live_sum L + (if op_type r = FREE then 0 else op_size r) - size_of L (op_index r)"
        "size_of L1 = (size_of L)(op_index r := if op_type r = FREE then 0 else op_size r)"
        "ops tr1 = ops tr" "num_ops tr1 = num_ops tr"
    using util_op_ok [OF os Cons.prems(1)] by (elim disjE exE conjE) blast+
  then show ?case
  proof cases
    case 1
    then show ?thesis using Cons.prems(2) by simp
  next
    case 2
    let ?h = "APAGE_SIZE * page_count (lib st1)"
    let ?u = "record_step u (live_sum L1, ?h)"
    have st: "util_loop mmap (r # rs) tr st u = util_loop mmap rs tr1 st1 ?u"
      using 2(1) Cons.prems(2) util_stats_step [OF 2(2), of "live_sum L1" u] by simp
    note b = util_inv_bounds(1,2) [OF 2(2)]
    from Cons.IH [OF 2(2) total_record_step, of u ?h] show ?thesis
    proof (elim disjE exE conjE)
      fix L' tr' st' T assume *: "util_loop mmap rs tr1 st1 ?u = Some (Inr (tr', st', foldl record_step ?u T))"
        "T = trail mmap rs tr1 st1 (live_sum L1)" "map fst T = totals (size_of L1) (live_sum L1) rs"
        "\<forall>(t, h)\<in>set T. 0 \<le> t \<and> t \<le> h" "util_inv B ids [] L' tr' st'" "ops tr' = ops tr1" "num_ops tr' = num_ops tr1"
      show ?thesis
        unfolding st using * 2 b
        by (intro disjI2 exI [of _ L'] exI [of _ tr'] exI [of _ st'] exI [of _ "(live_sum L1, ?h) # T"]) (auto simp: Let_def)
    next
      assume "util_loop mmap rs tr1 st1 ?u = Some (Inl ''mmap failed'')"
      then show ?thesis unfolding st by simp
    qed
  qed
qed

section \<open>The ratios\<close>

lemma frexp_spec:
  assumes "0 < x"
  shows "1 / 2 \<le> fst (frexp x)" "fst (frexp x) < 1" "fst (frexp x) * 2 powi snd (frexp x) = x"
proof -
  define e where "e = \<lfloor>log 2 x\<rfloor> + 1"
  have e: "frexp x = (x / 2 powi e, e)" unfolding frexp_def e_def Let_def ..
  have "real_of_int e - 1 \<le> log 2 x" "log 2 x < real_of_int e" unfolding e_def by linarith+
  then have "2 powr (real_of_int e - 1) \<le> x" "x < 2 powr real_of_int e"
    using assms by (simp_all add: le_log_iff log_less_iff)
  then have "2 powi e / 2 \<le> x" "x < 2 powi e"
    by (simp_all add: powr_diff powr_real_of_int')
  then show "1 / 2 \<le> fst (frexp x)" "fst (frexp x) < 1" "fst (frexp x) * 2 powi snd (frexp x) = x"
    unfolding e by (simp_all add: field_simps)
qed

definition ratio :: "int \<times> int \<Rightarrow> real" where
  "ratio = (\<lambda>(t, h). real_of_int (t + 1) / real_of_int (h + 1))"

definition accum :: "util_t \<Rightarrow> real" where
  "accum u = accum_ratio_frac u * 2 powi accum_ratio_exp u"

lemma record_step_spec:
  assumes "0 \<le> t" "0 \<le> h" "0 < accum_ratio_frac u"
  shows "accum (record_step u (t, h)) = accum u * ratio (t, h)"
    "1 / 2 \<le> accum_ratio_frac (record_step u (t, h))" "accum_ratio_frac (record_step u (t, h)) < 1"
    "max_total_size (record_step u (t, h)) = max t (max_total_size u)"
    "max_heap_size (record_step u (t, h)) = max h (max_heap_size u)"
proof -
  let ?x = "real_of_int (t + 1) / real_of_int (h + 1)"
  obtain f e where f: "frexp ?x = (f, e)" by (cases "frexp ?x")
  obtain g k where g: "frexp (accum_ratio_frac u * f) = (g, k)" by (cases "frexp (accum_ratio_frac u * f)")
  have "0 < ?x" using assms by simp
  note F = frexp_spec [OF this, unfolded f fst_conv snd_conv]
  have "0 < accum_ratio_frac u * f" using F(1) assms(3) by simp
  note G = frexp_spec [OF this, unfolded g fst_conv snd_conv]
  have r: "record_step u (t, h) = \<lparr>total_size = t, max_total_size = max t (max_total_size u),
      max_heap_size = max h (max_heap_size u), accum_ratio_frac = g, accum_ratio_exp = accum_ratio_exp u + e + k\<rparr>"
    unfolding record_step_def Let_def prod.case f g ..
  have "g * 2 powi (accum_ratio_exp u + e + k) = (g * 2 powi k) * 2 powi e * 2 powi accum_ratio_exp u"
    by (simp add: power_int_add)
  also have "\<dots> = accum_ratio_frac u * 2 powi accum_ratio_exp u * (f * 2 powi e)" unfolding G(3) by (simp only: mult_ac)
  also have "\<dots> = accum u * ratio (t, h)" unfolding F(3) accum_def ratio_def prod.case ..
  finally show "accum (record_step u (t, h)) = accum u * ratio (t, h)" by (simp add: r accum_def)
  show "1 / 2 \<le> accum_ratio_frac (record_step u (t, h))" "accum_ratio_frac (record_step u (t, h)) < 1"
    "max_total_size (record_step u (t, h)) = max t (max_total_size u)"
    "max_heap_size (record_step u (t, h)) = max h (max_heap_size u)"
    using G by (simp_all add: r)
qed

lemma record_fold:
  assumes "\<forall>(t, h)\<in>set T. 0 \<le> t \<and> t \<le> h" "0 < accum_ratio_frac u"
  shows "accum (foldl record_step u T) = accum u * prod_list (map ratio T)"
    "T \<noteq> [] \<Longrightarrow> 1 / 2 \<le> accum_ratio_frac (foldl record_step u T) \<and> accum_ratio_frac (foldl record_step u T) < 1"
    "max_total_size (foldl record_step u T) = foldl max (max_total_size u) (map fst T)"
    "max_heap_size (foldl record_step u T) = foldl max (max_heap_size u) (map snd T)"
proof -
  have "accum (foldl record_step u T) = accum u * prod_list (map ratio T) \<and>
    (T \<noteq> [] \<longrightarrow> 1 / 2 \<le> accum_ratio_frac (foldl record_step u T) \<and> accum_ratio_frac (foldl record_step u T) < 1) \<and>
    max_total_size (foldl record_step u T) = foldl max (max_total_size u) (map fst T) \<and>
    max_heap_size (foldl record_step u T) = foldl max (max_heap_size u) (map snd T)"
    using assms
  proof (induction T arbitrary: u)
    case (Cons x T)
    obtain t h where x: "x = (t, h)" by (cases x)
    then have "0 \<le> t" "0 \<le> h" using Cons.prems(1) by auto
    note r = record_step_spec [OF this Cons.prems(2)]
    have "0 < accum_ratio_frac (record_step u x)" using r(2) x by simp
    from Cons.IH [OF _ this] Cons.prems(1) r x show ?case by (cases T) (auto simp: max.commute)
  qed simp
  then show "accum (foldl record_step u T) = accum u * prod_list (map ratio T)"
    "T \<noteq> [] \<Longrightarrow> 1 / 2 \<le> accum_ratio_frac (foldl record_step u T) \<and> accum_ratio_frac (foldl record_step u T) < 1"
    "max_total_size (foldl record_step u T) = foldl max (max_total_size u) (map fst T)"
    "max_heap_size (foldl record_step u T) = foldl max (max_heap_size u) (map snd T)" by blast+
qed

text \<open>What the exponent is divided by, the fraction is not: the result is the geometric mean up to a
  factor between 1/2 and 1.\<close>

lemma half_root:
  fixes f x :: real
  assumes "1 / 2 \<le> f" "f < 1" "1 \<le> n" "x = f * 2 powi e"
  defines "y \<equiv> f * 2 powr (real_of_int e / real n)"
  shows "y \<le> x powr (1 / real n)" "x powr (1 / real n) / 2 < y"
proof -
  have x: "x powr (1 / real n) = f powr (1 / real n) * 2 powr (real_of_int e / real n)"
    using assms(1,4) by (simp add: powr_mult powr_powr flip: powr_real_of_int')
  have "f powr 1 \<le> f powr (1 / real n)" using assms by (intro powr_mono') auto
  then have "f \<le> f powr (1 / real n)" using assms by simp
  then show "y \<le> x powr (1 / real n)" unfolding x y_def by (rule mult_right_mono) simp
  have "f powr (1 / real n) < 1 powr (1 / real n)" using assms by (intro powr_less_mono2) auto
  then have "f powr (1 / real n) / 2 < f" using assms(1) by simp
  then have "f powr (1 / real n) / 2 * 2 powr (real_of_int e / real n) < y"
    unfolding y_def by (rule mult_strict_right_mono) simp
  then show "x powr (1 / real n) / 2 < y" unfolding x by simp
qed

section \<open>The utilization of a trace\<close>

text \<open>The run of a trace from a fresh heap: the bytes in use and the heap's size after every request.\<close>

definition trace_trail :: "mmap \<Rightarrow> trace_t \<Rightarrow> mm \<Rightarrow> (int \<times> int) list" where
  "trace_trail mmap tr st = trail mmap (ops tr) tr (mm_init st) 0"

definition high_water :: "int list \<Rightarrow> int" where
  "high_water xs = foldl max 0 xs"

definition geometric_mean :: "real list \<Rightarrow> real" where
  "geometric_mean xs = prod_list xs powr (1 / real (length xs))"

lemma foldl_max_ge: "a \<le> foldl max a xs \<and> (\<forall>x\<in>set xs. x \<le> foldl max a xs)" for a :: int
proof (induction xs arbitrary: a)
  case (Cons x xs)
  have "max a x \<le> foldl max (max a x) xs" "\<forall>y\<in>set xs. y \<le> foldl max (max a x) xs" using Cons.IH by blast+
  then show ?case by simp
qed simp

lemma high_water_mono: "list_all2 (\<le>) xs ys \<Longrightarrow> high_water xs \<le> high_water ys"
proof -
  have "a \<le> b \<Longrightarrow> foldl max a xs \<le> foldl max b ys" if "list_all2 (\<le>) xs ys" for a b
    using that
  proof (induction arbitrary: a b rule: list_all2_induct)
    case (Cons x xs y ys)
    have "max a x \<le> max b y" using Cons.hyps(1) Cons.prems by (rule max.mono [rotated])
    then show ?case using Cons.IH by simp
  qed simp
  then show "list_all2 (\<le>) xs ys \<Longrightarrow> high_water xs \<le> high_water ys" by (simp add: high_water_def)
qed

lemma ratio_bounds: "0 \<le> t \<Longrightarrow> t \<le> h \<Longrightarrow> 0 < ratio (t, h) \<and> ratio (t, h) \<le> 1"
  by (simp add: ratio_def)

lemma prod_list_unit: "(\<forall>x\<in>set xs. 0 < x \<and> x \<le> 1) \<Longrightarrow> 0 < prod_list xs \<and> prod_list xs \<le> (1 :: real)"
  by (induction xs) (auto intro: mult_le_one)

definition proper_trace :: "int \<Rightarrow> int \<Rightarrow> trace_t \<Rightarrow> bool" where
  "proper_trace B ids tr \<longleftrightarrow> trace_ok ids {} (ops tr) \<and> arrays ids tr \<and>
     num_ops tr = int (length (ops tr)) \<and> ops tr \<noteq> [] \<and> fits B (ops tr) \<and> APAGE_SIZE * B \<le> INT_MAX"

lemma length_totals [simp]: "length (totals S t rs) = length rs"
  by (induction rs arbitrary: S t) (simp_all add: Let_def)

lemma first_total:
  "proper_trace B ids tr \<Longrightarrow> \<exists>n ts. 0 < n \<and> totals (\<lambda>_. 0) 0 (ops tr) = n # ts"
  by (cases "ops tr") (auto simp: proper_trace_def Let_def split: op_type.splits)

lemma eval_mm_util_ok:
  assumes os: "os_ok mmap" and f: "fresh (heap d)" and tr: "proper_trace B ids tr"
  defines "T \<equiv> trace_trail mmap tr (heap d)"
  shows "eval_mm_util mmap tr d = Some (Inl ''mmap failed'') \<or>
    (\<exists>u ui tr' st. eval_mm_util mmap tr d = Some (Inr (u, ui, tr', d\<lparr>heap := st\<rparr>)) \<and>
       map fst T = totals (\<lambda>_. 0) 0 (ops tr) \<and> (\<forall>(t, h)\<in>set T. 0 \<le> t \<and> t \<le> h) \<and>
       u = high_water (map fst T) / high_water (map snd T) \<and> 0 < u \<and> u \<le> 1 \<and>
       0 < ui \<and> ui \<le> geometric_mean (map ratio T) \<and> geometric_mean (map ratio T) / 2 < ui \<and> geometric_mean (map ratio T) \<le> 1 \<and>
       fresh st \<and> arrays ids tr' \<and> ops tr' = ops tr \<and> num_ops tr' = num_ops tr)"
proof -
  let ?n = "length (ops tr)"
  have p: "trace_ok ids {} (ops tr)" "arrays ids tr" "num_ops tr = int ?n" "ops tr \<noteq> []" "fits B (ops tr)" "APAGE_SIZE * B \<le> INT_MAX"
    using tr by (simp_all add: proper_trace_def)
  have "util_inv B ids (ops tr) Map.empty tr (mm_init (heap d))"
    using running_start [OF f p(1,2,5)] p(6) by (auto simp: util_inv_def sized_def)
  moreover have "live_sum Map.empty = 0" "size_of Map.empty = (\<lambda>_. 0)" by (simp_all add: live_sum_def size_of_def fun_eq_iff)
  ultimately consider "util_loop mmap (ops tr) tr (mm_init (heap d)) util0 = Some (Inl ''mmap failed'')"
    | L' tr' st' where "util_loop mmap (ops tr) tr (mm_init (heap d)) util0 = Some (Inr (tr', st', foldl record_step util0 T))"
        "map fst T = totals (\<lambda>_. 0) 0 (ops tr)" "\<forall>(t, h)\<in>set T. 0 \<le> t \<and> t \<le> h" "util_inv B ids [] L' tr' st'"
        "ops tr' = ops tr" "num_ops tr' = num_ops tr"
    using util_loop_ok [OF os, of B ids "ops tr" Map.empty tr "mm_init (heap d)" util0]
    by (simp add: util0_def T_def trace_trail_def) blast
  then show ?thesis
  proof cases
    case 1
    then show ?thesis by (simp add: eval_mm_util_def)
  next
    case 2
    obtain A where A: "running B ids [] L' A tr' st'" using 2(4) by (auto simp: util_inv_def)
    obtain st where st: "reset_heap st' = Some (Inr st)" "fresh st" using owned_reset A by (auto simp: running_def)
    let ?u = "foldl record_step util0 T"
    obtain n ts where n: "0 < n" "map fst T = n # ts" using first_total [OF tr] 2(2) by auto
    have T: "T \<noteq> []" "length T = ?n"
      using n(2) arg_cong [OF 2(2), of length] by auto
    note rf = record_fold [OF 2(3), of util0]
    have u: "accum ?u = prod_list (map ratio T)" "1 / 2 \<le> accum_ratio_frac ?u" "accum_ratio_frac ?u < 1"
        "max_total_size ?u = high_water (map fst T)" "max_heap_size ?u = high_water (map snd T)"
      using rf T(1) by (simp_all add: util0_def accum_def high_water_def)
    have hw: "0 < high_water (map fst T)" using foldl_max_ge [of "max 0 n" ts] n by (simp add: high_water_def)
    moreover have le: "high_water (map fst T) \<le> high_water (map snd T)"
      using 2(3) by (intro high_water_mono) (auto simp: list_all2_conv_all_nth dest: nth_mem)
    ultimately have pos: "0 < high_water (map snd T)" by simp
    define ui where "ui = accum_ratio_frac ?u * 2 powr (real_of_int (accum_ratio_exp ?u) / real ?n)"
    have n1: "1 \<le> ?n" using p(4) by (cases "ops tr") auto
    have gm: "geometric_mean (map ratio T) = accum ?u powr (1 / real ?n)" using T(2) u(1) by (simp add: geometric_mean_def)
    note h = half_root [OF u(2,3) n1, of "accum ?u" "accum_ratio_exp ?u", folded ui_def gm, unfolded accum_def [of ?u], OF refl]
    have "eval_mm_util mmap tr d = Some (Inr (high_water (map fst T) / high_water (map snd T), ui, tr', d\<lparr>heap := st\<rparr>))"
      using 2(1,6) st(1) p(3,4) u(4,5) pos by (simp add: eval_mm_util_def ui_def)
    moreover have "0 < ui" using u(2) by (simp add: ui_def)
    moreover have "geometric_mean (map ratio T) \<le> 1"
    proof -
      have "0 < prod_list (map ratio T) \<and> prod_list (map ratio T) \<le> 1"
        using 2(3) ratio_bounds by (intro prod_list_unit) fastforce
      then show ?thesis
        using powr_mono2 [of "1 / real (length (map ratio T))" "prod_list (map ratio T)" 1] by (simp add: geometric_mean_def)
    qed
    ultimately show ?thesis
      using 2(2,3,5,6) st(2) hw le pos h running_arrays [OF A] 
      by (intro disjI2 exI [of _ "real_of_int (high_water (map fst T)) / real_of_int (high_water (map snd T))"]
          exI [of _ ui] exI [of _ tr'] exI [of _ st] conjI) simp_all
  qed
qed

section \<open>The timed runs and the program\<close>

lemma speed_op_ok:
  assumes os: "os_ok mmap" and run: "running B ids (r # rs) L A tr st"
  shows "speed_op mmap r tr st = Some (Inl ''mmap failed'') \<or>
    (\<exists>L' A' tr' st'. speed_op mmap r tr st = Some (Inr (tr', st')) \<and> running B ids rs L' A' tr' st' \<and>
       ops tr' = ops tr \<and> num_ops tr' = num_ops tr)"
proof (cases "op_type r = FREE")
  case True
  obtain p n s st' where f: "get_block (op_index r) tr = Some p" "mm_free p st = Some (Inr st')"
      "running B ids rs (L(op_index r := None)) (A - {(p, s)}) tr st'"
    by (rule running_free [OF run True])
  have "speed_op mmap r tr st = Some (Inr (tr, st'))" using True f by (simp add: speed_op_def)
  then show ?thesis using f(3) by blast
next
  case False
  have n: "0 < op_size r" "op_size r \<le> MAX_REQUEST" using run False by (auto simp: running_def split: op_type.splits)
  consider "mm_malloc mmap (op_size r) st = Some (Inl ''mmap failed'')"
    | p s st1 where "mm_malloc mmap (op_size r) st = Some (Inr (p, st1))" "p \<noteq> 0" "mm_owned (insert (p, s) A) st1"
        "op_size r + 8 \<le> s" "\<forall>j m. L j \<noteq> Some (p, m)" "room_for B rs st1"
    using running_request [OF os run False] by force
  then show ?thesis
  proof cases
    case 1
    then show ?thesis
      using False n running_old [OF run] by (cases "op_type r") (auto simp: speed_op_def)
  next
    case 2
    obtain tr' where tr': "set_block (op_index r) p tr = Some tr'" "arrays ids tr'" "ops tr' = ops tr" "num_ops tr' = num_ops tr"
        "\<And>j. get_block j tr' = (if j = op_index r then Some p else get_block j tr)"
      using set_block_ok [OF running_arrays [OF run], of "op_index r" p] running_tail [OF run] by metis
    show ?thesis
    proof (cases "op_type r = ALLOC")
      case True
      have "speed_op mmap r tr st = Some (Inr (tr', st1))" using True 2(1,2) n tr'(1) by (simp add: speed_op_def)
      then show ?thesis using running_alloc [OF run True 2(3-6) tr'(2,5)] tr'(3,4) by blast
    next
      case nalloc: False
      then have r: "op_type r = REALLOC" using False by (cases "op_type r") auto
      obtain q m where q: "L (op_index r) = Some (q, m)" "get_block (op_index r) tr = Some q" using running_old [OF run r] by blast
      obtain t st2 where f: "mm_free q st1 = Some (Inr st2)"
          "running B ids rs (L(op_index r \<mapsto> (p, op_size r))) (insert (p, s) A - {(q, t)}) tr' st2"
        by (rule running_realloc [OF run r 2(3-6) tr'(2,5) q(1)])
      have "speed_op mmap r tr st = Some (Inr (tr', st2))" using r 2(1,2) n tr'(1) q(2) f(1) by (simp add: speed_op_def)
      then show ?thesis using f(2) tr'(3,4) by blast
    qed
  qed
qed

lemma speed_loop_ok:
  assumes os: "os_ok mmap"
  shows "running B ids rs L A tr st \<Longrightarrow>
    speed_loop mmap rs tr st = Some (Inl ''mmap failed'') \<or>
    (\<exists>L' A' tr' st'. speed_loop mmap rs tr st = Some (Inr (tr', st')) \<and> running B ids [] L' A' tr' st' \<and>
       ops tr' = ops tr \<and> num_ops tr' = num_ops tr)"
proof (induction rs arbitrary: L A tr st)
  case (Cons r rs)
  consider "speed_op mmap r tr st = Some (Inl ''mmap failed'')"
    | L1 A1 tr1 st1 where "speed_op mmap r tr st = Some (Inr (tr1, st1))" "running B ids rs L1 A1 tr1 st1"
        "ops tr1 = ops tr" "num_ops tr1 = num_ops tr"
    using speed_op_ok [OF os Cons.prems] by blast
  then show ?case
  proof cases
    case 2
    then show ?thesis using Cons.IH [OF 2(2)] by auto
  qed simp
qed auto

lemma fsecs_runs_ok:
  assumes os: "os_ok mmap"
  shows "fresh st \<Longrightarrow> proper_trace B ids tr \<Longrightarrow>
    fsecs_runs k mmap tr st = Some (Inl ''mmap failed'') \<or>
    (\<exists>tr' st'. fsecs_runs k mmap tr st = Some (Inr (tr', st')) \<and> fresh st' \<and> num_ops tr' = num_ops tr)"
proof (induction k arbitrary: tr st)
  case (Suc k)
  have "running B ids (ops tr) Map.empty {} tr (mm_init st)"
    using running_start [OF Suc.prems(1)] Suc.prems(2) by (simp add: proper_trace_def)
  then consider "speed_loop mmap (ops tr) tr (mm_init st) = Some (Inl ''mmap failed'')"
    | L' A' tr' st' where "speed_loop mmap (ops tr) tr (mm_init st) = Some (Inr (tr', st'))" "running B ids [] L' A' tr' st'"
        "ops tr' = ops tr" "num_ops tr' = num_ops tr"
    using speed_loop_ok [OF os] by blast
  then show ?case
  proof cases
    case 2
    then obtain st2 where st2: "reset_heap st' = Some (Inr st2)" "fresh st2" using owned_reset by (auto simp: running_def)
    have "proper_trace B ids tr'" using Suc.prems(2) 2(3,4) running_arrays [OF 2(2)] by (simp add: proper_trace_def)
    from Suc.IH [OF st2(2) this] show ?thesis using 2(1,4) st2(1) by (auto simp: eval_mm_speed_def)
  qed (simp add: eval_mm_speed_def)
qed auto

lemma run_trace_ok:
  assumes os: "os_ok mmap" and f: "fresh (heap d)"
    and tr: "read_trace dir name file = Some (Inr tr)" "proper_trace B ids tr"
  shows "run_trace mmap timing dir i name file d = Some (Inl ''mmap failed'') \<or>
    (\<exists>s d'. run_trace mmap timing dir i name file d = Some (Inr (s, d')) \<and> valid s \<and> 0 < util s \<and> util s \<le> 1 \<and>
       0 < inst_util s \<and> inst_util s \<le> 1 \<and> stat_ops s = int (length (ops tr)) \<and> secs s = fsecs timing \<and>
       errors d' = errors d \<and> reports d' = reports d \<and> fresh (heap d'))"
proof -
  have p: "trace_ok ids {} (ops tr)" "arrays ids tr" "fits B (ops tr)" "num_ops tr = int (length (ops tr))"
    using tr(2) by (simp_all add: proper_trace_def)
  consider "eval_mm_valid mmap tr i d = Some (Inl ''mmap failed'')"
    | tr1 d1 where "eval_mm_valid mmap tr i d = Some (Inr (True, tr1, d1))" "same_report tr d tr1 d1" "arrays ids tr1" "fresh (heap d1)"
    using eval_mm_valid_ok [OF os f p(3,1,2)] by blast
  then show ?thesis
  proof cases
    case 1
    then show ?thesis using tr(1) by (simp add: run_trace_def)
  next
    case 2
    have tr1: "proper_trace B ids tr1" using tr(2) 2(2,3) by (simp add: proper_trace_def same_report_def)
    consider "eval_mm_util mmap tr1 d1 = Some (Inl ''mmap failed'')"
      | u ui tr2 st where "eval_mm_util mmap tr1 d1 = Some (Inr (u, ui, tr2, d1\<lparr>heap := st\<rparr>))" "0 < u" "u \<le> 1" "0 < ui" "ui \<le> 1"
          "fresh st" "arrays ids tr2" "ops tr2 = ops tr1" "num_ops tr2 = num_ops tr1"
      using eval_mm_util_ok [OF os 2(4) tr1] by fastforce
    then show ?thesis
    proof cases
      case 1
      then show ?thesis using tr(1) 2(1) by (simp add: run_trace_def)
    next
      case u: 2
      have tr2: "proper_trace B ids tr2" using tr1 u(7-9) by (simp add: proper_trace_def)
      consider "fsecs_runs 10 mmap tr2 st = Some (Inl ''mmap failed'')"
        | tr3 st3 where "fsecs_runs 10 mmap tr2 st = Some (Inr (tr3, st3))" "fresh st3" "num_ops tr3 = num_ops tr2"
        using fsecs_runs_ok [OF os u(6) tr2] by blast
      then show ?thesis
        using tr(1) 2(1,2) u p(4) by cases (simp_all add: run_trace_def same_report_def)
    qed
  qed
qed

definition stats_ok :: "stats_t \<Rightarrow> bool" where
  "stats_ok s \<longleftrightarrow> valid s \<and> 0 < util s \<and> util s \<le> 1 \<and> 0 < inst_util s \<and> inst_util s \<le> 1 \<and> 0 < stat_ops s"

definition proper_file :: "string option \<Rightarrow> string \<Rightarrow> string \<Rightarrow> bool" where
  "proper_file file dir name \<longleftrightarrow> (\<exists>tr B ids. read_trace dir name file = Some (Inr tr) \<and> proper_trace B ids tr)"

lemma mm_traces_ok:
  assumes os: "os_ok mmap"
  shows "fresh (heap d) \<Longrightarrow> \<forall>name\<in>set names. proper_file (files (dir @ name)) dir name \<Longrightarrow>
    mm_traces mmap files timing dir i names d = Some (Inl ''mmap failed'') \<or>
    (\<exists>ss d'. mm_traces mmap files timing dir i names d = Some (Inr (ss, d')) \<and> length ss = length names \<and>
       (\<forall>s\<in>set ss. stats_ok s \<and> (\<exists>j. secs s = fsecs (timing j))) \<and> errors d' = errors d \<and> reports d' = reports d)"
proof (induction names arbitrary: i d)
  case (Cons name names)
  obtain tr B ids where tr: "read_trace dir name (files (dir @ name)) = Some (Inr tr)" "proper_trace B ids tr"
    using Cons.prems(2) by (auto simp: proper_file_def)
  have n: "0 < int (length (ops tr))" using tr(2) by (simp add: proper_trace_def)
  consider "run_trace mmap (timing i) dir i name (files (dir @ name)) d = Some (Inl ''mmap failed'')"
    | s d1 where "run_trace mmap (timing i) dir i name (files (dir @ name)) d = Some (Inr (s, d1))" "stats_ok s"
        "secs s = fsecs (timing i)" "errors d1 = errors d" "reports d1 = reports d" "fresh (heap d1)"
    using run_trace_ok [OF os Cons.prems(1) tr, of "timing i" i] n unfolding stats_ok_def by fastforce
  then show ?case
  proof cases
    case 2
    have "\<forall>name\<in>set names. proper_file (files (dir @ name)) dir name" using Cons.prems(2) by simp
    from Cons.IH [OF 2(6) this, of "i + 1"] show ?thesis using 2 by auto
  qed simp
qed simp

lemma sum_list_mean:
  assumes "ss \<noteq> []" "\<And>s. s \<in> set ss \<Longrightarrow> 0 < f s \<and> f s \<le> (1 :: real)"
  shows "0 < sum_list (map f ss) / real (length ss)" "sum_list (map f ss) / real (length ss) \<le> 1"
proof -
  have "0 < sum_list (map f ss)" using assms by (induction ss rule: list_nonempty_induct) (auto intro: add_pos_pos)
  then show "0 < sum_list (map f ss) / real (length ss)" using assms(1) by simp
  have "sum_list (map f ss) \<le> real (length ss)" using assms(2) by (induction ss) (auto intro: add_mono)
  then show "sum_list (map f ss) / real (length ss) \<le> 1" using assms(1) by (simp add: divide_le_eq)
qed

lemma perf_index_bounds:
  assumes "ss \<noteq> []" "\<And>s. s \<in> set ss \<Longrightarrow> stats_ok s \<and> 0 < secs s"
  shows "\<exists>pi. perf_index ss 0 = Some pi \<and> 0 < pi \<and> pi \<le> 100"
proof -
  have u: "0 < util s \<and> util s \<le> 1" "0 < inst_util s \<and> inst_util s \<le> 1" if "s \<in> set ss" for s
    using assms(2) [OF that] by (simp_all add: stats_ok_def)
  define a b where "a = sum_list (map util ss) / real (length ss)" and "b = sum_list (map inst_util ss) / real (length ss)"
  have m: "0 < a" "a \<le> 1" "0 < b" "b \<le> 1"
    using sum_list_mean [where f = util, OF assms(1) u(1)] sum_list_mean [where f = inst_util, OF assms(1) u(2)]
    by (simp_all add: a_def b_def)
  define q where "q = sum_list (map (\<lambda>s. real_of_int (stat_ops s)) ss) / sum_list (map secs ss)"
  have "0 < sum_list (map secs ss)" "0 < sum_list (map (\<lambda>s. real_of_int (stat_ops s)) ss)"
    using assms by (induction ss rule: list_nonempty_induct) (auto intro: add_pos_pos simp: stats_ok_def)
  then have q: "sum_list (map secs ss) \<noteq> 0" "0 < q" by (simp_all add: q_def)
  define p2 where "p2 = (if 7500000 < q then 2 / 5 else 2 / 5 * (q / 7500000) :: real)"
  have p2: "0 < p2" "p2 \<le> 2 / 5" using q(2) by (auto simp: p2_def)
  have pi: "perf_index ss 0 = Some ((3 / 10 * a + 3 / 10 * b + p2) * 100)"
    using q(1) unfolding perf_index_def UTIL_WEIGHT_def UTIL_I_WEIGHT_def AVG_LIBC_THRUPUT_def Let_def
    by (simp add: q_def p2_def a_def b_def)
  have "0 < (3 / 10 * a + 3 / 10 * b + p2) * 100" "(3 / 10 * a + 3 / 10 * b + p2) * 100 \<le> 100"
    using m p2 by simp_all
  then show ?thesis unfolding pi by blast
qed

lemma options_nonempty:
  "main_options args o1 = Some (Inr oo) \<Longrightarrow> tracefiles oo \<noteq> []"
  by (induction args o1 rule: main_options.induct) (auto simp: DEFAULT_TRACEFILES_def Let_def split: if_splits)

section \<open>The properties of the driver\<close>

text \<open>C6. The driver and the allocator together: whatever well formed trace files the options name (without \<open>-l\<close>, which
  would time the C library too, and on a clock by which every run takes some time), unless the system
  refuses memory \<open>main\<close> finds every trace processed correctly - alignment, mapped pages and
  overlaps are checked after every request -, counts no error, and reports an index above 0 and at most 100.\<close>

theorem mdriver_passes:
  assumes "os_ok mmap" "main_options args options0 = Some (Inr oo)" "\<not> run_libc oo"
    "\<forall>name\<in>set (tracefiles oo). proper_file (files (tracedir oo @ name)) (tracedir oo) name"
    "\<And>i. 0 < fsecs (timing i)"
  shows "main mmap c h files lt timing APAGE_SIZE args = Some (Inl ''mmap failed'') \<or>
    (\<exists>pi d. main mmap c h files lt timing APAGE_SIZE args = Some (Inr (Inr (Some pi, length (tracefiles oo), d))) \<and>
       errors d = 0 \<and> reports d = [] \<and> 0 < pi \<and> pi \<le> 100)"
proof -
  let ?d = "\<lparr>errors = 0, reports = [], ranges = [], heap = \<lparr>lib = memlib0, free_list_ptr = 0\<rparr>\<rparr>"
  have fr: "fresh (heap ?d)" using memlib0_inv by (simp add: fresh_def meta_def memlib0_def)
  have ne: "tracefiles oo \<noteq> []" using options_nonempty [OF assms(2)] .
  consider "mm_traces mmap files timing (tracedir oo) 0 (tracefiles oo) ?d = Some (Inl ''mmap failed'')"
    | ss d where "mm_traces mmap files timing (tracedir oo) 0 (tracefiles oo) ?d = Some (Inr (ss, d))" "length ss = length (tracefiles oo)"
      "\<forall>s\<in>set ss. stats_ok s \<and> (\<exists>j. secs s = fsecs (timing j))" "errors d = 0" "reports d = []"
    using mm_traces_ok [OF assms(1) fr assms(4), of timing 0] by auto
  then show ?thesis
  proof cases
    case 1
    then show ?thesis using assms(2,3) by (simp add: main_def mem_init_def)
  next
    case 2
    have "ss \<noteq> []" using 2(2) ne by auto
    moreover have "stats_ok s \<and> 0 < secs s" if "s \<in> set ss" for s using 2(3) that assms(5) by force
    ultimately obtain pi where "perf_index ss 0 = Some pi" "0 < pi" "pi \<le> 100" using perf_index_bounds by blast
    moreover have "numcorrect ss = length (tracefiles oo)"
      using 2(2,3) by (simp add: numcorrect_def stats_ok_def)
    ultimately show ?thesis using 2(1,4,5) assms(2,3) by (simp add: main_def mem_init_def)
  qed
qed

text \<open>A small trace file.\<close>

definition sample_file :: string where
  "sample_file = ''20000 1 2 1 a 0 100 f 0''"

definition sample_trace :: trace_t where
  "sample_trace = \<lparr>sugg_heapsize = 20000, num_ids = 1, num_ops = 2, weight = 1,
     ops = [\<lparr>op_type = ALLOC, op_index = 0, op_size = 100\<rparr>, \<lparr>op_type = FREE, op_index = 0, op_size = 0\<rparr>],
     blocks = [None], block_sizes = [None]\<rparr>"

definition no_libc :: "unit libc" where
  "no_libc = \<lparr>libc_malloc = (\<lambda>_ h. (0, h)), libc_realloc = (\<lambda>_ _ h. (0, h)), libc_free = (\<lambda>_ h. h)\<rparr>"

lemma sample_read: "read_trace ''./'' ''t'' (Some sample_file) = Some (Inr sample_trace)"
  by code_simp

lemma sample_proper: "proper_trace 16 1 sample_trace"
proof -
  have "pages_for 100 = 16" by code_simp
  then show ?thesis
    by (simp add: proper_trace_def sample_trace_def arrays_def fits_def trace_pages_def op_pages_def MAX_REQUEST_def
        INT_MAX_def APAGE_SIZE_def)
qed

theorem mdriver_passes_witness:
  "main sample_mmap no_libc () (\<lambda>_. Some sample_file) (\<lambda>_. ((0, 0), (1, 0))) (\<lambda>_. ((7, 0), (7, 500))) APAGE_SIZE [(CHR ''f'', ''t'')] = Some (Inl ''mmap failed'') \<or>
   (\<exists>pi d. main sample_mmap no_libc () (\<lambda>_. Some sample_file) (\<lambda>_. ((0, 0), (1, 0))) (\<lambda>_. ((7, 0), (7, 500))) APAGE_SIZE [(CHR ''f'', ''t'')] =
     Some (Inr (Inr (Some pi, 1, d))) \<and> 0 < pi \<and> pi \<le> 100)"
proof -
  let ?oo = "\<lparr>tracedir = ''./'', tracefiles = [''t''], run_libc = False, autograder = False, verbose = 0\<rparr>"
  have o: "main_options [(CHR ''f'', ''t'')] options0 = Some (Inr ?oo)" by (simp add: options0_def)
  have "proper_file (Some sample_file) ''./'' ''t''" using sample_read sample_proper by (auto simp: proper_file_def)
  then show ?thesis
    using mdriver_passes [OF sample_mmap_ok o, of "\<lambda>_. Some sample_file" "\<lambda>_. ((7, 0), (7, 500))" no_libc "()" "\<lambda>_. ((0, 0), (1, 0))"]
    by (auto simp: fsecs_def ftimer_gettod_def)
qed

text \<open>C16. The utilization of a well formed trace is the quotient of its two high water marks: the most bytes
  it holds and the largest heap. It is above 0 and at most 1. The instantaneous utilization is at
  most the geometric mean of the ratios after each request, and more than half of it; the mean
  itself is not computed, because the root is taken of the power of two only.\<close>

theorem eval_mm_util_bounds:
  assumes "os_ok mmap" "fresh (heap d)" "proper_trace B ids tr"
  defines "T \<equiv> trace_trail mmap tr (heap d)"
  shows "eval_mm_util mmap tr d = Some (Inl ''mmap failed'') \<or>
    (\<exists>u ui tr' st. eval_mm_util mmap tr d = Some (Inr (u, ui, tr', d\<lparr>heap := st\<rparr>)) \<and>
       map fst T = totals (\<lambda>_. 0) 0 (ops tr) \<and> (\<forall>(t, h)\<in>set T. 0 \<le> t \<and> t \<le> h) \<and>
       u = high_water (map fst T) / high_water (map snd T) \<and> 0 < u \<and> u \<le> 1 \<and>
       0 < ui \<and> ui \<le> geometric_mean (map ratio T) \<and> geometric_mean (map ratio T) / 2 < ui \<and> geometric_mean (map ratio T) \<le> 1)"
  using eval_mm_util_ok [OF assms(1-3)] unfolding T_def [symmetric] by blast

theorem eval_mm_util_bounds_witness:
  "eval_mm_util sample_mmap sample_trace \<lparr>errors = 0, reports = [], ranges = [], heap = mm0\<rparr> = Some (Inl ''mmap failed'') \<or>
   (\<exists>u ui tr st. eval_mm_util sample_mmap sample_trace \<lparr>errors = 0, reports = [], ranges = [], heap = mm0\<rparr> =
      Some (Inr (u, ui, tr, \<lparr>errors = 0, reports = [], ranges = [], heap = st\<rparr>)) \<and> u \<le> 1 \<and> ui \<le> 1)"
proof -
  have "fresh mm0" using memlib0_inv by (simp add: fresh_def meta_def memlib0_def mm0_def mm_init_def)
  then show ?thesis
    using eval_mm_util_bounds [OF sample_mmap_ok _ sample_proper, of "\<lparr>errors = 0, reports = [], ranges = [], heap = mm0\<rparr>"]
    by fastforce
qed

end
