(* ===== verification/Whoosh.thy ===== *)
theory Whoosh
  imports Parse_Script
begin

text \<open>
  The interpreter of the \<open>whoosh\<close> shell, \<open>Shelllab/whoosh.c\<close>, over the syntax trees of
  \<open>Parse_Script\<close>. The record \<open>shell\<close> is one process that runs the program's code: its static
  variables, its variables' values, its signal mask, its descriptors and its children; \<open>fork\<close> copies it. The
  record \<open>world\<close> counts what the system has handed out and lists the program images that were
  asked for, in the order of the forks, and the signals that were sent. What the system and the
  programs decide is the parameter \<open>os\<close>. A process that runs into undefined behaviour makes the whole
  run \<open>Undefined\<close>; \<open>Fail\<close> is the end of the shell by \<open>unix_error\<close>. \<open>Pipe\<close> is called but is not defined in
  the repository: it is a field of \<open>os\<close>, of which nothing is assumed. Process groups, the copying of the
  descriptors at \<open>exec\<close> and limits on descriptors and processes are not modelled.

  The static arrays in which the shell keeps its children have size 0 and are never given another: every
  \<open>insertArray\<close> writes outside its block, so whatever a script runs, and however the system behaves, the run
  is undefined from the first \<open>fork\<close> on (\<open>main_outcome\<close>).
\<close>

section \<open>The system\<close>

text \<open>What a descriptor refers to: something open when the shell started, or an end of the pipe with
  the given number. A descriptor table is a list; positions beyond its end are closed.\<close>

datatype fobj = Inherited nat | Pipe_Read nat | Pipe_Write nat

definition fd_get :: "fobj option list \<Rightarrow> nat \<Rightarrow> fobj option" where
  "fd_get T n = (if n < length T then T ! n else None)"

definition fd_set :: "fobj option list \<Rightarrow> nat \<Rightarrow> fobj option \<Rightarrow> fobj option list" where
  "fd_set T n f = (T @ replicate (Suc n - length T) None)[n := f]"

definition fd_close :: "nat \<Rightarrow> fobj option list \<Rightarrow> fobj option list option" where
  "fd_close n T = (if fd_get T n = None then None else Some (fd_set T n None))"


text \<open>A program image: the process, its argument vector, the descriptors it starts with, and
  whether it starts with \<open>SIGINT\<close> blocked.\<close>

record proc =
  proc_pid :: int
  proc_argv :: "string list"
  proc_fds :: "nat \<Rightarrow> fobj option"
  proc_blocked :: bool

text \<open>For the \<open>n\<close>-th \<open>fork\<close>: the process id, whether \<open>execve\<close> succeeds in the child, and the wait status
  of the program it then runs. \<open>reap k\<close> chooses among the children at the \<open>k\<close>-th wait. \<open>Pipe\<close>, which the
  program calls and does not define, chooses the two descriptors.\<close>

record os =
  fork_pid :: "nat \<Rightarrow> int"
  can_exec :: "nat \<Rightarrow> string list \<Rightarrow> bool"
  wstatus :: "nat \<Rightarrow> int"
  reap :: "nat \<Rightarrow> nat"
  Pipe :: "fobj option list \<Rightarrow> nat \<times> nat"

record world =
  forks :: nat
  pipes :: nat
  waits :: nat
  launched :: "proc list"
  signals :: "(int \<times> int) list"

text \<open>The descriptors after \<open>Pipe\<close> has made the pipe \<open>p\<close>.\<close>

definition fd_pipe :: "os \<Rightarrow> nat \<Rightarrow> fobj option list \<Rightarrow> nat \<times> nat \<times> fobj option list" where
  "fd_pipe os p T =
    (let (a, b) = Pipe os T in (a, b, fd_set (fd_set T a (Some (Pipe_Read p))) b (Some (Pipe_Write p))))"

definition SIGTERM :: int where "SIGTERM = 15"

definition SIGTSTP :: int where "SIGTSTP = 20"

definition WUNTRACED :: int where "WUNTRACED = 2"

definition WIFEXITED :: "int \<Rightarrow> bool" where "WIFEXITED status \<longleftrightarrow> status mod 128 = 0"

definition WEXITSTATUS :: "int \<Rightarrow> int" where "WEXITSTATUS status = status div 256 mod 256"

definition WTERMSIG :: "int \<Rightarrow> int" where "WTERMSIG status = status mod 128"

definition WIFSIGNALED :: "int \<Rightarrow> bool" where
  "WIFSIGNALED status \<longleftrightarrow> status mod 128 \<noteq> 0 \<and> status mod 128 \<noteq> 127"

definition WIFSTOPPED :: "int \<Rightarrow> int" where
  "WIFSTOPPED status = (if status mod 256 = 127 then 1 else 0)"

section \<open>State\<close>

text \<open>\<open>a_array\<close> holds the \<open>used\<close> elements of a block with room for \<open>a_size\<close>. A block of size 0 has room for
  none, whatever \<open>realloc\<close> returns for it.\<close>

record Array =
  a_array :: "int list"
  a_size :: nat

definition insertArray :: "Array \<Rightarrow> int \<Rightarrow> Array outcome" where
  "insertArray a element =
    (let size' = (if length (a_array a) = a_size a then 2 * a_size a else a_size a)
     in if length (a_array a) < size'
        then Ok \<lparr>a_array = a_array a @ [element], a_size = size'\<rparr> else Undefined)"

definition freeArray :: "Array \<Rightarrow> Array" where
  "freeArray a = \<lparr>a_array = [], a_size = 0\<rparr>"

definition VAR :: nat where "VAR = 50"

record shell =
  shell_vars :: vars
  var_list :: "nat option list"
  var_index :: nat
  group_mode :: group_mode
  pid :: int
  "array" :: Array
  continued_list :: Array
  sigint_blocked :: bool
  fds :: "fobj option list"
  children :: "(int \<times> int) list"

text \<open>The state in which \<open>main\<close> starts, after parsing: the static variables are zero.\<close>

definition initial_shell :: "vars \<Rightarrow> fobj option list \<Rightarrow> shell" where
  "initial_shell vars T =
    \<lparr>shell_vars = vars, var_list = replicate VAR None, var_index = 0, group_mode = GROUP_SINGLE, pid = 0,
     array = \<lparr>a_array = [], a_size = 0\<rparr>, continued_list = \<lparr>a_array = [], a_size = 0\<rparr>,
     sigint_blocked = False, fds = T, children = []\<rparr>"

definition initial_world :: world where
  "initial_world = \<lparr>forks = 0, pipes = 0, waits = 0, launched = [], signals = []\<rparr>"

section \<open>Variables\<close>

definition set_var :: "nat option \<Rightarrow> int \<Rightarrow> shell \<Rightarrow> shell outcome" where
  "set_var var new_value s =
    (case var of None \<Rightarrow> Undefined
     | Some i \<Rightarrow>
         if i < length (shell_vars s)
         then Ok (s\<lparr>shell_vars := (shell_vars s)[i := (shell_vars s ! i)\<lparr>value := dec_int new_value\<rparr>]\<rparr>)
         else Undefined)"

text \<open>\<open>var_list[var_index] = var\<close>, and reading \<open>var_list[var_index]\<close>.\<close>

definition put_slot :: "nat option \<Rightarrow> shell \<Rightarrow> shell outcome" where
  "put_slot var s = (if var_index s < VAR then Ok (s\<lparr>var_list := (var_list s)[var_index s := var]\<rparr>) else Undefined)"

definition set_slot :: "int \<Rightarrow> shell \<Rightarrow> shell outcome" where
  "set_slot new_value s =
    (if var_index s < VAR then set_var (var_list s ! var_index s) new_value s else Undefined)"

definition set_status_to_list :: "int \<Rightarrow> shell \<Rightarrow> shell outcome" where
  "set_status_to_list status s =
    and_then
      (if WIFEXITED status then set_slot (WEXITSTATUS status) s
       else if WIFSIGNALED status then set_slot (-1 * WTERMSIG status) s
       else Ok s)
      (\<lambda>s. Ok (s\<lparr>var_index := Suc (var_index s)\<rparr>))"

text \<open>The statement \<open>if (command->pid_to != NULL) ...\<close> that follows each \<open>Fork\<close>.\<close>

definition set_pid_to :: "script_command \<Rightarrow> int \<Rightarrow> shell \<Rightarrow> shell outcome" where
  "set_pid_to command p s =
    (if pid_to command = None then Ok s
     else and_then (put_slot (pid_to command) s) (\<lambda>s. and_then (set_slot p s)
       (\<lambda>s. Ok (s\<lparr>var_index := Suc (var_index s)\<rparr>))))"

text \<open>\<open>if(WUNTRACED == WIFSTOPPED(status))\<close>\<close>

definition note_stopped :: "int \<Rightarrow> int \<Rightarrow> shell \<Rightarrow> shell outcome" where
  "note_stopped p status s =
    (if WUNTRACED = WIFSTOPPED status
     then and_then (insertArray (freeArray (continued_list s)) p) (\<lambda>a. Ok (s\<lparr>continued_list := a\<rparr>))
     else Ok s)"

section \<open>Programs and processes\<close>

primrec arg_value :: "vars \<Rightarrow> script_argument \<Rightarrow> string" where
  "arg_value vars (ARGUMENT_LITERAL l) = l"
| "arg_value vars (ARGUMENT_VARIABLE v) = value (vars ! v)"

primrec arg_in :: "vars \<Rightarrow> script_argument \<Rightarrow> bool" where
  "arg_in vars (ARGUMENT_LITERAL l) = True"
| "arg_in vars (ARGUMENT_VARIABLE v) = (v < length vars)"

definition make_argv :: "vars \<Rightarrow> script_command \<Rightarrow> string list outcome" where
  "make_argv vars command =
    (if list_all (arg_in vars) (arguments command)
     then Ok (program command # map (arg_value vars) (arguments command)) else Undefined)"

text \<open>\<open>Execve\<close> in the process of the \<open>n\<close>-th fork: its wait status. When \<open>execve\<close> fails, \<open>unix_error\<close>
  ends the process with status 0.\<close>

definition execve_as :: "os \<Rightarrow> nat \<Rightarrow> string list \<Rightarrow> shell \<Rightarrow> world \<Rightarrow> int \<times> world" where
  "execve_as os n argv s w =
    (if can_exec os n argv
     then (wstatus os n, w\<lparr>launched := launched w @
       [\<lparr>proc_pid = fork_pid os n, proc_argv = argv, proc_fds = fd_get (fds s), proc_blocked = sigint_blocked s\<rparr>]\<rparr>)
     else (0, w))"

definition run_and_command :: "os \<Rightarrow> nat \<Rightarrow> script_command \<Rightarrow> shell \<Rightarrow> world \<Rightarrow> (int \<times> world) outcome" where
  "run_and_command os n command s w =
    and_then (make_argv (shell_vars s) command) (\<lambda>argv. Ok (execve_as os n argv s w))"

text \<open>\<open>Wait(&status)\<close> and \<open>Waitpid(-1, &status, 0)\<close>; the process ids are positive.\<close>

definition Wait :: "os \<Rightarrow> shell \<Rightarrow> world \<Rightarrow> (int \<times> int \<times> shell \<times> world) outcome" where
  "Wait os s w =
    (if children s = [] then Fail ''Wait error''
     else let i = reap os (waits w) mod length (children s); c = children s ! i
       in Ok (fst c, snd c, s\<lparr>children := take i (children s) @ drop (Suc i) (children s)\<rparr>, w\<lparr>waits := Suc (waits w)\<rparr>))"

definition Kill :: "int \<Rightarrow> int \<Rightarrow> shell \<Rightarrow> world \<Rightarrow> world outcome" where
  "Kill p sig s w =
    (if p \<in> fst ` set (children s) then Ok (w\<lparr>signals := signals w @ [(p, sig)]\<rparr>) else Fail ''Kill error'')"

text \<open>\<open>Waitpid(p, NULL, 0)\<close>\<close>

definition Waitpid :: "int \<Rightarrow> shell \<Rightarrow> shell outcome" where
  "Waitpid p s =
    (if p \<in> fst ` set (children s) then Ok (s\<lparr>children := filter (\<lambda>c. fst c \<noteq> p) (children s)\<rparr>)
     else Fail ''Waitpid error'')"

section \<open>One command\<close>

text \<open>The child of \<open>run_command\<close>. It reads the argument vector that was made before the fork; when
  \<open>set_var\<close> has freed the value one of its entries points to, that read is undefined.\<close>

definition uses_pid_to :: "script_command \<Rightarrow> bool" where
  "uses_pid_to command \<longleftrightarrow>
    (case pid_to command of None \<Rightarrow> False | Some v \<Rightarrow> ARGUMENT_VARIABLE v \<in> set (arguments command))"

definition command_child :: "os \<Rightarrow> nat \<Rightarrow> string list \<Rightarrow> script_command \<Rightarrow> shell \<Rightarrow> world \<Rightarrow>
    (int \<times> world) outcome" where
  "command_child os n argv command s w =
    and_then (insertArray (freeArray (array s)) 0) (\<lambda>a.
    and_then (set_pid_to command 0 (s\<lparr>pid := 0, array := a\<rparr>)) (\<lambda>s.
      if uses_pid_to command then Undefined else Ok (execve_as os n argv s w)))"

text \<open>\<open>run_command\<close> up to the unblocking of \<open>SIGINT\<close>, in the shell.\<close>

definition start_command :: "os \<Rightarrow> script_command \<Rightarrow> shell \<Rightarrow> world \<Rightarrow> (shell \<times> world) outcome" where
  "start_command os command s w =
    and_then (make_argv (shell_vars s) command) (\<lambda>argv.
      let s = s\<lparr>sigint_blocked := True\<rparr>; n = forks w; p = fork_pid os n; w = w\<lparr>forks := Suc n\<rparr>
      in if p < 0 then Fail ''Fork error''
         else and_then (command_child os n argv command s w) (\<lambda>(status, w).
           and_then (insertArray (freeArray (array s)) p) (\<lambda>a.
           and_then (set_pid_to command p (s\<lparr>pid := p, array := a\<rparr>)) (\<lambda>s.
             Ok (s\<lparr>children := children s @ [(p, status)]\<rparr>, w)))))"

definition run_command :: "os \<Rightarrow> script_command \<Rightarrow> bool \<Rightarrow> shell \<Rightarrow> world \<Rightarrow> (shell \<times> world) outcome" where
  "run_command os command flag s w =
    and_then (start_command os command s w) (\<lambda>(s, w).
    and_then (Wait os (s\<lparr>sigint_blocked := False\<rparr>) w) (\<lambda>(to_delete, status, s, w).
    and_then (note_stopped to_delete status s) (\<lambda>s.
      if flag then and_then (set_status_to_list status s) (\<lambda>s. Ok (s, w)) else Ok (s, w))))"

text \<open>The handler of \<open>SIGINT\<close>; \<open>died\<close> says whether the process \<open>pid\<close> has ended by the time of the
  \<open>Waitpid(pid, &status, WNOHANG)\<close>.\<close>

fun kill_array :: "int list \<Rightarrow> shell \<Rightarrow> world \<Rightarrow> world outcome" where
  "kill_array [] s w = Ok w"
| "kill_array (p # ps) s w =
     (if p \<noteq> -1 then and_then (Kill p SIGTERM s w) (kill_array ps s) else kill_array ps s w)"

definition sigint_handler :: "bool \<Rightarrow> shell \<Rightarrow> world \<Rightarrow> (shell \<times> world) outcome" where
  "sigint_handler died s w =
    and_then (kill_array (a_array (array s)) s w) (\<lambda>w.
      if pid s \<in> fst ` set (children s)
      then if died then and_then (Waitpid (pid s) s) (\<lambda>s. Ok (s, w)) else Ok (s, w)
      else Fail ''Waitpid error'')"

section \<open>Alternatives\<close>

text \<open>The child that \<open>handle_or\<close> forks for a command, and the loop of forks; it returns \<open>pid_list\<close>.\<close>

definition or_child :: "os \<Rightarrow> nat \<Rightarrow> script_command \<Rightarrow> shell \<Rightarrow> world \<Rightarrow> (int \<times> world) outcome" where
  "or_child os n command s w =
    and_then (insertArray (array s) 0) (\<lambda>a.
    and_then (set_pid_to command 0 (s\<lparr>array := a\<rparr>)) (\<lambda>s. run_and_command os n command s w))"

fun fork_all :: "os \<Rightarrow> script_command list \<Rightarrow> shell \<Rightarrow> world \<Rightarrow> (int list \<times> shell \<times> world) outcome" where
  "fork_all os [] s w = Ok ([], s, w)"
| "fork_all os (command # cmds) s w =
     (let n = forks w; p = fork_pid os n; w = w\<lparr>forks := Suc n\<rparr>
      in if p < 0 then Fail ''Fork error''
         else and_then (or_child os n command s w) (\<lambda>(status, w).
           and_then (fork_all os cmds (s\<lparr>children := children s @ [(p, status)]\<rparr>) w) (\<lambda>(pid_list, s, w).
             Ok (p # pid_list, s, w))))"

fun kill_others :: "int \<Rightarrow> int list \<Rightarrow> shell \<Rightarrow> world \<Rightarrow> (shell \<times> world) outcome" where
  "kill_others first_pid [] s w = Ok (s, w)"
| "kill_others first_pid (p # pid_list) s w =
     (if p \<noteq> first_pid
      then and_then (Kill p SIGTERM s w) (\<lambda>w. and_then (Waitpid p s) (\<lambda>s. kill_others first_pid pid_list s w))
      else kill_others first_pid pid_list s w)"

text \<open>An array of no elements may not be declared.\<close>

definition handle_or :: "os \<Rightarrow> script_group \<Rightarrow> bool \<Rightarrow> shell \<Rightarrow> world \<Rightarrow> (shell \<times> world) outcome" where
  "handle_or os grp flag s w =
    (if commands grp = [] then Undefined
     else and_then (fork_all os (commands grp) (s\<lparr>sigint_blocked := True\<rparr>) w) (\<lambda>(pid_list, s, w).
       and_then (Wait os s w) (\<lambda>(first_pid, status, s, w).
       and_then (note_stopped first_pid status s) (\<lambda>s.
       and_then (kill_others first_pid pid_list s w) (\<lambda>(s, w).
         if flag then and_then (set_status_to_list status s) (\<lambda>s. Ok (s, w)) else Ok (s, w))))))"

section \<open>Pipelines\<close>

definition redirect :: "nat \<Rightarrow> nat \<Rightarrow> fobj option list \<Rightarrow> fobj option list option" where
  "redirect oldfd newfd T =
    (if oldfd \<noteq> newfd
     then if fd_get T oldfd = None then None else fd_close oldfd (fd_set T newfd (fd_get T oldfd))
     else Some T)"

text \<open>The process of one command of a pipeline but the last. A system call that fails ends it with status 0.\<close>

definition pipe_child :: "os \<Rightarrow> nat \<Rightarrow> script_command \<Rightarrow> nat \<Rightarrow> nat \<Rightarrow> nat \<Rightarrow> shell \<Rightarrow> world \<Rightarrow>
    (int \<times> world) outcome" where
  "pipe_child os n command in_fd fd0 fd1 s w =
    and_then (insertArray (freeArray (array s)) 0) (\<lambda>a.
    and_then (set_pid_to command 0 (s\<lparr>pid := 0, array := a\<rparr>)) (\<lambda>s.
      case Option.bind (Option.bind (fd_close fd0 (fds s)) (redirect in_fd 0)) (redirect fd1 1) of
        None \<Rightarrow> Ok (0, w)
      | Some T \<Rightarrow> run_and_command os n command (s\<lparr>fds := T\<rparr>) w))"

text \<open>\<open>handle_pipe\<close> in the child shell, which is the process of fork \<open>m\<close>, for the commands from \<open>pos\<close>
  on: the wait status of that process. The last command replaces the child shell.\<close>

fun handle_pipe :: "os \<Rightarrow> nat \<Rightarrow> script_command list \<Rightarrow> nat \<Rightarrow> shell \<Rightarrow> world \<Rightarrow> (int \<times> world) outcome" where
  "handle_pipe os m [] in_fd s w = Undefined"
| "handle_pipe os m [command] in_fd s w =
     (case redirect in_fd 0 (fds s) of
        None \<Rightarrow> Ok (0, w)
      | Some T \<Rightarrow> run_and_command os m command (s\<lparr>sigint_blocked := False, fds := T\<rparr>) w)"
| "handle_pipe os m (command # next # cmds) in_fd s w =
     (let (fd0, fd1, T) = fd_pipe os (pipes w) (fds s);
          s = s\<lparr>fds := T, sigint_blocked := True\<rparr>;
          n = forks w; p = fork_pid os n; w = w\<lparr>pipes := Suc (pipes w), forks := Suc n\<rparr>
      in if p < 0 then Ok (0, w)
         else and_then (pipe_child os n command in_fd fd0 fd1 s w) (\<lambda>(_, w).
           and_then (insertArray (freeArray (array s)) p) (\<lambda>a.
           and_then (set_pid_to command p (s\<lparr>pid := p, array := a\<rparr>)) (\<lambda>s.
             case Option.bind (fd_close fd1 T) (fd_close in_fd) of
               None \<Rightarrow> Ok (0, w)
             | Some T \<Rightarrow> handle_pipe os m (next # cmds) fd0 (s\<lparr>fds := T\<rparr>) w))))"

section \<open>Groups and scripts\<close>

text \<open>The branch of \<open>run_group\<close> for \<open>GROUP_AND\<close>.\<close>

definition run_pipe :: "os \<Rightarrow> script_group \<Rightarrow> shell \<Rightarrow> world \<Rightarrow> (shell \<times> world) outcome" where
  "run_pipe os grp s w =
    (let n = forks w; p = fork_pid os n; w = w\<lparr>forks := Suc n\<rparr>
     in if p < 0 then Fail ''Fork error''
        else and_then (handle_pipe os n (commands grp) 0 (s\<lparr>pid := 0, children := []\<rparr>) w) (\<lambda>(status, w).
          and_then (Wait os (s\<lparr>pid := p, children := children s @ [(p, status)]\<rparr>) w) (\<lambda>(_, _, s, w). Ok (s, w))))"

fun run_commands :: "os \<Rightarrow> script_command list \<Rightarrow> bool \<Rightarrow> shell \<Rightarrow> world \<Rightarrow> (shell \<times> world) outcome" where
  "run_commands os [] flag s w = Ok (s, w)"
| "run_commands os (command # cmds) flag s w =
     and_then (run_command os command flag s w) (\<lambda>(s, w). run_commands os cmds flag s w)"

definition run_once :: "os \<Rightarrow> script_group \<Rightarrow> bool \<Rightarrow> shell \<Rightarrow> world \<Rightarrow> (shell \<times> world) outcome" where
  "run_once os grp flag s w =
    (if length (commands grp) = 1 then run_command os (commands grp ! 0) flag s w
     else case group_mode s of
         GROUP_AND \<Rightarrow> run_pipe os grp s w
       | GROUP_OR \<Rightarrow> handle_or os grp flag s w
       | GROUP_SINGLE \<Rightarrow> run_commands os (commands grp) flag s w)"

primrec run_repeat :: "os \<Rightarrow> script_group \<Rightarrow> bool \<Rightarrow> nat \<Rightarrow> shell \<Rightarrow> world \<Rightarrow> (shell \<times> world) outcome" where
  "run_repeat os grp flag 0 s w = Ok (s, w)"
| "run_repeat os grp flag (Suc k) s w =
     and_then (run_once os grp flag s w) (\<lambda>(s, w). run_repeat os grp flag k s w)"

definition run_group :: "os \<Rightarrow> script_group \<Rightarrow> shell \<Rightarrow> world \<Rightarrow> (shell \<times> world) outcome" where
  "run_group os grp s w =
    (let s = s\<lparr>group_mode := mode grp\<rparr>; flag = (result_to grp \<noteq> None)
     in and_then (if flag then put_slot (result_to grp) s else Ok s)
          (\<lambda>s. run_repeat os grp flag (nat (repeats grp)) s w))"

fun run_groups :: "os \<Rightarrow> script_group list \<Rightarrow> shell \<Rightarrow> world \<Rightarrow> (shell \<times> world) outcome" where
  "run_groups os [] s w = Ok (s, w)"
| "run_groups os (grp # groups) s w =
     and_then (run_group os grp s w) (\<lambda>(s, w).
       run_groups os groups (s\<lparr>array := freeArray (array s)\<rparr>) w)"

fun stop_continued :: "int list \<Rightarrow> shell \<Rightarrow> world \<Rightarrow> (shell \<times> world) outcome" where
  "stop_continued [] s w = Ok (s, w)"
| "stop_continued (p # ps) s w =
     and_then (Kill p SIGTSTP s w) (\<lambda>w. and_then (Waitpid p s) (\<lambda>s. stop_continued ps s w))"

definition run_script :: "os \<Rightarrow> script \<Rightarrow> shell \<Rightarrow> world \<Rightarrow> (shell \<times> world) outcome" where
  "run_script os scr s w =
    (if length scr = 1 then run_group os (scr ! 0) s w
     else and_then (run_groups os scr s w) (\<lambda>(s, w). stop_continued (a_array (continued_list s)) s w))"

text \<open>\<open>main\<close>: the file system, the standard input and the descriptors are what the process starts with.\<close>

definition main :: "os \<Rightarrow> (string \<Rightarrow> string + string) \<Rightarrow> string \<Rightarrow> fobj option list \<Rightarrow> string list \<Rightarrow>
    (shell \<times> world) outcome" where
  "main os files stdin T argv =
    (if length argv \<noteq> 1 \<and> length argv \<noteq> 2
     then if argv = [] then Undefined else Fail (''usage: '' @ (argv ! 0) @ '' [<script-file>]'' @ nl)
     else and_then
       (if 1 < length argv then parse_script_file [] (argv ! 1) (files (argv ! 1))
        else parse_script_file [] [] (Inr stdin))
       (\<lambda>(scr, vars). run_script os scr (initial_shell vars T) initial_world))"

section \<open>One repetition of a group\<close>

text \<open>Nothing calls \<open>initArray\<close>, and doubling leaves the size 0 as it is: the first insertion is out of bounds.\<close>

definition unsized :: "shell \<Rightarrow> bool" where
  "unsized s \<longleftrightarrow> array s = \<lparr>a_array = [], a_size = 0\<rparr>"

lemma insertArray_unsized [simp]: "insertArray \<lparr>a_array = [], a_size = 0\<rparr> x = Undefined"
  by (simp add: insertArray_def)

lemma insertArray_freed [simp]: "insertArray (freeArray a) x = Undefined"
  by (simp add: insertArray_def freeArray_def)

lemma make_argv_Ok: "command_ok (length vars) c \<Longrightarrow> \<exists>argv. make_argv vars c = Ok argv"
proof -
  assume "command_ok (length vars) c"
  moreover have "arg_in vars a" if "arg_ok (length vars) a" for a
    using that by (cases a) simp_all
  ultimately have "list_all (arg_in vars) (arguments c)"
    by (simp add: command_ok_def list_all_iff)
  then show ?thesis by (simp add: make_argv_def)
qed


text \<open>\<open>forks_ok\<close>: no \<open>fork\<close> fails.\<close>

definition forks_ok :: "os \<Rightarrow> bool" where
  "forks_ok os \<longleftrightarrow> (\<forall>n. 0 < fork_pid os n)"

lemma run_command_stops:
  assumes "command_ok (length (shell_vars s)) c"
  shows "forks_ok os \<Longrightarrow> run_command os c flag s w = Undefined"
    and "fork_pid os (forks w) < 0 \<Longrightarrow> run_command os c flag s w = Fail ''Fork error''"
  using make_argv_Ok [OF assms] less_not_sym
  by (fastforce simp: run_command_def start_command_def command_child_def Let_def forks_ok_def)+

lemma run_pipe_stops:
  assumes "2 \<le> length (commands grp)"
  shows "forks_ok os \<Longrightarrow> run_pipe os grp s w = Undefined"
    and "fork_pid os (forks w) < 0 \<Longrightarrow> run_pipe os grp s w = Fail ''Fork error''"
proof -
  obtain c d cs where cmds: "commands grp = c # d # cs"
    using assms by (metis One_nat_def Suc_1 Suc_le_length_iff)
  show "forks_ok os \<Longrightarrow> run_pipe os grp s w = Undefined"
    using less_not_sym by (fastforce simp: cmds run_pipe_def pipe_child_def Let_def forks_ok_def split: prod.split)
  show "fork_pid os (forks w) < 0 \<Longrightarrow> run_pipe os grp s w = Fail ''Fork error''"
    by (simp add: run_pipe_def Let_def)
qed

lemma handle_or_stops:
  assumes "commands grp \<noteq> []" "unsized s"
  shows "forks_ok os \<Longrightarrow> handle_or os grp flag s w = Undefined"
    and "fork_pid os (forks w) < 0 \<Longrightarrow> handle_or os grp flag s w = Fail ''Fork error''"
proof -
  obtain c cs where cmds: "commands grp = c # cs"
    using assms(1) by (cases "commands grp") auto
  show "forks_ok os \<Longrightarrow> handle_or os grp flag s w = Undefined"
    using less_not_sym assms(2) by (fastforce simp: cmds handle_or_def or_child_def Let_def forks_ok_def unsized_def)
  show "fork_pid os (forks w) < 0 \<Longrightarrow> handle_or os grp flag s w = Fail ''Fork error''"
    by (simp add: cmds handle_or_def Let_def)
qed

lemma run_once_stops:
  assumes "group_ok (length (shell_vars s)) grp" "unsized s" "group_mode s = mode grp"
  shows "forks_ok os \<Longrightarrow> run_once os grp flag s w = Undefined"
    and "fork_pid os (forks w) < 0 \<Longrightarrow> run_once os grp flag s w = Fail ''Fork error''"
proof -
  obtain c cs where cmds: "commands grp = c # cs" and c: "command_ok (length (shell_vars s)) c"
    using assms(1) by (cases "commands grp") (auto simp: group_ok_def mode_ok_def split: group_mode.splits)
  note stops = run_command_stops [OF c] run_pipe_stops [where grp = grp] handle_or_stops [where grp = grp]
  show "forks_ok os \<Longrightarrow> run_once os grp flag s w = Undefined"
    using stops assms(2) by (cases cs) (auto simp: cmds run_once_def split: group_mode.split)
  show "fork_pid os (forks w) < 0 \<Longrightarrow> run_once os grp flag s w = Fail ''Fork error''"
    using stops assms(2) by (cases cs) (auto simp: cmds run_once_def split: group_mode.split)
qed

section \<open>What the parser hands over\<close>

lemma group_ok_mono: "group_ok n grp \<Longrightarrow> n \<le> n' \<Longrightarrow> group_ok n' grp"
  using ref_ok_mono command_ok_mono by (auto simp: group_ok_def)

lemma parse_line_groups:
  "parse_line vars line = Ok (g, vars') \<Longrightarrow>
    grows vars vars' \<and> (\<forall>grp. g = Some grp \<longrightarrow> group_ok (length vars') grp)"
  by (auto simp: parse_line_def Let_def dest!: parse_group_ok split: if_splits)

lemma parse_lines_groups:
  "parse_lines vars s scr = Ok (scr', vars') \<Longrightarrow> \<forall>grp\<in>set scr. group_ok (length vars) grp \<Longrightarrow>
    grows vars vars' \<and> (\<forall>grp\<in>set scr'. group_ok (length vars') grp)"
proof (induction vars s scr rule: parse_lines.induct)
  case (1 vars scr)
  then show ?case by simp
next
  case (2 vars c s scr)
  obtain line rest where line: "fgets (MAX_LINE_LENGTH - 1) (c # s) = (line, rest)"
    by fastforce
  obtain g vs where g: "parse_line vars line = Ok (g, vs)"
    and rest: "parse_lines vs rest (scr @ (case g of None \<Rightarrow> [] | Some g \<Rightarrow> [g])) = Ok (scr', vars')"
    using 2(2) by (auto simp: line simp del: fgets.simps One_nat_def)
  have vs: "grows vars vs" "\<forall>grp. g = Some grp \<longrightarrow> group_ok (length vs) grp"
    using parse_line_groups [OF g] by simp_all
  then have "\<forall>grp\<in>set (scr @ (case g of None \<Rightarrow> [] | Some g \<Rightarrow> [g])). group_ok (length vs) grp"
    using 2(3) group_ok_mono grows_length by (fastforce split: option.splits)
  from 2(1) [OF line [symmetric] g refl rest this] show ?case
    using vs(1) grows_trans by blast
qed

lemma map_value_zero: "map value vars = replicate (length vars) ''0'' \<longleftrightarrow> (\<forall>v\<in>set vars. value v = ''0'')"
  by (induction vars) auto

lemma parse_script_file_groups:
  assumes "parse_script_file [] file contents = Ok (scr, vars)"
  shows "(\<forall>grp\<in>set scr. group_ok (length vars) grp) \<and> map value vars = replicate (length vars) ''0''"
  using assms parse_lines_groups [of "[]" _ "[]" scr vars]
  by (auto simp: parse_script_file_def grows_def map_value_zero split: sum.splits)

section \<open>What a script comes to\<close>

text \<open>The shell between two groups, as long as no command has been run.\<close>

definition untouched :: "shell \<Rightarrow> bool" where
  "untouched s \<longleftrightarrow> unsized s \<and> var_index s = 0 \<and> a_array (continued_list s) = [] \<and> children s = []"

lemma put_slot_first: "var_index s = 0 \<Longrightarrow> put_slot v s = Ok (s\<lparr>var_list := (var_list s)[0 := v]\<rparr>)"
  by (simp add: put_slot_def VAR_def)

lemma run_group_none:
  assumes "untouched s" "repeats grp \<le> 0"
  shows "\<exists>s'. run_group os grp s w = Ok (s', w) \<and> untouched s' \<and> shell_vars s' = shell_vars s \<and> fds s' = fds s"
  using assms by (auto simp: run_group_def Let_def put_slot_first untouched_def unsized_def)

lemma run_group_stops:
  assumes "untouched s" "group_ok (length (shell_vars s)) grp" "0 < repeats grp"
  shows "forks_ok os \<Longrightarrow> run_group os grp s w = Undefined"
    and "fork_pid os (forks w) < 0 \<Longrightarrow> run_group os grp s w = Fail ''Fork error''"
proof -
  obtain k where k: "nat (repeats grp) = Suc k"
    using assms(3) by (metis gr0_implies_Suc zero_less_nat_eq)
  note once = run_once_stops [where grp = grp and os = os and w = w]
  show "forks_ok os \<Longrightarrow> run_group os grp s w = Undefined"
    using assms(1,2) by (auto simp: run_group_def Let_def k put_slot_first untouched_def unsized_def once)
  show "fork_pid os (forks w) < 0 \<Longrightarrow> run_group os grp s w = Fail ''Fork error''"
    using assms(1,2) by (auto simp: run_group_def Let_def k put_slot_first untouched_def unsized_def once)
qed

lemma run_groups_none:
  "untouched s \<Longrightarrow> \<forall>grp\<in>set scr. repeats grp \<le> 0 \<Longrightarrow>
    \<exists>s'. run_groups os scr s w = Ok (s', w) \<and> untouched s' \<and> shell_vars s' = shell_vars s \<and> fds s' = fds s"
proof (induction scr arbitrary: s)
  case Nil
  then show ?case by simp
next
  case (Cons grp scr)
  obtain s1 where s1: "run_group os grp s w = Ok (s1, w)" "untouched s1" "shell_vars s1 = shell_vars s" "fds s1 = fds s"
    using run_group_none Cons.prems by fastforce
  then have "untouched (s1\<lparr>array := freeArray (array s1)\<rparr>)"
    by (simp add: untouched_def unsized_def freeArray_def)
  then show ?case
    using Cons.IH [of "s1\<lparr>array := freeArray (array s1)\<rparr>"] Cons.prems(2) s1 by auto
qed

lemma run_groups_stops:
  "untouched s \<Longrightarrow> \<forall>grp\<in>set scr. group_ok (length (shell_vars s)) grp \<Longrightarrow> \<exists>grp\<in>set scr. 0 < repeats grp \<Longrightarrow>
    (forks_ok os \<longrightarrow> run_groups os scr s w = Undefined) \<and>
    (fork_pid os (forks w) < 0 \<longrightarrow> run_groups os scr s w = Fail ''Fork error'')"
proof (induction scr arbitrary: s)
  case Nil
  then show ?case by simp
next
  case (Cons grp scr)
  show ?case
  proof (cases "0 < repeats grp")
    case True
    then show ?thesis
      using run_group_stops [of s grp] Cons.prems by simp
  next
    case False
    then obtain s1 where s1: "run_group os grp s w = Ok (s1, w)" "untouched s1" "shell_vars s1 = shell_vars s"
      using run_group_none [of s grp] Cons.prems(1) by fastforce
    then have "untouched (s1\<lparr>array := freeArray (array s1)\<rparr>)"
      by (simp add: untouched_def unsized_def freeArray_def)
    then show ?thesis
      using Cons.IH [of "s1\<lparr>array := freeArray (array s1)\<rparr>"] Cons.prems False s1 by auto
  qed
qed

lemma run_script_none:
  assumes "untouched s" "\<forall>grp\<in>set scr. repeats grp \<le> 0"
  shows "\<exists>s'. run_script os scr s w = Ok (s', w) \<and> untouched s' \<and> shell_vars s' = shell_vars s \<and> fds s' = fds s"
proof (cases "length scr = 1")
  case True
  then show ?thesis
    using run_group_none [OF assms(1), of "scr ! 0" os w] assms(2) by (auto simp: run_script_def)
next
  case False
  then show ?thesis
    using run_groups_none [OF assms, of os w] by (auto simp: run_script_def untouched_def)
qed

lemma run_script_stops:
  assumes "untouched s" "\<forall>grp\<in>set scr. group_ok (length (shell_vars s)) grp" "\<exists>grp\<in>set scr. 0 < repeats grp"
  shows "(forks_ok os \<longrightarrow> run_script os scr s w = Undefined) \<and>
    (fork_pid os (forks w) < 0 \<longrightarrow> run_script os scr s w = Fail ''Fork error'')"
proof (cases "length scr = 1")
  case True
  then obtain grp where "scr = [grp]" by (metis One_nat_def length_0_conv length_Suc_conv)
  then show ?thesis
    using run_group_stops [of s grp] assms by (simp add: run_script_def)
next
  case False
  then show ?thesis
    using run_groups_stops [OF assms, of os w] by (auto simp: run_script_def)
qed

text \<open>C7. What the shell comes to, for every script that its parser accepts, from a file or from the standard input.
  If every group is to be repeated 0 times, \<open>main\<close> returns without having forked, launched, waited or
  signalled, with the values of the variables and the descriptors as they were. If some group is to be run, the run has undefined behaviour
  whatever the system and the programs do, as long as no \<open>fork\<close> fails: the first insertion into the array
  of children writes outside a block of no bytes, as nothing gives the array a size. If the first \<open>fork\<close> fails the shell ends with
  that error. So no command that a script asks for is ever run as C defines it.\<close>

theorem main_outcome:
  assumes "length argv = 1 \<or> length argv = 2"
    and "(if length argv = 2 then parse_script_file [] (argv ! 1) (files (argv ! 1))
      else parse_script_file [] [] (Inr stdin)) = Ok (scr, vars)"
  shows "((\<forall>grp\<in>set scr. repeats grp = 0) \<longrightarrow>
      (\<exists>s. Whoosh.main os files stdin T argv = Ok (s, initial_world) \<and> shell_vars s = vars \<and> fds s = T \<and> children s = [])) \<and>
    ((\<exists>grp\<in>set scr. 0 < repeats grp) \<and> (\<forall>n. 0 < fork_pid os n) \<longrightarrow> Whoosh.main os files stdin T argv = Undefined) \<and>
    ((\<exists>grp\<in>set scr. 0 < repeats grp) \<and> fork_pid os 0 < 0 \<longrightarrow> Whoosh.main os files stdin T argv = Fail ''Fork error'')"
proof -
  let ?s = "initial_shell vars T"
  have s: "untouched ?s" "shell_vars ?s = vars" "fds ?s = T" "forks initial_world = 0"
    by (simp_all add: untouched_def unsized_def initial_shell_def initial_world_def)
  have groups: "\<forall>grp\<in>set scr. group_ok (length vars) grp"
    using assms(2) parse_script_file_groups by (auto split: if_splits)
  have "Whoosh.main os files stdin T argv = run_script os scr ?s initial_world"
    using assms by (auto simp: Whoosh.main_def)
  then show ?thesis
    using run_script_none [OF s(1), of scr os initial_world] run_script_stops [OF s(1), of scr os initial_world] s groups
    by (auto simp: untouched_def forks_ok_def)
qed

text \<open>A system where no \<open>fork\<close> fails; \<open>$x = a || b\<close> and then \<open>c $x\<close>, and a group that is never run.\<close>

definition sample_os :: os where
  "sample_os = \<lparr>fork_pid = \<lambda>n. int n + 100, can_exec = \<lambda>_ _. True, wstatus = \<lambda>_. 7 * 256, reap = \<lambda>_. 1,
    Pipe = \<lambda>T. (3, 4)\<rparr>"

definition sample_fds :: "fobj option list" where
  "sample_fds = [Some (Inherited 0), Some (Inherited 1), Some (Inherited 2)]"

theorem main_outcome_witness:
  "Whoosh.main sample_os (\<lambda>_. Inl []) (''$x = a || b'' @ nl @ ''c $x'' @ nl) sample_fds [''whoosh''] = Undefined \<and>
    (\<exists>s. Whoosh.main sample_os (\<lambda>_. Inl []) (''repeat 0 c | d'' @ nl) sample_fds [''whoosh''] = Ok (s, initial_world))"
proof -
  define scr :: script where "scr =
    [\<lparr>mode = GROUP_OR, repeats = 1, result_to = Some 0,
      commands = [\<lparr>program = ''a'', arguments = [], pid_to = None\<rparr>, \<lparr>program = ''b'', arguments = [], pid_to = None\<rparr>]\<rparr>,
     \<lparr>mode = GROUP_SINGLE, repeats = 1, result_to = None,
      commands = [\<lparr>program = ''c'', arguments = [ARGUMENT_VARIABLE 0], pid_to = None\<rparr>]\<rparr>]"
  define scr0 :: script where "scr0 =
    [\<lparr>mode = GROUP_AND, repeats = 0, result_to = None,
      commands = [\<lparr>program = ''c'', arguments = [], pid_to = None\<rparr>, \<lparr>program = ''d'', arguments = [], pid_to = None\<rparr>]\<rparr>]"
  have 1: "parse_script_file [] [] (Inr (''$x = a || b'' @ nl @ ''c $x'' @ nl)) = Ok (scr, [\<lparr>name = ''x'', value = ''0''\<rparr>])"
    unfolding scr_def by code_simp
  have 2: "parse_script_file [] [] (Inr (''repeat 0 c | d'' @ nl)) = Ok (scr0, [])"
    unfolding scr0_def by code_simp
  have "\<forall>n. 0 < fork_pid sample_os n" by (simp add: sample_os_def)
  then show ?thesis
    using main_outcome [of "[''whoosh'']" "\<lambda>_. Inl []" _ scr _ sample_os sample_fds]
      main_outcome [of "[''whoosh'']" "\<lambda>_. Inl []" _ scr0 _ sample_os sample_fds] 1 2
    by (fastforce simp: scr_def scr0_def)
qed

section \<open>Interrupts\<close>

text \<open>The handler that \<open>run_script\<close> installs waits for \<open>pid\<close> with \<open>Waitpid\<close>, so an interrupt before the first \<open>fork\<close>
  ends the shell with an error.\<close>

lemma interrupt_without_child: "untouched s \<Longrightarrow> sigint_handler died s w = Fail ''Waitpid error''"
  by (simp add: sigint_handler_def untouched_def unsized_def)

text \<open>It sends \<open>SIGTERM\<close> to every entry of the array, in order.\<close>

lemma kill_array_signals:
  "\<forall>p\<in>set ps. p \<noteq> -1 \<longrightarrow> p \<in> fst ` set (children s) \<Longrightarrow>
    kill_array ps s w = Ok (w\<lparr>signals := signals w @ map (\<lambda>p. (p, SIGTERM)) (filter (\<lambda>p. p \<noteq> -1) ps)\<rparr>)"
  by (induction ps arbitrary: w) (auto simp: Kill_def)

end
