(* ===== verification/Matchlab.thy ===== *)
theory Matchlab
  imports C_Prelude
begin

text \<open>
  The pattern matcher \<open>Matchlab/matchlab.c\<close>: three recognisers with their conversions and the command
  line. A loop of the code that scans the string is a function over the rest of the string that
  ends with \<open>Inl r\<close> (the code returns \<open>r\<close>) or \<open>Inr\<close> the variables after the loop. \<open>None\<close> is undefined
  behaviour. What \<open>malloc\<close> returns holds indeterminate bytes: the parameter \<open>junk k n\<close> is the contents
  of the \<open>k\<close>th block of a call, of \<open>n\<close> bytes.
\<close>

section \<open>Strings and byte buffers\<close>

type_synonym bytes = "char list"
type_synonym junk = "nat \<Rightarrow> nat \<Rightarrow> bytes"

text \<open>\<open>sequence[i]\<close>, with the terminator at the end.\<close>

definition ch :: "string \<Rightarrow> nat \<Rightarrow> char option" where
  "ch s i = (if i < length s then Some (s ! i) else if i = length s then Some NUL else None)"

definition wr :: "bytes \<Rightarrow> nat \<Rightarrow> char \<Rightarrow> bytes option" where
  "wr b i c = (if i < length b then Some (b[i := c]) else None)"

fun bstrlen :: "bytes \<Rightarrow> nat option" where
  "bstrlen [] = None"
| "bstrlen (c # b) = (if c = NUL then Some 0 else map_option Suc (bstrlen b))"

text \<open>\<open>strcmp(a, b) == 0\<close>, byte by byte.\<close>

fun bstreq :: "bytes \<Rightarrow> bytes \<Rightarrow> bool option" where
  "bstreq (c # a) (d # b) = (if c \<noteq> d then Some False else if c = NUL then Some True else bstreq a b)"
| "bstreq _ _ = None"

section \<open>Model A\<close>

fun a_scan_l :: "string \<Rightarrow> nat \<Rightarrow> nat option \<Rightarrow> nat \<Rightarrow> int + nat option" where
  "a_scan_l [] i index l_num = Inr index"
| "a_scan_l (c # cs) i index l_num =
    (if c = CHR ''l'' then a_scan_l cs (i + 1) (Some i) (l_num + 1)
     else if l_num \<le> 3 then Inr (Some i)
     else Inl 0)"

fun a_scan_t :: "string \<Rightarrow> nat \<Rightarrow> nat \<Rightarrow> nat \<Rightarrow> int + nat" where
  "a_scan_t [] i index t_num = Inr index"
| "a_scan_t (c # cs) i index t_num =
    (if c = CHR ''t'' then a_scan_t cs (i + 1) i (t_num + 1)
     else if 1 \<le> t_num \<and> t_num \<le> 5 then Inr i
     else Inl 0)"

fun scan_digits :: "string \<Rightarrow> nat \<Rightarrow> int" where
  "scan_digits [] dig_num = 0"
| "scan_digits (c # cs) dig_num =
    (if isdigit c then
       if cs = [] \<and> 1 \<le> dig_num + 1 \<and> dig_num + 1 \<le> 3 then 1 else scan_digits cs (dig_num + 1)
     else 0)"

definition is_a_model :: "string \<Rightarrow> int option" where
  "is_a_model s =
    (case a_scan_l s 0 None 0 of
       Inl r \<Rightarrow> Some r
     | Inr index \<Rightarrow> do {
         index \<leftarrow> index;
         c \<leftarrow> ch s (index + 1);
         if c = NUL then Some 0
         else (case a_scan_t (drop index s) index index 0 of
                 Inl r \<Rightarrow> Some r
               | Inr index \<Rightarrow> Some (scan_digits (drop index s) 0))
       })"

function a_convert :: "nat \<Rightarrow> string \<Rightarrow> string" where
  "a_convert i s =
    (if i < length s then
       a_convert (i + 1)
         (if s ! i = CHR ''D'' then s[i := CHR ''F''] else if s ! i = CHR ''F'' then s[i := CHR ''D''] else s)
     else s)"
  by pat_completeness auto
termination
  by (relation "measure (\<lambda>(i, s). length s - i)") auto

declare a_convert.simps [simp del]

definition a_model_conversion :: "string \<Rightarrow> string" where
  "a_model_conversion s = a_convert 0 s"

section \<open>Model B\<close>

text \<open>\<open>i\<close> is an \<open>int\<close> and \<open>j\<close> a \<open>size_t\<close>: for the empty string \<open>j\<close> starts at \<open>2 ^ 64 - 1\<close>.\<close>

function reverse_loop :: "nat \<Rightarrow> nat \<Rightarrow> bytes \<Rightarrow> bytes option" where
  "reverse_loop i j b =
    (if i < j then
       if j < length b then reverse_loop (i + 1) (j - 1) (b[i := b ! j, j := b ! i]) else None
     else Some b)"
  by pat_completeness auto
termination
  by (relation "measure (\<lambda>(i, j, b). j - i)") auto

declare reverse_loop.simps [simp del]

definition str_reverse :: "bytes \<Rightarrow> bytes option" where
  "str_reverse b = do { n \<leftarrow> bstrlen b; reverse_loop 0 (sz_sub n 1) b }"

text \<open>The loops over \<open>i\<close> and \<open>p\<close> (two or more), and over \<open>u\<close> and \<open>f\<close> (an odd number).\<close>

fun scan_many :: "char \<Rightarrow> string \<Rightarrow> nat \<Rightarrow> nat \<Rightarrow> nat \<Rightarrow> int + nat" where
  "scan_many x [] i index n = Inr index"
| "scan_many x (c # cs) i index n =
    (if c = x then scan_many x cs (i + 1) i (n + 1)
     else if 2 \<le> n then Inr i
     else Inl 0)"

fun scan_odd :: "char \<Rightarrow> string \<Rightarrow> nat \<Rightarrow> nat \<Rightarrow> nat \<Rightarrow> int + nat" where
  "scan_odd x [] i index n = Inr index"
| "scan_odd x (c # cs) i index n =
    (if c = x then scan_odd x cs (i + 1) i (n + 1)
     else if odd n then Inr i
     else Inl 0)"

fun b_scan_number :: "string \<Rightarrow> nat \<Rightarrow> nat \<Rightarrow> nat \<Rightarrow> bytes \<Rightarrow> (int + nat \<times> bytes) option" where
  "b_scan_number [] i index digit_count tem_str = Some (Inr (index, tem_str))"
| "b_scan_number (c # cs) i index digit_count tem_str =
    (if isdigit c then do {
       tem_str \<leftarrow> wr tem_str digit_count c;
       b_scan_number cs (i + 1) i (digit_count + 1) tem_str
     }
     else if 1 \<le> digit_count \<and> digit_count \<le> 3 then Some (Inr (i, tem_str))
     else Some (Inl 0))"

fun b_scan_again :: "string \<Rightarrow> nat \<Rightarrow> nat \<Rightarrow> nat \<Rightarrow> bytes \<Rightarrow> bytes \<Rightarrow> (int + nat \<times> bytes) option" where
  "b_scan_again [] i index tmp_index tem_str temp_for_cmp = Some (Inr (index, temp_for_cmp))"
| "b_scan_again (c # cs) i index tmp_index tem_str temp_for_cmp =
    (if isdigit c then do {
       temp_for_cmp \<leftarrow> wr temp_for_cmp tmp_index c;
       b_scan_again cs (i + 1) i (tmp_index + 1) tem_str temp_for_cmp
     }
     else do {
       n \<leftarrow> bstrlen temp_for_cmp;
       m \<leftarrow> bstrlen tem_str;
       if n = m then Some (Inr (i, temp_for_cmp)) else Some (Inl 0)
     })"

fun scan_upper_odd :: "string \<Rightarrow> nat \<Rightarrow> int" where
  "scan_upper_odd [] upper_number = 0"
| "scan_upper_odd (c # cs) upper_number =
    (if isupper c then
       if cs = [] \<and> odd (upper_number + 1) then 1 else scan_upper_odd cs (upper_number + 1)
     else 0)"

definition ends_after :: "string \<Rightarrow> nat \<Rightarrow> bool option" where
  "ends_after s index = map_option (\<lambda>c. c = NUL) (ch s (index + 1))"

definition is_b_model :: "junk \<Rightarrow> string \<Rightarrow> int option" where
  "is_b_model junk s =
    (case scan_many (CHR ''i'') s 0 0 0 of
       Inl r \<Rightarrow> Some r
     | Inr index \<Rightarrow> do {
         e \<leftarrow> ends_after s index;
         if e then Some 0 else do {
         r \<leftarrow> b_scan_number (drop index s) index index 0 (junk 0 10);
         (case r of
            Inl r \<Rightarrow> Some r
          | Inr (index, tem_str) \<Rightarrow> do {
              e \<leftarrow> ends_after s index;
              if e then Some 0 else
              (case scan_odd (CHR ''u'') (drop index s) index index 0 of
                 Inl r \<Rightarrow> Some r
               | Inr index \<Rightarrow> do {
                   e \<leftarrow> ends_after s index;
                   if e then Some 0 else do {
                   tem_str \<leftarrow> str_reverse tem_str;
                   r \<leftarrow> b_scan_again (drop index s) index index 0 tem_str (junk 1 10);
                   (case r of
                      Inl r \<Rightarrow> Some r
                    | Inr (index, temp_for_cmp) \<Rightarrow> do {
                        eq \<leftarrow> bstreq temp_for_cmp tem_str;
                        if \<not> eq then Some 0 else Some (scan_upper_odd (drop index s) 0)
                      })
                   }
                 })
            })
         }
       })"

text \<open>\<open>strcat(dst, src)\<close>\<close>

definition strcat :: "bytes \<Rightarrow> bytes \<Rightarrow> bytes option" where
  "strcat dst src =
    do {
      n \<leftarrow> bstrlen dst;
      m \<leftarrow> bstrlen src;
      if n + m < length dst then Some (take n dst @ take (m + 1) src @ drop (n + m + 1) dst) else None
    }"

fun b_convert :: "junk \<Rightarrow> string \<Rightarrow> nat \<Rightarrow> bytes \<Rightarrow> bytes \<Rightarrow> bytes option" where
  "b_convert junk [] i temp for_return = Some for_return"
| "b_convert junk (c # cs) i temp for_return =
    do {
      temp \<leftarrow> wr temp 0 c;
      temp \<leftarrow> wr temp 1 (digit_char (i mod 8));
      for_return \<leftarrow> strcat for_return temp;
      b_convert junk cs (i + 1) (junk (i + 2) 2) for_return
    }"

definition b_model_conversion :: "junk \<Rightarrow> string \<Rightarrow> bytes option" where
  "b_model_conversion junk s =
    do {
      let space = length s + length s;
      for_return \<leftarrow> wr (junk 0 (space + 1)) 0 NUL;
      for_return \<leftarrow> b_convert junk s 0 (junk 1 2) for_return;
      wr for_return space NUL
    }"

section \<open>Model C\<close>

fun take_even :: "bytes \<Rightarrow> nat \<Rightarrow> nat \<Rightarrow> nat \<Rightarrow> nat \<Rightarrow> bytes \<Rightarrow> bytes option" where
  "take_even p n 0 i tmp_ind r = Some r"
| "take_even p n (Suc f) i tmp_ind r =
    (if i < n then do { r \<leftarrow> wr r tmp_ind (p ! i); take_even p n f (i + 2) (tmp_ind + 1) r } else Some r)"

definition deal_positioned :: "junk \<Rightarrow> bytes \<Rightarrow> bytes option" where
  "deal_positioned junk positioned =
    do {
      n \<leftarrow> bstrlen positioned;
      let space = 1 + n div 2;
      for_return \<leftarrow> take_even positioned n (n + 1) 0 0 (junk 1 (space + 1));
      wr for_return space NUL
    }"

fun c_scan_upper :: "string \<Rightarrow> nat \<Rightarrow> nat \<Rightarrow> nat \<Rightarrow> bytes \<Rightarrow> (int + nat \<times> bytes) option" where
  "c_scan_upper [] i index upper_number positioned = Some (Inr (index, positioned))"
| "c_scan_upper (c # cs) i index upper_number positioned =
    (if isupper c then do {
       positioned \<leftarrow> wr positioned upper_number c;
       c_scan_upper cs (i + 1) i (upper_number + 1) positioned
     }
     else if odd upper_number then Some (Inr (i, positioned))
     else Some (Inl 0))"

fun c_scan_cmp :: "string \<Rightarrow> nat \<Rightarrow> nat \<Rightarrow> nat \<Rightarrow> bytes \<Rightarrow> bytes \<Rightarrow> (int + nat) option" where
  "c_scan_cmp [] i index k new_positioned to_cmp = Some (Inr index)"
| "c_scan_cmp (c # cs) i index k new_positioned to_cmp =
    (if isupper c then do {
       n \<leftarrow> bstrlen to_cmp;
       m \<leftarrow> bstrlen new_positioned;
       if n \<le> m then do {
         to_cmp \<leftarrow> wr to_cmp k c;
         c_scan_cmp cs (i + 1) i (k + 1) new_positioned to_cmp
       } else Some (Inl 0)
     }
     else do {
       eq \<leftarrow> bstreq to_cmp new_positioned;
       if eq then Some (Inr i) else Some (Inl 0)
     })"

definition is_c_model :: "junk \<Rightarrow> string \<Rightarrow> int option" where
  "is_c_model junk s =
    (case scan_odd (CHR ''f'') s 0 0 0 of
       Inl r \<Rightarrow> Some r
     | Inr index \<Rightarrow> do {
         e \<leftarrow> ends_after s index;
         if e then Some 0 else do {
         r \<leftarrow> c_scan_upper (drop index s) index index 0 (junk 0 255);
         (case r of
            Inl r \<Rightarrow> Some r
          | Inr (index, positioned) \<Rightarrow> do {
              e \<leftarrow> ends_after s index;
              if e then Some 0 else do {
              new_positioned \<leftarrow> deal_positioned junk positioned;
              (case scan_many (CHR ''p'') (drop index s) index index 0 of
                 Inl r \<Rightarrow> Some r
               | Inr index \<Rightarrow> do {
                   e \<leftarrow> ends_after s index;
                   if e then Some 0 else do {
                   n \<leftarrow> bstrlen new_positioned;
                   r \<leftarrow> c_scan_cmp (drop index s) index index 0 new_positioned (junk 2 (n + 1));
                   (case r of
                      Inl r \<Rightarrow> Some r
                    | Inr index \<Rightarrow> Some (scan_digits (drop index s) 0))
                   }
                 })
              }
            })
         }
       })"

text \<open>The conversion works in place on the bytes from \<open>argv[i]\<close> on.\<close>

definition remove_char_at_index :: "bytes \<Rightarrow> nat \<Rightarrow> bytes option" where
  "remove_char_at_index str index =
    do {
      n \<leftarrow> bstrlen str;
      let count = sz_sub n 1;
      if index + 1 + count \<le> length str
      then Some (take index str @ take count (drop (index + 1) str) @ drop (index + count) str)
      else None
    }"

fun first_A :: "string \<Rightarrow> nat \<Rightarrow> nat" where
  "first_A [] i = 0"
| "first_A (c # cs) i = (if c = CHR ''A'' then i else first_A cs (i + 1))"

fun last_A :: "bytes \<Rightarrow> nat \<Rightarrow> nat option" where
  "last_A str 0 = (if str ! 0 = CHR ''A'' then Some 0 else None)"
| "last_A str (Suc i) = (if str ! Suc i = CHR ''A'' then Some (Suc i) else last_A str i)"

definition c_model_conversion :: "bytes \<Rightarrow> bytes option" where
  "c_model_conversion str =
    do {
      n \<leftarrow> bstrlen str;
      let first_index = first_A (take n str) 0;
      if first_index = 0 then Some str
      else do {
        last_index \<leftarrow> last_A str (n - 1);
        if 0 < last_index then do {
          str \<leftarrow> remove_char_at_index str first_index;
          remove_char_at_index str (last_index - 1)
        } else remove_char_at_index str first_index
      }
    }"

section \<open>The command line\<close>

text \<open>\<open>strcmp(argv[k], s) == 0\<close>: \<open>argv[argc]\<close> is \<open>NULL\<close>.\<close>

definition arg_is :: "string list \<Rightarrow> nat \<Rightarrow> string \<Rightarrow> bool option" where
  "arg_is argv k s = (if k < length argv then Some (argv ! k = s) else None)"

definition conj :: "bool option \<Rightarrow> bool option \<Rightarrow> bool option" where
  "conj a b = do { x \<leftarrow> a; if x then b else Some False }"

definition disj :: "bool option \<Rightarrow> bool option \<Rightarrow> bool option" where
  "disj a b = do { x \<leftarrow> a; if x then Some True else b }"

definition neg :: "bool option \<Rightarrow> bool option" where
  "neg a = map_option Not a"

definition argc_ge :: "string list \<Rightarrow> nat \<Rightarrow> bool option" where
  "argc_ge argv n = Some (n \<le> length argv)"

fun yes_no :: "(nat \<Rightarrow> string \<Rightarrow> int option) \<Rightarrow> nat \<Rightarrow> string list \<Rightarrow> string list option" where
  "yes_no model k [] = Some []"
| "yes_no model k (s # ss) =
    do {
      r \<leftarrow> model k s;
      out \<leftarrow> yes_no model (k + 1) ss;
      Some ((if r = 1 then ''Yes'' else ''No'') # out)
    }"

fun conversions :: "(nat \<Rightarrow> string \<Rightarrow> int option) \<Rightarrow> (nat \<Rightarrow> string \<Rightarrow> string option) \<Rightarrow> nat \<Rightarrow> string list \<Rightarrow> string list option" where
  "conversions model convert k [] = Some []"
| "conversions model convert k (s # ss) =
    do {
      r \<leftarrow> model k s;
      if r = 1 then do {
        t \<leftarrow> convert k s;
        out \<leftarrow> conversions model convert (k + 1) ss;
        Some (t # out)
      } else conversions model convert (k + 1) ss
    }"

text \<open>What \<open>printf\<close> writes for \<open>%s\<close>.\<close>

definition printed :: "bytes option \<Rightarrow> string option" where
  "printed b = do { b \<leftarrow> b; n \<leftarrow> bstrlen b; Some (take n b) }"

text \<open>The two flags of a conversion, in either order; \<open>&&\<close> binds tighter than \<open>||\<close>.\<close>

definition both_flags :: "string list \<Rightarrow> string \<Rightarrow> bool option" where
  "both_flags argv f =
    disj (conj (argc_ge argv 4) (conj (arg_is argv 1 f) (arg_is argv 2 ''-t'')))
         (conj (arg_is argv 2 f) (arg_is argv 1 ''-t''))"

definition main :: "(nat \<Rightarrow> junk) \<Rightarrow> string list \<Rightarrow> string list option" where
  "main junk argv =
    (if length argv \<le> 1 then Some []
     else do {
       c1 \<leftarrow> conj (argc_ge argv 2) (conj (neg (arg_is argv 1 ''-a'')) (conj (neg (arg_is argv 1 ''-b''))
               (conj (neg (arg_is argv 1 ''-c'')) (neg (arg_is argv 1 ''-t'')))));
       if c1 then yes_no (\<lambda>_. is_a_model) 1 (drop 1 argv)
       else do {
         c2 \<leftarrow> conj (argc_ge argv 3) (conj (arg_is argv 1 ''-t'') (conj (neg (arg_is argv 2 ''-a''))
                 (conj (neg (arg_is argv 2 ''-c'')) (neg (arg_is argv 2 ''-b'')))));
         if c2 then conversions (\<lambda>_. is_a_model) (\<lambda>_ s. Some (a_model_conversion s)) 2 (drop 2 argv)
         else do {
           c3 \<leftarrow> conj (argc_ge argv 3) (conj (arg_is argv 1 ''-a'') (neg (arg_is argv 2 ''-t'')));
           if c3 then yes_no (\<lambda>_. is_a_model) 2 (drop 2 argv)
           else do {
             c4 \<leftarrow> conj (argc_ge argv 3) (conj (arg_is argv 1 ''-b'') (neg (arg_is argv 2 ''-t'')));
             if c4 then yes_no (\<lambda>k. is_b_model (junk k)) 2 (drop 2 argv)
             else do {
               c5 \<leftarrow> conj (argc_ge argv 3) (conj (arg_is argv 1 ''-c'') (neg (arg_is argv 2 ''-t'')));
               if c5 then yes_no (\<lambda>k. is_c_model (junk k)) 2 (drop 2 argv)
               else do {
                 c6 \<leftarrow> both_flags argv ''-a'';
                 if c6 then conversions (\<lambda>_. is_a_model) (\<lambda>_ s. Some (a_model_conversion s)) 3 (drop 3 argv)
                 else do {
                   c7 \<leftarrow> both_flags argv ''-b'';
                   if c7 then conversions (\<lambda>k. is_b_model (junk k)) (\<lambda>k s. printed (b_model_conversion (\<lambda>i. junk k (i + 2)) s)) 3 (drop 3 argv)
                   else do {
                     c8 \<leftarrow> both_flags argv ''-c'';
                     if c8 then conversions (\<lambda>k. is_c_model (junk k)) (\<lambda>_ s. printed (c_model_conversion (s @ [NUL]))) 3 (drop 3 argv)
                     else Some []
                   }
                 }
               }
             }
           }
         }
       }
     })"

section \<open>Runs of characters\<close>

definition run :: "char \<Rightarrow> string \<Rightarrow> nat" where
  "run x s = length (takeWhile (\<lambda>c. c = x) s)"

definition rest :: "char \<Rightarrow> string \<Rightarrow> string" where
  "rest x s = dropWhile (\<lambda>c. c = x) s"

lemma run_rest_simps [simp]:
  "run x [] = 0" "rest x [] = []" "run x (c # s) = (if c = x then Suc (run x s) else 0)"
  "rest x (c # s) = (if c = x then rest x s else c # s)"
  by (simp_all add: run_def rest_def)

lemma run_append: "s = replicate (run x s) x @ rest x s"
  by (induction s) auto

lemma rest_hd: "rest x s = c # r \<Longrightarrow> c \<noteq> x"
  by (induction s) (auto split: if_splits)

lemma drop_run [simp]: "drop (run x s) s = rest x s"
  by (induction s) auto

lemma length_run: "length s = run x s + length (rest x s)"
  by (induction s) auto

lemma run_zero: "rest x s = [] \<Longrightarrow> run x s = 0 \<longleftrightarrow> s = []"
  by (cases s) (auto split: if_splits)

lemma last_of_run: "rest x s = [] \<Longrightarrow> s \<noteq> [] \<Longrightarrow> drop (run x s - 1) s = [x]"
proof (induction s)
  case (Cons c s)
  then have c: "c = x" "rest x s = []" by (simp_all split: if_splits)
  show ?case
  proof (cases "run x s")
    case 0
    then show ?thesis using c run_zero [of x s] by simp
  next
    case (Suc m)
    then have "s \<noteq> []" by auto
    then show ?thesis using Cons.IH [OF c(2)] c(1) Suc by simp
  qed
qed simp

lemma run_unique: "r = [] \<or> hd r \<noteq> x \<Longrightarrow> run x (replicate n x @ r) = n \<and> rest x (replicate n x @ r) = r"
  by (induction n) (cases r; auto)+

text \<open>A character of a string, relative to a suffix of it.\<close>

lemma ch_drop: "i \<le> length s \<Longrightarrow> ch s (i + k) = ch (drop i s) k"
  by (auto simp: ch_def)

lemma ch_simps [simp]: "ch [] 0 = Some NUL" "ch [] (Suc k) = None" "ch (c # s) 0 = Some c" "ch (c # s) (Suc k) = ch s k"
  by (auto simp: ch_def)

section \<open>Model A is \<open>l\<close> up to 3, \<open>t\<close> 1 to 5, digits 1 to 3\<close>

definition lang_a :: "string \<Rightarrow> bool" where
  "lang_a s \<longleftrightarrow> (\<exists>a b ds. s = replicate a (CHR ''l'') @ replicate b (CHR ''t'') @ ds \<and> a \<le> 3 \<and> 1 \<le> b \<and> b \<le> 5 \<and>
     1 \<le> length ds \<and> length ds \<le> 3 \<and> list_all isdigit ds)"

lemma a_scan_l_run:
  "a_scan_l s i index n =
    (let a = run (CHR ''l'') s
     in if rest (CHR ''l'') s = [] then Inr (if a = 0 then index else Some (i + a - 1))
        else if n + a \<le> 3 then Inr (Some (i + a)) else Inl 0)"
  by (induction s arbitrary: i index n) (auto simp: Let_def)

lemma a_scan_t_run:
  "a_scan_t s i index n =
    (let b = run (CHR ''t'') s
     in if rest (CHR ''t'') s = [] then Inr (if b = 0 then index else i + b - 1)
        else if 1 \<le> n + b \<and> n + b \<le> 5 then Inr (i + b) else Inl 0)"
  by (induction s arbitrary: i index n) (auto simp: Let_def)

lemma scan_digits_iff: "scan_digits s n = (if s \<noteq> [] \<and> list_all isdigit s \<and> n + length s \<le> 3 then 1 else 0)"
  by (induction s arbitrary: n) auto

lemma digit_not [simp]: "isdigit c \<Longrightarrow> c \<noteq> CHR ''t''" "isdigit c \<Longrightarrow> c \<noteq> CHR ''l''" "isdigit c \<Longrightarrow> c \<noteq> CHR ''u''"
    "isdigit c \<Longrightarrow> c \<noteq> CHR ''i''" "isdigit c \<Longrightarrow> c \<noteq> CHR ''p''" "isdigit c \<Longrightarrow> c \<noteq> CHR ''f''" "isdigit c \<Longrightarrow> \<not> isupper c"
  by (auto simp: isdigit_def isupper_def less_eq_char_code)

lemma upper_not [simp]: "isupper c \<Longrightarrow> \<not> isdigit c" "isupper c \<Longrightarrow> c \<noteq> CHR ''p''" "isupper c \<Longrightarrow> c \<noteq> CHR ''f''"
    "isupper c \<Longrightarrow> c \<noteq> CHR ''u''" "isupper c \<Longrightarrow> c \<noteq> NUL"
  by (auto simp: isdigit_def isupper_def less_eq_char_code NUL_def)

definition runs_a :: "string \<Rightarrow> bool" where
  "runs_a s \<longleftrightarrow>
    (let r = rest (CHR ''l'') s; ds = rest (CHR ''t'') r
     in run (CHR ''l'') s \<le> 3 \<and> 1 \<le> run (CHR ''t'') r \<and> run (CHR ''t'') r \<le> 5 \<and>
        ds \<noteq> [] \<and> length ds \<le> 3 \<and> list_all isdigit ds)"

lemma runs_a_iff: "runs_a s \<longleftrightarrow> lang_a s"
proof
  assume r: "runs_a s"
  let ?r = "rest (CHR ''l'') s"
  have "s = replicate (run (CHR ''l'') s) (CHR ''l'') @ replicate (run (CHR ''t'') ?r) (CHR ''t'') @ rest (CHR ''t'') ?r"
    using run_append [of s "CHR ''l''"] run_append [of ?r "CHR ''t''"] by simp
  then show "lang_a s" using r unfolding lang_a_def runs_a_def Let_def
    by (metis One_nat_def Suc_leI length_greater_0_conv)
next
  assume "lang_a s"
  then obtain a b ds where s: "s = replicate a (CHR ''l'') @ replicate b (CHR ''t'') @ ds" "a \<le> 3" "1 \<le> b" "b \<le> 5"
      "1 \<le> length ds" "length ds \<le> 3" "list_all isdigit ds"
    unfolding lang_a_def by blast
  have "ds = [] \<or> hd ds \<noteq> CHR ''t''" using s(7) by (cases ds) auto
  moreover have "hd (replicate b (CHR ''t'') @ ds) \<noteq> CHR ''l''" using s(3) by (cases b) auto
  ultimately show "runs_a s"
    using s run_unique [of "replicate b (CHR ''t'') @ ds" "CHR ''l''" a] run_unique [of ds "CHR ''t''" b]
    by (auto simp: runs_a_def)
qed

lemma is_a_model_runs:
  assumes "nul_free s"
  shows "is_a_model s = (if s = [] then None else Some (if runs_a s then 1 else 0))"
proof (cases "s = []")
  case True
  then show ?thesis by (simp add: is_a_model_def)
next
  case ne: False
  define a r where "a = run (CHR ''l'') s" and "r = rest (CHR ''l'') s"
  have dr: "drop a s = r" and len: "a + length r = length s"
    using length_run [of s "CHR ''l''"] by (simp_all add: a_def r_def)
  show ?thesis
  proof (cases r)
    case Nil
    have "0 < a" using run_zero [of "CHR ''l''" s] Nil ne by (simp add: a_def r_def)
    then have "ch s (a - 1 + 1) = Some NUL" using len Nil by (simp add: ch_def)
    then show ?thesis
      using ne Nil \<open>0 < a\<close> by (simp add: is_a_model_def a_scan_l_run Let_def a_def [symmetric] r_def [symmetric] runs_a_def)
  next
    case (Cons c r')
    have c: "c \<noteq> CHR ''l''" using rest_hd Cons by (simp add: r_def)
    define b d where "b = run (CHR ''t'') r" and "d = rest (CHR ''t'') r"
    have dd: "drop b r = d" and lb: "b + length d = length r"
      using length_run [of r "CHR ''t''"] by (simp_all add: b_def d_def)
    have next_ch: "ch s (a + 1) = Some (case r' of [] \<Rightarrow> NUL | c # _ \<Rightarrow> c)"
      using ch_drop [of a s 1] len dr Cons by (cases r') simp_all
    have nul: "r' \<noteq> [] \<Longrightarrow> hd r' \<noteq> NUL"
      using assms dr Cons by (metis drop_run a_def nul_free_drop nul_free_simps(2) list.exhaust_sel)
    show ?thesis
    proof (cases "a \<le> 3 \<and> r' \<noteq> []")
      case False
      then show ?thesis
        using ne Cons next_ch lb
        by (cases "d = []"; cases "b = 0")
          (auto simp: is_a_model_def a_scan_l_run Let_def a_def [symmetric] r_def [symmetric] runs_a_def b_def [symmetric] d_def [symmetric])
    next
      case True
      then have step: "is_a_model s =
          (case a_scan_t r a a 0 of Inl x \<Rightarrow> Some x | Inr i \<Rightarrow> Some (scan_digits (drop i s) 0))"
        using next_ch nul Cons dr
        by (cases r') (auto simp: is_a_model_def a_scan_l_run Let_def a_def [symmetric] r_def [symmetric])
      show ?thesis
      proof (cases "d = []")
        case True
        then have "0 < b" using run_zero [of "CHR ''t''" r] Cons by (simp add: b_def d_def)
        have "drop (b - 1) r = [CHR ''t'']"
          using last_of_run [of "CHR ''t''" r] True Cons by (simp add: b_def d_def)
        then have "drop (a + b - 1) s = [CHR ''t'']"
          using dr \<open>0 < b\<close> drop_drop [of "b - 1" a s] by (simp add: add.commute)
        then show ?thesis
          using step ne True \<open>0 < b\<close>
          by (simp add: a_scan_t_run Let_def b_def [symmetric] d_def [symmetric] runs_a_def a_def [symmetric] r_def [symmetric]
              scan_digits_iff isdigit_def less_eq_char_code)
      next
        case False
        have "drop (a + b) s = d" using dr dd drop_drop [of b a s] by (simp add: add.commute)
        then show ?thesis
          using step ne False \<open>a \<le> 3 \<and> r' \<noteq> []\<close>
          by (auto simp: a_scan_t_run Let_def b_def [symmetric] d_def [symmetric] runs_a_def a_def [symmetric] r_def [symmetric]
              scan_digits_iff)
      qed
    qed
  qed
qed

definition swap_DF :: "char \<Rightarrow> char" where
  "swap_DF c = (if c = CHR ''D'' then CHR ''F'' else if c = CHR ''F'' then CHR ''D'' else c)"

lemma a_convert_map: "i \<le> length s \<Longrightarrow> a_convert i s = take i s @ map swap_DF (drop i s)"
proof (induction i s rule: a_convert.induct)
  case (1 i s)
  show ?case
  proof (cases "i < length s")
    case True
    let ?s = "if s ! i = CHR ''D'' then s[i := CHR ''F''] else if s ! i = CHR ''F'' then s[i := CHR ''D''] else s"
    have s: "?s = s[i := swap_DF (s ! i)]" by (simp add: swap_DF_def)
    have "a_convert i s = take (i + 1) ?s @ map swap_DF (drop (i + 1) ?s)"
      using 1 True by (subst a_convert.simps) auto
    then show ?thesis
      using True by (simp add: s take_Suc_conv_app_nth Cons_nth_drop_Suc [symmetric])
  qed (use 1 in \<open>simp add: a_convert.simps\<close>)
qed

section \<open>Runs of a class of characters, and zeroed buffers\<close>

definition prun :: "(char \<Rightarrow> bool) \<Rightarrow> string \<Rightarrow> nat" where
  "prun P s = length (takeWhile P s)"

lemma prun_simps [simp]: "prun P [] = 0" "prun P (c # s) = (if P c then Suc (prun P s) else 0)"
  by (simp_all add: prun_def)

lemma prun_take [simp]: "take (prun P s) s = takeWhile P s" "drop (prun P s) s = dropWhile P s"
  by (simp_all add: prun_def takeWhile_eq_take [symmetric] dropWhile_eq_drop [symmetric])

lemma split_class: "list_all P xs \<Longrightarrow> ys = [] \<or> \<not> P (hd ys) \<Longrightarrow> takeWhile P (xs @ ys) = xs \<and> dropWhile P (xs @ ys) = ys"
  by (induction xs) (cases ys; auto)+

lemma last_of_prun: "dropWhile P s = [] \<Longrightarrow> s \<noteq> [] \<Longrightarrow> \<exists>c. P c \<and> drop (prun P s - 1) s = [c]"
proof (induction s)
  case (Cons c s)
  then have c: "P c" "dropWhile P s = []" by (simp_all split: if_splits)
  show ?case
  proof (cases s)
    case Nil
    then show ?thesis using c by simp
  next
    case (Cons d s')
    then obtain m where "prun P s = Suc m" using c(2) by (cases "prun P s") (auto split: if_splits)
    then show ?thesis using Cons.IH [OF c(2)] c(1) Cons by simp
  qed
qed simp

lemma scan_many_run:
  "scan_many x s i index n =
    (let a = run x s
     in if rest x s = [] then Inr (if a = 0 then index else i + a - 1)
        else if 2 \<le> n + a then Inr (i + a) else Inl 0)"
  by (induction s arbitrary: i index n) (auto simp: Let_def)

lemma scan_odd_run:
  "scan_odd x s i index n =
    (let a = run x s
     in if rest x s = [] then Inr (if a = 0 then index else i + a - 1)
        else if odd (n + a) then Inr (i + a) else Inl 0)"
  by (induction s arbitrary: i index n) (auto simp: Let_def)

lemma wr_step:
  "n < length b \<Longrightarrow> wr b n c = Some (b[n := c]) \<and> take (n + 1) (b[n := c]) = take n b @ [c] \<and>
   drop (n + 1 + k) (b[n := c]) = drop (n + 1 + k) b \<and> length (b[n := c]) = length b"
  by (simp add: wr_def take_Suc_conv_app_nth)

definition fill :: "bytes \<Rightarrow> nat \<Rightarrow> bytes \<Rightarrow> bytes" where
  "fill b n w = take n b @ w @ drop (n + length w) b"

lemma fill_step: "n < length b \<Longrightarrow> fill (b[n := c]) (n + 1) w = fill b n (c # w)"
  using wr_step [of n b c "length w"] by (simp add: fill_def)

lemma b_scan_number_run:
  "n \<le> length b \<Longrightarrow> b_scan_number s i index n b =
    (let k = prun isdigit s; b' = fill b n (takeWhile isdigit s)
     in if length b < n + k then None
        else Some (if dropWhile isdigit s = [] then Inr (if k = 0 then index else i + k - 1, b')
                   else if 1 \<le> n + k \<and> n + k \<le> 3 then Inr (i + k, b') else Inl 0))"
proof (induction s arbitrary: i index n b)
  case (Cons c s)
  show ?case
  proof (cases "isdigit c \<and> n < length b")
    case True
    then have "b_scan_number (c # s) i index n b = b_scan_number s (i + 1) i (n + 1) (b[n := c])"
      by (simp add: wr_def)
    then show ?thesis
      using True fill_step [of n b c "takeWhile isdigit s"] by (simp add: Cons.IH Let_def)
  qed (use Cons.prems in \<open>auto simp: wr_def fill_def Let_def\<close>)
qed (simp add: fill_def)

lemma b_scan_again_run:
  "n \<le> length b \<Longrightarrow> b_scan_again s i index n t b =
    (let k = prun isdigit s; b' = fill b n (takeWhile isdigit s)
     in if length b < n + k then None
        else if dropWhile isdigit s = [] then Some (Inr (if k = 0 then index else i + k - 1, b'))
        else do { x \<leftarrow> bstrlen b'; y \<leftarrow> bstrlen t; if x = y then Some (Inr (i + k, b')) else Some (Inl 0) })"
proof (induction s arbitrary: i index n b)
  case (Cons c s)
  show ?case
  proof (cases "isdigit c \<and> n < length b")
    case True
    then have "b_scan_again (c # s) i index n t b = b_scan_again s (i + 1) i (n + 1) t (b[n := c])"
      by (simp add: wr_def)
    then show ?thesis
      using True fill_step [of n b c "takeWhile isdigit s"] by (simp add: Cons.IH Let_def cong: if_cong)
  qed (use Cons.prems in \<open>auto simp: wr_def fill_def Let_def cong: if_cong\<close>)
qed (simp add: fill_def)

text \<open>Fresh memory that happens to be zero.\<close>

definition zeros :: junk where
  "zeros k n = replicate n NUL"

definition zeros2 :: "nat \<Rightarrow> junk" where
  "zeros2 _ = zeros"

lemma fill_zeros: "length w \<le> n \<Longrightarrow> fill (replicate n NUL) 0 w = w @ replicate (n - length w) NUL"
  by (simp add: fill_def)

lemma bstrlen_zeros: "nul_free w \<Longrightarrow> bstrlen (w @ replicate n NUL) = (if n = 0 then None else Some (length w))"
  by (induction w) (cases n; auto)+

lemma bstrlen_NUL: "nul_free w \<Longrightarrow> bstrlen (w @ NUL # x) = Some (length w)"
  by (induction w) auto

lemma bstreq_NUL: "nul_free a \<Longrightarrow> nul_free b \<Longrightarrow> bstreq (a @ NUL # x) (b @ NUL # y) = Some (a = b)"
proof (induction a arbitrary: b)
  case Nil
  then show ?case by (cases b) auto
next
  case (Cons c a)
  then show ?case by (cases b) auto
qed

lemma reverse_loop_rev:
  "w \<noteq> [] \<Longrightarrow> reverse_loop (length xs) (length xs + length w - 1) (xs @ w @ ys) = Some (xs @ rev w @ ys)"
proof (induction "length w" arbitrary: w xs ys rule: less_induct)
  case less
  show ?case
  proof (cases w rule: rev_cases)
    case (snoc m v)
    show ?thesis
    proof (cases m)
      case Nil
      then show ?thesis using snoc by (simp add: reverse_loop.simps)
    next
      case (Cons u m')
      have upd: "(xs @ w @ ys)[length xs := v, length xs + length w - 1 := u] = (xs @ [v]) @ m' @ (u # ys)"
        using snoc Cons by (simp add: list_update_append)
      have "reverse_loop (length xs) (length xs + length w - 1) (xs @ w @ ys) =
          reverse_loop (length xs + 1) (length xs + length w - 2) ((xs @ [v]) @ m' @ (u # ys))"
        using snoc Cons upd by (subst reverse_loop.simps) (simp add: nth_append numeral_2_eq_2)
      also have "\<dots> = Some ((xs @ [v]) @ rev m' @ (u # ys))"
      proof (cases "m' = []")
        case True
        then show ?thesis using snoc Cons by (simp add: reverse_loop.simps)
      next
        case False
        then show ?thesis using less(1) [of m' "xs @ [v]" "u # ys"] snoc Cons by simp
      qed
      finally show ?thesis using snoc Cons by simp
    qed
  qed (use less in simp)
qed

lemma str_reverse_rev:
  assumes "nul_free w" "w \<noteq> []" "length w < 2 ^ 64"
  shows "str_reverse (w @ NUL # x) = Some (rev w @ NUL # x)"
proof -
  have "sz_sub (length w) 1 = length w - 1"
    by (rule sz_sub_exact) (use assms in \<open>auto simp: Suc_le_eq\<close>)
  then show ?thesis
    using reverse_loop_rev [of w "[]" "NUL # x"] assms(1,2) by (simp add: str_reverse_def bstrlen_NUL)
qed

lemma ends_after_iff: "nul_free s \<Longrightarrow> drop i s = c # r \<Longrightarrow> ends_after s i = Some (r = [])"
proof -
  assume s: "nul_free s" "drop i s = c # r"
  then have "i < length s" "nul_free (c # r)" by (auto intro: ccontr) (metis nul_free_drop nul_free_simps(2))+
  then show ?thesis using ch_drop [of i s 1] s(2) by (cases r) (auto simp: ends_after_def)
qed

section \<open>Model B is \<open>i\<close> twice or more, a number, odd \<open>u\<close>, the number reversed, odd capitals\<close>

definition lang_b :: "string \<Rightarrow> bool" where
  "lang_b s \<longleftrightarrow> (\<exists>a ds m us. s = replicate a (CHR ''i'') @ ds @ replicate m (CHR ''u'') @ rev ds @ us \<and> 2 \<le> a \<and>
     1 \<le> length ds \<and> length ds \<le> 3 \<and> list_all isdigit ds \<and> odd m \<and> odd (length us) \<and> list_all isupper us)"

lemma scan_upper_odd_iff:
  "scan_upper_odd s n = (if s \<noteq> [] \<and> list_all isupper s \<and> odd (n + length s) then 1 else 0)"
  by (induction s arbitrary: n) auto

text \<open>The last part of the recogniser, from the second number on.\<close>

definition b_tail :: "junk \<Rightarrow> string \<Rightarrow> nat \<Rightarrow> bytes \<Rightarrow> int option" where
  "b_tail junk s index tem_str =
    do {
      tem_str \<leftarrow> str_reverse tem_str;
      r \<leftarrow> b_scan_again (drop index s) index index 0 tem_str (junk 1 10);
      (case r of
         Inl r \<Rightarrow> Some r
       | Inr (index, temp_for_cmp) \<Rightarrow> do {
           eq \<leftarrow> bstreq temp_for_cmp tem_str;
           if \<not> eq then Some 0 else Some (scan_upper_odd (drop index s) 0)
         })
    }"

lemma digits_nul_free: "list_all isdigit ds \<Longrightarrow> nul_free ds"
  by (induction ds) auto

lemma takeWhile_digits: "list_all isdigit (takeWhile isdigit s)"
  by (induction s) auto

lemma b_tail_one:
  assumes "nul_free s" "drop idx s = r" "r \<noteq> []" "list_all isdigit ds" "1 \<le> length ds" "length ds \<le> 3"
  shows "b_tail zeros s idx (fill (zeros 0 10) 0 ds) = Some 1 \<longleftrightarrow>
    (\<exists>us. r = rev ds @ us \<and> odd (length us) \<and> list_all isupper us)"
proof -
  let ?k = "prun isdigit r" and ?w = "takeWhile isdigit r" and ?r = "dropWhile isdigit r"
  have t: "fill (zeros 0 10) 0 ds = ds @ NUL # replicate (9 - length ds) NUL"
    using assms(6) by (simp add: zeros_def fill_zeros Suc_diff_le [symmetric] replicate_Suc [symmetric] del: replicate_Suc)
  have rev: "str_reverse (fill (zeros 0 10) 0 ds) = Some (rev ds @ NUL # replicate (9 - length ds) NUL)"
    unfolding t using assms by (intro str_reverse_rev) (auto simp: digits_nul_free)
  have len: "length ?w = ?k" by (simp add: prun_def)
  have again: "b_scan_again r idx idx 0 t (zeros (Suc 0) 10) =
      (if 10 < ?k then None
       else if ?r = [] then Some (Inr (if ?k = 0 then idx else idx + ?k - 1, ?w @ replicate (10 - ?k) NUL))
       else do { x \<leftarrow> bstrlen (?w @ replicate (10 - ?k) NUL); y \<leftarrow> bstrlen t;
                 if x = y then Some (Inr (idx + ?k, ?w @ replicate (10 - ?k) NUL)) else Some (Inl 0) })" for t
    using b_scan_again_run [of 0 "zeros (Suc 0) 10" r idx idx t] fill_zeros [of ?w 10] len
    by (cases "?k \<le> 10") (simp_all add: zeros_def Let_def not_le cong: if_cong)
  have wz: "bstrlen (?w @ replicate (10 - ?k) NUL) = (if ?k < 10 then Some ?k else None)" if "?k \<le> 10"
    using bstrlen_zeros [OF digits_nul_free [OF takeWhile_digits], of r "10 - ?k"] that len by auto
  have y: "bstrlen (rev ds @ NUL # x) = Some (length ds)" for x
    using bstrlen_NUL [of "rev ds"] digits_nul_free [OF assms(4)] by simp
  have dk: "drop (idx + ?k) s = ?r"
    using assms(2) drop_drop [of ?k idx s] by (simp add: add.commute)
  show ?thesis
  proof (cases "?r = []")
    case True
    then obtain c where c: "isdigit c" "drop (?k - 1) r = [c]" using last_of_prun [OF True assms(3)] by blast
    have "0 < ?k" using True assms(3) by (cases r) (auto split: if_splits)
    then have "drop (idx + ?k - 1) s = [c]" using c(2) assms(2) drop_drop [of "?k - 1" idx s] by (simp add: add.commute)
    then have "b_tail zeros s idx (fill (zeros 0 10) 0 ds) \<noteq> Some 1"
      using \<open>0 < ?k\<close> True c(1) by (auto simp: b_tail_def rev assms(2) again scan_upper_odd_iff Let_def bind_eq_Some_conv split: if_splits)
    moreover have "\<not> (\<exists>us. r = rev ds @ us \<and> odd (length us) \<and> list_all isupper us)"
    proof
      assume "\<exists>us. r = rev ds @ us \<and> odd (length us) \<and> list_all isupper us"
      then obtain us where us: "r = rev ds @ us" "odd (length us)" "list_all isupper us" by blast
      then obtain u us' where "us = u # us'" by (cases us) auto
      then have "u \<in> set r" "\<not> isdigit u" using us by auto
      then show False using True by (auto simp: dropWhile_eq_Nil_conv)
    qed
    ultimately show ?thesis by simp
  next
    case False
    have "b_tail zeros s idx (fill (zeros 0 10) 0 ds) = Some 1 \<longleftrightarrow>
        ?k = length ds \<and> ?w = rev ds \<and> list_all isupper ?r \<and> odd (length ?r)"
    proof (cases "?k = length ds")
      case True
      then have "?w @ replicate (10 - ?k) NUL = ?w @ NUL # replicate (9 - length ds) NUL"
        using assms(6) by (simp add: Suc_diff_le [symmetric] replicate_Suc [symmetric] del: replicate_Suc)
      then have "bstreq (?w @ replicate (10 - ?k) NUL) (rev ds @ NUL # replicate (9 - length ds) NUL) = Some (?w = rev ds)"
        using digits_nul_free [OF assms(4)] digits_nul_free [OF takeWhile_digits [of r]] by (simp add: bstreq_NUL)
      then show ?thesis
        using True False assms(6) wz y dk
        by (auto simp: b_tail_def rev assms(2) again scan_upper_odd_iff)
    next
      case neq: False
      then show ?thesis
        using False wz y by (auto simp: b_tail_def rev assms(2) again bind_eq_Some_conv split: if_splits)
    qed
    also have "\<dots> \<longleftrightarrow> (\<exists>us. r = rev ds @ us \<and> odd (length us) \<and> list_all isupper us)"
    proof
      assume "?k = length ds \<and> ?w = rev ds \<and> list_all isupper ?r \<and> odd (length ?r)"
      then show "\<exists>us. r = rev ds @ us \<and> odd (length us) \<and> list_all isupper us"
        using takeWhile_dropWhile_id [of isdigit r] by metis
    next
      assume "\<exists>us. r = rev ds @ us \<and> odd (length us) \<and> list_all isupper us"
      then obtain us where us: "r = rev ds @ us" "odd (length us)" "list_all isupper us" by blast
      then obtain u us' where u: "us = u # us'" "\<not> isdigit u" by (cases us) auto
      have "takeWhile isdigit (rev ds @ us) = rev ds" "dropWhile isdigit (rev ds @ us) = us"
        using split_class [of isdigit "rev ds" us] assms(4) u by (auto simp: list_all_iff)
      then show "?k = length ds \<and> ?w = rev ds \<and> list_all isupper ?r \<and> odd (length ?r)"
        using us len by (metis length_rev)
    qed
    finally show ?thesis .
  qed
qed

lemma is_b_model_tail:
  "is_b_model junk s =
    (case scan_many (CHR ''i'') s 0 0 0 of
       Inl r \<Rightarrow> Some r
     | Inr index \<Rightarrow> do {
         e \<leftarrow> ends_after s index;
         if e then Some 0 else do {
         r \<leftarrow> b_scan_number (drop index s) index index 0 (junk 0 10);
         (case r of
            Inl r \<Rightarrow> Some r
          | Inr (index, tem_str) \<Rightarrow> do {
              e \<leftarrow> ends_after s index;
              if e then Some 0 else
              (case scan_odd (CHR ''u'') (drop index s) index index 0 of
                 Inl r \<Rightarrow> Some r
               | Inr index \<Rightarrow> do {
                   e \<leftarrow> ends_after s index;
                   if e then Some 0 else b_tail junk s index tem_str
                 })
            })
         }
       })"
  unfolding is_b_model_def b_tail_def ..

lemma drop_drop_eq: "drop i s = r \<Longrightarrow> drop k r = t \<Longrightarrow> drop (i + k) s = t"
  using drop_drop [of k i s] by (simp add: add.commute)

lemma ends_after_last: "nul_free s \<Longrightarrow> drop i s = [c] \<Longrightarrow> ends_after s i = Some True"
  using ends_after_iff [of s i c "[]"] by simp

lemma scan_odd_stage:
  assumes s: "nul_free s" "drop i s = r" "r \<noteq> []"
  shows "(case scan_odd x r i i 0 of Inl v \<Rightarrow> Some v
      | Inr j \<Rightarrow> do { e \<leftarrow> ends_after s j; if e then Some 0 else f j }) =
    (if rest x r = [] \<or> even (run x r) \<or> tl (rest x r) = [] then Some 0 else f (i + run x r))"
proof (cases "rest x r")
  case Nil
  have "drop (run x r - 1) r = [x]" by (rule last_of_run [OF Nil s(3)])
  then have "drop (i + (run x r - 1)) s = [x]" by (rule drop_drop_eq [OF s(2)])
  then have "ends_after s (i + (run x r - 1)) = Some True" by (rule ends_after_last [OF s(1)])
  then show ?thesis using Nil s(3) run_zero [OF Nil] by (auto simp: scan_odd_run Let_def)
next
  case (Cons c r')
  have "drop (i + run x r) s = c # r'" using drop_drop_eq [OF s(2)] Cons by simp
  then have "ends_after s (i + run x r) = Some (r' = [])" by (rule ends_after_iff [OF s(1)])
  then show ?thesis using Cons by (auto simp: scan_odd_run Let_def)
qed

lemma scan_many_stage:
  assumes s: "nul_free s" "drop i s = r" "r \<noteq> []"
  shows "(case scan_many x r i i 0 of Inl v \<Rightarrow> Some v
      | Inr j \<Rightarrow> do { e \<leftarrow> ends_after s j; if e then Some 0 else f j }) =
    (if rest x r = [] \<or> run x r < 2 \<or> tl (rest x r) = [] then Some 0 else f (i + run x r))"
proof (cases "rest x r")
  case Nil
  have "drop (run x r - 1) r = [x]" by (rule last_of_run [OF Nil s(3)])
  then have "drop (i + (run x r - 1)) s = [x]" by (rule drop_drop_eq [OF s(2)])
  then have "ends_after s (i + (run x r - 1)) = Some True" by (rule ends_after_last [OF s(1)])
  then show ?thesis using Nil s(3) run_zero [OF Nil] by (auto simp: scan_many_run Let_def)
next
  case (Cons c r')
  have "drop (i + run x r) s = c # r'" using drop_drop_eq [OF s(2)] Cons by simp
  then have "ends_after s (i + run x r) = Some (r' = [])" by (rule ends_after_iff [OF s(1)])
  then show ?thesis using Cons by (auto simp: scan_many_run Let_def)
qed

lemma number_stage:
  assumes s: "nul_free s" "drop i s = r" "r \<noteq> []"
  defines "k \<equiv> prun isdigit r"
  shows "do { x \<leftarrow> b_scan_number r i i 0 (zeros 0 10);
      (case x of Inl v \<Rightarrow> Some v | Inr (j, b) \<Rightarrow> do { e \<leftarrow> ends_after s j; if e then Some 0 else f j b }) } =
    (if 10 < k then None
     else if dropWhile isdigit r = [] \<or> k < 1 \<or> 3 < k \<or> tl (dropWhile isdigit r) = [] then Some 0
     else f (i + k) (fill (zeros 0 10) 0 (takeWhile isdigit r)))"
proof -
  have len: "length (zeros 0 10) = 10" by (simp add: zeros_def)
  note run = b_scan_number_run [of 0 "zeros 0 10" r i i, simplified, folded k_def]
  show ?thesis
  proof (cases "dropWhile isdigit r")
    case Nil
    obtain c where "drop (k - 1) r = [c]" using last_of_prun [OF Nil s(3)] unfolding k_def by blast
    then have "drop (i + (k - 1)) s = [c]" by (rule drop_drop_eq [OF s(2)])
    then have e: "ends_after s (i + (k - 1)) = Some True" by (rule ends_after_last [OF s(1)])
    have "0 < k" using Nil s(3) unfolding k_def by (cases r) (auto split: if_splits)
    then show ?thesis using Nil e by (simp add: run Let_def len)
  next
    case (Cons c r')
    have "drop k r = c # r'" using Cons by (simp add: k_def)
    then have "drop (i + k) s = c # r'" by (rule drop_drop_eq [OF s(2)])
    then have "ends_after s (i + k) = Some (r' = [])" by (rule ends_after_iff [OF s(1)])
    then show ?thesis using Cons by (auto simp: run Let_def len)
  qed
qed

lemma two_le_length: "2 \<le> length r \<Longrightarrow> r \<noteq> [] \<and> tl r \<noteq> []"
  by (cases r; cases "tl r") auto

lemma is_b_model_lang:
  assumes "nul_free s"
  shows "is_b_model zeros s = Some 1 \<longleftrightarrow> lang_b s"
proof -
  define a r1 where "a = run (CHR ''i'') s" and "r1 = rest (CHR ''i'') s"
  define k w r2 where "k = prun isdigit r1" and "w = takeWhile isdigit r1" and "r2 = dropWhile isdigit r1"
  define m r3 where "m = run (CHR ''u'') r2" and "r3 = rest (CHR ''u'') r2"
  have d1: "drop a s = r1" by (simp add: a_def r1_def)
  have d2: "drop (a + k) s = r2" using drop_drop_eq [OF d1] by (simp add: k_def r2_def)
  have d3: "drop (a + k + m) s = r3" using drop_drop_eq [OF d2] by (simp add: m_def r3_def)
  have w: "list_all isdigit w" "length w = k" by (simp_all add: w_def takeWhile_digits k_def prun_def)
  have s: "s = replicate a (CHR ''i'') @ w @ replicate m (CHR ''u'') @ r3"
    using run_append [of s "CHR ''i''"] run_append [of r2 "CHR ''u''"]
    by (simp add: a_def r1_def w_def r2_def m_def r3_def)
  define core where "core \<longleftrightarrow> 2 \<le> a \<and> 1 \<le> k \<and> k \<le> 3 \<and> odd m \<and> (\<exists>us. r3 = rev w @ us \<and> odd (length us) \<and> list_all isupper us)"
  have "is_b_model zeros s = Some 1 \<longleftrightarrow> core"
  proof (cases "s = []")
    case True
    then have "is_b_model zeros s = None" by (simp add: is_b_model_tail ends_after_def)
    moreover have "a = 0" using True by (simp add: a_def)
    ultimately show ?thesis by (simp add: core_def)
  next
    case ne: False
    define G where "G b j = b_tail zeros s j b" for b j
    define F where "F j b = (case scan_odd (CHR ''u'') (drop j s) j j 0 of Inl v \<Rightarrow> Some v
               | Inr j \<Rightarrow> do { e \<leftarrow> ends_after s j; if e then Some 0 else G b j })" for j b
    have st1: "is_b_model zeros s =
        (if r1 = [] \<or> a < 2 \<or> tl r1 = [] then Some 0
         else do { x \<leftarrow> b_scan_number r1 a a 0 (zeros 0 10);
           (case x of Inl v \<Rightarrow> Some v | Inr (j, b) \<Rightarrow> do { e \<leftarrow> ends_after s j; if e then Some 0 else F j b }) })"
      unfolding is_b_model_tail F_def G_def using scan_many_stage [OF assms _ ne, where i = 0 and x = "CHR ''i''"] d1
      by (simp add: a_def r1_def)
    have st2: "is_b_model zeros s =
        (if r1 = [] \<or> a < 2 \<or> tl r1 = [] then Some 0 else if 10 < k then None
         else if r2 = [] \<or> k < 1 \<or> 3 < k \<or> tl r2 = [] then Some 0 else F (a + k) (fill (zeros 0 10) 0 w))"
      unfolding st1 using number_stage [OF assms d1, where f = F, folded k_def r2_def w_def] by (simp del: One_nat_def)
    show ?thesis
    proof (cases "r1 = [] \<or> a < 2 \<or> tl r1 = [] \<or> 10 < k \<or> r2 = [] \<or> k < 1 \<or> 3 < k \<or> tl r2 = []")
      case True
      have "is_b_model zeros s \<noteq> Some 1" unfolding st2 using True by (simp split: if_splits) linarith
      moreover have "\<not> core"
      proof
        assume c: core
        then obtain us where us: "r3 = rev w @ us" "odd (length us)" and km: "1 \<le> k" "2 \<le> a" "k \<le> 3" "odd m"
          unfolding core_def by blast
        have "length w + length r2 = length r1" "1 \<le> m"
          using length_append [of w r2] takeWhile_dropWhile_id [of isdigit r1] km(4) by (simp_all add: w_def r2_def odd_pos Suc_le_eq)
        moreover have "length r2 = m + length r3" using length_run [of r2 "CHR ''u''"] by (simp add: m_def r3_def)
        moreover have "length r3 = k + length us" using us(1) w(2) by simp
        ultimately have "2 \<le> length r2" "2 \<le> length r1" using km(1) w(2) by linarith+
        then show False using True km by (auto dest!: two_le_length)
      qed
      ultimately show ?thesis by simp
    next
      case False
      then have "is_b_model zeros s = F (a + k) (fill (zeros 0 10) 0 w)" unfolding st2 by (simp del: One_nat_def)
      also have "\<dots> = (if r3 = [] \<or> even m \<or> tl r3 = [] then Some 0 else b_tail zeros s (a + k + m) (fill (zeros 0 10) 0 w))"
        using scan_odd_stage [OF assms d2, where x = "CHR ''u''" and f = "G (fill (zeros 0 10) 0 w)", folded m_def r3_def] False d2
        by (simp add: F_def G_def)
      finally have st: "is_b_model zeros s = Some 1 \<longleftrightarrow>
          r3 \<noteq> [] \<and> odd m \<and> tl r3 \<noteq> [] \<and> b_tail zeros s (a + k + m) (fill (zeros 0 10) 0 w) = Some 1"
        by auto
      show ?thesis
      proof (cases "r3 = []")
        case True
        then show ?thesis using st False w(2) by (auto simp: core_def)
      next
        case r3: False
        have "b_tail zeros s (a + k + m) (fill (zeros 0 10) 0 w) = Some 1 \<longleftrightarrow>
            (\<exists>us. r3 = rev w @ us \<and> odd (length us) \<and> list_all isupper us)"
          using b_tail_one [OF assms _ r3 w(1), of "a + k + m"] d3 w(2) False by simp
        moreover have "tl r3 \<noteq> []" if "r3 = rev w @ us" "odd (length us)" for us
          using that w(2) False by (cases "rev w"; cases us) auto
        ultimately show ?thesis using st False r3 by (auto simp: core_def)
      qed
    qed
  qed
  also have "core \<longleftrightarrow> lang_b s"
  proof
    assume core
    then show "lang_b s" using s w unfolding core_def lang_b_def by metis
  next
    assume "lang_b s"
    then obtain a' ds m' us where l: "s = replicate a' (CHR ''i'') @ ds @ replicate m' (CHR ''u'') @ rev ds @ us" "2 \<le> a'"
        "1 \<le> length ds" "length ds \<le> 3" "list_all isdigit ds" "odd m'" "odd (length us)" "list_all isupper us"
      unfolding lang_b_def by blast
    have "hd (ds @ t) \<noteq> CHR ''i''" for t using l(3,5) by (cases ds) auto
    then have 1: "a = a'" "r1 = ds @ replicate m' (CHR ''u'') @ rev ds @ us"
      using run_unique [of "ds @ replicate m' (CHR ''u'') @ rev ds @ us" "CHR ''i''" a'] l(1) by (simp_all add: a_def r1_def)
    have "\<not> isdigit (hd (replicate m' (CHR ''u'') @ t))" for t
      using l(6) by (cases m') (auto simp: isdigit_def less_eq_char_code)
    then have 2: "w = ds" "r2 = replicate m' (CHR ''u'') @ rev ds @ us"
      using split_class [of isdigit ds "replicate m' (CHR ''u'') @ rev ds @ us"] l(5) 1(2) by (simp_all add: w_def r2_def)
    have "hd (rev ds @ t) \<noteq> CHR ''u''" for t
      using l(3,5) by (cases ds rule: rev_cases) auto
    then have 3: "m = m'" "r3 = rev ds @ us"
      using run_unique [of "rev ds @ us" "CHR ''u''" m'] 2(2) by (simp_all add: m_def r3_def)
    show core using l 1 2 3 w(2) by (auto simp: core_def)
  qed
  finally show ?thesis .
qed

section \<open>Model C is odd \<open>f\<close>, odd capitals, \<open>p\<close> twice or more, every other capital, a number\<close>

fun evens :: "'a list \<Rightarrow> 'a list" where
  "evens [] = []"
| "evens [x] = [x]"
| "evens (x # y # xs) = x # evens xs"

definition lang_c :: "string \<Rightarrow> bool" where
  "lang_c s \<longleftrightarrow> (\<exists>a X p ds. s = replicate a (CHR ''f'') @ X @ replicate p (CHR ''p'') @ evens X @ ds \<and> odd a \<and>
     odd (length X) \<and> list_all isupper X \<and> 2 \<le> p \<and> 1 \<le> length ds \<and> length ds \<le> 3 \<and> list_all isdigit ds)"

lemma length_evens: "length (evens xs) = (length xs + 1) div 2"
  by (induction xs rule: evens.induct) auto

lemma set_evens: "set (evens xs) \<subseteq> set xs"
  by (induction xs rule: evens.induct) auto

lemma evens_drop: "i < length xs \<Longrightarrow> evens (drop i xs) = xs ! i # evens (drop (i + 2) xs)"
proof -
  assume "i < length xs"
  then have "drop i xs = xs ! i # drop (Suc i) xs" by (simp add: Cons_nth_drop_Suc)
  moreover have "drop (i + 2) xs = drop 1 (drop (Suc i) xs)" by simp
  ultimately show ?thesis by (cases "drop (Suc i) xs") auto
qed

lemma take_even_run:
  "n - i \<le> f \<Longrightarrow> n \<le> length p \<Longrightarrow> t + length (evens (drop i (take n p))) \<le> length r \<Longrightarrow>
   take_even p n f i t r = Some (fill r t (evens (drop i (take n p))))"
proof (induction f arbitrary: i t r)
  case (Suc f)
  show ?case
  proof (cases "i < n")
    case True
    have e: "evens (drop i (take n p)) = p ! i # evens (drop (i + 2) (take n p))"
      using True Suc.prems(2) evens_drop [of i "take n p"] by simp
    then have t: "t < length r" using Suc.prems(3) by simp
    have "take_even p n f (i + 2) (t + 1) (r[t := p ! i]) = Some (fill (r[t := p ! i]) (t + 1) (evens (drop (i + 2) (take n p))))"
      using Suc.prems True e by (intro Suc.IH) auto
    then show ?thesis using True t e fill_step [OF t] by (simp add: wr_def)
  qed (simp add: fill_def)
qed (simp add: fill_def)

lemma deal_positioned_evens:
  assumes "nul_free X" "odd (length X)"
  shows "deal_positioned zeros (X @ NUL # x) = Some (evens X @ [NUL])"
proof -
  let ?n = "length X"
  have len: "length (evens X) = 1 + ?n div 2" using assms(2) length_evens [of X] by (auto elim!: oddE)
  have "take_even (X @ NUL # x) ?n (?n + 1) 0 0 (zeros 1 (1 + ?n div 2 + 1)) =
      Some (fill (zeros 1 (1 + ?n div 2 + 1)) 0 (evens X))"
    using take_even_run [of ?n 0 "?n + 1" "X @ NUL # x" 0 "zeros 1 (1 + ?n div 2 + 1)"] len by (simp add: zeros_def)
  moreover have "fill (zeros 1 (1 + ?n div 2 + 1)) 0 (evens X) = evens X @ [NUL]"
    using fill_zeros [of "evens X" "1 + ?n div 2 + 1"] len by (simp add: zeros_def)
  ultimately show ?thesis
    using bstrlen_NUL [OF assms(1), of x] len by (simp add: deal_positioned_def Let_def wr_def list_update_append)
qed

lemma c_scan_upper_run:
  "n \<le> length b \<Longrightarrow> c_scan_upper s i index n b =
    (let k = prun isupper s; b' = fill b n (takeWhile isupper s)
     in if length b < n + k then None
        else Some (if dropWhile isupper s = [] then Inr (if k = 0 then index else i + k - 1, b')
                   else if odd (n + k) then Inr (i + k, b') else Inl 0))"
proof (induction s arbitrary: i index n b)
  case (Cons c s)
  show ?case
  proof (cases "isupper c \<and> n < length b")
    case True
    then have "c_scan_upper (c # s) i index n b = c_scan_upper s (i + 1) i (n + 1) (b[n := c])"
      by (simp add: wr_def)
    then show ?thesis
      using True fill_step [of n b c "takeWhile isupper s"] by (simp add: Cons.IH Let_def)
  qed (use Cons.prems in \<open>auto simp: wr_def fill_def Let_def\<close>)
qed (simp add: fill_def)

lemma upper_stage:
  assumes s: "nul_free s" "drop i s = r" "r \<noteq> []"
  defines "k \<equiv> prun isupper r"
  shows "do { x \<leftarrow> c_scan_upper r i i 0 (zeros 0 255);
      (case x of Inl v \<Rightarrow> Some v | Inr (j, b) \<Rightarrow> do { e \<leftarrow> ends_after s j; if e then Some 0 else f j b }) } =
    (if 255 < k then None
     else if dropWhile isupper r = [] \<or> even k \<or> tl (dropWhile isupper r) = [] then Some 0
     else f (i + k) (fill (zeros 0 255) 0 (takeWhile isupper r)))"
proof -
  have len: "length (zeros 0 255) = 255" by (simp add: zeros_def)
  note run = c_scan_upper_run [of 0 "zeros 0 255" r i i, simplified, folded k_def]
  show ?thesis
  proof (cases "dropWhile isupper r")
    case Nil
    obtain c where "drop (k - 1) r = [c]" using last_of_prun [OF Nil s(3)] unfolding k_def by blast
    then have "drop (i + (k - 1)) s = [c]" by (rule drop_drop_eq [OF s(2)])
    then have e: "ends_after s (i + (k - 1)) = Some True" by (rule ends_after_last [OF s(1)])
    have "0 < k" using Nil s(3) unfolding k_def by (cases r) (auto split: if_splits)
    then show ?thesis using Nil e by (simp add: run Let_def len)
  next
    case (Cons c r')
    have "drop k r = c # r'" using Cons by (simp add: k_def)
    then have "drop (i + k) s = c # r'" by (rule drop_drop_eq [OF s(2)])
    then have "ends_after s (i + k) = Some (r' = [])" by (rule ends_after_iff [OF s(1)])
    then show ?thesis using Cons by (auto simp: run Let_def len)
  qed
qed

lemma bstreq_longer: "nul_free w \<Longrightarrow> length w = Suc (length y) \<Longrightarrow> bstreq w (y @ [NUL]) = Some False"
proof (induction w arbitrary: y)
  case (Cons c w)
  then show ?case by (cases y) auto
qed simp

lemma c_scan_cmp_run:
  assumes "nul_free y"
  shows "nul_free w \<Longrightarrow> length w \<le> length y + 1 \<Longrightarrow>
    (let out = c_scan_cmp s i index (length w) (y @ [NUL]) (w @ replicate (length y + 1 - length w) NUL);
         v = takeWhile isupper s
     in (dropWhile isupper s = [] \<longrightarrow> out = None \<or> out = Some (Inr (if s = [] then index else i + length s - 1))) \<and>
        (dropWhile isupper s \<noteq> [] \<longrightarrow>
          (if w @ v = y then out = Some (Inr (i + length v)) else out = None \<or> out = Some (Inl 0))))"
proof (induction s arbitrary: i index w)
  case (Cons c s)
  let ?m = "length y + 1 - length w"
  have bl: "bstrlen (w @ replicate ?m NUL) = (if ?m = 0 then None else Some (length w))"
    using bstrlen_zeros [OF Cons.prems(1)] .
  have by': "bstrlen (y @ [NUL]) = Some (length y)" using bstrlen_NUL [OF assms, of "[]"] .
  show ?case
  proof (cases "isupper c")
    case True
    show ?thesis
    proof (cases ?m)
      case 0
      then have "c_scan_cmp (c # s) i index (length w) (y @ [NUL]) (w @ replicate ?m NUL) = None" using True bl by simp
      moreover have "w @ c # u \<noteq> y" for u using 0 by auto
      ultimately show ?thesis using True by (simp add: Let_def)
    next
      case (Suc m')
      then have len: "length w \<le> length y" and m': "m' = length y + 1 - length (w @ [c])" by simp_all
      have upd: "(w @ replicate ?m NUL)[length w := c] = (w @ [c]) @ replicate m' NUL" using Suc by (simp add: list_update_append)
      have "wr (w @ replicate ?m NUL) (length w) c = Some ((w @ [c]) @ replicate m' NUL)"
        using Suc by (simp add: wr_def upd [unfolded Suc])
      moreover define out where "out =
          c_scan_cmp s (i + 1) i (length (w @ [c])) (y @ [NUL]) ((w @ [c]) @ replicate (length y + 1 - length (w @ [c])) NUL)"
      ultimately have step: "c_scan_cmp (c # s) i index (length w) (y @ [NUL]) (w @ replicate ?m NUL) = out"
        using True bl by' len Suc m' by simp
      have "nul_free (w @ [c])" using Cons.prems(1) True by auto
      moreover have "length (w @ [c]) \<le> length y + 1" using len by simp
      ultimately show ?thesis
        using Cons.IH [of "w @ [c]" "i + 1" i, folded out_def] True unfolding step Let_def by (auto split: if_splits)
    qed
  next
    case False
    have "bstreq (w @ replicate ?m NUL) (y @ [NUL]) = Some (w = y)"
    proof (cases ?m)
      case 0
      then show ?thesis using bstreq_longer [OF Cons.prems(1), of y] Cons.prems(2) by auto
    next
      case (Suc m')
      then show ?thesis using bstreq_NUL [OF Cons.prems(1) assms, of "replicate m' NUL" "[]"] by simp
    qed
    then show ?thesis using False by (simp add: Let_def)
  qed
qed simp

definition c_tail :: "junk \<Rightarrow> string \<Rightarrow> nat \<Rightarrow> bytes \<Rightarrow> int option" where
  "c_tail junk s index new_positioned =
    do {
      n \<leftarrow> bstrlen new_positioned;
      r \<leftarrow> c_scan_cmp (drop index s) index index 0 new_positioned (junk 2 (n + 1));
      (case r of
         Inl r \<Rightarrow> Some r
       | Inr index \<Rightarrow> Some (scan_digits (drop index s) 0))
    }"

lemma c_tail_one:
  assumes "drop idx s = r" "r \<noteq> []" "list_all isupper y"
  shows "c_tail zeros s idx (y @ [NUL]) = Some 1 \<longleftrightarrow>
    (\<exists>ds. r = y @ ds \<and> 1 \<le> length ds \<and> length ds \<le> 3 \<and> list_all isdigit ds)"
proof -
  let ?v = "takeWhile isupper r" and ?r = "dropWhile isupper r"
  have ny: "nul_free y" using assms(3) by (induction y) auto
  define out where "out = c_scan_cmp r idx idx 0 (y @ [NUL]) (replicate (length y + 1) NUL)"
  have tl: "c_tail zeros s idx (y @ [NUL]) = do { r \<leftarrow> out; (case r of Inl r \<Rightarrow> Some r | Inr index \<Rightarrow> Some (scan_digits (drop index s) 0)) }"
    using bstrlen_NUL [OF ny, of "[]"] assms(1) by (simp add: c_tail_def zeros_def out_def)
  have outcmp: "(?r = [] \<longrightarrow> out = None \<or> out = Some (Inr (idx + length r - 1))) \<and>
      (?r \<noteq> [] \<longrightarrow> (if ?v = y then out = Some (Inr (idx + length ?v)) else out = None \<or> out = Some (Inl 0)))"
    using c_scan_cmp_run [OF ny, of "[]" r idx idx] assms(2) by (simp add: Let_def out_def)
  show ?thesis
  proof (cases "?r = []")
    case True
    have "takeWhile isupper r = r" using takeWhile_dropWhile_id [of isupper r] True by simp
    then have "prun isupper r = length r" by (simp only: prun_def)
    then obtain c where c: "isupper c" "drop (length r - 1) r = [c]"
      using last_of_prun [OF True assms(2)] by auto
    then have "drop (idx + length r - 1) s = [c]"
      using drop_drop_eq [OF assms(1) c(2)] assms(2) by (cases r) auto
    then have "c_tail zeros s idx (y @ [NUL]) \<noteq> Some 1"
      using outcmp True c(1) by (auto simp: tl scan_digits_iff)
    moreover have "\<not> (\<exists>ds. r = y @ ds \<and> 1 \<le> length ds \<and> length ds \<le> 3 \<and> list_all isdigit ds)"
    proof
      assume "\<exists>ds. r = y @ ds \<and> 1 \<le> length ds \<and> length ds \<le> 3 \<and> list_all isdigit ds"
      then obtain d ds where "r = y @ d # ds" "isdigit d" by (metis One_nat_def Suc_le_length_iff list.pred_inject(2))
      then show False using True by (auto simp: dropWhile_eq_Nil_conv)
    qed
    ultimately show ?thesis by simp
  next
    case False
    have d: "drop (idx + length ?v) s = ?r"
      using drop_drop_eq [OF assms(1), of "length ?v"] by (simp add: dropWhile_eq_drop)
    have "c_tail zeros s idx (y @ [NUL]) = Some 1 \<longleftrightarrow> ?v = y \<and> list_all isdigit ?r \<and> length ?r \<le> 3"
      using outcmp False d by (auto simp: tl scan_digits_iff split: if_splits)
    also have "\<dots> \<longleftrightarrow> (\<exists>ds. r = y @ ds \<and> 1 \<le> length ds \<and> length ds \<le> 3 \<and> list_all isdigit ds)"
    proof
      assume v: "?v = y \<and> list_all isdigit ?r \<and> length ?r \<le> 3"
      then have "r = y @ ?r" using takeWhile_dropWhile_id [of isupper r] by simp
      then show "\<exists>ds. r = y @ ds \<and> 1 \<le> length ds \<and> length ds \<le> 3 \<and> list_all isdigit ds"
        using v False by (metis One_nat_def Suc_leI length_greater_0_conv)
    next
      assume "\<exists>ds. r = y @ ds \<and> 1 \<le> length ds \<and> length ds \<le> 3 \<and> list_all isdigit ds"
      then obtain ds where ds: "r = y @ ds" "length ds \<le> 3" "list_all isdigit ds" "ds \<noteq> []" by (metis One_nat_def Suc_le_length_iff list.distinct(1))
      then have "\<not> isupper (hd ds)" by (cases ds) auto
      then show "?v = y \<and> list_all isdigit ?r \<and> length ?r \<le> 3"
        using split_class [OF assms(3), of ds] ds by simp
    qed
    finally show ?thesis .
  qed
qed

lemma is_c_model_tail:
  "is_c_model junk s =
    (case scan_odd (CHR ''f'') s 0 0 0 of
       Inl r \<Rightarrow> Some r
     | Inr index \<Rightarrow> do {
         e \<leftarrow> ends_after s index;
         if e then Some 0 else do {
         r \<leftarrow> c_scan_upper (drop index s) index index 0 (junk 0 255);
         (case r of
            Inl r \<Rightarrow> Some r
          | Inr (index, positioned) \<Rightarrow> do {
              e \<leftarrow> ends_after s index;
              if e then Some 0 else do {
              new_positioned \<leftarrow> deal_positioned junk positioned;
              (case scan_many (CHR ''p'') (drop index s) index index 0 of
                 Inl r \<Rightarrow> Some r
               | Inr index \<Rightarrow> do {
                   e \<leftarrow> ends_after s index;
                   if e then Some 0 else c_tail junk s index new_positioned
                 })
              }
            })
         }
       })"
  unfolding is_c_model_def c_tail_def ..

text \<open>The capitals that follow the \<open>f\<close>s go into a buffer of 255 bytes, which must hold a terminator too.\<close>

definition capitals :: "string \<Rightarrow> nat" where
  "capitals s = length (takeWhile isupper (dropWhile (\<lambda>c. c = CHR ''f'') s))"

lemma fill_full: "255 \<le> length X \<Longrightarrow> nul_free X \<Longrightarrow> deal_positioned junk (fill (zeros 0 255) 0 X) = None"
proof -
  assume X: "255 \<le> length X" "nul_free X"
  have "bstrlen b = None" if "nul_free b" for b using that by (induction b) auto
  moreover have "nul_free (fill (zeros 0 255) 0 X)" using X by (simp add: fill_def zeros_def)
  ultimately show ?thesis by (simp add: deal_positioned_def)
qed

lemma is_c_model_lang:
  assumes "nul_free s"
  shows "is_c_model zeros s = Some 1 \<longleftrightarrow> lang_c s \<and> capitals s < 255"
    and "lang_c s \<Longrightarrow> 255 \<le> capitals s \<Longrightarrow> is_c_model zeros s = None"
proof -
  define a r1 where "a = run (CHR ''f'') s" and "r1 = rest (CHR ''f'') s"
  define k X r2 where "k = prun isupper r1" and "X = takeWhile isupper r1" and "r2 = dropWhile isupper r1"
  define m r3 where "m = run (CHR ''p'') r2" and "r3 = rest (CHR ''p'') r2"
  have d1: "drop a s = r1" by (simp add: a_def r1_def)
  have d2: "drop (a + k) s = r2" using drop_drop_eq [OF d1] by (simp add: k_def r2_def)
  have d3: "drop (a + k + m) s = r3" using drop_drop_eq [OF d2] by (simp add: m_def r3_def)
  have X: "list_all isupper X" "length X = k" by (simp_all add: X_def k_def prun_def list_all_iff) (metis set_takeWhileD)
  have s: "s = replicate a (CHR ''f'') @ X @ replicate m (CHR ''p'') @ r3"
    using run_append [of s "CHR ''f''"] run_append [of r2 "CHR ''p''"]
    by (simp add: a_def r1_def X_def r2_def m_def r3_def)
  have len: "length s = a + k + m + length r3" using arg_cong [OF s, of length] X(2) by simp
  have r12: "length r1 = k + length r2" "length r2 = m + length r3"
    using length_append [of X r2] takeWhile_dropWhile_id [of isupper r1] X(2) length_run [of r2 "CHR ''p''"]
    by (simp_all add: X_def r2_def m_def r3_def)
  define core where "core \<longleftrightarrow> odd a \<and> odd k \<and> 2 \<le> m \<and> (\<exists>ds. r3 = evens X @ ds \<and> 1 \<le> length ds \<and> length ds \<le> 3 \<and> list_all isdigit ds)"
  have cap: "capitals s = k" by (simp add: capitals_def k_def r1_def prun_def rest_def)
  have c: "(is_c_model zeros s = Some 1 \<longleftrightarrow> core \<and> k < 255) \<and> (core \<longrightarrow> 255 \<le> k \<longrightarrow> is_c_model zeros s = None)"
  proof (cases "s = []")
    case True
    then have "is_c_model zeros s = None" by (simp add: is_c_model_tail ends_after_def)
    moreover have "a = 0" using True by (simp add: a_def)
    ultimately show ?thesis by (simp add: core_def)
  next
    case ne: False
    define G where "G np j = c_tail zeros s j np" for np j
    define F where "F j b = do {
        np \<leftarrow> deal_positioned zeros b;
        (case scan_many (CHR ''p'') (drop j s) j j 0 of Inl v \<Rightarrow> Some v
         | Inr j \<Rightarrow> do { e \<leftarrow> ends_after s j; if e then Some 0 else G np j }) }" for j b
    have st1: "is_c_model zeros s =
        (if r1 = [] \<or> even a \<or> tl r1 = [] then Some 0
         else do { x \<leftarrow> c_scan_upper r1 a a 0 (zeros 0 255);
           (case x of Inl v \<Rightarrow> Some v | Inr (j, b) \<Rightarrow> do { e \<leftarrow> ends_after s j; if e then Some 0 else F j b }) })"
      unfolding is_c_model_tail F_def G_def using scan_odd_stage [OF assms(1) _ ne, where i = 0 and x = "CHR ''f''"] d1
      by (simp add: a_def r1_def)
    have st2: "is_c_model zeros s =
        (if r1 = [] \<or> even a \<or> tl r1 = [] then Some 0 else if 255 < k then None
         else if r2 = [] \<or> even k \<or> tl r2 = [] then Some 0 else F (a + k) (fill (zeros 0 255) 0 X))"
      unfolding st1 using upper_stage [OF assms(1) d1, where f = F, folded k_def r2_def X_def] by simp
    show ?thesis
    proof (cases "r1 = [] \<or> even a \<or> tl r1 = [] \<or> r2 = [] \<or> even k \<or> tl r2 = []")
      case True
      have "is_c_model zeros s \<noteq> Some 1" unfolding st2 using True by auto
      moreover have "\<not> core"
      proof
        assume core
        then have km: "odd k" "2 \<le> m" "odd a" unfolding core_def by blast+
        then have "2 \<le> length r2" "2 \<le> length r1" using r12 by linarith+
        then show False using True km by (auto dest!: two_le_length)
      qed
      ultimately show ?thesis by simp
    next
      case False
      then have odd: "odd a" "odd k" by auto
      have nX: "nul_free X" using X(1) by (induction X) auto
      show ?thesis
      proof (cases "k < 255")
        case over: False
        have "is_c_model zeros s = None"
          unfolding st2 using False over fill_full [OF _ nX] X(2) by (simp add: F_def)
        then show ?thesis using over by simp
      next
        case k255: True
      have fill: "fill (zeros 0 255) 0 X = X @ NUL # replicate (254 - k) NUL"
        using fill_zeros [of X 255] X(2) k255 by (simp add: zeros_def Suc_diff_le [symmetric] replicate_Suc [symmetric] del: replicate_Suc)
      have st3: "is_c_model zeros s = (case scan_many (CHR ''p'') r2 (a + k) (a + k) 0 of Inl v \<Rightarrow> Some v
         | Inr j \<Rightarrow> do { e \<leftarrow> ends_after s j; if e then Some 0 else G (evens X @ [NUL]) j })"
        unfolding st2 using False k255 deal_positioned_evens [OF nX] X(2) odd d2 by (simp add: F_def fill)
      have r2: "r2 \<noteq> []" using False by simp
      have st4: "is_c_model zeros s =
          (if r3 = [] \<or> m < 2 \<or> tl r3 = [] then Some 0 else c_tail zeros s (a + k + m) (evens X @ [NUL]))"
        unfolding st3 using scan_many_stage [OF assms(1) d2 r2, where x = "CHR ''p''" and f = "G (evens X @ [NUL])", folded m_def r3_def]
        by (simp add: G_def)
      show ?thesis
      proof (cases "r3 = []")
        case True
        then show ?thesis using st4 by (auto simp: core_def)
      next
        case r3: False
        have "list_all isupper (evens X)" using X(1) set_evens [of X] by (auto simp: list_all_iff)
        then have one: "c_tail zeros s (a + k + m) (evens X @ [NUL]) = Some 1 \<longleftrightarrow>
            (\<exists>ds. r3 = evens X @ ds \<and> 1 \<le> length ds \<and> length ds \<le> 3 \<and> list_all isdigit ds)"
          using c_tail_one [OF d3 r3] by blast
        have "tl r3 \<noteq> []" if "r3 = evens X @ ds" "1 \<le> length ds" for ds
          using that odd(2) X(2) length_evens [of X] two_le_length [of r3] by (auto elim!: oddE)
        then show ?thesis using st4 one r3 odd k255 by (auto simp: core_def)
      qed
      qed
    qed
  qed
  have "core \<longleftrightarrow> lang_c s"
  proof
    assume core
    then show "lang_c s" using s X unfolding core_def lang_c_def by metis
  next
    assume "lang_c s"
    then obtain a' Y m' ds where l: "s = replicate a' (CHR ''f'') @ Y @ replicate m' (CHR ''p'') @ evens Y @ ds" "odd a'"
        "odd (length Y)" "list_all isupper Y" "2 \<le> m'" "1 \<le> length ds" "length ds \<le> 3" "list_all isdigit ds"
      unfolding lang_c_def by blast
    have "hd (Y @ t) \<noteq> CHR ''f''" for t using l(3,4) by (cases Y) auto
    then have 1: "a = a'" "r1 = Y @ replicate m' (CHR ''p'') @ evens Y @ ds"
      using run_unique [of "Y @ replicate m' (CHR ''p'') @ evens Y @ ds" "CHR ''f''" a'] l(1) by (simp_all add: a_def r1_def)
    have "\<not> isupper (hd (replicate m' (CHR ''p'') @ t))" for t
      using l(5) by (cases m') (auto simp: isupper_def less_eq_char_code)
    then have 2: "X = Y" "r2 = replicate m' (CHR ''p'') @ evens Y @ ds"
      using split_class [of isupper Y "replicate m' (CHR ''p'') @ evens Y @ ds"] l(4) 1(2) by (simp_all add: X_def r2_def)
    have "hd (evens Y @ t) \<noteq> CHR ''p''" for t
      using l(3,4) by (cases Y rule: evens.cases) auto
    then have 3: "m = m'" "r3 = evens Y @ ds"
      using run_unique [of "evens Y @ ds" "CHR ''p''" m'] 2(2) by (simp_all add: m_def r3_def)
    show core using l 1 2 3 X(2) by (auto simp: core_def)
  qed
  then show "is_c_model zeros s = Some 1 \<longleftrightarrow> lang_c s \<and> capitals s < 255"
    and "lang_c s \<Longrightarrow> 255 \<le> capitals s \<Longrightarrow> is_c_model zeros s = None"
    using c cap by auto
qed

section \<open>The conversions\<close>

lemma remove_char:
  assumes "nul_free (p @ c # q)" "p \<noteq> []" "length p \<le> length x + 1" "length (p @ c # q) < 2 ^ 64"
  shows "\<exists>x'. remove_char_at_index (p @ c # q @ NUL # x) (length p) = Some (p @ q @ NUL # x') \<and> length x' = length x + 1"
proof -
  let ?s = "p @ c # q @ NUL # x" and ?n = "length p + length q"
  have n: "bstrlen ?s = Some (?n + 1)" using bstrlen_NUL [OF assms(1), of x] by simp
  have "sz_sub (?n + 1) 1 = ?n" using sz_sub_exact [of 1 "?n + 1"] assms(4) by simp
  moreover obtain b p' where "p = b # p'" using assms(2) by (cases p) auto
  ultimately have "remove_char_at_index ?s (length p) = Some (p @ q @ NUL # (take (length p') x @ drop (length p + ?n) ?s))"
    using n assms(3) by (simp add: remove_char_at_index_def)
  moreover have "length (take (length p') x @ drop (length p + ?n) ?s) = length x + 1"
    using assms(3) \<open>p = b # p'\<close> by simp
  ultimately show ?thesis by blast
qed

lemma first_A_append: "CHR ''A'' \<notin> set u \<Longrightarrow> first_A (u @ CHR ''A'' # t) i = i + length u"
  by (induction u arbitrary: i) auto

lemma last_A_at: "b ! n = CHR ''A'' \<Longrightarrow> (\<And>j. n < j \<Longrightarrow> j \<le> n + k \<Longrightarrow> b ! j \<noteq> CHR ''A'') \<Longrightarrow> last_A b (n + k) = Some n"
proof (induction k)
  case 0
  then show ?case by (cases n) auto
qed auto

lemma last_A_append:
  assumes "CHR ''A'' \<notin> set w"
  shows "last_A (u @ CHR ''A'' # w @ x) (length u + length w) = Some (length u)"
proof (rule last_A_at)
  fix j assume j: "length u < j" "j \<le> length u + length w"
  define k where "k = j - length u - 1"
  have "j = length u + Suc k" "k < length w" using j by (auto simp: k_def)
  then have "(u @ CHR ''A'' # w @ x) ! j = w ! k" by (simp add: nth_append)
  moreover have "w ! k \<in> set w" using \<open>k < length w\<close> by simp
  ultimately show "(u @ CHR ''A'' # w @ x) ! j \<noteq> CHR ''A''" using assms by metis
qed simp

lemma c_conversion:
  assumes s: "s = u @ CHR ''A'' # t" "CHR ''A'' \<notin> set u" "u \<noteq> []" and l: "s = v @ CHR ''A'' # w" "CHR ''A'' \<notin> set w" "v \<noteq> []"
    and n: "nul_free s" "length s \<le> length x" "length s < 2 ^ 64"
  obtains x' where "c_model_conversion (s @ NUL # x) = remove_char_at_index (u @ t @ NUL # x') (length v - 1)" "length x' = length x + 1"
proof -
  have bs: "bstrlen (s @ NUL # x) = Some (length s)" using bstrlen_NUL [OF n(1)] .
  obtain x' where x': "remove_char_at_index (s @ NUL # x) (length u) = Some (u @ t @ NUL # x')" "length x' = length x + 1"
    using remove_char [of u "CHR ''A''" t x] n s by auto
  have f: "first_A (take (length s) (s @ NUL # x)) 0 = length u" using first_A_append [OF s(2), of t 0] s(1) by simp
  have "last_A (s @ NUL # x) (length s - 1) = Some (length v)"
    using last_A_append [OF l(2), of v "NUL # x"] by (simp add: l(1))
  then have "c_model_conversion (s @ NUL # x) = remove_char_at_index (u @ t @ NUL # x') (length v - 1)"
    using bs f x'(1) s(3) l(3) by (simp add: c_model_conversion_def Let_def)
  then show thesis using that x'(2) by blast
qed

lemma printed_NUL: "nul_free s \<Longrightarrow> printed (Some (s @ NUL # x)) = Some s"
  by (simp add: printed_def bstrlen_NUL)

lemma strcat_no_room: "NUL \<notin> set src \<Longrightarrow> strcat dst src = None"
proof -
  assume "NUL \<notin> set src"
  then have "bstrlen src = None" by (induction src) auto
  then show ?thesis by (auto simp: strcat_def bind_eq_None_conv)
qed

section \<open>The properties\<close>

text \<open>C28. The recognisers of models A and B accept exactly the strings of their pattern. That of model C accepts the
  strings of its pattern with fewer than 255 capitals; on those with more it runs out of its buffer of 255 bytes. This is
  for models B and C where the buffers that \<open>malloc\<close> returns happen to be zero.\<close>

theorem models_recognise:
  assumes "nul_free s"
  shows "(is_a_model s = Some 1 \<longleftrightarrow> lang_a s) \<and> (is_b_model zeros s = Some 1 \<longleftrightarrow> lang_b s) \<and>
    (is_c_model zeros s = Some 1 \<longleftrightarrow> lang_c s \<and> capitals s < 255) \<and>
    (lang_c s \<and> 255 \<le> capitals s \<longrightarrow> is_c_model zeros s = None)"
  using is_a_model_runs [OF assms] runs_a_iff [of s] is_b_model_lang [OF assms] is_c_model_lang [OF assms]
  by (auto simp: lang_a_def)

theorem models_recognise_witness:
  "is_a_model ''lltt12'' = Some 1 \<and> lang_a ''lltt12'' \<and> is_b_model zeros ''ii12u21A'' = Some 1 \<and> lang_b ''ii12u21A'' \<and>
   is_c_model zeros ''fABCppAC7'' = Some 1 \<and> lang_c ''fABCppAC7''"
proof -
  have "lang_a ''lltt12''" unfolding runs_a_iff [symmetric] by code_simp
  moreover have "lang_b ''ii12u21A''"
    unfolding lang_b_def
    by (rule exI [of _ "Suc (Suc 0)"], rule exI [of _ "''12''"], rule exI [of _ 1], rule exI [of _ "''A''"]) (simp add: isdigit_def isupper_def less_eq_char_code)
  moreover have "lang_c ''fABCppAC7''"
    unfolding lang_c_def
    by (rule exI [of _ 1], rule exI [of _ "''ABC''"], rule exI [of _ "Suc (Suc 0)"], rule exI [of _ "''7''"])
      (simp add: isdigit_def isupper_def less_eq_char_code)
  moreover have "capitals ''fABCppAC7'' < 255" by code_simp
  ultimately show ?thesis
    using models_recognise [of "''lltt12''"] models_recognise [of "''ii12u21A''"] models_recognise [of "''fABCppAC7''"]
    by (simp add: NUL_def)
qed

text \<open>Without a flag the program answers \<open>Yes\<close> for the arguments of model A and \<open>No\<close> for the others, in
  order, and reads no memory it should not.\<close>

lemma main_answers:
  assumes "args \<noteq> []" "hd args \<notin> {''-a'', ''-b'', ''-c'', ''-t''}" "\<forall>s\<in>set args. nul_free s \<and> s \<noteq> []"
  shows "main junk (prog # args) = Some (map (\<lambda>s. if lang_a s then ''Yes'' else ''No'') args)"
proof -
  obtain s ss where args: "args = s # ss" using assms(1) by (cases args) auto
  have "yes_no (\<lambda>_. is_a_model) k l = Some (map (\<lambda>s. if lang_a s then ''Yes'' else ''No'') l)"
    if "\<forall>s\<in>set l. nul_free s \<and> s \<noteq> []" for k l
    using that by (induction l arbitrary: k) (auto simp: is_a_model_runs runs_a_iff)
  from this [of args 1] show ?thesis
    using assms args by (simp add: main_def conj_def neg_def argc_ge_def arg_is_def)
qed

text \<open>The conversion of model C removes the first and the last \<open>A\<close> of a string that has two of them
  and does not start with one, given that enough memory follows the string; when only one \<open>A\<close> is
  there, at position 2 or later, it removes the character before it as well.\<close>

lemma c_conversion_removes:
  assumes "nul_free s" "length s \<le> length x" "length s < 2 ^ 64" "u \<noteq> []" "CHR ''A'' \<notin> set u" "CHR ''A'' \<notin> set w"
  shows "(s = u @ CHR ''A'' # v @ CHR ''A'' # w \<longrightarrow> printed (c_model_conversion (s @ NUL # x)) = Some (u @ v @ w)) \<and>
    (s = u @ c # CHR ''A'' # w \<and> c \<noteq> CHR ''A'' \<longrightarrow> printed (c_model_conversion (s @ NUL # x)) = Some (u @ w))"
proof (intro conjI impI)
  assume s: "s = u @ CHR ''A'' # v @ CHR ''A'' # w"
  obtain x' where x': "c_model_conversion (s @ NUL # x) = remove_char_at_index (u @ (v @ CHR ''A'' # w) @ NUL # x') (length (u @ CHR ''A'' # v) - 1)"
      "length x' = length x + 1"
    using c_conversion [of s u "v @ CHR ''A'' # w" "u @ CHR ''A'' # v" w x] assms s by auto
  obtain x'' where "remove_char_at_index ((u @ v) @ CHR ''A'' # w @ NUL # x') (length (u @ v)) = Some ((u @ v) @ w @ NUL # x'')"
    using remove_char [of "u @ v" "CHR ''A''" w x'] assms s x'(2) by auto
  then have "c_model_conversion (s @ NUL # x) = Some ((u @ v @ w) @ NUL # x'')" using x'(1) by simp
  then show "printed (c_model_conversion (s @ NUL # x)) = Some (u @ v @ w)"
    using printed_NUL [of "u @ v @ w" x''] assms(1) s by simp
next
  assume s: "s = u @ c # CHR ''A'' # w \<and> c \<noteq> CHR ''A''"
  obtain x' where x': "c_model_conversion (s @ NUL # x) = remove_char_at_index ((u @ [c]) @ w @ NUL # x') (length (u @ [c]) - 1)"
      "length x' = length x + 1"
    using c_conversion [of s "u @ [c]" w "u @ [c]" w x] assms s by auto
  obtain x'' where "remove_char_at_index (u @ c # w @ NUL # x') (length u) = Some (u @ w @ NUL # x'')"
    using remove_char [of u c w x'] assms s x'(2) by auto
  then have "c_model_conversion (s @ NUL # x) = Some ((u @ w) @ NUL # x'')" using x'(1) by simp
  then show "printed (c_model_conversion (s @ NUL # x)) = Some (u @ w)"
    using printed_NUL [of "u @ w" x''] assms(1) s by simp
qed

text \<open>C29. The conversion of model B is undefined for every string but the empty one: \<open>temp\<close> has two bytes
  and no terminator when \<open>strcat\<close> reads it. A flag without a further argument is undefined as well:
  the last tests compare \<open>argv[2]\<close>, which is \<open>NULL\<close>.\<close>

theorem matchlab_undefined:
  assumes "nul_free s" "s \<noteq> []" "\<forall>k n. length (junk k n) = n" "f \<in> {''-a'', ''-b'', ''-c'', ''-t''}"
  shows "b_model_conversion junk s = None \<and> main junk' [prog, f] = None"
proof
  obtain c cs where s: "s = c # cs" using assms(2) by (cases s) auto
  obtain a b where "junk 1 2 = [a, b]" using assms(3) by (metis length_0_conv length_Suc_conv numeral_2_eq_2)
  moreover have "NUL \<noteq> digit_char 0" using not_sym [OF digit_char_props(3) [of 0]] by simp
  then have "strcat r [c, digit_char 0] = None" for r using assms(1) s by (intro strcat_no_room) auto
  ultimately have "b_convert junk s 0 (junk 1 2) r = None" for r
    using s by (simp add: wr_def)
  then show "b_model_conversion junk s = None"
    by (auto simp: b_model_conversion_def Let_def bind_eq_None_conv)
  show "main junk' [prog, f] = None"
    using assms(4) by (auto simp: main_def conj_def disj_def neg_def argc_ge_def arg_is_def both_flags_def)
qed

theorem matchlab_undefined_witness: "b_model_conversion zeros ''ii1u1A'' = None \<and> main zeros2 [''matchlab'', ''-a''] = None"
  using matchlab_undefined [of "''ii1u1A''" zeros "''-a''" zeros2 "''matchlab''"] by (simp add: zeros_def NUL_def)

end
