(* ===== verification/Inspect.thy ===== *)
theory Inspect
  imports C_Prelude "HOL-Library.Word"
begin

text \<open>
  The inspector of shared libraries \<open>Linkinglab/inspect.c\<close>. The mapped file is a list of bytes, the
  pages that \<open>mmap\<close> returned; a pointer is its offset from \<open>ehdr\<close>, and pointer arithmetic is that of
  64 bit words. A load outside the mapping is undefined, \<open>None\<close>. The layout of the ELF structures is
  the one of \<open>elf.h\<close>. What the program prints is the list of its lines.
\<close>

unbundle bit_operations_syntax

section \<open>Loads, little endian\<close>

type_synonym image = "8 word list"

fun le :: "8 word list \<Rightarrow> int" where
  "le [] = 0"
| "le (b # bs) = uint b + 256 * le bs"

definition ld :: "image \<Rightarrow> nat \<Rightarrow> nat \<Rightarrow> int option" where
  "ld m n a = (if a + n \<le> length m then Some (le (take n (drop a m))) else None)"

definition byte :: "image \<Rightarrow> nat \<Rightarrow> 8 word option" where
  "byte m a = (if a < length m then Some (m ! a) else None)"

definition u16 :: "image \<Rightarrow> 64 word \<Rightarrow> 16 word option" where
  "u16 m p = map_option word_of_int (ld m 2 (unat p))"

definition u32 :: "image \<Rightarrow> 64 word \<Rightarrow> 32 word option" where
  "u32 m p = map_option word_of_int (ld m 4 (unat p))"

definition u64 :: "image \<Rightarrow> 64 word \<Rightarrow> 64 word option" where
  "u64 m p = map_option word_of_int (ld m 8 (unat p))"

definition byte_of :: "char \<Rightarrow> 8 word" where
  "byte_of c = word_of_nat (of_char c)"

text \<open>\<open>strcmp(name, s) == 0\<close>, and a string that is printed or measured.\<close>

fun streq_at :: "string \<Rightarrow> image \<Rightarrow> bool option" where
  "streq_at name [] = None"
| "streq_at [] (b # bs) = Some (b = 0)"
| "streq_at (c # cs) (b # bs) = (if b = byte_of c then streq_at cs bs else Some False)"

fun cstr :: "image \<Rightarrow> string option" where
  "cstr [] = None"
| "cstr (b # bs) = (if b = 0 then Some '''' else map_option (Cons (char_of (unat b))) (cstr bs))"

section \<open>The header and its sections\<close>

definition check_for_shared_object :: "image \<Rightarrow> (string \<times> int + unit) option" where
  "check_for_shared_object m =
    do {
      b0 \<leftarrow> byte m 0;
      b1 \<leftarrow> byte m 1;
      b2 \<leftarrow> byte m 2;
      b3 \<leftarrow> byte m 3;
      if b0 \<noteq> 0x7f \<or> b1 \<noteq> byte_of (CHR ''E'') \<or> b2 \<noteq> byte_of (CHR ''L'') \<or> b3 \<noteq> byte_of (CHR ''F'')
      then Some (Inl (''not an ELF file'', 0))
      else do {
        cls \<leftarrow> byte m 4;
        if cls \<noteq> 2 then Some (Inl (''not a 64-bit ELF file'', 0))
        else do {
          e_type \<leftarrow> u16 m 16;
          if e_type \<noteq> 3 then Some (Inl (''not a shared-object file'', 0)) else Some (Inr ())
        }
      }
    }"

text \<open>\<open>&shdrs[i]\<close>.\<close>

definition section_by_index :: "image \<Rightarrow> int \<Rightarrow> 64 word option" where
  "section_by_index m index = map_option (\<lambda>shdrs. shdrs + 64 * word_of_int index) (u64 m 40)"

fun section_loop :: "image \<Rightarrow> 64 word \<Rightarrow> 64 word \<Rightarrow> string \<Rightarrow> nat list \<Rightarrow> 64 word option option" where
  "section_loop m shdrs strs name [] = Some None"
| "section_loop m shdrs strs name (i # is) =
    do {
      let shdr = shdrs + 64 * word_of_nat i;
      sh_name \<leftarrow> u32 m shdr;
      eq \<leftarrow> streq_at name (drop (unat (strs + ucast sh_name)) m);
      if eq then Some (Some shdr) else section_loop m shdrs strs name is
    }"

text \<open>\<open>Some None\<close> is the \<open>NULL\<close> that the code returns when no section has the name.\<close>

definition section_by_name :: "image \<Rightarrow> string \<Rightarrow> 64 word option option" where
  "section_by_name m name =
    do {
      shdrs \<leftarrow> u64 m 40;
      e_shstrndx \<leftarrow> u16 m 62;
      strs \<leftarrow> u64 m (shdrs + 64 * ucast e_shstrndx + 24);
      e_shnum \<leftarrow> u16 m 60;
      section_loop m shdrs strs name [0..<unat e_shnum]
    }"

definition AT_SEC :: "image \<Rightarrow> 64 word option \<Rightarrow> 64 word option" where
  "AT_SEC m shdr = do { shdr \<leftarrow> shdr; u64 m (shdr + 24) }"

text \<open>\<open>int count = shdr->sh_size / sizeof(T)\<close>.\<close>

definition entries :: "image \<Rightarrow> 64 word option \<Rightarrow> 64 word \<Rightarrow> int option" where
  "entries m shdr sz =
    do { shdr \<leftarrow> shdr; sh_size \<leftarrow> u64 m (shdr + 32); Some (sint (ucast (sh_size div sz) :: 32 word)) }"

section \<open>Decoding\<close>

definition CHECK_HIGH_BIT :: "8 word \<Rightarrow> int" where
  "CHECK_HIGH_BIT var = drop_bit 2 (uint var) AND 0xF0"

definition CHECK_LOW_BIT :: "8 word \<Rightarrow> int" where
  "CHECK_LOW_BIT var = push_bit 1 (uint var) AND 0x0F"

definition inspect_helper :: "image \<Rightarrow> nat \<Rightarrow> nat option" where
  "inspect_helper m s =
    do {
      b0 \<leftarrow> byte m s;
      if b0 = 0x48 then do {
        b1 \<leftarrow> byte m (s + 1);
        four \<leftarrow> if b1 = 0x8b then map_option (\<lambda>b2. CHECK_HIGH_BIT b2 = 0 \<and> CHECK_LOW_BIT b2 = 10) (byte m (s + 2))
               else Some False;
        if four then Some 4
        else if b1 = 0x63 \<or> b1 = 0x89 \<or> b1 = 0x8b then do {
          b2 \<leftarrow> byte m (s + 2);
          Some (if CHECK_HIGH_BIT b2 = 3 then 6
                else if CHECK_HIGH_BIT b2 = 0 \<and> CHECK_LOW_BIT b2 = 10 then 8
                else if CHECK_HIGH_BIT b2 = 0 \<and> CHECK_LOW_BIT b2 = 8 then 10
                else if \<not> (CHECK_HIGH_BIT b2 = 0 \<and> CHECK_LOW_BIT b2 = 8) \<or> \<not> (CHECK_HIGH_BIT b2 = 0 \<and> CHECK_LOW_BIT b2 = 10)
                then 12
                else 0)
        }
        else Some 0
      }
      else if b0 = 0x63 \<or> b0 = 0x89 \<or> b0 = 0x8b then do {
        b1 \<leftarrow> byte m (s + 1);
        Some (if CHECK_HIGH_BIT b1 = 0 \<and> CHECK_LOW_BIT b1 = 10 then 7
              else if CHECK_HIGH_BIT b1 = 3 then 5
              else if CHECK_HIGH_BIT b1 = 0 \<and> CHECK_LOW_BIT b1 = 8 then 9
              else if \<not> (CHECK_HIGH_BIT b1 = 0 \<and> CHECK_LOW_BIT b1 = 8) \<or> \<not> (CHECK_HIGH_BIT b1 = 0 \<and> CHECK_LOW_BIT b1 = 10)
              then 11
              else 0)
      }
      else Some 0
    }"

section \<open>The relocations of a load\<close>

fun rela_loop :: "image \<Rightarrow> 64 word \<Rightarrow> 64 word \<Rightarrow> 64 word \<Rightarrow> 64 word \<Rightarrow> nat list \<Rightarrow> string list option" where
  "rela_loop m syms strs relas target [] = Some []"
| "rela_loop m syms strs relas target (i # is) =
    do {
      let rela = relas + 24 * word_of_nat i;
      r_info \<leftarrow> u64 m (rela + 8);
      let info = sint (ucast (drop_bit 32 r_info) :: 32 word);
      st_name \<leftarrow> u32 m (syms + 24 * word_of_int info);
      r_offset \<leftarrow> u64 m rela;
      line \<leftarrow> if target = r_offset
        then do { s \<leftarrow> cstr (drop (unat (strs + ucast st_name)) m); Some [''  '' @ s] }
        else Some [];
      rest \<leftarrow> rela_loop m syms strs relas target is;
      Some (line @ rest)
    }"

definition report :: "image \<Rightarrow> nat \<Rightarrow> 64 word \<Rightarrow> string list option" where
  "report m current_addr st_value =
    do {
      offset \<leftarrow> map_option word_of_int (ld m 4 (current_addr + 3)) :: 32 word option;
      dynsym_shdr \<leftarrow> section_by_name m ''.dynsym'';
      syms \<leftarrow> AT_SEC m dynsym_shdr;
      dynstr_shdr \<leftarrow> section_by_name m ''.dynstr'';
      strs \<leftarrow> AT_SEC m dynstr_shdr;
      rela_dyn_shdr \<leftarrow> section_by_name m ''.rela.dyn'';
      relas \<leftarrow> AT_SEC m rela_dyn_shdr;
      count \<leftarrow> entries m rela_dyn_shdr 24;
      rela_loop m syms strs relas (st_value + 7 + scast offset) [0..<nat count]
    }"

section \<open>Walking over the instructions of a function\<close>

function inspecting :: "image \<Rightarrow> nat \<Rightarrow> 64 word \<Rightarrow> string list option" where
  "inspecting m current_addr st_value =
    (case byte m current_addr of
       None \<Rightarrow> None
     | Some b \<Rightarrow>
         if b = 0xc3 then Some []
         else if b = 0xe9 then inspecting m (current_addr + 5) (st_value + 5)
         else if b = 0xeb then inspecting m (current_addr + 2) (st_value + 2)
         else (case inspect_helper m current_addr of
             None \<Rightarrow> None
           | Some h \<Rightarrow>
               if h = 4 then (case report m current_addr st_value of
                   None \<Rightarrow> None
                 | Some lines \<Rightarrow> map_option ((@) lines) (inspecting m (current_addr + 7) (st_value + 7)))
               else if h = 5 then inspecting m (current_addr + 2) (st_value + 2)
               else if h = 6 then inspecting m (current_addr + 3) (st_value + 3)
               else if h = 7 then inspecting m (current_addr + 6) (st_value + 6)
               else if h = 8 then inspecting m (current_addr + 7) (st_value + 7)
               else if h = 9 then inspecting m (current_addr + 3) (st_value + 3)
               else if h = 10 then inspecting m (current_addr + 4) (st_value + 4)
               else if h = 11 then inspecting m (current_addr + 2) (st_value + 2)
               else if h = 12 then inspecting m (current_addr + 3) (st_value + 3)
               else if b = 0xff then (case byte m (current_addr + 1) of
                   None \<Rightarrow> None
                 | Some b1 \<Rightarrow>
                     if b1 = 0x25 then inspecting m (current_addr + 6) (st_value + 6) else Some [])
               else Some []))"
  by pat_completeness auto
termination
  by (relation "measure (\<lambda>(m, a, st). length m - a)") (auto simp: byte_def split: if_splits)

declare inspecting.simps [simp del]

section \<open>The program\<close>

fun sym_loop :: "image \<Rightarrow> 64 word \<Rightarrow> 64 word \<Rightarrow> nat list \<Rightarrow> string list option" where
  "sym_loop m syms strs [] = Some []"
| "sym_loop m syms strs (i # is) =
    do {
      let sym = syms + 24 * word_of_nat i;
      st_info \<leftarrow> byte m (unat (sym + 4));
      lines \<leftarrow>
        if st_info AND 0xf = 2 then do {
          st_name \<leftarrow> u32 m sym;
          s \<leftarrow> cstr (drop (unat (strs + ucast st_name)) m);
          if length s = 1 then do {
            st_shndx \<leftarrow> u16 m (sym + 6);
            shdr \<leftarrow> section_by_index m (uint st_shndx);
            sec \<leftarrow> AT_SEC m (Some shdr);
            st_value \<leftarrow> u64 m (sym + 8);
            sh_addr \<leftarrow> u64 m (shdr + 16);
            used \<leftarrow> inspecting m (unat (sec + (st_value - sh_addr))) st_value;
            Some (s # used)
          } else Some []
        } else Some [];
      rest \<leftarrow> sym_loop m syms strs is;
      Some (lines @ rest)
    }"

text \<open>\<open>Inl\<close> is the reason and the code that \<open>fail\<close> prints before the program exits, \<open>Inr\<close> the lines of a
  run that ends normally. What \<open>open\<close> and \<open>mmap\<close> return is an argument.\<close>

definition main :: "nat \<Rightarrow> int \<Rightarrow> image option \<Rightarrow> int \<Rightarrow> (string \<times> int + string list) option" where
  "main argc fd p errno =
    (if argc \<noteq> 2 then Some (Inl (''expected one file on the command line'', 0))
     else if fd = -1 then Some (Inl (''could not open file'', errno))
     else (case p of
         None \<Rightarrow> Some (Inl (''mmap failed'', errno))
       | Some m \<Rightarrow> do {
           r \<leftarrow> check_for_shared_object m;
           (case r of
              Inl e \<Rightarrow> Some (Inl e)
            | Inr _ \<Rightarrow> do {
                dynsym_shdr \<leftarrow> section_by_name m ''.dynsym'';
                syms \<leftarrow> AT_SEC m dynsym_shdr;
                dynstr_shdr \<leftarrow> section_by_name m ''.dynstr'';
                strs \<leftarrow> AT_SEC m dynstr_shdr;
                count \<leftarrow> entries m dynsym_shdr 24;
                map_option Inr (sym_loop m syms strs [0..<nat count])
              })
         }))"


section \<open>The instruction set, independently of the decoder\<close>

text \<open>The fields of a ModRM byte, and the instructions the decoder is for: jumps, and moves (with or
  without the prefix \<open>0x48\<close>) between registers or with a memory operand without displacement, with a
  SIB byte, or relative to the instruction pointer. A SIB byte with base 5 is left out: four bytes of displacement follow it,
  for which the decoder does not look.\<close>

definition md :: "8 word \<Rightarrow> nat" where
  "md b = unat b div 64"

definition rm :: "8 word \<Rightarrow> nat" where
  "rm b = unat b mod 8"

datatype insn =
    Jmp32 "8 word list"
  | Jmp8 "8 word"
  | JmpGot "8 word list"
  | Mov bool "8 word" "8 word" "8 word list"

fun enc :: "insn \<Rightarrow> 8 word list" where
  "enc (Jmp32 d) = 0xe9 # d"
| "enc (Jmp8 d) = [0xeb, d]"
| "enc (JmpGot d) = 0xff # 0x25 # d"
| "enc (Mov rex op modrm rest) = (if rex then [0x48] else []) @ op # modrm # rest"

fun insn_ok :: "insn \<Rightarrow> bool" where
  "insn_ok (Jmp32 d) = (length d = 4)"
| "insn_ok (Jmp8 d) = True"
| "insn_ok (JmpGot d) = (length d = 4)"
| "insn_ok (Mov rex op modrm rest) = (op \<in> {0x63, 0x89, 0x8b} \<and> md modrm \<in> {0, 3} \<and>
    length rest = (if md modrm = 0 \<and> rm modrm = 5 then 4 else if md modrm = 0 \<and> rm modrm = 4 then 1 else 0) \<and>
    (md modrm = 0 \<and> rm modrm = 4 \<longrightarrow> (\<forall>sib\<in>set rest. unat sib mod 8 \<noteq> 5)))"

definition machine_code :: "insn list \<Rightarrow> 8 word list" where
  "machine_code prog = concat (map enc prog) @ [0xc3]"

text \<open>The relocations of the library: an address and the line for the name that is bound there.\<close>

fun reloc_entries :: "image \<Rightarrow> 64 word \<Rightarrow> 64 word \<Rightarrow> 64 word \<Rightarrow> nat list \<Rightarrow> (64 word \<times> string) list option" where
  "reloc_entries m syms strs relas [] = Some []"
| "reloc_entries m syms strs relas (i # is) =
    do {
      let rela = relas + 24 * word_of_nat i;
      r_offset \<leftarrow> u64 m rela;
      r_info \<leftarrow> u64 m (rela + 8);
      st_name \<leftarrow> u32 m (syms + 24 * word_of_int (sint (ucast (drop_bit 32 r_info) :: 32 word)));
      s \<leftarrow> cstr (drop (unat (strs + ucast st_name)) m);
      rest \<leftarrow> reloc_entries m syms strs relas is;
      Some ((r_offset, ''  '' @ s) # rest)
    }"

definition reloc_table :: "image \<Rightarrow> (64 word \<times> string) list option" where
  "reloc_table m =
    do {
      dynsym_shdr \<leftarrow> section_by_name m ''.dynsym'';
      syms \<leftarrow> AT_SEC m dynsym_shdr;
      dynstr_shdr \<leftarrow> section_by_name m ''.dynstr'';
      strs \<leftarrow> AT_SEC m dynstr_shdr;
      rela_dyn_shdr \<leftarrow> section_by_name m ''.rela.dyn'';
      relas \<leftarrow> AT_SEC m rela_dyn_shdr;
      count \<leftarrow> entries m rela_dyn_shdr 24;
      reloc_entries m syms strs relas [0..<nat count]
    }"

definition bound_at :: "(64 word \<times> string) list \<Rightarrow> 64 word \<Rightarrow> string list" where
  "bound_at tbl target = map snd (filter (\<lambda>(r_offset, _). r_offset = target) tbl)"

text \<open>What an instruction at \<open>st\<close> loads from the global offset table, and a function's uses.\<close>

fun loads :: "(64 word \<times> string) list \<Rightarrow> 64 word \<Rightarrow> insn \<Rightarrow> string list" where
  "loads tbl st (Mov rex op modrm rest) =
    (if rex \<and> op = 0x8b \<and> md modrm = 0 \<and> rm modrm = 5
     then bound_at tbl (st + 7 + scast (word_of_int (le rest) :: 32 word)) else [])"
| "loads tbl st _ = []"

fun used :: "(64 word \<times> string) list \<Rightarrow> 64 word \<Rightarrow> insn list \<Rightarrow> string list" where
  "used tbl st [] = []"
| "used tbl st (i # is) = loads tbl st i @ used tbl (st + word_of_nat (length (enc i))) is"

section \<open>The bit tests of the decoder\<close>

lemma and_F0: "(\<forall>x\<in>{0..<256::int}. drop_bit 2 x AND 0xF0 = 16 * (x div 64)) \<and> (\<forall>x\<in>{0..<256::int}. push_bit 1 x AND 0x0F = 2 * (x mod 8))"
proof -
  have "list_all (\<lambda>x::int. drop_bit 2 x AND 0xF0 = 16 * (x div 64) \<and> push_bit 1 x AND 0x0F = 2 * (x mod 8)) [0..255]"
    by code_simp
  then show ?thesis unfolding list_all_iff set_upto by auto
qed

lemma uint_byte: "uint (b :: 8 word) \<in> {0..<256}"
  using uint_lt2p [of b] by simp

lemma CHECK_HIGH_BIT_eq: "CHECK_HIGH_BIT b = 16 * int (md b)"
  using and_F0 uint_byte [of b] by (simp add: CHECK_HIGH_BIT_def md_def zdiv_int)

lemma CHECK_LOW_BIT_eq: "CHECK_LOW_BIT b = 2 * int (rm b)"
  using and_F0 uint_byte [of b] by (simp add: CHECK_LOW_BIT_def rm_def zmod_int)

lemma high_low [simp]:
  "CHECK_HIGH_BIT b \<noteq> 3" "CHECK_HIGH_BIT b = 0 \<longleftrightarrow> md b = 0" "CHECK_LOW_BIT b = 10 \<longleftrightarrow> rm b = 5" "CHECK_LOW_BIT b = 8 \<longleftrightarrow> rm b = 4"
  unfolding CHECK_HIGH_BIT_eq CHECK_LOW_BIT_eq by presburger+

section \<open>Bytes in the image\<close>

fun at_mem :: "image \<Rightarrow> nat \<Rightarrow> 8 word list \<Rightarrow> bool" where
  "at_mem m a [] = True"
| "at_mem m a (b # bs) = (byte m a = Some b \<and> at_mem m (Suc a) bs)"

lemma at_mem_append: "at_mem m a (x @ y) \<longleftrightarrow> at_mem m a x \<and> at_mem m (a + length x) y"
  by (induction x arbitrary: a) auto

lemma at_mem_take: "at_mem m a bs \<Longrightarrow> take (length bs) (drop a m) = bs"
  by (induction bs arbitrary: a) (auto simp: byte_def Cons_nth_drop_Suc [symmetric] split: if_splits)

lemma at_mem_ld: "at_mem m a bs \<Longrightarrow> bs \<noteq> [] \<Longrightarrow> ld m (length bs) a = Some (le bs)"
proof -
  assume bs: "at_mem m a bs" "bs \<noteq> []"
  then have "a < length m" by (cases bs) (auto simp: byte_def split: if_splits)
  moreover have "length bs \<le> length m - a" using at_mem_take [OF bs(1)] by (metis length_drop length_take min.cobounded1)
  ultimately show ?thesis using at_mem_take [OF bs(1)] by (simp add: ld_def)
qed

section \<open>Walking over machine code\<close>

lemma rela_loop_entries:
  "reloc_entries m syms strs relas is = Some tbl \<Longrightarrow> rela_loop m syms strs relas t is = Some (bound_at tbl t)"
  by (induction "is" arbitrary: tbl) (auto simp: bound_at_def Let_def bind_eq_Some_conv)

lemma report_bound:
  assumes "reloc_table m = Some tbl" "at_mem m (a + 3) rest" "length rest = 4"
  shows "report m a st = Some (bound_at tbl (st + 7 + scast (word_of_int (le rest) :: 32 word)))"
proof -
  have "rest \<noteq> []" using assms(3) by auto
  then have "ld m 4 (a + 3) = Some (le rest)" using at_mem_ld [OF assms(2)] assms(3) by simp
  then show ?thesis
    using assms(1) by (auto simp: report_def reloc_table_def bind_eq_Some_conv rela_loop_entries)
qed

lemma inspect_helper_mov:
  assumes "at_mem m a (enc (Mov rex op modrm rest))" "op \<in> {0x63, 0x89, 0x8b}"
  shows "inspect_helper m a = Some
    (if rex then
       if md modrm = 0 \<and> rm modrm = 5 then if op = 0x8b then 4 else 8
       else if md modrm = 0 \<and> rm modrm = 4 then 10 else 12
     else
       if md modrm = 0 \<and> rm modrm = 5 then 7
       else if md modrm = 0 \<and> rm modrm = 4 then 9 else 11)"
  using assms by (auto simp: inspect_helper_def)

lemma no_lines [simp]: "map_option ((@) []) r = r"
  by (cases r) auto

fun skip :: "nat \<Rightarrow> nat" where
  "skip h = (if h = 5 \<or> h = 11 then 2 else if h = 6 \<or> h = 9 \<or> h = 12 then 3 else if h = 7 then 6 else if h = 8 then 7 else 4)"

lemma inspecting_skip:
  assumes "byte m a = Some b" "b \<notin> {0xc3, 0xe9, 0xeb}" "inspect_helper m a = Some h" "h \<in> {5, 6, 7, 8, 9, 10, 11, 12}"
  shows "inspecting m a st = inspecting m (a + skip h) (st + word_of_nat (skip h))"
  using assms(4) by (subst inspecting.simps) (use assms(1-3) in \<open>elim insertE emptyE; simp\<close>)

lemma inspecting_jump:
  assumes "at_mem m a (enc i)" "insn_ok i" "\<And>rex op modrm rest. i \<noteq> Mov rex op modrm rest"
  shows "inspecting m a st = inspecting m (a + length (enc i)) (st + word_of_nat (length (enc i)))"
  using assms by (cases i; subst inspecting.simps; simp add: inspect_helper_def)

lemma inspecting_step:
  assumes "reloc_table m = Some tbl" "at_mem m a (enc i)" "insn_ok i"
  shows "inspecting m a st = map_option ((@) (loads tbl st i))
    (inspecting m (a + length (enc i)) (st + word_of_nat (length (enc i))))"
proof (cases "\<exists>rex op modrm rest. i = Mov rex op modrm rest")
  case False
  then have "loads tbl st i = []" by (cases i) auto
  then show ?thesis using inspecting_jump [OF assms(2,3)] False by simp
next
  case True
  then obtain rex op modrm rest where Mov: "i = Mov rex op modrm rest" by blast
  have len: "length rest = (if md modrm = 0 \<and> rm modrm = 5 then 4 else if md modrm = 0 \<and> rm modrm = 4 then 1 else 0)"
    and op: "op \<in> {0x63, 0x89, 0x8b}" and code: "at_mem m a (enc (Mov rex op modrm rest))"
    using assms(2,3) unfolding Mov by auto
  have b: "byte m a = Some (if rex then 0x48 else op)" "(if rex then 0x48 else op) \<notin> {0xc3, 0xe9, 0xeb}"
    using code op by auto
  note h = inspect_helper_mov [OF code op]
  show ?thesis
  proof (cases "rex \<and> op = 0x8b \<and> md modrm = 0 \<and> rm modrm = 5")
    case True
    have "at_mem m (a + 3) rest" using code True by (simp add: numeral_3_eq_3)
    then show ?thesis
      using b h True Mov len report_bound [OF assms(1), of a rest st] by (subst inspecting.simps) simp
  next
    case False
    then have "loads tbl st i = []" by (auto simp: Mov)
    moreover define h where "h = (if rex then
       if md modrm = 0 \<and> rm modrm = 5 then if op = 0x8b then 4 else 8
       else if md modrm = 0 \<and> rm modrm = 4 then 10 else 12
     else
       if md modrm = 0 \<and> rm modrm = 5 then 7
       else if md modrm = 0 \<and> rm modrm = 4 then 9 else (11::nat))"
    have "length (enc i) = skip h" using False len by (auto simp: Mov h_def)
    moreover have "h \<in> {5, 6, 7, 8, 9, 10, 11, 12}" using False by (auto simp: h_def)
    ultimately show ?thesis
      using inspecting_skip [OF b, of h st] inspect_helper_mov [OF code op, folded h_def] by simp
  qed
qed

lemma inspecting_code:
  assumes "reloc_table m = Some tbl" "at_mem m a (machine_code prog)" "\<forall>i\<in>set prog. insn_ok i"
  shows "inspecting m a st = Some (used tbl st prog)"
  using assms(2,3)
proof (induction prog arbitrary: a st)
  case Nil
  then show ?case by (subst inspecting.simps) (simp add: machine_code_def)
next
  case (Cons i "is")
  then have "at_mem m a (enc i)" "at_mem m (a + length (enc i)) (machine_code is)"
    by (auto simp: machine_code_def at_mem_append)
  then show ?case using inspecting_step [OF assms(1)] Cons by simp
qed

section \<open>The whole program\<close>

text \<open>The one letter functions of the symbol table: name, offset of the code, and address.\<close>

fun function_entries :: "image \<Rightarrow> 64 word \<Rightarrow> 64 word \<Rightarrow> nat list \<Rightarrow> (string \<times> nat \<times> 64 word) list option" where
  "function_entries m syms strs [] = Some []"
| "function_entries m syms strs (i # is) =
    do {
      let sym = syms + 24 * word_of_nat i;
      st_info \<leftarrow> byte m (unat (sym + 4));
      st_name \<leftarrow> u32 m sym;
      s \<leftarrow> cstr (drop (unat (strs + ucast st_name)) m);
      st_shndx \<leftarrow> u16 m (sym + 6);
      shdr \<leftarrow> section_by_index m (uint st_shndx);
      sec \<leftarrow> AT_SEC m (Some shdr);
      st_value \<leftarrow> u64 m (sym + 8);
      sh_addr \<leftarrow> u64 m (shdr + 16);
      rest \<leftarrow> function_entries m syms strs is;
      Some (if st_info AND 0xf = 2 \<and> length s = 1
            then (s, unat (sec + (st_value - sh_addr)), st_value) # rest else rest)
    }"

definition function_table :: "image \<Rightarrow> (string \<times> nat \<times> 64 word) list option" where
  "function_table m =
    do {
      dynsym_shdr \<leftarrow> section_by_name m ''.dynsym'';
      syms \<leftarrow> AT_SEC m dynsym_shdr;
      dynstr_shdr \<leftarrow> section_by_name m ''.dynstr'';
      strs \<leftarrow> AT_SEC m dynstr_shdr;
      count \<leftarrow> entries m dynsym_shdr 24;
      function_entries m syms strs [0..<nat count]
    }"

definition compiled :: "image \<Rightarrow> string \<times> nat \<times> 64 word \<Rightarrow> insn list \<Rightarrow> bool" where
  "compiled m = (\<lambda>(s, a, v) prog. at_mem m a (machine_code prog) \<and> (\<forall>i\<in>set prog. insn_ok i))"

definition listing :: "(64 word \<times> string) list \<Rightarrow> string \<times> nat \<times> 64 word \<Rightarrow> insn list \<Rightarrow> string list" where
  "listing tbl = (\<lambda>(s, a, v) prog. s # used tbl v prog)"

lemma sym_loop_lists:
  assumes "reloc_table m = Some tbl"
  shows "function_entries m syms strs is = Some fs \<Longrightarrow> list_all2 (compiled m) fs progs \<Longrightarrow>
    sym_loop m syms strs is = Some (concat (map2 (listing tbl) fs progs))"
proof (induction "is" arbitrary: fs progs)
  case (Cons i "is")
  then show ?case
    by (auto simp: Let_def list_all2_Cons1 compiled_def listing_def inspecting_code [OF assms]
      split: Option.bind_split_asm if_split_asm)
qed auto

lemma jumps_not_reported:
  "(\<forall>i\<in>set prog. \<forall>rex op modrm rest. i \<noteq> Mov rex op modrm rest) \<Longrightarrow> used tbl st prog = []"
proof (induction prog arbitrary: st)
  case (Cons i prog)
  then show ?case by (cases i) auto
qed simp

lemma decoder_dead_branches: "inspect_helper m a \<noteq> Some 5 \<and> inspect_helper m a \<noteq> Some 6"
  by (auto simp: inspect_helper_def bind_eq_Some_conv split: if_splits)

text \<open>An image with one function \<open>f\<close> that loads the address of \<open>a\<close> and returns.\<close>

definition sample :: image where
  "sample =
    [0x7f, 0x45, 0x4c, 0x46, 2, 0, 0, 0, 0, 0, 0, 0, 0, 0, 0, 0,
     3, 0, 0, 0, 0, 0, 0, 0, 0, 0, 0, 0, 0, 0, 0, 0,
     0, 0, 0, 0, 0, 0, 0, 0, 0x40, 0, 0, 0, 0, 0, 0, 0,
     0, 0, 0, 0, 0, 0, 0, 0, 0, 0, 0, 0, 3, 0, 1, 0,
     5, 0, 0, 0, 0, 0, 0, 0, 0, 0, 0, 0, 0, 0, 0, 0,
     0xb8, 0x0f, 0, 0, 0, 0, 0, 0, 0x20, 1, 0, 0, 0, 0, 0, 0,
     0x30, 0, 0, 0, 0, 0, 0, 0, 0, 0, 0, 0, 0, 0, 0, 0,
     0, 0, 0, 0, 0, 0, 0, 0, 0, 0, 0, 0, 0, 0, 0, 0,
     0x0d, 0, 0, 0, 0, 0, 0, 0, 0, 0, 0, 0, 0, 0, 0, 0,
     0, 0, 0, 0, 0, 0, 0, 0, 0, 1, 0, 0, 0, 0, 0, 0,
     0x1f, 0, 0, 0, 0, 0, 0, 0, 0, 0, 0, 0, 0, 0, 0, 0,
     0, 0, 0, 0, 0, 0, 0, 0, 0, 0, 0, 0, 0, 0, 0, 0,
     0x15, 0, 0, 0, 0, 0, 0, 0, 0, 0, 0, 0, 0, 0, 0, 0,
     0, 0, 0, 0, 0, 0, 0, 0, 0x50, 1, 0, 0, 0, 0, 0, 0,
     0x18, 0, 0, 0, 0, 0, 0, 0, 0, 0, 0, 0, 0, 0, 0, 0,
     0, 0, 0, 0, 0, 0, 0, 0, 0, 0, 0, 0, 0, 0, 0, 0,
     0, 0x66, 0, 0x61, 0, 0x2e, 0x64, 0x79, 0x6e, 0x73, 0x79, 0x6d, 0, 0x2e, 0x64, 0x79,
     0x6e, 0x73, 0x74, 0x72, 0, 0x2e, 0x72, 0x65, 0x6c, 0x61, 0x2e, 0x64, 0x79, 0x6e, 0, 0,
     1, 0, 0, 0, 0x12, 0, 0, 0, 0, 0x10, 0, 0, 0, 0, 0, 0,
     8, 0, 0, 0, 0, 0, 0, 0, 3, 0, 0, 0, 0x11, 0, 0, 0,
     0, 0, 0, 0, 0, 0, 0, 0, 0, 0, 0, 0, 0, 0, 0, 0,
     0, 0x20, 0, 0, 0, 0, 0, 0, 6, 0, 0, 0, 1, 0, 0, 0,
     0, 0, 0, 0, 0, 0, 0, 0, 0x48, 0x8b, 5, 0xf9, 0x0f, 0, 0, 0xc3]"

lemma sample_check: "check_for_shared_object sample = Some (Inr ())"
  by code_simp

lemma sample_relocs: "reloc_table sample = Some [(0x2000, ''  a'')]"
  by code_simp

lemma sample_functions: "function_table sample = Some [(''f'', 360, 0x1000)]"
  by code_simp

section \<open>The properties\<close>

text \<open>C30. For the machine code of a list of instructions (jumps, register moves and moves with the memory
  operands that the decoder is for), the walk stays in step with the instructions and prints, in
  order, one line for each relocation of an address that the code loads from the global offset table;
  jumps, and the calls that are jumps, print nothing.\<close>

theorem inspecting_reports:
  assumes "reloc_table m = Some tbl" "at_mem m a (machine_code prog)" "\<forall>i\<in>set prog. insn_ok i"
  shows "inspecting m a st = Some (used tbl st prog)"
  by (rule inspecting_code [OF assms])

theorem inspecting_reports_witness: "inspecting sample 360 0x1000 = Some [''  a'']"
proof -
  let ?prog = "[Mov True 0x8b 0x05 [0xf9, 0x0f, 0, 0]]"
  have "at_mem sample 360 (machine_code ?prog)" "\<forall>i\<in>set ?prog. insn_ok i" "used [(0x2000, ''  a'')] 0x1000 ?prog = [''  a'']"
    by code_simp+
  then show ?thesis using inspecting_reports [where a = 360 and prog = "?prog" and st = "0x1000", OF sample_relocs] by simp
qed

text \<open>C31. For a library all of whose functions with a one letter name consist of instructions of the supported forms
  (\<open>insn_ok\<close>) and end in \<open>ret\<close>, the program lists every such function, in the order of the symbol
  table, each followed by the lines of its loads.\<close>

theorem main_lists:
  assumes "fd \<noteq> -1" "check_for_shared_object m = Some (Inr ())" "reloc_table m = Some tbl" "function_table m = Some fs"
    "list_all2 (compiled m) fs progs"
  shows "main 2 fd (Some m) errno = Some (Inr (concat (map2 (listing tbl) fs progs)))"
  using assms(1,2,4) sym_loop_lists [OF assms(3) _ assms(5)]
  by (auto simp: main_def function_table_def bind_eq_Some_conv)

theorem main_lists_witness: "main 2 3 (Some sample) 0 = Some (Inr [''f'', ''  a''])"
proof -
  let ?prog = "[Mov True 0x8b 0x05 [0xf9, 0x0f, 0, 0]]"
  have "list_all2 (compiled sample) [(''f'', 360, 0x1000)] [?prog]"
      "concat (map2 (listing [(0x2000, ''  a'')]) [(''f'', 360, 0x1000)] [?prog]) = [''f'', ''  a'']"
    by code_simp+
  then show ?thesis using main_lists [where fd = 3 and progs = "[?prog]" and errno = 0, OF _ sample_check sample_relocs sample_functions] by simp
qed

end
