(* ===== verification/Net.thy ===== *)
theory Net
  imports Wrappers
begin

text \<open>
  \<open>open_clientfd\<close> and \<open>open_listenfd\<close> of \<open>Serverlab/csapp.c\<close>. The system is a parameter: the addresses that
  \<open>getaddrinfo\<close> finds, each with the answers to the calls that are made for it. The state is the table of open
  descriptors and the number of address lists that are allocated; a descriptor is gone after \<open>close\<close>, whatever
  \<open>close\<close> returns.
\<close>

section \<open>State and system\<close>

record address =
  a_socket :: int
  a_setsockopt :: int
  a_connect :: int
  a_bind :: int
  a_listen :: int
  a_close :: int

record net =
  fds :: "int list"
  lists :: nat

text \<open>\<open>socket\<close> enters the descriptor into the table.\<close>

definition sys_socket :: "address \<Rightarrow> net \<Rightarrow> int \<times> net" where
  "sys_socket p s = (a_socket p, if a_socket p < 0 then s else s\<lparr>fds := a_socket p # fds s\<rparr>)"

definition sys_close :: "address \<Rightarrow> int \<Rightarrow> net \<Rightarrow> int \<times> net" where
  "sys_close p fd s = (a_close p, s\<lparr>fds := remove1 fd (fds s)\<rparr>)"

definition Close_fd :: "bool \<Rightarrow> address \<Rightarrow> int \<Rightarrow> net \<Rightarrow> int + net" where
  "Close_fd ex p fd s = (case sys_close p fd s of (rc, s) \<Rightarrow> map_sum id (\<lambda>_. s) (Close ex (\<lambda>_. rc) fd))"

text \<open>The list of addresses, or what \<open>getaddrinfo\<close> returned instead. When an error does not end the process,
  the caller goes on with a pointer that was never set: \<open>None\<close>.\<close>

definition get_addresses :: "bool \<Rightarrow> int + address list \<Rightarrow> net \<Rightarrow> (int + address list \<times> net) option" where
  "get_addresses ex answer s =
    (case answer of
       Inr ps \<Rightarrow> Some (Inr (ps, s\<lparr>lists := Suc (lists s)\<rparr>))
     | Inl rc \<Rightarrow> (case gai_error ex of Some code \<Rightarrow> Some (Inl code) | None \<Rightarrow> None))"

definition Freeaddrinfo :: "net \<Rightarrow> net" where
  "Freeaddrinfo s = s\<lparr>lists := lists s - 1\<rparr>"

section \<open>Clients\<close>

text \<open>The loop ends at the address that works, or at the end of the list.\<close>

fun connect_loop :: "bool \<Rightarrow> address list \<Rightarrow> net \<Rightarrow> int + (address \<times> int) option \<times> net" where
  "connect_loop ex [] s = Inr (None, s)"
| "connect_loop ex (p # ps) s =
    (case sys_socket p s of (clientfd, s) \<Rightarrow>
       if clientfd < 0 then connect_loop ex ps s
       else if a_connect p \<noteq> -1 then Inr (Some (p, clientfd), s)
       else (case Close_fd ex p clientfd s of Inl code \<Rightarrow> Inl code | Inr s \<Rightarrow> connect_loop ex ps s))"

definition open_clientfd :: "bool \<Rightarrow> int + address list \<Rightarrow> net \<Rightarrow> (int + int \<times> net) option" where
  "open_clientfd ex answer s =
    andthen (get_addresses ex answer s) (\<lambda>(ps, s).
    andthen (Some (connect_loop ex ps s)) (\<lambda>(found, s).
      Some (case found of
              None \<Rightarrow> Inr (-1, Freeaddrinfo s)
            | Some (p, clientfd) \<Rightarrow> Inr (clientfd, Freeaddrinfo s))))"

section \<open>Servers\<close>

fun bind_loop :: "bool \<Rightarrow> address list \<Rightarrow> net \<Rightarrow> int + (address \<times> int) option \<times> net" where
  "bind_loop ex [] s = Inr (None, s)"
| "bind_loop ex (p # ps) s =
    (case sys_socket p s of (listenfd, s) \<Rightarrow>
       if listenfd < 0 then bind_loop ex ps s
       else (case Setsockopt ex (\<lambda>_ _ _ _ _. a_setsockopt p) listenfd ''SOL_SOCKET'' ''SO_REUSEADDR'' (1 :: int) (4 :: int) of
               Inl code \<Rightarrow> Inl code
             | Inr _ \<Rightarrow>
                 if a_bind p = 0 then Inr (Some (p, listenfd), s)
                 else (case Close_fd ex p listenfd s of Inl code \<Rightarrow> Inl code | Inr s \<Rightarrow> bind_loop ex ps s)))"

definition open_listenfd :: "bool \<Rightarrow> int + address list \<Rightarrow> net \<Rightarrow> (int + int \<times> net) option" where
  "open_listenfd ex answer s =
    andthen (get_addresses ex answer s) (\<lambda>(ps, s).
    andthen (Some (bind_loop ex ps s)) (\<lambda>(found, s).
      Some (case found of
              None \<Rightarrow> Inr (-1, Freeaddrinfo s)
            | Some (p, listenfd) \<Rightarrow>
                if a_listen p < 0 then Inr (-1, Freeaddrinfo s) else Inr (listenfd, Freeaddrinfo s))))"

definition Open_fd :: "bool \<Rightarrow> (int + int \<times> net) option \<Rightarrow> (int + int \<times> net) option" where
  "Open_fd ex r = andthen r (\<lambda>(rc, s). Some (wrapped ex (rc < 0) (rc, s)))"

definition Open_clientfd :: "bool \<Rightarrow> int + address list \<Rightarrow> net \<Rightarrow> (int + int \<times> net) option" where
  "Open_clientfd ex answer s = Open_fd ex (open_clientfd ex answer s)"

definition Open_listenfd :: "bool \<Rightarrow> int + address list \<Rightarrow> net \<Rightarrow> (int + int \<times> net) option" where
  "Open_listenfd ex answer s = Open_fd ex (open_listenfd ex answer s)"

section \<open>The first address that works\<close>

text \<open>Errors that would end the process do not occur, or do not end it.\<close>

definition survives :: "bool \<Rightarrow> address list \<Rightarrow> bool" where
  "survives ex ps \<longleftrightarrow> ex \<longrightarrow> (\<forall>p\<in>set ps. 0 \<le> a_close p \<and> 0 \<le> a_setsockopt p)"

definition connects :: "address \<Rightarrow> bool" where
  "connects p \<longleftrightarrow> 0 \<le> a_socket p \<and> a_connect p \<noteq> -1"

definition binds :: "address \<Rightarrow> bool" where
  "binds p \<longleftrightarrow> 0 \<le> a_socket p \<and> a_bind p = 0"

lemma Close_fd_ok: "ex \<longrightarrow> 0 \<le> a_close p \<Longrightarrow> Close_fd ex p fd (s\<lparr>fds := fd # r\<rparr>) = Inr (s\<lparr>fds := r\<rparr>)"
  by (auto simp: Close_fd_def sys_close_def Close_def wrapped_def unix_error_def error_exit_def Let_def)

lemma Setsockopt_ok: "ex \<longrightarrow> 0 \<le> a_setsockopt p \<Longrightarrow> Setsockopt ex (\<lambda>_ _ _ _ _. a_setsockopt p) a b c d e = Inr ()"
  by (auto simp: Setsockopt_def wrapped_def unix_error_def error_exit_def Let_def)

lemma connect_loop_first:
  "survives ex ps \<Longrightarrow> connect_loop ex ps s =
    Inr (case find connects ps of None \<Rightarrow> (None, s) | Some p \<Rightarrow> (Some (p, a_socket p), s\<lparr>fds := a_socket p # fds s\<rparr>))"
  by (induction ps) (auto simp: sys_socket_def connects_def survives_def Close_fd_ok)

lemma bind_loop_first:
  "survives ex ps \<Longrightarrow> bind_loop ex ps s =
    Inr (case find binds ps of None \<Rightarrow> (None, s) | Some p \<Rightarrow> (Some (p, a_socket p), s\<lparr>fds := a_socket p # fds s\<rparr>))"
  by (induction ps) (auto simp: sys_socket_def binds_def survives_def Close_fd_ok Setsockopt_ok)


lemma open_clientfd_first:
  "survives ex ps \<Longrightarrow> open_clientfd ex (Inr ps) s =
    Some (Inr (case find connects ps of None \<Rightarrow> (-1, s) | Some p \<Rightarrow> (a_socket p, s\<lparr>fds := a_socket p # fds s\<rparr>)))"
  using connect_loop_first [of ex ps "s\<lparr>lists := Suc (lists s)\<rparr>"]
  by (auto simp: open_clientfd_def get_addresses_def Freeaddrinfo_def split: option.split)

lemma open_listenfd_first:
  "survives ex ps \<Longrightarrow> open_listenfd ex (Inr ps) s =
    Some (Inr (case find binds ps of
                 None \<Rightarrow> (-1, s)
               | Some p \<Rightarrow> (if a_listen p < 0 then -1 else a_socket p, s\<lparr>fds := a_socket p # fds s\<rparr>)))"
  using bind_loop_first [of ex ps "s\<lparr>lists := Suc (lists s)\<rparr>"]
  by (auto simp: open_listenfd_def get_addresses_def Freeaddrinfo_def split: option.split)

text \<open>C33. 
  With addresses \<open>ps\<close>, \<open>open_clientfd\<close> returns the socket of the first one to which it can connect, and -1 when
  there is none; the sockets of the others are closed and the list is freed. \<open>open_listenfd\<close> does the same
  for the first address it can bind - but when \<open>listen\<close> refuses, it returns -1 and leaves the socket open. When the name
  cannot be resolved the process ends, with status 0, or the list is used without ever having been set.
\<close>
theorem open_fds:
  assumes "survives ex ps"
  shows "open_clientfd ex (Inr ps) s =
      Some (Inr (case find connects ps of None \<Rightarrow> (-1, s) | Some p \<Rightarrow> (a_socket p, s\<lparr>fds := a_socket p # fds s\<rparr>))) \<and>
    open_listenfd ex (Inr ps) s =
      Some (Inr (case find binds ps of
                   None \<Rightarrow> (-1, s)
                 | Some p \<Rightarrow> (if a_listen p < 0 then -1 else a_socket p, s\<lparr>fds := a_socket p # fds s\<rparr>))) \<and>
    open_clientfd ex (Inl rc) s = (if ex then Some (Inl 0) else None) \<and>
    open_listenfd ex (Inl rc) s = (if ex then Some (Inl 0) else None)"
  by (simp add: open_clientfd_first [OF assms] open_listenfd_first [OF assms])
    (simp add: open_clientfd_def open_listenfd_def get_addresses_def gai_error_def error_exit_def)

text \<open>The first address has no socket, the second refuses, the third works for a client but not for a server.\<close>

definition sample_addresses :: "address list" where
  "sample_addresses =
    [\<lparr>a_socket = -1, a_setsockopt = 0, a_connect = 0, a_bind = 0, a_listen = 0, a_close = 0\<rparr>,
     \<lparr>a_socket = 5, a_setsockopt = 0, a_connect = -1, a_bind = -1, a_listen = 0, a_close = 0\<rparr>,
     \<lparr>a_socket = 5, a_setsockopt = 0, a_connect = 0, a_bind = 0, a_listen = -1, a_close = 0\<rparr>]"

theorem open_fds_witness:
  "open_clientfd True (Inr sample_addresses) \<lparr>fds = [0, 1, 2], lists = 0\<rparr> = Some (Inr (5, \<lparr>fds = [5, 0, 1, 2], lists = 0\<rparr>)) \<and>
   open_listenfd True (Inr sample_addresses) \<lparr>fds = [0, 1, 2], lists = 0\<rparr> = Some (Inr (-1, \<lparr>fds = [5, 0, 1, 2], lists = 0\<rparr>))"
proof -
  have "survives True sample_addresses" by (simp add: survives_def sample_addresses_def)
  from open_fds [OF this] show ?thesis by (simp add: sample_addresses_def connects_def binds_def)
qed

end
