(* ===== verification/Tinychat.thy ===== *)
theory Tinychat
  imports More_String Net
begin

text \<open>
  The chat server \<open>Serverlab/tinychat.c\<close>. A handler thread is an action: the sections between
  \<open>P(&sem_lock)\<close> and \<open>V(&sem_lock)\<close> are its atomic accesses \<open>Get\<close> and \<open>Put\<close> to the shared dictionary,
  and what the code does with the conversation strings outside the lock (\<open>Load\<close>, \<open>New\<close>) are steps of
  their own, so that a schedule can interleave them. A conversation is a pointer to a string on the
  heap; replacing it frees the old one. \<open>Bad\<close> is undefined behaviour and \<open>Diverge\<close> a handler that
  never goes on. The server runs after \<open>exit_on_error(0)\<close>, so that a failed I/O call is reported and
  ignored. Local dictionaries and strings are values; what is only printed on the console is left out.
\<close>

section \<open>Actions and the shared state\<close>

datatype act =
    Stop
  | Bad
  | Diverge
  | Get "string option" "nat option \<Rightarrow> act"
  | Put "string option" nat act
  | Load nat "string \<Rightarrow> act"
  | New string "nat \<Rightarrow> act"
  | Send string act
  | Peer string act

record server =
  conv :: "nat dictionary_t"
  store :: "nat \<Rightarrow> string option"
  fresh :: nat

text \<open>One step of a handler: the new state, what it sends to its client, and the rest.\<close>

definition frees :: "nat list \<Rightarrow> (nat \<Rightarrow> string option) \<Rightarrow> nat \<Rightarrow> string option" where
  "frees ps h p = (if p \<in> set ps then None else h p)"

fun exec :: "server \<Rightarrow> act \<Rightarrow> (server \<times> string \<times> act) option" where
  "exec s (Get k f) = do { r \<leftarrow> dictionary_get (conv s) k; Some (s, '''', f r) }"
| "exec s (Put k p a) =
    do { (d, freed) \<leftarrow> dictionary_set (conv s) k p; Some (s\<lparr>conv := d, store := frees freed (store s)\<rparr>, '''', a) }"
| "exec s (Load p f) = do { t \<leftarrow> store s p; Some (s, '''', f t) }"
| "exec s (New t f) = Some (s\<lparr>store := (store s)(fresh s \<mapsto> t), fresh := fresh s + 1\<rparr>, '''', f (fresh s))"
| "exec s (Send t a) = Some (s, t, a)"
| "exec s (Peer t a) = Some (s, '''', a)"
| "exec s Stop = None"
| "exec s Bad = None"
| "exec s Diverge = None"

text \<open>The threads of the server with what each of them has sent. A thread that ended is \<open>Stop\<close>.\<close>

inductive step :: "server \<times> (act \<times> string) list \<Rightarrow> server \<times> (act \<times> string) list \<Rightarrow> bool" where
  thread: "i < length ts \<Longrightarrow> ts ! i = (a, out) \<Longrightarrow> exec s a = Some (s', t, a') \<Longrightarrow> step (s, ts) (s', ts[i := (a', out @ t)])"

definition orbad :: "'a option \<Rightarrow> ('a \<Rightarrow> act) \<Rightarrow> act" where
  "orbad r f = (case r of None \<Rightarrow> Bad | Some x \<Rightarrow> f x)"

text \<open>A string that is passed on: \<open>NULL\<close>, a string of the handler, or one on the heap.\<close>

datatype cstring = Null | Own string | Ptr nat

fun with_str :: "cstring \<Rightarrow> (string option \<Rightarrow> act) \<Rightarrow> act" where
  "with_str Null f = f None"
| "with_str (Own s) f = f (Some s)"
| "with_str (Ptr p) f = Load p (\<lambda>s. f (Some s))"

definition of_ptr :: "nat option \<Rightarrow> cstring" where
  "of_ptr p = (case p of None \<Rightarrow> Null | Some p \<Rightarrow> Ptr p)"

section \<open>Responses\<close>

definition ok_header :: "nat \<Rightarrow> string \<Rightarrow> string option" where
  "ok_header len content_type = append_strings
    [Some (''HTTP/1.0 200 OK'' @ crlf),
     Some (''Server: TinyChat Web Server'' @ crlf),
     Some (''Connection: close'' @ crlf),
     Some ''Content-length: '', Some (to_string (int len)), Some crlf,
     Some ''Content-type: '', Some content_type, Some (crlf @ crlf),
     None]"

definition quoted :: "string \<Rightarrow> string" where
  "quoted s = CHR 0x22 # s @ [CHR 0x22]"

definition form_open :: string where
  "form_open = crlf @ ''<form action='' @ quoted ''reply'' @ '' method='' @ quoted ''post''"

definition form_encoding :: "string option list" where
  "form_encoding =
    [Some ('' enctype='' @ quoted ''application/x-www-form-urlencoded''),
     Some ('' accept-charset='' @ quoted ''UTF-8'' @ ''>'' @ crlf)]"

definition welcome_page :: "string option list" where
  "welcome_page =
    [Some (''<html><body>'' @ crlf), Some ''<p>Welcome to TinyChat</p>'', Some form_open] @ form_encoding @
    [Some (''Name: <input type='' @ quoted ''text'' @ '' name='' @ quoted ''name'' @ ''><br>'' @ crlf),
     Some (''Topic: <input type='' @ quoted ''text'' @ '' name='' @ quoted ''topic'' @ ''><br>'' @ crlf),
     Some (''<input type='' @ quoted ''hidden'' @ '' name='' @ quoted ''user_name'' @ '' value='' @ quoted ''yes'' @ ''>'' @ crlf),
     Some (''<input type='' @ quoted ''hidden'' @ '' name='' @ quoted ''user_topic'' @ '' value='' @ quoted ''yes'' @ ''>'' @ crlf),
     Some (''<input type='' @ quoted ''submit'' @ '' value='' @ quoted ''Join Conversation'' @ ''>'' @ crlf),
     Some (''</form></body></html>'' @ crlf),
     None]"

definition chat_page :: "string \<Rightarrow> string option \<Rightarrow> string option \<Rightarrow> string option \<Rightarrow> string option list" where
  "chat_page pre_content name topic conversation =
    [Some (''<html><body>'' @ crlf), Some ''<p>'', Some pre_content, Some ''</p>'', Some form_open] @ form_encoding @
    [conversation, Some (''<br>'' @ crlf), name, Some '': '',
     Some (''<input type='' @ quoted ''hidden'' @ '' name='' @ quoted ''name'' @ '' value=''), name, Some (''>'' @ crlf),
     Some (''<input type='' @ quoted ''hidden'' @ '' name='' @ quoted ''topic'' @ '' value=''), topic, Some (''>'' @ crlf),
     Some (''<input type='' @ quoted ''text'' @ '' name='' @ quoted ''message'' @ ''>'' @ crlf),
     Some (''<input type='' @ quoted ''submit'' @ '' value='' @ quoted ''Add'' @ ''>'' @ crlf),
     Some (''</form></body></html>'' @ crlf),
     None]"

definition send_page :: "string option list \<Rightarrow> act \<Rightarrow> act" where
  "send_page page k =
    orbad (append_strings page) (\<lambda>body.
    orbad (ok_header (length body) ''text/html; charset=utf-8'') (\<lambda>header.
    Send header (Send body k)))"

definition serve_form :: "string \<Rightarrow> string option \<Rightarrow> string option \<Rightarrow> cstring \<Rightarrow> act \<Rightarrow> act" where
  "serve_form pre_content name topic conversation k =
    (if pre_content = '''' then
       with_str conversation (\<lambda>c. send_page [c, Some crlf, None] k)
     else if pre_content = ''Welcome to TinyChat'' then send_page welcome_page k
     else with_str conversation (\<lambda>c. send_page (chat_page pre_content name topic c) k))"

definition clienterror :: "(string \<Rightarrow> act \<Rightarrow> act) \<Rightarrow> string \<Rightarrow> string \<Rightarrow> string \<Rightarrow> string \<Rightarrow> act \<Rightarrow> act" where
  "clienterror send cause errnum shortmsg longmsg k =
    orbad (append_strings
      [Some (''<html><title>Tiny Error</title>''),
       Some (''<body bgcolor=ffffff>'' @ crlf),
       Some errnum, Some '' '', Some shortmsg,
       Some ''<p>'', Some longmsg, Some '': '', Some cause,
       Some (''<hr><em>The Tiny Web server</em>'' @ crlf),
       None]) (\<lambda>body.
    orbad (append_strings
      [Some ''HTTP/1.0 '', Some errnum, Some '' '', Some shortmsg,
       Some (''Content-type: text/html; charset=utf-8'' @ crlf),
       Some ''Content-length: '', Some (to_string (int (length body))), Some (crlf @ crlf),
       None]) (\<lambda>header.
    send header (send body k)))"

section \<open>Reading a request\<close>

definition MAXLINE :: nat where
  "MAXLINE = 8192"

text \<open>\<open>Rio_readlineb(rp, buf, MAXLINE)\<close> in a process that does not exit on errors.\<close>

definition read_line :: "rio_t \<Rightarrow> conn \<Rightarrow> cbuf \<Rightarrow> (int \<times> cbuf \<times> rio_t \<times> conn) option" where
  "read_line rp c buf =
    do {
      r \<leftarrow> Rio_readlineb False rp c buf MAXLINE;
      (case r of Inl code \<Rightarrow> None | Inr x \<Rightarrow> Some x)
    }"

text \<open>The outer option is the one of the loop, which may not end; the inner \<open>None\<close> is undefined.\<close>

partial_function (option) hdr_loop ::
  "rio_t \<Rightarrow> conn \<Rightarrow> cbuf \<Rightarrow> string dictionary_t \<Rightarrow> (string dictionary_t \<times> rio_t \<times> conn) option option" where
  "hdr_loop rp c buf d =
    (case cstr buf of
       None \<Rightarrow> Some None
     | Some line \<Rightarrow>
         if line = crlf then Some (Some (d, rp, c))
         else (case read_line rp c buf of
             None \<Rightarrow> Some None
           | Some (n, buf', rp', c') \<Rightarrow>
               (case do { line' \<leftarrow> cstr buf'; parse_header_line line' d } of
                  None \<Rightarrow> Some None
                | Some (d', freed) \<Rightarrow> hdr_loop rp' c' buf' d')))"

definition read_requesthdrs :: "rio_t \<Rightarrow> conn \<Rightarrow> (string dictionary_t \<times> rio_t \<times> conn) option option" where
  "read_requesthdrs rp c =
    (case read_line rp c (malloc_buf MAXLINE) of
       None \<Rightarrow> Some None
     | Some (n, buf, rp', c') \<Rightarrow> hdr_loop rp' c' buf (make_dictionary COMPARE_CASE_INSENS))"

definition read_postquery ::
  "rio_t \<Rightarrow> conn \<Rightarrow> string dictionary_t \<Rightarrow> string dictionary_t \<Rightarrow> string dictionary_t option" where
  "read_postquery rp c headers dest =
    do {
      len_str \<leftarrow> dictionary_get headers (Some ''Content-Length'');
      len \<leftarrow> (case len_str of None \<Rightarrow> Some 0 | Some s \<Rightarrow> atoi s);
      type \<leftarrow> dictionary_get headers (Some ''Content-Type'');
      if len < 0 then None
      else do {
        let data = fst (snd (rio_readnb rp c (nat len)));
        buffer \<leftarrow> cput (map Some data @ replicate (nat len + 1 - length data) None) (nat len) NUL;
        type \<leftarrow> type;
        if strcaseeq type ''application/x-www-form-urlencoded''
        then do { s \<leftarrow> cstr buffer; (dest, freed) \<leftarrow> parse_query s dest; Some dest }
        else Some dest
      }
    }"

section \<open>The handlers\<close>

definition post_chat :: "string dictionary_t \<Rightarrow> act" where
  "post_chat query =
    orbad (dictionary_get query (Some ''name'')) (\<lambda>name.
    orbad (dictionary_get query (Some ''topic'')) (\<lambda>topic.
    orbad (append_strings [Some ''Tinychat - '', topic, None]) (\<lambda>new_header.
    orbad (dictionary_get query (Some ''user_name'')) (\<lambda>user_name.
    orbad (dictionary_get query (Some ''user_topic'')) (\<lambda>user_topic.
      if user_name \<noteq> None \<and> user_topic \<noteq> None then
        let rest = Get topic (\<lambda>last_mes. serve_form new_header name topic (of_ptr last_mes) Stop) in
        Get topic (\<lambda>tem_topic.
          if tem_topic = None then New '''' (\<lambda>new_append. Put topic new_append rest)
          else Get topic (\<lambda>tem_topic. serve_form new_header name topic (of_ptr tem_topic) rest))
      else
        orbad (dictionary_get query (Some ''message'')) (\<lambda>new_message.
        Get topic (\<lambda>last_mes.
        orbad new_message (\<lambda>m.
          if m = '''' then serve_form new_header name topic (of_ptr last_mes) Stop
          else with_str (of_ptr last_mes) (\<lambda>l.
            orbad (append_strings [l, Some ''<br>'', Some crlf, name, Some '': '', Some m, None]) (\<lambda>new_mes.
            New new_mes (\<lambda>p.
            Put topic p (serve_form new_header name topic (Ptr p) Stop))))))))))))"

text \<open>\<open>sprintf(buffer, request)\<close>: a conversion in the request reads arguments that are not there.\<close>

fun format0 :: "string \<Rightarrow> string option" where
  "format0 [] = Some []"
| "format0 (c # s) =
    (if c \<noteq> CHR ''%'' then map_option (Cons c) (format0 s)
     else (case s of d # s' \<Rightarrow> if d = CHR ''%'' then map_option (Cons d) (format0 s') else None | [] \<Rightarrow> None))"

text \<open>What the import does with the answer of the other server, which is read from \<open>peer\<close>. The buffer of
  the reader has the contents \<open>junk\<close> at first.\<close>

definition import_answer :: "string \<Rightarrow> conn \<Rightarrow> act" where
  "import_answer junk peer =
    orbad (read_line (rio_readinitb junk) peer (malloc_buf MAXLINE)) (\<lambda>(n, buf, new_rio, peer).
    if n \<le> 0 then Stop
    else orbad (cstr buf) (\<lambda>line.
    orbad (parse_request_line line) (\<lambda>(new_method, new_uri, new_version).
      if \<not> strcaseeq new_version ''HTTP/1.0'' \<and> \<not> strcaseeq new_version ''HTTP/1.1'' then
        clienterror Peer new_version ''501'' ''Not Implemented'' ''TinyChat does not implement that version'' Stop
      else if \<not> strcaseeq new_method ''GET'' \<and> \<not> strcaseeq new_method ''POST'' then
        clienterror Peer new_method ''501'' ''Not Implemented'' ''TinyChat does not implement that method'' Stop
      else (case read_requesthdrs new_rio peer of None \<Rightarrow> Diverge | Some r \<Rightarrow>
        orbad r (\<lambda>_.
        orbad (parse_uriquery new_uri (make_dictionary COMPARE_CASE_SENS)) (\<lambda>(new_query, _).
        orbad (dictionary_get new_query (Some ''topic'')) (\<lambda>topic.
        Get topic (\<lambda>last_mes.
        with_str (of_ptr last_mes) (\<lambda>l.
        orbad (append_strings [l, Some crlf, l, None]) (\<lambda>new_str.
        New new_str (\<lambda>p.
        Put topic p (serve_form '''' (Some '''') topic (Ptr p) Stop))))))))))))"

text \<open>\<open>dial host port\<close> is what \<open>Open_clientfd\<close> connects to, if anything.\<close>

definition import_chat :: "(string \<Rightarrow> string \<Rightarrow> conn option) \<Rightarrow> string \<Rightarrow> string dictionary_t \<Rightarrow> act" where
  "import_chat dial junk query =
    orbad (dictionary_get query (Some ''topic'')) (\<lambda>topic.
    orbad (dictionary_get query (Some ''host'')) (\<lambda>host.
    orbad host (\<lambda>host.
    orbad (dictionary_get query (Some ''port'')) (\<lambda>port.
    Get topic (\<lambda>last_mes.
    with_str (of_ptr last_mes) (\<lambda>l.
    orbad (append_strings [l, Some crlf, l, None]) (\<lambda>new_str.
    New new_str (\<lambda>p.
    Put topic p (serve_form '''' (Some '''') topic (Ptr p)
      (orbad port (\<lambda>port.
       let peer = dial host port in
       orbad (append_strings [Some ''GET /conversation?topic='', topic, Some '' '', Some ''HTTP/1.1'', Some crlf, None]) (\<lambda>request.
       orbad (format0 request) (\<lambda>buffer.
       if MAXLINE \<le> length buffer then Bad
       else (case peer of
           None \<Rightarrow> Stop
         | Some peer \<Rightarrow> Peer buffer (import_answer junk peer)))))))))))))))"

definition get_chat :: "(string \<Rightarrow> string \<Rightarrow> conn option) \<Rightarrow> string \<Rightarrow> string \<Rightarrow> string dictionary_t \<Rightarrow> act" where
  "get_chat dial junk uri query =
    (if starts_with ''/conversation'' uri then
       orbad (dictionary_get query (Some ''topic'')) (\<lambda>topic.
       Get topic (\<lambda>last_mes.
         case last_mes of
           None \<Rightarrow> New '''' (\<lambda>new_mes. Put topic new_mes (serve_form '''' (Some '''') topic (Ptr new_mes) Stop))
         | Some p \<Rightarrow> serve_form '''' (Some '''') topic (Ptr p) Stop))
     else if starts_with ''/say'' uri then
       orbad (dictionary_get query (Some ''topic'')) (\<lambda>topic.
       orbad (dictionary_get query (Some ''user'')) (\<lambda>user.
       orbad (dictionary_get query (Some ''content'')) (\<lambda>content.
       Get topic (\<lambda>all_conv.
       with_str (of_ptr all_conv) (\<lambda>conv.
         let append_new = (if conv \<noteq> None then append_strings [conv, Some crlf, user, Some '': '', content, None]
                           else append_strings [user, Some '': '', content, None]) in
         orbad append_new (\<lambda>append_new.
         New append_new (\<lambda>p.
         Put topic p (serve_form '''' (Some '''') (Some '''') (Own '''') Stop))))))))
     else if starts_with ''/import'' uri then import_chat dial junk query
     else serve_form ''Welcome to TinyChat'' (Some '''') (Some '''') (Own '''') Stop)"

text \<open>When the request line cannot be parsed, the code passes the uninitialised \<open>method\<close> on.\<close>

definition doit :: "(string \<Rightarrow> string \<Rightarrow> conn option) \<Rightarrow> string \<Rightarrow> conn \<Rightarrow> act" where
  "doit dial junk c =
    orbad (read_line (rio_readinitb junk) c (malloc_buf MAXLINE)) (\<lambda>(n, buf, rio, c).
    if n \<le> 0 then Stop
    else orbad (cstr buf) (\<lambda>line.
    orbad (parse_request_line line) (\<lambda>(method, uri, version).
      if \<not> strcaseeq version ''HTTP/1.0'' \<and> \<not> strcaseeq version ''HTTP/1.1'' then
        clienterror Send version ''501'' ''Not Implemented'' ''TinyChat does not implement that version'' Stop
      else if \<not> strcaseeq method ''GET'' \<and> \<not> strcaseeq method ''POST'' then
        clienterror Send method ''501'' ''Not Implemented'' ''TinyChat does not implement that method'' Stop
      else (case read_requesthdrs rio c of None \<Rightarrow> Diverge | Some r \<Rightarrow>
        orbad r (\<lambda>(headers, rio, c).
        orbad (parse_uriquery uri (make_dictionary COMPARE_CASE_SENS)) (\<lambda>(query, _).
        if strcaseeq method ''POST'' then
          orbad (read_postquery rio c headers query) post_chat
        else
          orbad (parse_uriquery uri query) (\<lambda>(query, _). get_chat dial junk uri query)))))))"

text \<open>The server: one thread for each connection that \<open>Accept\<close> delivers.\<close>

definition server0 :: server where
  "server0 = \<lparr>conv = make_dictionary COMPARE_CASE_SENS, store = Map.empty, fresh = 0\<rparr>"

definition serve :: "(string \<Rightarrow> string \<Rightarrow> conn option) \<Rightarrow> string \<Rightarrow> conn option list \<Rightarrow> server \<times> (act \<times> string) list" where
  "serve dial junk accepted = (server0, map (\<lambda>c. (doit dial junk c, '''')) (List.map_filter id accepted))"

text \<open>\<open>Inl\<close> is an exit code: the usage error, and \<open>Open_listenfd\<close> failing while errors still end the process.
  \<open>addresses\<close> is what the system knows about the port, \<open>net\<close> its descriptors.\<close>

definition main ::
  "nat \<Rightarrow> int + address list \<Rightarrow> net \<Rightarrow> (string \<Rightarrow> string \<Rightarrow> conn option) \<Rightarrow> string \<Rightarrow> conn option list \<Rightarrow>
    (int + server \<times> (act \<times> string) list) option" where
  "main argc addresses net dial junk accepted =
    (if argc \<noteq> 2 then Some (Inl 1)
     else andthen (Open_listenfd True addresses net) (\<lambda>_. Some (Inr (serve dial junk accepted))))"

text \<open>The server runs if the first address it can bind also lets it listen, and ends with status 0 otherwise.\<close>

lemma main_starts:
  assumes "survives True ps"
  shows "main 2 (Inr ps) net dial junk accepted =
    Some (case find binds ps of
            Some p \<Rightarrow> if a_listen p < 0 then Inl 0 else Inr (serve dial junk accepted)
          | None \<Rightarrow> Inl 0)"
proof -
  have "0 \<le> a_socket p" if "find binds ps = Some p" for p
    using that by (auto simp: find_Some_iff binds_def)
  then show ?thesis
    by (auto simp: main_def Open_listenfd_def Open_fd_def open_listenfd_first [OF assms] wrapped_def unix_error_def
        error_exit_def split: option.split)
qed

section \<open>Ownership: every schedule keeps the conversations alive\<close>

text \<open>The strings a handler has made and not yet handed to the dictionary, for every answer it may get.\<close>

primrec act_ok :: "act \<Rightarrow> nat set \<Rightarrow> bool" where
  "act_ok Stop = (\<lambda>own. True)"
| "act_ok Bad = (\<lambda>own. True)"
| "act_ok Diverge = (\<lambda>own. True)"
| "act_ok (Get k f) = (\<lambda>own. \<forall>r. act_ok (f r) own)"
| "act_ok (Put k p a) = (\<lambda>own. p \<in> own \<and> act_ok a (own - {p}))"
| "act_ok (Load p f) = (\<lambda>own. \<forall>t. act_ok (f t) own)"
| "act_ok (New t f) = (\<lambda>own. \<forall>p. p \<notin> own \<longrightarrow> act_ok (f p) (insert p own))"
| "act_ok (Send t a) = act_ok a"
| "act_ok (Peer t a) = act_ok a"

lemma act_ok_orbad [simp]: "act_ok (orbad r f) own \<longleftrightarrow> (\<forall>x. r = Some x \<longrightarrow> act_ok (f x) own)"
  by (simp add: orbad_def split: option.split)

lemma act_ok_with_str: "(\<And>x. act_ok (f x) own) \<Longrightarrow> act_ok (with_str v f) own"
  by (cases v) auto

lemma act_ok_serve_form [simp]: "act_ok k own \<Longrightarrow> act_ok (serve_form pre name topic c k) own"
  by (auto simp: serve_form_def send_page_def intro!: act_ok_with_str)

lemma act_ok_clienterror [simp]:
  "act_ok k own \<Longrightarrow> act_ok (clienterror Send e1 e2 e3 e4 k) own" "act_ok k own \<Longrightarrow> act_ok (clienterror Peer e1 e2 e3 e4 k) own"
  by (auto simp: clienterror_def)

lemma act_ok_post: "act_ok (post_chat query) {}"
  by (auto simp: post_chat_def Let_def intro!: act_ok_with_str)

lemma act_ok_answer: "act_ok (import_answer junk peer) {}"
  by (auto simp: import_answer_def split: prod.splits option.splits intro!: act_ok_with_str)

lemma act_ok_import: "act_ok (import_chat dial junk query) {}"
  by (auto simp: import_chat_def Let_def act_ok_answer split: option.splits intro!: act_ok_with_str)

lemma act_ok_get: "act_ok (get_chat dial junk uri query) {}"
  by (auto simp: get_chat_def Let_def act_ok_import split: option.splits intro!: act_ok_with_str)

lemma act_ok_doit: "act_ok (doit dial junk c) {}"
  by (auto simp: doit_def act_ok_post act_ok_get split: prod.splits option.splits)

definition topics :: "server \<Rightarrow> string set" where
  "topics s = dom (dict_map (conv s))"

definition server_ok :: "server \<Rightarrow> bool" where
  "server_ok s \<longleftrightarrow> dict_ok (conv s) \<and> compare_mode (conv s) = COMPARE_CASE_SENS \<and>
    (\<forall>p. count (held (conv s)) p \<le> 1) \<and> (\<forall>p \<in># held (conv s). store s p \<noteq> None) \<and>
    (\<forall>p. store s p \<noteq> None \<longrightarrow> p < fresh s)"

definition owned_by_thread :: "server \<Rightarrow> nat \<Rightarrow> bool" where
  "owned_by_thread s p \<longleftrightarrow> store s p \<noteq> None \<and> p \<notin># held (conv s)"

lemma dict_scan_NULL: "dict_scan d None i = (if i < dcount d then None else Some None)"
  by (subst dict_scan.simps) (simp add: same_key_def bind_eq_None_conv)

lemma set_NULL: "dictionary_set d None v = None"
  by (simp add: dictionary_set_def dict_scan_NULL)

lemma exec_Put:
  assumes "exec s (Put k p a) = Some (s', t, a')" "server_ok s" "owned_by_thread s p"
  shows "server_ok s' \<and> topics s \<subseteq> topics s' \<and> a' = a \<and>
    (\<forall>q. q \<noteq> p \<longrightarrow> owned_by_thread s q \<longrightarrow> owned_by_thread s' q)"
proof -
  obtain k' where k: "k = Some k'" using assms(1) by (cases k) (auto simp: set_NULL)
  have ok: "dict_ok (conv s)" "compare_mode (conv s) = COMPARE_CASE_SENS" using assms(2) by (auto simp: server_ok_def)
  obtain d fr where d: "dictionary_set (conv s) (Some k') p = Some (d, fr)" "dict_ok d" "compare_mode d = compare_mode (conv s)"
      "dict_map d = (dict_map (conv s))(canon (compare_mode (conv s)) k' \<mapsto> p)" "mset fr + held d = add_mset p (held (conv s))"
    by (rule dictionary_set_cases [OF ok(1), of k' p])
  have s': "s' = s\<lparr>conv := d, store := frees fr (store s)\<rparr>" "a' = a" using assms(1) d(1) k by auto
  have cnt: "count (mset fr) q + count (held d) q = (if q = p then 1 else 0) + count (held (conv s)) q" for q
    using arg_cong [OF d(5), of "\<lambda>M. count M q"] by simp
  have le: "count (held (conv s)) q \<le> 1" "count (held (conv s)) p = 0" for q
    using assms(2,3) by (auto simp: server_ok_def owned_by_thread_def not_in_iff)
  have one: "count (mset fr) q + count (held d) q \<le> 1" for q
    using cnt [of q] le(1) [of q] le(2) by (auto split: if_splits)
  have cnt': "count (mset fr) q + count (held d) q = count (held (conv s)) q" if "q \<noteq> p" for q
    unfolding cnt if_not_P [OF that] by (rule add_0)
  have fr: "q \<notin> set fr \<longleftrightarrow> count (mset fr) q = 0" for q by (metis count_eq_zero_iff set_mset_mset)
  have mem: "q \<notin> set fr \<and> (q = p \<or> q \<in># held (conv s))" if "q \<in># held d" for q
  proof -
    have pos: "0 < count (held d) q" using that by (simp only: count_greater_zero_iff)
    then have "count (mset fr) q = 0" using one [of q] by linarith
    moreover have "0 < count (held (conv s)) q" if "q \<noteq> p" using cnt' [OF that] pos by linarith
    ultimately show ?thesis using fr by (auto simp only: count_greater_zero_iff)
  qed
  have old: "q \<notin> set fr \<and> q \<notin># held d" if "q \<noteq> p" "q \<notin># held (conv s)" for q
  proof -
    have "count (held (conv s)) q = 0" using that(2) by (simp only: not_in_iff)
    then have "count (mset fr) q = 0" "count (held d) q = 0" using cnt' [OF that(1)] by linarith+
    then show ?thesis using fr by (simp only: not_in_iff)
  qed
  have "server_ok s'"
    unfolding server_ok_def s'
  proof (simp, intro conjI ballI allI impI)
    show "dict_ok d" "compare_mode d = COMPARE_CASE_SENS" using d(2,3) ok by simp_all
    show "count (held d) q \<le> Suc 0" for q using one [of q] by simp
    show "\<exists>y. frees fr (store s) q = Some y" if "q \<in># held d" for q
      using mem [OF that] assms(2,3) by (auto simp: frees_def server_ok_def owned_by_thread_def)
    show "q < fresh s" if "\<exists>y. frees fr (store s) q = Some y" for q
      using that assms(2) by (auto simp: frees_def server_ok_def split: if_splits)
  qed
  moreover have "topics s \<subseteq> topics s'" using d(4) by (auto simp: topics_def s')
  moreover have "\<forall>q. q \<noteq> p \<longrightarrow> owned_by_thread s q \<longrightarrow> owned_by_thread s' q"
    using old by (auto simp: owned_by_thread_def s' frees_def)
  ultimately show ?thesis using s'(2) by blast
qed

lemma exec_ok:
  assumes "exec s a = Some (s', t, a')" "server_ok s" "act_ok a own" "\<forall>p\<in>own. owned_by_thread s p"
  shows "\<exists>own'. server_ok s' \<and> topics s \<subseteq> topics s' \<and> act_ok a' own' \<and> (\<forall>p\<in>own'. owned_by_thread s' p) \<and>
    (\<forall>p. p \<notin> own \<longrightarrow> owned_by_thread s p \<longrightarrow> p \<notin> own' \<and> owned_by_thread s' p)"
proof (cases a)
  case (Put k p b)
  then have "p \<in> own" "act_ok b (own - {p})" using assms(3) by auto
  then show ?thesis
    using exec_Put [OF assms(1) [unfolded Put] assms(2)] assms(4) by (intro exI [of _ "own - {p}"]) auto
next
  case (New x f)
  have s': "s' = s\<lparr>store := (store s)(fresh s \<mapsto> x), fresh := fresh s + 1\<rparr>" "a' = f (fresh s)"
    using assms(1) New by auto
  have f: "store s (fresh s) = None" using assms(2) by (cases "store s (fresh s)") (auto simp: server_ok_def)
  then have h: "fresh s \<notin># held (conv s)" using assms(2) by (auto simp: server_ok_def)
  have "fresh s \<notin> own" using f assms(4) by (auto simp: owned_by_thread_def)
  then have "act_ok a' (insert (fresh s) own)" using assms(3) New s' by auto
  moreover have "server_ok s'" using assms(2) by (auto simp: server_ok_def s' less_Suc_eq)
  moreover have "owned_by_thread s' p" if "owned_by_thread s p \<or> p = fresh s" for p
    using that f h by (auto simp: owned_by_thread_def s')
  moreover have "p \<noteq> fresh s" if "owned_by_thread s p" for p using that f by (auto simp: owned_by_thread_def)
  ultimately show ?thesis
    using assms(4) by (intro exI [of _ "insert (fresh s) own"]) (auto simp: topics_def s')
next
  case (Get k f)
  then show ?thesis using assms by (intro exI [of _ own]) (auto simp: bind_eq_Some_conv)
next
  case (Load p f)
  then show ?thesis using assms by (intro exI [of _ own]) (auto simp: bind_eq_Some_conv)
qed (use assms in \<open>auto intro: exI [of _ own]\<close>)

definition pool_ok :: "server \<Rightarrow> (act \<times> string) list \<Rightarrow> (nat \<Rightarrow> nat set) \<Rightarrow> bool" where
  "pool_ok s ts own \<longleftrightarrow>
    (\<forall>i<length ts. act_ok (fst (ts ! i)) (own i) \<and> (\<forall>p\<in>own i. owned_by_thread s p)) \<and>
    (\<forall>i<length ts. \<forall>j<length ts. i \<noteq> j \<longrightarrow> own i \<inter> own j = {})"

lemma step_ok:
  assumes "step x y" "server_ok (fst x)" "pool_ok (fst x) (snd x) own"
  shows "\<exists>own'. server_ok (fst y) \<and> pool_ok (fst y) (snd y) own' \<and> topics (fst x) \<subseteq> topics (fst y) \<and> length (snd y) = length (snd x)"
  using assms
proof (cases rule: step.cases)
  case (thread i ts a out s s' t a')
  have "act_ok a (own i)" "\<forall>p\<in>own i. owned_by_thread s p"
    using assms(3) thread by (auto simp: pool_ok_def)
  from exec_ok [OF thread(5) _ this] assms(2) thread(1)
  obtain O' where O': "server_ok s'" "topics s \<subseteq> topics s'" "act_ok a' O'" "\<forall>p\<in>O'. owned_by_thread s' p"
      "\<forall>p. p \<notin> own i \<longrightarrow> owned_by_thread s p \<longrightarrow> p \<notin> O' \<and> owned_by_thread s' p"
    by auto
  have other: "p \<notin> O' \<and> owned_by_thread s' p" if "j < length ts" "j \<noteq> i" "p \<in> own j" for j p
  proof -
    have "own j \<inter> own i = {}" "owned_by_thread s p" using assms(3) that thread(1,3) by (auto simp: pool_ok_def)
    then show ?thesis using O'(5) that(3) by blast
  qed
  have "pool_ok s' (ts[i := (a', out @ t)]) (own(i := O'))"
    unfolding pool_ok_def
  proof (intro conjI allI impI)
    fix j assume j: "j < length (ts[i := (a', out @ t)])"
    show "act_ok (fst (ts[i := (a', out @ t)] ! j)) ((own(i := O')) j)"
      using O'(3) assms(3) j thread by (cases "j = i") (auto simp: pool_ok_def)
    show "\<forall>p\<in>(own(i := O')) j. owned_by_thread s' p"
      using O'(4) other j by (cases "j = i") auto
    fix j' assume "j' < length (ts[i := (a', out @ t)])" "j \<noteq> j'"
    then show "(own(i := O')) j \<inter> (own(i := O')) j' = {}"
      using other j assms(3) thread by (auto simp: pool_ok_def split: if_splits)
  qed
  then show ?thesis using O' thread by (intro exI [of _ "own(i := O')"]) simp
qed

lemma steps_ok:
  assumes "step\<^sup>*\<^sup>* x y" "server_ok (fst x)" "pool_ok (fst x) (snd x) own"
  shows "\<exists>own'. server_ok (fst y) \<and> pool_ok (fst y) (snd y) own' \<and> topics (fst x) \<subseteq> topics (fst y)"
  using assms
proof (induction rule: rtranclp_induct)
  case (step y z)
  then obtain own' where "server_ok (fst y)" "pool_ok (fst y) (snd y) own'" "topics (fst x) \<subseteq> topics (fst y)" by blast
  then show ?case using step_ok [OF step(2)] by blast
qed blast

lemma serve_ok: "server_ok (fst (serve dial junk accepted))" "pool_ok (fst (serve dial junk accepted)) (snd (serve dial junk accepted)) (\<lambda>_. {})"
  by (auto simp: serve_def server_ok_def server0_def pool_ok_def act_ok_doit)

section \<open>Running a handler by itself\<close>

text \<open>The handler runs without interruption; \<open>Bad\<close> and \<open>Diverge\<close> have no result.\<close>

function run_alone :: "nat \<Rightarrow> server \<Rightarrow> act \<Rightarrow> (server \<times> string) option" where
  "run_alone n s a =
    (if a = Stop then Some (s, '''')
     else if n = 0 then None
     else (case exec s a of
         None \<Rightarrow> None
       | Some (s', t, a') \<Rightarrow> map_option (\<lambda>(s'', u). (s'', t @ u)) (run_alone (n - 1) s' a')))"
  by pat_completeness auto
termination
  by (relation "measure (\<lambda>(n, s, a). n)") auto

declare run_alone.simps [simp del]

lemma run_alone_simps [simp]:
  "run_alone n s Stop = Some (s, '''')"
  "run_alone (Suc n) s (Get k g) = do { r \<leftarrow> dictionary_get (conv s) k; run_alone n s (g r) }"
  "run_alone (Suc n) s (Put k p a) =
    do { (d, freed) \<leftarrow> dictionary_set (conv s) k p; run_alone n (s\<lparr>conv := d, store := frees freed (store s)\<rparr>) a }"
  "run_alone (Suc n) s (Load p h) = do { t \<leftarrow> store s p; run_alone n s (h t) }"
  "run_alone (Suc n) s (New t f) = run_alone n (s\<lparr>store := (store s)(fresh s \<mapsto> t), fresh := fresh s + 1\<rparr>) (f (fresh s))"
  "run_alone (Suc n) s (Send t a) = map_option (\<lambda>(s', u). (s', t @ u)) (run_alone n s a)"
proof -
  have id: "map_option (\<lambda>(s', u). (s', u)) r = r" for r :: "(server \<times> string) option" by (cases r) auto
  show "run_alone n s Stop = Some (s, '''')" by (simp add: run_alone.simps)
  show "run_alone (Suc n) s (Get k g) = do { r \<leftarrow> dictionary_get (conv s) k; run_alone n s (g r) }"
    by (cases "dictionary_get (conv s) k") (auto simp: run_alone.simps [of "Suc n"] id option.map_id)
  show "run_alone (Suc n) s (Put k p a) =
    do { (d, freed) \<leftarrow> dictionary_set (conv s) k p; run_alone n (s\<lparr>conv := d, store := frees freed (store s)\<rparr>) a }"
    by (cases "dictionary_set (conv s) k p") (auto simp: run_alone.simps [of "Suc n"] id option.map_id)
  show "run_alone (Suc n) s (Load p h) = do { t \<leftarrow> store s p; run_alone n s (h t) }"
    by (cases "store s p") (auto simp: run_alone.simps [of "Suc n"] id option.map_id)
qed (simp_all add: run_alone.simps [of "Suc n"] option.map_ident cong: map_option_cong)

lemma run_alone_steps:
  "run_alone n s a = Some (s', out) \<Longrightarrow> i < length ts \<Longrightarrow> ts ! i = (a, u) \<Longrightarrow> step\<^sup>*\<^sup>* (s, ts) (s', ts[i := (Stop, u @ out)])"
proof (induction n s a arbitrary: out ts u rule: run_alone.induct)
  case (1 n s a)
  show ?case
  proof (cases "a = Stop")
    case True
    then have "s' = s" "out = []" using 1(2) by simp_all
    moreover have "ts[i := (Stop, u @ [])] = ts" using True 1(4) by (metis append_Nil2 list_update_id)
    ultimately show ?thesis by simp
  next
    case False
    then have n: "n \<noteq> 0" using 1(2) by (simp add: run_alone.simps [of n] split: if_splits)
    then obtain s1 t a1 where e: "exec s a = Some (s1, t, a1)"
      using False 1(2) by (cases "exec s a") (auto simp: run_alone.simps [of n])
    then obtain out1 where r: "run_alone (n - 1) s1 a1 = Some (s', out1)" "out = t @ out1"
      using False n 1(2) by (auto simp: run_alone.simps [of n])
    have st: "step (s, ts) (s1, ts[i := (a1, u @ t)])" by (rule step.thread [OF 1(3,4) e])
    have "step\<^sup>*\<^sup>* (s1, ts[i := (a1, u @ t)]) (s', (ts[i := (a1, u @ t)])[i := (Stop, (u @ t) @ out1)])"
      by (rule 1(1) [OF False n e refl refl r(1)]) (use 1(3) in simp_all)
    then show ?thesis using st r(2) by (simp add: converse_rtranclp_into_rtranclp)
  qed
qed

section \<open>What a message does to the conversation\<close>

definition conversation :: "server \<Rightarrow> string \<Rightarrow> string option" where
  "conversation s t = Option.bind (dict_map (conv s) t) (store s)"

lemma dict_map_held: "dict_map d k = Some p \<Longrightarrow> p \<in># held d"
  unfolding dict_map_def held_def by (auto dest!: map_of_SomeD set_zip_rightD)

lemma ok_header_Some: "nul_free ctype \<Longrightarrow> ok_header n ctype \<noteq> None"
proof -
  assume c: "nul_free ctype"
  have "ok_header n ctype = append_strings (map Some [''HTTP/1.0 200 OK'' @ crlf, ''Server: TinyChat Web Server'' @ crlf,
      ''Connection: close'' @ crlf, ''Content-length: '', to_string (int n), crlf, ''Content-type: '', ctype, crlf @ crlf] @ None # [])"
    by (simp add: ok_header_def)
  moreover have "nul_free (to_string (int n))" by (auto simp: to_string_def dec_int_def)
  ultimately show ?thesis using c
    by (subst (asm) append_strings_eq) (auto simp: NUL_def crlf_def nul_free_def)
qed

text \<open>The end of a handler that stores a message and answers with an empty page.\<close>

lemma run_store:
  assumes "server_ok s" "nul_free x"
  obtains s' out where
    "run_alone 5 s (New x (\<lambda>p. Put (Some t) p (serve_form '''' (Some '''') (Some '''') (Own '''') Stop))) = Some (s', out)"
    "conversation s' t = Some x" "\<And>t'. t' \<noteq> t \<Longrightarrow> conversation s' t' = conversation s t'"
    "\<And>p. dict_map (conv s) t = Some p \<Longrightarrow> store s' p = None" "server_ok s'"
proof -
  let ?q = "fresh s"
  let ?s1 = "s\<lparr>store := (store s)(?q \<mapsto> x), fresh := ?q + 1\<rparr>"
  have ok: "dict_ok (conv s)" "compare_mode (conv s) = COMPARE_CASE_SENS" using assms(1) by (auto simp: server_ok_def)
  obtain d fr where d: "dictionary_set (conv s) (Some t) ?q = Some (d, fr)" "dict_map d = (dict_map (conv s))(t \<mapsto> ?q)"
      "fr = (case dict_map (conv s) t of Some w \<Rightarrow> [w] | None \<Rightarrow> [])"
    using dictionary_set_cases [OF ok(1), of t ?q] ok(2) by (metis canon_sens)
  let ?s2 = "?s1\<lparr>conv := d, store := frees fr (store ?s1)\<rparr>"
  obtain header where h: "ok_header (Suc (Suc 0)) ''text/html; charset=utf-8'' = Some header"
    using ok_header_Some [of "''text/html; charset=utf-8''" "Suc (Suc 0)"] by (auto simp: NUL_def)
  have b: "append_strings [Some '''', Some crlf, None] = Some crlf"
    using append_strings_eq [of "['''', crlf]" "[]"] by simp
  have run: "run_alone 5 s (New x (\<lambda>p. Put (Some t) p (serve_form '''' (Some '''') (Some '''') (Own '''') Stop))) =
      Some (?s2, header @ crlf)"
    using d(1) h b by (simp add: eval_nat_numeral serve_form_def send_page_def orbad_def crlf_def)
  have f: "store s ?q = None" using assms(1) by (cases "store s ?q") (auto simp: server_ok_def)
  have held: "?q \<notin># held (conv s)" using f assms(1) by (auto simp: server_ok_def)
  have e1: "exec s (New x (\<lambda>p. Put (Some t) p Stop)) = Some (?s1, '''', Put (Some t) ?q Stop)" by simp
  have e2: "exec ?s1 (Put (Some t) ?q Stop) = Some (?s2, '''', Stop)" using d(1) by simp
  have s1: "server_ok ?s1" using assms(1) by (auto simp: server_ok_def less_Suc_eq)
  have "owned_by_thread ?s1 ?q" using held by (simp add: owned_by_thread_def)
  then have s2: "server_ok ?s2" using exec_Put [OF e2 s1] by blast
  have nfr: "?q \<notin> set fr" using d(3) held by (auto dest: dict_map_held split: option.splits)
  have "conversation ?s2 t = Some x" using nfr by (simp add: conversation_def d(2) frees_def)
  moreover have "conversation ?s2 t' = conversation s t'" if "t' \<noteq> t" for t'
  proof (cases "dict_map (conv s) t'")
    case None
    then show ?thesis using that by (simp add: conversation_def d(2))
  next
    case (Some p)
    then have "dict_map d t' = Some p" using that d(2) by simp
    then have "store ?s2 p \<noteq> None" using s2 dict_map_held [of d t' p] by (simp add: server_ok_def)
    then have "p \<notin> set fr" by (auto simp: frees_def)
    moreover have "p \<noteq> ?q" using held dict_map_held [OF Some] by blast
    ultimately show ?thesis using Some that by (simp add: conversation_def d(2) frees_def)
  qed
  moreover have "store ?s2 p = None" if "dict_map (conv s) t = Some p" for p using that d(3) by (simp add: frees_def)
  ultimately show thesis using that [OF run] s2 by blast
qed

text \<open>The handler of \<open>/say\<close>, for a complete query.\<close>

definition say_query :: "string dictionary_t \<Rightarrow> string \<Rightarrow> string \<Rightarrow> string \<Rightarrow> bool" where
  "say_query query t u m \<longleftrightarrow> dictionary_get query (Some ''topic'') = Some (Some t) \<and>
    dictionary_get query (Some ''user'') = Some (Some u) \<and> dictionary_get query (Some ''content'') = Some (Some m) \<and>
    nul_free u \<and> nul_free m"

definition store_message :: "string \<Rightarrow> string \<Rightarrow> act" where
  "store_message t x = New x (\<lambda>p. Put (Some t) p (serve_form '''' (Some '''') (Some '''') (Own '''') Stop))"

definition said :: "string option \<Rightarrow> string \<Rightarrow> string \<Rightarrow> string" where
  "said old u m = (case old of None \<Rightarrow> '''' | Some c \<Rightarrow> c @ crlf) @ u @ '': '' @ m"

lemma append_said:
  assumes "nul_free u" "nul_free m" "\<forall>c. old = Some c \<longrightarrow> nul_free c"
  shows "(if old \<noteq> None then append_strings [old, Some crlf, Some u, Some '': '', Some m, None]
          else append_strings [Some u, Some '': '', Some m, None]) = Some (said old u m)"
  using append_strings_eq [of "[u, '': '', m]" "[]"] append_strings_eq [of "[the old, crlf, u, '': '', m]" "[]"] assms
  by (cases old) (auto simp: said_def NUL_def)

lemma get_chat_say:
  assumes "starts_with ''/say'' uri" "say_query query t u m"
  shows "get_chat dial junk uri query = Get (Some t) (\<lambda>p. with_str (of_ptr p) (\<lambda>c.
    orbad (if c \<noteq> None then append_strings [c, Some crlf, Some u, Some '': '', Some m, None]
           else append_strings [Some u, Some '': '', Some m, None]) (store_message t)))"
proof -
  have say: "take 4 uri = ''/say''" using assms(1) by (simp add: starts_with_def strneq_def eval_nat_numeral)
  have "\<not> starts_with ''/conversation'' uri"
  proof
    assume "starts_with ''/conversation'' uri"
    then have "take 13 uri = ''/conversation''" by (simp add: starts_with_def strneq_def eval_nat_numeral)
    then have "take 4 (take 13 uri) = take 4 ''/conversation''" by (rule arg_cong)
    then show False using say by simp
  qed
  then show ?thesis using assms by (simp add: get_chat_def say_query_def orbad_def Let_def store_message_def [abs_def])
qed

text \<open>The conversations of the server have no NUL.\<close>

definition texts_ok :: "server \<Rightarrow> bool" where
  "texts_ok s \<longleftrightarrow> (\<forall>p x. store s p = Some x \<longrightarrow> nul_free x)"

lemma run_alone_more: "run_alone n s a = Some r \<Longrightarrow> run_alone (n + k) s a = Some r"
proof (induction n s a arbitrary: r rule: run_alone.induct)
  case (1 n s a)
  show ?case
  proof (cases "a = Stop")
    case True
    then show ?thesis using 1(2) by simp
  next
    case False
    then have n: "n \<noteq> 0" using 1(2) by (simp add: run_alone.simps [of n] split: if_splits)
    then obtain s1 t a1 where e: "exec s a = Some (s1, t, a1)"
      using False 1(2) by (cases "exec s a") (auto simp: run_alone.simps [of n])
    then obtain r1 where r: "run_alone (n - 1) s1 a1 = Some r1" "r = (\<lambda>(s'', u). (s'', t @ u)) r1"
      using False n 1(2) by (auto simp: run_alone.simps [of n])
    have "run_alone (n - 1 + k) s1 a1 = Some r1" by (rule 1(1) [OF False n e refl refl r(1)])
    then show ?thesis using False n e r(2) by (simp add: run_alone.simps [of "n + k"])
  qed
qed

lemma run_alone_numeral [simp]:
  "run_alone (numeral w) s (Get k g) = do { r \<leftarrow> dictionary_get (conv s) k; run_alone (pred_numeral w) s (g r) }"
  "run_alone (numeral w) s (Load p h) = do { t \<leftarrow> store s p; run_alone (pred_numeral w) s (h t) }"
  by (simp_all add: numeral_eq_Suc)

lemma say_runs:
  assumes "server_ok s" "texts_ok s" "starts_with ''/say'' uri" "say_query query t u m"
  obtains s' out where "run_alone 7 s (get_chat dial junk uri query) = Some (s', out)"
    "conversation s' t = Some (said (conversation s t) u m)" "\<And>t'. t' \<noteq> t \<Longrightarrow> conversation s' t' = conversation s t'"
    "\<And>p. dict_map (conv s) t = Some p \<Longrightarrow> store s' p = None" "server_ok s'"
proof -
  have ok: "dict_ok (conv s)" "compare_mode (conv s) = COMPARE_CASE_SENS" using assms(1) by (auto simp: server_ok_def)
  have get: "dictionary_get (conv s) (Some t) = Some (dict_map (conv s) t)" using dictionary_get_map [OF ok(1)] ok(2) by simp
  let ?x = "said (conversation s t) u m"
  have nf: "\<forall>c. conversation s t = Some c \<longrightarrow> nul_free c"
    using assms(2) by (auto simp: conversation_def texts_ok_def bind_eq_Some_conv)
  then have x: "nul_free ?x" using assms(4) by (auto simp: said_def say_query_def NUL_def split: option.splits)
  obtain s' out where r: "run_alone 5 s (store_message t ?x) = Some (s', out)" "conversation s' t = Some ?x"
      "\<And>t'. t' \<noteq> t \<Longrightarrow> conversation s' t' = conversation s t'" "\<And>p. dict_map (conv s) t = Some p \<Longrightarrow> store s' p = None" "server_ok s'"
    using run_store [OF assms(1) x, of t] unfolding store_message_def by metis
  have app: "(if conversation s t \<noteq> None then append_strings [conversation s t, Some crlf, Some u, Some '': '', Some m, None]
      else append_strings [Some u, Some '': '', Some m, None]) = Some ?x"
    using append_said [OF _ _ nf] assms(4) by (simp add: say_query_def)
  have "run_alone 7 s (get_chat dial junk uri query) = Some (s', out)"
  proof (cases "dict_map (conv s) t")
    case None
    then have "conversation s t = None" by (simp add: conversation_def)
    then have "run_alone 6 s (get_chat dial junk uri query) = Some (s', out)"
      using get None app r(1) unfolding get_chat_say [OF assms(3,4)] by (simp add: of_ptr_def orbad_def)
    then show ?thesis using run_alone_more [of 6 _ _ _ 1] by (simp del: run_alone_numeral)
  next
    case (Some p)
    then obtain c where c: "store s p = Some c" using assms(1) dict_map_held [OF Some] by (auto simp: server_ok_def)
    then have "conversation s t = Some c" using Some by (simp add: conversation_def)
    then have "run_alone 7 s (get_chat dial junk uri query) = Some (s', out)"
      using get Some c app r(1) unfolding get_chat_say [OF assms(3,4)] by (simp add: of_ptr_def orbad_def)
    then show ?thesis .
  qed
  then show thesis using that r by blast
qed

section \<open>Two messages at the same time\<close>

lemma step_head:
  "exec s a = Some (s', t, a') \<Longrightarrow> step (s, (a, u) # ts) (s', (a', u @ t) # ts)"
  using step.thread [of 0 "(a, u) # ts" a u s s' t a'] by simp

lemma alone_head: "run_alone n s a = Some (s', out) \<Longrightarrow> step\<^sup>*\<^sup>* (s, (a, u) # ts) (s', (Stop, u @ out) # ts)"
  using run_alone_steps [of n s a s' out 0 "(a, u) # ts" u] by simp

lemma alone_second: "run_alone n s a = Some (s', out) \<Longrightarrow> step\<^sup>*\<^sup>* (s, [x, (a, u)]) (s', [x, (Stop, u @ out)])"
  using run_alone_steps [of n s a s' out 1 "[x, (a, u)]" u] by simp

lemma say_get:
  assumes "server_ok s" "starts_with ''/say'' uri" "say_query query t u m" "dict_map (conv s) t = Some p"
  shows "exec s (get_chat dial junk uri query) = Some (s, '''', Load p (\<lambda>c. orbad (append_strings [Some c, Some crlf, Some u, Some '': '', Some m, None]) (store_message t)))"
proof -
  have ok: "dict_ok (conv s)" "compare_mode (conv s) = COMPARE_CASE_SENS" using assms(1) by (auto simp: server_ok_def)
  have "dictionary_get (conv s) (Some t) = Some (Some p)" using dictionary_get_map [OF ok(1), of t] ok(2) assms(4) by simp
  then show ?thesis unfolding get_chat_say [OF assms(2,3)] by (simp add: of_ptr_def)
qed

text \<open>The first handler has read the conversation when the second one runs; what it stores then drops
  the second message.\<close>

lemma say_lost_update:
  assumes "server_ok s" "texts_ok s" "conversation s t = Some old" "starts_with ''/say'' uri" "say_query q1 t u1 m1" "say_query q2 t u2 m2"
  shows "\<exists>s' o1 o2. step\<^sup>*\<^sup>* (s, [(get_chat dial junk uri q1, ''''), (get_chat dial junk uri q2, '''')]) (s', [(Stop, o1), (Stop, o2)]) \<and>
    conversation s' t = Some (said (Some old) u1 m1)"
proof -
  obtain p where p: "dict_map (conv s) t = Some p" "store s p = Some old"
    using assms(3) by (auto simp: conversation_def bind_eq_Some_conv)
  have nf: "nul_free old" "nul_free u1" "nul_free m1" using assms(2,5) p(2) by (auto simp: texts_ok_def say_query_def)
  define x where "x = said (Some old) u1 m1"
  have app: "append_strings [Some old, Some crlf, Some u1, Some '': '', Some m1, None] = Some x"
    using append_said [OF nf(2,3), of "Some old"] nf(1) by (simp add: x_def)
  define rest where "rest = Load p (\<lambda>c. orbad (append_strings [Some c, Some crlf, Some u1, Some '': '', Some m1, None]) (store_message t))"
  let ?a2 = "get_chat dial junk uri q2"
  have 1: "step (s, [(get_chat dial junk uri q1, ''''), (?a2, '''')]) (s, [(rest, ''''), (?a2, '''')])"
    using step_head [OF say_get [OF assms(1,4,5) p(1)], where u = "[]"] by (simp add: rest_def)
  have "exec s rest = Some (s, '''', store_message t x)" using p(2) app by (simp add: rest_def orbad_def)
  from step_head [OF this, of "''''" "[(?a2, '''')]"]
  have 2: "step (s, [(rest, ''''), (?a2, '''')]) (s, [(store_message t x, ''''), (?a2, '''')])" by simp
  obtain s1 o2 where s1: "run_alone 7 s ?a2 = Some (s1, o2)" "server_ok s1"
    using say_runs [OF assms(1,2,4,6)] by metis
  have 3: "step\<^sup>*\<^sup>* (s, [(store_message t x, ''''), (?a2, '''')]) (s1, [(store_message t x, ''''), (Stop, o2)])"
    using alone_second [OF s1(1), of "(store_message t x, '''')" "''''"] by simp
  have "nul_free x" using nf by (auto simp: x_def said_def NUL_def)
  from run_store [OF s1(2) this, of t] obtain s2 o1 where
    s2: "run_alone 5 s1 (store_message t x) = Some (s2, o1)" "conversation s2 t = Some x"
    unfolding store_message_def by metis
  have 4: "step\<^sup>*\<^sup>* (s1, [(store_message t x, ''''), (Stop, o2)]) (s2, [(Stop, o1), (Stop, o2)])"
    using alone_head [OF s2(1), of "''''"] by simp
  show ?thesis
    using 1 2 3 4 s2(2) unfolding x_def [symmetric]
    by (meson converse_rtranclp_into_rtranclp rtranclp_trans)
qed

text \<open>When the second handler runs between the first one's section and its use of the string, the
  string has been freed.\<close>

lemma say_use_after_free:
  assumes "server_ok s" "texts_ok s" "conversation s t = Some old" "starts_with ''/say'' uri" "say_query q1 t u1 m1" "say_query q2 t u2 m2"
  shows "\<exists>s' p f o2. step\<^sup>*\<^sup>* (s, [(get_chat dial junk uri q1, ''''), (get_chat dial junk uri q2, '''')]) (s', [(Load p f, ''''), (Stop, o2)]) \<and>
    store s' p = None"
proof -
  obtain p where p: "dict_map (conv s) t = Some p" using assms(3) by (auto simp: conversation_def bind_eq_Some_conv)
  define f where "f = (\<lambda>c. orbad (append_strings [Some c, Some crlf, Some u1, Some '': '', Some m1, None]) (store_message t))"
  let ?a2 = "get_chat dial junk uri q2"
  have 1: "step (s, [(get_chat dial junk uri q1, ''''), (?a2, '''')]) (s, [(Load p f, ''''), (?a2, '''')])"
    using step_head [OF say_get [OF assms(1,4,5) p], where u = "[]"] by (simp add: f_def)
  obtain s1 o2 where s1: "run_alone 7 s ?a2 = Some (s1, o2)" "store s1 p = None"
    using say_runs [OF assms(1,2,4,6)] p by metis
  have 2: "step\<^sup>*\<^sup>* (s, [(Load p f, ''''), (?a2, '''')]) (s1, [(Load p f, ''''), (Stop, o2)])"
    using alone_second [OF s1(1), of "(Load p f, '''')" "''''"] by simp
  show ?thesis using 1 2 s1(2) by (meson converse_rtranclp_into_rtranclp)
qed

section \<open>Request headers\<close>

lemma next_line_line: "CHR 0x0A \<notin> set l \<Longrightarrow> length l < k \<Longrightarrow> next_line (l @ CHR 0x0A # s) k = l @ [CHR 0x0A]"
proof (induction l arbitrary: k)
  case Nil
  then show ?case by (cases k) auto
next
  case (Cons c l)
  then show ?case by (cases k) auto
qed

definition hdr_line :: "string \<Rightarrow> bool" where
  "hdr_line l \<longleftrightarrow> CHR 0x0A \<notin> set l \<and> nul_free l \<and> length l + 2 \<le> MAXLINE \<and> l \<noteq> [CHR 0x0D]"

definition eol :: "string \<Rightarrow> string" where
  "eol l = l @ [CHR 0x0A]"

lemma cstr_NUL: "nul_free l \<Longrightarrow> cstr (map Some (l @ [NUL]) @ b) = Some l"
  using cstr_app [of l "Some NUL # b"] by simp

lemma read_line_eol:
  assumes "rio_ok rp" "calm c" "length buf = MAXLINE" "stream rp c = eol l @ s" "CHR 0x0A \<notin> set l" "nul_free l" "length l + 2 \<le> MAXLINE"
  obtains n buf' rp' c' where "read_line rp c buf = Some (n, buf', rp', c')" "cstr buf' = Some (eol l)" "length buf' = MAXLINE"
    "rio_ok rp'" "calm c'" "stream rp' c' = s" "n = int (length l + 1)"
proof -
  have l: "next_line (stream rp c) (MAXLINE - 1) = eol l"
    using assms(4,5,7) next_line_line [of l "MAXLINE - 1" s] by (simp add: eol_def)
  have ne: "stream rp c \<noteq> []" using assms(4) by (simp add: eol_def)
  obtain rp' c' where r: "rio_readlineb rp c buf MAXLINE = Some (int (length (eol l)), map Some (eol l @ [NUL]) @ drop (length (eol l) + 1) buf, rp', c')"
      "rio_ok rp'" "calm c'" "stream rp c = eol l @ stream rp' c'"
    using readlineb_line [OF assms(1,2) _ _ ne, of MAXLINE buf] assms(3) unfolding l by (metis MAXLINE_def numeral_less_iff one_less_numeral_iff order_refl semiring_norm(76))
  have "read_line rp c buf = Some (int (length (eol l)), map Some (eol l @ [NUL]) @ drop (length (eol l) + 1) buf, rp', c')"
    using r(1) by (simp add: read_line_def Rio_readlineb_def wrapped_def)
  moreover have "nul_free (eol l)" using assms(6) by (simp add: eol_def NUL_def)
  then have "cstr (map Some (eol l @ [NUL]) @ drop (length (eol l) + 1) buf) = Some (eol l)" by (rule cstr_NUL)
  moreover have "length (map Some (eol l @ [NUL]) @ drop (length (eol l) + 1) buf) = MAXLINE"
    using assms(3,7) by (simp add: eol_def)
  moreover have "stream rp' c' = s" using r(4) assms(4) by simp
  ultimately show thesis using that r(2,3) by (simp add: eol_def)
qed

lemma read_line_eof:
  assumes "rio_ok rp" "calm c" "stream rp c = []"
  obtains rp' c' where "read_line rp c buf = Some (0, buf, rp', c')" "rio_ok rp'" "calm c'" "stream rp' c' = []"
proof -
  have "1 < MAXLINE" by (simp add: MAXLINE_def)
  then obtain rp' c' where r: "rio_readlineb rp c buf MAXLINE = Some (0, buf, rp', c')" "rio_ok rp'" "calm c'" "stream rp' c' = []"
    using readlineb_eof [OF assms(1,2) _ assms(3)] by metis
  have "read_line rp c buf = Some (0, buf, rp', c')" using r(1) by (simp add: read_line_def Rio_readlineb_def wrapped_def)
  then show thesis using that r(2-4) by blast
qed

lemma parse_header_line_ok: "dict_ok d \<Longrightarrow> \<exists>d' fr. parse_header_line l d = Some (d', fr) \<and> dict_ok d'"
proof -
  assume d: "dict_ok d"
  have "\<exists>d' fr. dictionary_set d (Some k) v = Some (d', fr) \<and> dict_ok d'" for k v
    by (rule dictionary_set_cases [OF d, of k v]) blast
  then show ?thesis using d by (auto simp: parse_header_line_def Let_def split: option.split)
qed

text \<open>At the end of the stream the buffer keeps the last line, and the loop goes on with it.\<close>

lemma hdr_loop_stuck:
  assumes "rio_ok rp" "calm c" "stream rp c = []" "cstr buf = Some l" "l \<noteq> crlf" "dict_ok d"
  shows "hdr_loop rp c buf d = None"
proof (rule ccontr)
  let ?P = "\<lambda>rp c buf d (y :: (string dictionary_t \<times> rio_t \<times> conn) option).
    \<not> (rio_ok rp \<and> calm c \<and> stream rp c = [] \<and> cstr buf = Some l \<and> dict_ok d)"
  assume "hdr_loop rp c buf d \<noteq> None"
  then obtain y where y: "hdr_loop rp c buf d = Some y" by auto
  have "?P rp c buf d y"
  proof (rule hdr_loop.raw_induct [where P = ?P, OF _ y])
    fix f rp c buf d y
    assume ih: "\<And>rp c buf d y. f rp c buf d = Some y \<Longrightarrow> ?P rp c buf d y"
      and body: "(case cstr buf of
         None \<Rightarrow> Some None
       | Some line \<Rightarrow>
           if line = crlf then Some (Some (d, rp, c))
           else (case read_line rp c buf of
               None \<Rightarrow> Some None
             | Some (n, buf', rp', c') \<Rightarrow>
                 (case do { line' \<leftarrow> cstr buf'; parse_header_line line' d } of
                    None \<Rightarrow> Some None
                  | Some (d', freed) \<Rightarrow> f rp' c' buf' d'))) = Some y"
    show "?P rp c buf d y"
    proof
      assume a: "rio_ok rp \<and> calm c \<and> stream rp c = [] \<and> cstr buf = Some l \<and> dict_ok d"
      obtain rp' c' where r: "read_line rp c buf = Some (0, buf, rp', c')" "rio_ok rp'" "calm c'" "stream rp' c' = []"
        using read_line_eof a by blast
      obtain d' fr where p: "parse_header_line l d = Some (d', fr)" "dict_ok d'" using parse_header_line_ok a by blast
      have "f rp' c' buf d' = Some y" using body a assms(5) r(1) p(1) by simp
      from ih [OF this] show False using a r p by blast
    qed
  qed
  then show False using assms by blast
qed

fun parse_all :: "string list \<Rightarrow> string dictionary_t \<Rightarrow> string dictionary_t option" where
  "parse_all [] d = Some d"
| "parse_all (l # ls) d = do { (d', freed) \<leftarrow> parse_header_line l d; parse_all ls d' }"

lemma parse_all_ok: "dict_ok d \<Longrightarrow> \<exists>d'. parse_all ls d = Some d' \<and> dict_ok d'"
proof (induction ls arbitrary: d)
  case (Cons l ls)
  then show ?case using parse_header_line_ok [of d l] by fastforce
qed simp

lemma crlf_eol: "crlf = eol [CHR 0x0D]"
  by (simp add: crlf_def eol_def)

lemma hdr_loop_next:
  assumes "rio_ok rp" "calm c" "length buf = MAXLINE" "cstr buf = Some l0" "l0 \<noteq> crlf" "dict_ok d"
    "stream rp c = eol l @ s" "CHR 0x0A \<notin> set l" "nul_free l" "length l + 2 \<le> MAXLINE"
  obtains buf' rp' c' d' where "hdr_loop rp c buf d = hdr_loop rp' c' buf' d'" "rio_ok rp'" "calm c'" "length buf' = MAXLINE"
    "cstr buf' = Some (eol l)" "stream rp' c' = s" "parse_all [eol l] d = Some d'" "dict_ok d'"
proof -
  obtain n buf' rp' c' where r: "read_line rp c buf = Some (n, buf', rp', c')" "cstr buf' = Some (eol l)" "length buf' = MAXLINE"
      "rio_ok rp'" "calm c'" "stream rp' c' = s"
    using read_line_eol [OF assms(1-3,7-10)] by metis
  obtain d' fr where p: "parse_header_line (eol l) d = Some (d', fr)" "dict_ok d'" using parse_header_line_ok assms(6) by blast
  have "hdr_loop rp c buf d = hdr_loop rp' c' buf' d'"
    using assms(4,5) r(1,2) p(1) by (simp add: hdr_loop.simps [of rp])
  then show thesis using that r p by simp
qed

lemma hdr_loop_lines:
  assumes "rio_ok rp" "calm c" "length buf = MAXLINE" "cstr buf = Some (eol l0)" "hdr_line l0" "dict_ok d"
    "stream rp c = concat (map eol ls) @ s" "\<forall>l\<in>set ls. hdr_line l"
  shows "\<exists>buf' rp' c' d' l'. hdr_loop rp c buf d = hdr_loop rp' c' buf' d' \<and> rio_ok rp' \<and> calm c' \<and> length buf' = MAXLINE \<and>
    cstr buf' = Some (eol l') \<and> hdr_line l' \<and> stream rp' c' = s \<and> parse_all (map eol ls) d = Some d' \<and> dict_ok d'"
  using assms
proof (induction ls arbitrary: rp c buf d l0)
  case Nil
  then show ?case by (intro exI [of _ buf] exI [of _ rp] exI [of _ c] exI [of _ d] exI [of _ l0]) simp
next
  case (Cons l ls)
  have ne: "eol l0 \<noteq> crlf" using Cons.prems(5) by (simp add: crlf_eol eol_def hdr_line_def)
  have l: "CHR 0x0A \<notin> set l" "nul_free l" "length l + 2 \<le> MAXLINE" using Cons.prems(8) by (auto simp: hdr_line_def)
  have s: "stream rp c = eol l @ concat (map eol ls) @ s" using Cons.prems(7) by simp
  obtain buf' rp' c' d' where n: "hdr_loop rp c buf d = hdr_loop rp' c' buf' d'" "rio_ok rp'" "calm c'" "length buf' = MAXLINE"
      "cstr buf' = Some (eol l)" "stream rp' c' = concat (map eol ls) @ s" "parse_all [eol l] d = Some d'" "dict_ok d'"
    by (rule hdr_loop_next [OF Cons.prems(1-4) ne Cons.prems(6) s l])
  have "parse_all (map eol (l # ls)) d = parse_all (map eol ls) d'" using n(7) by (auto simp: bind_eq_Some_conv)
  then show ?case unfolding n(1) using Cons.IH [OF n(2-5) _ n(8,6)] Cons.prems(8) by auto
qed

lemma read_requesthdrs_lines:
  assumes "rio_ok rp" "calm c" "stream rp c = eol l0 @ concat (map eol ls) @ s" "\<forall>l\<in>set (l0 # ls). hdr_line l"
  obtains buf' rp' c' d' l' where "read_requesthdrs rp c = hdr_loop rp' c' buf' d'" "rio_ok rp'" "calm c'" "length buf' = MAXLINE"
    "cstr buf' = Some (eol l')" "hdr_line l'" "stream rp' c' = s"
    "parse_all (map eol ls) (make_dictionary COMPARE_CASE_INSENS) = Some d'" "dict_ok d'"
proof -
  have l: "CHR 0x0A \<notin> set l0" "nul_free l0" "length l0 + 2 \<le> MAXLINE" "hdr_line l0" using assms(4) by (auto simp: hdr_line_def)
  have "length (malloc_buf MAXLINE) = MAXLINE" by (simp add: malloc_buf_def)
  from read_line_eol [OF assms(1,2) this assms(3) l(1-3)]
  obtain n buf rp1 c1 where r: "read_line rp c (malloc_buf MAXLINE) = Some (n, buf, rp1, c1)" "cstr buf = Some (eol l0)" "length buf = MAXLINE"
      "rio_ok rp1" "calm c1" "stream rp1 c1 = concat (map eol ls) @ s" by metis
  have "read_requesthdrs rp c = hdr_loop rp1 c1 buf (make_dictionary COMPARE_CASE_INSENS)"
    using r(1) by (simp add: read_requesthdrs_def)
  then show thesis
    using hdr_loop_lines [OF r(4,5,3,2) l(4) dict_ok_make r(6)] assms(4) that by fastforce
qed

lemma read_requesthdrs_done:
  assumes "rio_ok rp" "calm c" "stream rp c = eol l0 @ concat (map eol ls) @ crlf @ s" "\<forall>l\<in>set (l0 # ls). hdr_line l"
  obtains d rp' c' where "parse_all (map eol ls) (make_dictionary COMPARE_CASE_INSENS) = Some d"
    "read_requesthdrs rp c = Some (Some (d, rp', c'))" "rio_ok rp'" "calm c'" "stream rp' c' = s"
proof -
  obtain buf1 rp1 c1 d1 l1 where 1: "read_requesthdrs rp c = hdr_loop rp1 c1 buf1 d1" "rio_ok rp1" "calm c1" "length buf1 = MAXLINE"
      "cstr buf1 = Some (eol l1)" "hdr_line l1" "stream rp1 c1 = crlf @ s"
      "parse_all (map eol ls) (make_dictionary COMPARE_CASE_INSENS) = Some d1" "dict_ok d1"
    using read_requesthdrs_lines [OF assms] by metis
  have ne: "eol l1 \<noteq> crlf" using 1(6) by (simp add: crlf_eol eol_def hdr_line_def)
  have s: "stream rp1 c1 = eol [CHR 0x0D] @ s" using 1(7) by (simp add: crlf_eol)
  obtain buf2 rp2 c2 d2 where 2: "hdr_loop rp1 c1 buf1 d1 = hdr_loop rp2 c2 buf2 d2" "rio_ok rp2" "calm c2"
      "cstr buf2 = Some (eol [CHR 0x0D])" "stream rp2 c2 = s" "parse_all [eol [CHR 0x0D]] d1 = Some d2"
    by (rule hdr_loop_next [OF 1(2-5) ne 1(9) s]) (auto simp: NUL_def MAXLINE_def)
  have "d2 = d1" using 2(6) by (simp add: parse_header_line_def eol_def)
  moreover have "hdr_loop rp2 c2 buf2 d2 = Some (Some (d2, rp2, c2))"
    using 2(4) by (simp add: hdr_loop.simps [of rp2] crlf_eol)
  ultimately show thesis using that 1(1,8) 2 by simp
qed

section \<open>From the bytes of a request to its handler\<close>

definition request :: "conn \<Rightarrow> string \<Rightarrow> string list \<Rightarrow> string \<Rightarrow> bool" where
  "request c r ls rest \<longleftrightarrow> calm c \<and> (\<forall>l\<in>set (r # ls). hdr_line l) \<and> pending c = eol r @ concat (map eol ls) @ rest"

definition supported :: "string \<Rightarrow> string \<Rightarrow> bool" where
  "supported m v \<longleftrightarrow> (strcaseeq m ''GET'' \<or> strcaseeq m ''POST'') \<and> (strcaseeq v ''HTTP/1.0'' \<or> strcaseeq v ''HTTP/1.1'')"

lemma doit_requestline:
  assumes "length junk = RIO_BUFSIZE" "request c r ls rest" "parse_request_line (eol r) = Some (m, uri, v)" "supported m v"
  obtains rp c' where "rio_ok rp" "calm c'" "stream rp c' = concat (map eol ls) @ rest"
    "doit dial junk c = (case read_requesthdrs rp c' of None \<Rightarrow> Diverge | Some r \<Rightarrow>
        orbad r (\<lambda>(headers, rio, c).
        orbad (parse_uriquery uri (make_dictionary COMPARE_CASE_SENS)) (\<lambda>(query, _).
        if strcaseeq m ''POST'' then orbad (read_postquery rio c headers query) post_chat
        else orbad (parse_uriquery uri query) (\<lambda>(query, _). get_chat dial junk uri query))))"
proof -
  have s: "stream (rio_readinitb junk) c = eol r @ concat (map eol ls) @ rest" and c: "calm c"
    and l: "CHR 0x0A \<notin> set r" "nul_free r" "length r + 2 \<le> MAXLINE"
    using assms(2) by (auto simp: request_def hdr_line_def)
  have "length (malloc_buf MAXLINE) = MAXLINE" by (simp add: malloc_buf_def)
  from read_line_eol [OF rio_ok_init [OF assms(1)] c this s l]
  obtain n buf rp c' where 1: "read_line (rio_readinitb junk) c (malloc_buf MAXLINE) = Some (n, buf, rp, c')" "cstr buf = Some (eol r)"
      "rio_ok rp" "calm c'" "stream rp c' = concat (map eol ls) @ rest" "n = int (length r + 1)"
    by metis
  show thesis
  proof (rule that [OF 1(3-5)])
    show "doit dial junk c = (case read_requesthdrs rp c' of None \<Rightarrow> Diverge | Some r \<Rightarrow>
        orbad r (\<lambda>(headers, rio, c).
        orbad (parse_uriquery uri (make_dictionary COMPARE_CASE_SENS)) (\<lambda>(query, _).
        if strcaseeq m ''POST'' then orbad (read_postquery rio c headers query) post_chat
        else orbad (parse_uriquery uri query) (\<lambda>(query, _). get_chat dial junk uri query))))"
      using 1(1,2,6) assms(3,4) by (auto simp: doit_def orbad_def supported_def)
  qed
qed

lemma doit_bad_request:
  assumes "length junk = RIO_BUFSIZE" "request c r ls rest" "parse_request_line (eol r) = None"
  shows "doit dial junk c = Bad"
proof -
  have s: "stream (rio_readinitb junk) c = eol r @ concat (map eol ls) @ rest" and c: "calm c"
    and l: "CHR 0x0A \<notin> set r" "nul_free r" "length r + 2 \<le> MAXLINE"
    using assms(2) by (auto simp: request_def hdr_line_def)
  have "length (malloc_buf MAXLINE) = MAXLINE" by (simp add: malloc_buf_def)
  from read_line_eol [OF rio_ok_init [OF assms(1)] c this s l]
  obtain n buf rp c' where "read_line (rio_readinitb junk) c (malloc_buf MAXLINE) = Some (n, buf, rp, c')" "cstr buf = Some (eol r)"
      "n = int (length r + 1)" by metis
  then show ?thesis using assms(3) by (simp add: doit_def orbad_def)
qed

lemma doit_get:
  assumes "length junk = RIO_BUFSIZE" "request c r (l0 # ls) (crlf @ rest)" "parse_request_line (eol r) = Some (''GET'', uri, v)"
    "supported ''GET'' v" "parse_uriquery uri (make_dictionary COMPARE_CASE_SENS) = Some (q1, fr1)" "parse_uriquery uri q1 = Some (q, fr)"
  shows "doit dial junk c = get_chat dial junk uri q"
proof -
  have hl: "\<forall>l\<in>set (l0 # ls). hdr_line l" using assms(2) by (simp add: request_def)
  obtain rp c' where 1: "rio_ok rp" "calm c'" "stream rp c' = concat (map eol (l0 # ls)) @ crlf @ rest"
    "doit dial junk c = (case read_requesthdrs rp c' of None \<Rightarrow> Diverge | Some r \<Rightarrow>
        orbad r (\<lambda>(headers, rio, c).
        orbad (parse_uriquery uri (make_dictionary COMPARE_CASE_SENS)) (\<lambda>(query, _).
        if strcaseeq ''GET'' ''POST'' then orbad (read_postquery rio c headers query) post_chat
        else orbad (parse_uriquery uri query) (\<lambda>(query, _). get_chat dial junk uri query))))"
    by (rule doit_requestline [OF assms(1-4)])
  have "stream rp c' = eol l0 @ concat (map eol ls) @ crlf @ rest" using 1(3) by simp
  then obtain d rp2 c2 where 2: "read_requesthdrs rp c' = Some (Some (d, rp2, c2))"
    using read_requesthdrs_done [OF 1(1,2) _ hl] by metis
  have "\<not> strcaseeq ''GET'' ''POST''" by code_simp
  then show ?thesis unfolding 1(4) 2 using assms(5,6) by (simp add: orbad_def)
qed

section \<open>The properties\<close>

text \<open>C35. Whatever connections the server accepts and however their handlers are interleaved, a topic never
  disappears once it is there, and every topic is bound to a string that has been allocated and not
  freed.\<close>

theorem conversations_live:
  assumes "step\<^sup>*\<^sup>* (serve dial junk accepted) (s, ts)" "step\<^sup>*\<^sup>* (s, ts) (s', ts')"
  shows "dom (dict_map (conv s)) \<subseteq> dom (dict_map (conv s')) \<and> (\<forall>t p. dict_map (conv s') t = Some p \<longrightarrow> store s' p \<noteq> None)"
proof -
  obtain own where "server_ok s" "pool_ok s ts own"
    using steps_ok [OF assms(1) serve_ok] by auto
  then have "server_ok s'" "topics s \<subseteq> topics s'"
    using steps_ok [OF assms(2)] by auto
  then show ?thesis by (auto simp: topics_def server_ok_def dest!: dict_map_held)
qed

text \<open>C36. A request \<open>/say\<close>, read from its connection and run without interference, appends one line to the
  conversation of its topic (or starts it) and changes no other conversation.\<close>

theorem say_appends:
  assumes "length junk = RIO_BUFSIZE" "request c r (l0 # ls) (crlf @ rest)" "parse_request_line (eol r) = Some (''GET'', uri, v)"
    "supported ''GET'' v" "parse_uriquery uri (make_dictionary COMPARE_CASE_SENS) = Some (q1, fr1)" "parse_uriquery uri q1 = Some (q, fr)"
    "starts_with ''/say'' uri" "say_query q t u m" "server_ok s" "texts_ok s"
  shows "\<exists>s' out. run_alone 7 s (doit dial junk c) = Some (s', out) \<and>
    conversation s' t = Some ((case conversation s t of None \<Rightarrow> '''' | Some old \<Rightarrow> old @ crlf) @ u @ '': '' @ m) \<and>
    (\<forall>t'. t' \<noteq> t \<longrightarrow> conversation s' t' = conversation s t')"
proof -
  obtain s' out where "run_alone 7 s (get_chat dial junk uri q) = Some (s', out)"
    "conversation s' t = Some (said (conversation s t) u m)" "\<And>t'. t' \<noteq> t \<Longrightarrow> conversation s' t' = conversation s t'"
    using say_runs [OF assms(9,10,7,8)] by metis
  then show ?thesis unfolding doit_get [OF assms(1-6)] by (auto simp: said_def)
qed

definition sample_line :: string where
  "sample_line = ''GET /say?topic=t&user=ann&content=hi HTTP/1.1'' @ [CHR 0x0D]"

definition sample_uri :: string where
  "sample_uri = ''/say?topic=t&user=ann&content=hi''"

definition sample_request :: conn where
  "sample_request = \<lparr>pending = eol sample_line @ eol (''Host: a'' @ [CHR 0x0D]) @ crlf, sched = [Chunk 3, Interrupted], sent = ''''\<rparr>"

definition sample_query :: "string dictionary_t" where
  "sample_query = fst (the (parse_uriquery sample_uri (fst (the (parse_uriquery sample_uri (make_dictionary COMPARE_CASE_SENS))))))"

lemma sample_facts:
  "supported ''GET'' ''HTTP/1.1''"
  "starts_with ''/say'' sample_uri"
  "say_query sample_query ''t'' ''ann'' ''hi''"
  by code_simp+

lemma sample_parse: "parse_request_line (eol sample_line) = Some (''GET'', sample_uri, ''HTTP/1.1'')"
  by (simp add: parse_request_line_def parse_three_def Let_def eol_def sample_line_def sample_uri_def sz_sub_exact)

lemma sample_request_ok: "request sample_request sample_line [''Host: a'' @ [CHR 0x0D]] (crlf @ [])"
  by (auto simp: request_def sample_request_def sample_line_def calm_def hdr_line_def MAXLINE_def NUL_def)

lemma sample_uri_query:
  "\<exists>q1 fr1 fr. parse_uriquery sample_uri (make_dictionary COMPARE_CASE_SENS) = Some (q1, fr1) \<and> parse_uriquery sample_uri q1 = Some (sample_query, fr)"
proof -
  have 1: "parse_uriquery sample_uri (make_dictionary COMPARE_CASE_SENS) \<noteq> None" by code_simp
  have 2: "parse_uriquery sample_uri (fst (the (parse_uriquery sample_uri (make_dictionary COMPARE_CASE_SENS)))) \<noteq> None" by code_simp
  show ?thesis using 1 2 by (fastforce simp: sample_query_def)
qed

lemma server0_ok: "server_ok server0" "texts_ok server0"
  by (auto simp: server_ok_def server0_def texts_ok_def)

theorem say_appends_witness:
  "\<exists>s' out. run_alone 7 server0 (doit (\<lambda>_ _. None) (replicate 8192 NUL) sample_request) = Some (s', out) \<and>
    conversation s' ''t'' = Some ''ann: hi''"
proof -
  obtain q1 fr1 fr where q: "parse_uriquery sample_uri (make_dictionary COMPARE_CASE_SENS) = Some (q1, fr1)"
      "parse_uriquery sample_uri q1 = Some (sample_query, fr)"
    using sample_uri_query by blast
  have "length (replicate 8192 NUL) = RIO_BUFSIZE" by (simp add: RIO_BUFSIZE_def)
  from say_appends [OF this sample_request_ok sample_parse sample_facts(1) q sample_facts(2,3) server0_ok, where dial = "\<lambda>_ _. None"]
  obtain s' out where "run_alone 7 server0 (doit (\<lambda>_ _. None) (replicate 8192 NUL) sample_request) = Some (s', out)"
      "conversation s' ''t'' = Some ((case conversation server0 ''t'' of None \<Rightarrow> '''' | Some old \<Rightarrow> old @ crlf) @ ''ann'' @ '': '' @ ''hi'')"
    by blast
  moreover have "conversation server0 ''t'' = None" by (simp add: conversation_def server0_def)
  ultimately show ?thesis by auto
qed

theorem conversations_live_witness:
  "\<exists>s' ts'. step\<^sup>*\<^sup>* (serve (\<lambda>_ _. None) (replicate 8192 NUL) [None, Some sample_request]) (s', ts') \<and>
    (\<exists>p. dict_map (conv s') ''t'' = Some p \<and> store s' p \<noteq> None)"
proof -
  let ?dial = "\<lambda>_ _. None" and ?junk = "replicate 8192 NUL"
  obtain q1 fr1 fr where q: "parse_uriquery sample_uri (make_dictionary COMPARE_CASE_SENS) = Some (q1, fr1)"
      "parse_uriquery sample_uri q1 = Some (sample_query, fr)"
    using sample_uri_query by blast
  have "length ?junk = RIO_BUFSIZE" by (simp add: RIO_BUFSIZE_def)
  note doit = doit_get [OF this sample_request_ok sample_parse sample_facts(1) q, of ?dial]
  obtain s' out where r: "run_alone 7 server0 (get_chat ?dial ?junk sample_uri sample_query) = Some (s', out)"
      "conversation s' ''t'' = Some (said (conversation server0 ''t'') ''ann'' ''hi'')"
    using say_runs [OF server0_ok sample_facts(2,3)] by metis
  have srv: "serve ?dial ?junk [None, Some sample_request] = (server0, [(get_chat ?dial ?junk sample_uri sample_query, '''')])"
    using doit by (simp add: serve_def List.map_filter_simps)
  have run: "step\<^sup>*\<^sup>* (serve ?dial ?junk [None, Some sample_request]) (s', [(Stop, out)])"
    using alone_head [OF r(1), of "''''" "[]"] unfolding srv by simp
  obtain p where "dict_map (conv s') ''t'' = Some p" using r(2) by (auto simp: conversation_def bind_eq_Some_conv)
  then show ?thesis using conversations_live [OF run rtranclp.rtrancl_refl] run by blast
qed

text \<open>For a complete list of header lines the reader returns the dictionary of all lines but the first,
  which it reads and never parses, and leaves the body of the request in the stream.\<close>

lemma headers_drop_first:
  assumes "rio_ok rp" "calm c" "stream rp c = eol l0 @ concat (map eol ls) @ crlf @ body" "\<forall>l\<in>set (l0 # ls). hdr_line l"
  shows "\<exists>d rp' c'. read_requesthdrs rp c = Some (Some (d, rp', c')) \<and>
    parse_all (map eol ls) (make_dictionary COMPARE_CASE_INSENS) = Some d \<and> stream rp' c' = body"
  using read_requesthdrs_done [OF assms] by metis

definition sample_headers :: "string list" where
  "sample_headers = [''Content-Length: 3'' @ [CHR 0x0D], ''Accept: text'' @ [CHR 0x0D]]"

lemma sample_parsed:
  "map_option (\<lambda>d. (dictionary_get d (Some ''content-length''), dictionary_get d (Some ''accept'')))
    (parse_all (map eol (tl sample_headers)) (make_dictionary COMPARE_CASE_INSENS)) = Some (Some None, Some (Some ''text''))"
  by code_simp

text \<open>C39. When the client closes the connection after some header lines, without the empty line, the handler
  never returns: at the end of the stream the buffer keeps the last line and the loop goes on.\<close>

theorem doit_hangs:
  assumes "length junk = RIO_BUFSIZE" "request c r (l0 # ls) []" "parse_request_line (eol r) = Some (m, uri, v)" "supported m v"
  shows "doit dial junk c = Diverge"
proof -
  have hl: "\<forall>l\<in>set (l0 # ls). hdr_line l" using assms(2) by (simp add: request_def)
  obtain rp c' where 1: "rio_ok rp" "calm c'" "stream rp c' = concat (map eol (l0 # ls)) @ []"
    "doit dial junk c = (case read_requesthdrs rp c' of None \<Rightarrow> Diverge | Some r \<Rightarrow>
        orbad r (\<lambda>(headers, rio, c).
        orbad (parse_uriquery uri (make_dictionary COMPARE_CASE_SENS)) (\<lambda>(query, _).
        if strcaseeq m ''POST'' then orbad (read_postquery rio c headers query) post_chat
        else orbad (parse_uriquery uri query) (\<lambda>(query, _). get_chat dial junk uri query))))"
    by (rule doit_requestline [OF assms])
  have s: "stream rp c' = eol l0 @ concat (map eol ls) @ []" using 1(3) by simp
  obtain buf2 rp2 c2 d2 l2 where 2: "read_requesthdrs rp c' = hdr_loop rp2 c2 buf2 d2" "rio_ok rp2" "calm c2"
      "cstr buf2 = Some (eol l2)" "hdr_line l2" "stream rp2 c2 = []" "dict_ok d2"
    by (rule read_requesthdrs_lines [OF 1(1,2) s hl]) (rule that)
  have "eol l2 \<noteq> crlf" using 2(5) by (simp add: crlf_eol eol_def hdr_line_def)
  then show ?thesis unfolding 1(4) 2(1) using hdr_loop_stuck [OF 2(2,3,6,4) _ 2(7)] by simp
qed

theorem doit_hangs_witness:
  "doit (\<lambda>_ _. None) (replicate 8192 NUL)
    \<lparr>pending = eol sample_line @ eol (''Host: a'' @ [CHR 0x0D]), sched = [Chunk 3, Interrupted], sent = ''''\<rparr> = Diverge"
proof -
  have 1: "length (replicate 8192 NUL) = RIO_BUFSIZE" by (simp add: RIO_BUFSIZE_def)
  have "request \<lparr>pending = eol sample_line @ eol (''Host: a'' @ [CHR 0x0D]), sched = [Chunk 3, Interrupted], sent = ''''\<rparr>
      sample_line [''Host: a'' @ [CHR 0x0D]] []"
    by (auto simp: request_def sample_line_def calm_def hdr_line_def MAXLINE_def NUL_def)
  then show ?thesis by (rule doit_hangs [OF 1 _ sample_parse sample_facts(1)])
qed

text \<open>C40. Two \<open>/say\<close> requests for the same topic at the same time: there is a schedule in which both handlers
  end normally and one of the messages is lost, and one in which a handler is about to read a
  conversation that the other has freed.\<close>

theorem say_races:
  assumes "server_ok s" "texts_ok s" "conversation s t = Some old" "starts_with ''/say'' uri" "say_query q1 t u1 m1" "say_query q2 t u2 m2"
  shows "(\<exists>s' o1 o2. step\<^sup>*\<^sup>* (s, [(get_chat dial junk uri q1, ''''), (get_chat dial junk uri q2, '''')]) (s', [(Stop, o1), (Stop, o2)]) \<and>
      conversation s' t = Some (old @ crlf @ u1 @ '': '' @ m1)) \<and>
    (\<exists>s' p f o2. step\<^sup>*\<^sup>* (s, [(get_chat dial junk uri q1, ''''), (get_chat dial junk uri q2, '''')]) (s', [(Load p f, ''''), (Stop, o2)]) \<and>
      store s' p = None)"
  using say_lost_update [OF assms, of dial junk] say_use_after_free [OF assms, of dial junk] by (simp add: said_def)

definition sample_server :: server where
  "sample_server = \<lparr>conv = fst (the (dictionary_set (make_dictionary COMPARE_CASE_SENS) (Some ''t'') 0)), store = [0 \<mapsto> ''bob: hello''], fresh = 1\<rparr>"

lemma sample_conv: "conv sample_server = \<lparr>compare_mode = 0, dcount = 1, alloc = 2, keys = [Some ''t'', None], vals = [Some 0, None]\<rparr>"
  by code_simp

lemma sample_server_ok: "server_ok sample_server" "texts_ok sample_server" "conversation sample_server ''t'' = Some ''bob: hello''"
proof -
  have st: "store sample_server = [0 \<mapsto> ''bob: hello'']" "fresh sample_server = 1" by (simp_all add: sample_server_def)
  show "server_ok sample_server"
    by (simp add: server_ok_def sample_conv st dict_ok_def key_list_def val_list_def held_def COMPARE_CASE_SENS_def canon_def)
  show "texts_ok sample_server" by (auto simp: texts_ok_def st NUL_def split: if_splits)
  show "conversation sample_server ''t'' = Some ''bob: hello''"
    by (simp add: conversation_def sample_conv st dict_map_def key_list_def val_list_def canon_def COMPARE_CASE_INSENS_def)
qed

theorem say_races_witness:
  "\<exists>s' o1 o2. step\<^sup>*\<^sup>* (sample_server, [(get_chat (\<lambda>_ _. None) '''' sample_uri sample_query, ''''), (get_chat (\<lambda>_ _. None) '''' sample_uri sample_query, '''')])
      (s', [(Stop, o1), (Stop, o2)]) \<and>
    conversation s' ''t'' = Some (''bob: hello'' @ crlf @ ''ann: hi'')"
  using say_races [OF sample_server_ok sample_facts(2,3,3), of "\<lambda>_ _. None" "''''"] by simp

end
