(* ===== verification/Locked.thy ===== *)
theory Locked
  imports Tinychat Semaphore
begin

text \<open>
  The chat server with its lock spelled out. In \<open>Tinychat\<close> an access to the shared dictionary is one step. Here it
  is what the code does: \<open>P(&sem_lock)\<close>, with the semaphore of \<open>csapp.c\<close>; then the dictionary is read, and
  later written back from what was read; then \<open>V(&sem_lock)\<close>. Other threads run in between. Without the lock a write
  would undo what they changed.
\<close>

section \<open>The server with its lock\<close>

text \<open>Where a thread is between \<open>P\<close> and \<open>V\<close>: \<open>Seen d\<close> has read the dictionary \<open>d\<close>.\<close>

datatype access = Fresh | Seen "nat dictionary_t" | Done

fun shared :: "act \<Rightarrow> bool" where
  "shared (Get k f) = True"
| "shared (Put k p a) = True"
| "shared _ = False"

type_synonym locked = "sem \<times> server \<times> (act \<times> string) list \<times> (nat \<Rightarrow> access)"

inductive locked_step :: "locked \<Rightarrow> locked \<Rightarrow> bool" where
  l_inner: "goes_on k k' \<Longrightarrow> locked_step (k, s, ts, ph) (k', s, ts, ph)"
| l_spurious: "at_pc k i PWait \<Longrightarrow> locked_step (k, s, ts, ph) (goto k i PWake, s, ts, ph)"
| l_enter: "at_pc k i Out \<Longrightarrow> i < length ts \<Longrightarrow> shared (fst (ts ! i)) \<Longrightarrow>
    locked_step (k, s, ts, ph) (goto k i PLock, s, ts, ph(i := Fresh))"
| l_read: "at_pc k i In \<Longrightarrow> ph i = Fresh \<Longrightarrow> locked_step (k, s, ts, ph) (k, s, ts, ph(i := Seen (conv s)))"
| l_write: "at_pc k i In \<Longrightarrow> ph i = Seen d \<Longrightarrow> i < length ts \<Longrightarrow> ts ! i = (a, out) \<Longrightarrow>
    exec (s\<lparr>conv := d\<rparr>) a = Some (s', t, a') \<Longrightarrow>
    locked_step (k, s, ts, ph) (k, s', ts[i := (a', out @ t)], ph(i := Done))"
| l_leave: "at_pc k i In \<Longrightarrow> ph i = Done \<Longrightarrow> locked_step (k, s, ts, ph) (goto k i VLock, s, ts, ph)"
| l_local: "at_pc k i Out \<Longrightarrow> i < length ts \<Longrightarrow> ts ! i = (a, out) \<Longrightarrow> \<not> shared a \<Longrightarrow> exec s a = Some (s', t, a') \<Longrightarrow>
    locked_step (k, s, ts, ph) (k, s', ts[i := (a', out @ t)], ph)"

section \<open>The lock makes accesses atomic\<close>

lemma P_step_In: "P_step j k k' \<Longrightarrow> at_pc k i In \<Longrightarrow> at_pc k' i In"
  by (induction rule: P_step.induct) (auto simp: at_pc_def nth_list_update)

lemma V_step_In: "V_step j k k' \<Longrightarrow> at_pc k i In \<Longrightarrow> at_pc k' i In"
  by (induction rule: V_step.induct) (auto simp: at_pc_def nth_list_update)

lemma goes_on_In: "goes_on k k' \<Longrightarrow> at_pc k i In \<Longrightarrow> at_pc k' i In"
  by (auto simp: goes_on_def intro: P_step_In V_step_In)

lemma goto_In: "at_pc k i In \<Longrightarrow> at_pc k j p \<Longrightarrow> p \<noteq> In \<Longrightarrow> at_pc (goto k j q) i In"
  by (auto simp: at_pc_def nth_list_update)

lemma exec_local: "exec s a = Some (s', t, a') \<Longrightarrow> \<not> shared a \<Longrightarrow> conv s' = conv s"
  by (cases a) (auto simp: bind_eq_Some_conv)

text \<open>A thread that has read the dictionary is between \<open>P\<close> and \<open>V\<close>, and what it has read is still true.\<close>

definition seen_ok :: "locked \<Rightarrow> bool" where
  "seen_ok = (\<lambda>(k, s, ts, ph). \<forall>i d. ph i = Seen d \<longrightarrow> at_pc k i In \<and> d = conv s)"


lemma locked_step_ok:
  assumes "locked_step (k, s, ts, ph) (k', s', ts', ph')" "sem_run 1 n k" "seen_ok (k, s, ts, ph)"
  shows "sem_run 1 n k' \<and> seen_ok (k', s', ts', ph') \<and> step\<^sup>*\<^sup>* (s, ts) (s', ts')"
  using assms
proof (cases rule: locked_step.cases)
  case l_inner
  then show ?thesis using assms(2,3) by (auto simp: seen_ok_def intro: inner sem_run.step goes_on_In)
next
  case (l_spurious i)
  then show ?thesis using assms(2,3) by (auto simp: seen_ok_def intro: spurious sem_run.step goto_In)
next
  case (l_enter i)
  then show ?thesis using assms(2,3) by (auto simp: seen_ok_def intro: P_call sem_run.step goto_In)
next
  case (l_read i)
  then show ?thesis using assms(2,3) by (auto simp: seen_ok_def)
next
  case (l_write i d a out t a')
  then have d: "d = conv s" using assms(3) by (auto simp: seen_ok_def)
  have "ph j \<noteq> Seen d'" if "j \<noteq> i" for j d'
    using that assms(3) at_most_one [OF assms(2) \<open>at_pc k i In\<close>, of j] by (auto simp: seen_ok_def)
  then show ?thesis using l_write assms(2) thread [of i ts a out s s' t a'] d by (auto simp: seen_ok_def)
next
  case (l_leave i)
  then have "ph j \<noteq> Seen d" for j d
    using assms(3) at_most_one [OF assms(2) \<open>at_pc k i In\<close>, of j] \<open>ph i = Done\<close> by (fastforce simp: seen_ok_def)
  then show ?thesis using l_leave assms(2) by (auto simp: seen_ok_def intro: V_call sem_run.step)
next
  case (l_local i a out t a')
  then have "conv s' = conv s" by (auto dest: exec_local)
  then show ?thesis using l_local assms(2,3) thread [of i ts a out s s' t a'] by (auto simp: seen_ok_def)
qed


lemma locked_run:
  assumes "locked_step\<^sup>*\<^sup>* x y" "sem_run 1 n (fst x)" "seen_ok x"
  shows "sem_run 1 n (fst y) \<and> seen_ok y \<and> step\<^sup>*\<^sup>* (fst (snd x), fst (snd (snd x))) (fst (snd y), fst (snd (snd y)))"
  using assms
proof (induction rule: rtranclp_induct)
  case (step y z)
  obtain k s ts ph k' s' ts' ph' where "y = (k, s, ts, ph)" "z = (k', s', ts', ph')" by (metis surj_pair)
  then show ?case using step locked_step_ok [of k s ts ph k' s' ts' ph' n] by (auto intro: rtranclp_trans)
qed simp

text \<open>C13. 
  What the server with its lock does, from the moment \<open>main\<close> has initialised the semaphore, the server of \<open>Tinychat\<close>
  does whose accesses to the dictionary are single steps: no access is seen half done and none is lost.
\<close>
theorem lock_atomic:
  assumes "Sem_init ex 0 0 1 n = Inr k" "locked_step\<^sup>*\<^sup>* (k, s, ts, \<lambda>_. Done) (k', s', ts', ph')"
  shows "step\<^sup>*\<^sup>* (s, ts) (s', ts')"
  using locked_run [OF assms(2), of n] sem_run.start [OF assms(1)] by (simp add: seen_ok_def)

text \<open>One thread that enters a topic, up to the moment before it calls \<open>V\<close>.\<close>

theorem lock_atomic_witness:
  "\<exists>s'. step\<^sup>*\<^sup>* (server0, [(Put (Some ''t'') 0 Stop, '''')]) (s', [(Stop, '''')]) \<and>
    dictionary_get (conv s') (Some ''t'') = Some (Some 0)"
proof -
  let ?k = "\<lambda>r w p. \<lparr>ready = r, owner = w, pcs = [p]\<rparr>" and ?ts = "[(Put (Some ''t'') 0 Stop, '''')]"
  let ?ph = "\<lambda>x. (\<lambda>_ :: nat. Done)(0 := x)"
  have "dictionary_set (conv server0) (Some ''t'') 0 \<noteq> None" by code_simp
  moreover have "dictionary_get (fst (the (dictionary_set (conv server0) (Some ''t'') 0))) (Some ''t'') = Some (Some 0)" by code_simp
  ultimately obtain d fr where d: "dictionary_set (conv server0) (Some ''t'') 0 = Some (d, fr)"
      "dictionary_get d (Some ''t'') = Some (Some 0)"
    by auto
  define s' where "s' = server0\<lparr>conv := d, store := frees fr (store server0)\<rparr>"
  have init: "Sem_init True 0 0 1 1 = Inr (?k 1 None Out)" by (simp add: Sem_init_def wrapped_def)
  have P: "locked_step\<^sup>*\<^sup>* x (k', s, ts, ph)" if "locked_step\<^sup>*\<^sup>* x (k, s, ts, ph)" "P_step 0 k k'" for x k k' s ts ph
    using that by (meson goes_on_def l_inner rtranclp.rtrancl_into_rtrancl)
  have "locked_step\<^sup>*\<^sup>* (?k 1 None Out, server0, ?ts, \<lambda>_. Done) (?k 1 None PLock, server0, ?ts, ?ph Fresh)"
    using l_enter [of "?k 1 None Out" 0 ?ts server0 "\<lambda>_. Done"] by (simp add: at_pc_def r_into_rtranclp)
  then have "locked_step\<^sup>*\<^sup>* (?k 1 None Out, server0, ?ts, \<lambda>_. Done) (?k 1 (Some 0) PTest, server0, ?ts, ?ph Fresh)"
    by (rule P) (use P_lock [of "?k 1 None PLock" 0] in \<open>simp add: at_pc_def\<close>)
  then have "locked_step\<^sup>*\<^sup>* (?k 1 None Out, server0, ?ts, \<lambda>_. Done) (?k 1 (Some 0) PDec, server0, ?ts, ?ph Fresh)"
    by (rule P) (use P_pass [of "?k 1 (Some 0) PTest" 0] in \<open>simp add: at_pc_def\<close>)
  then have "locked_step\<^sup>*\<^sup>* (?k 1 None Out, server0, ?ts, \<lambda>_. Done) (?k 0 (Some 0) PUnlock, server0, ?ts, ?ph Fresh)"
    by (rule P) (use P_dec [of "?k 1 (Some 0) PDec" 0] in \<open>simp add: at_pc_def\<close>)
  then have "locked_step\<^sup>*\<^sup>* (?k 1 None Out, server0, ?ts, \<lambda>_. Done) (?k 0 None In, server0, ?ts, ?ph Fresh)"
    by (rule P) (use P_unlock [of "?k 0 (Some 0) PUnlock" 0] in \<open>simp add: at_pc_def\<close>)
  moreover have "locked_step (?k 0 None In, server0, ?ts, ?ph Fresh) (?k 0 None In, server0, ?ts, ?ph (Seen (conv server0)))"
    using l_read [of "?k 0 None In" 0 "?ph Fresh" server0 ?ts] by (simp add: at_pc_def)
  moreover have "locked_step (?k 0 None In, server0, ?ts, ?ph (Seen (conv server0))) (?k 0 None In, s', [(Stop, '''')], ?ph Done)"
    using l_write [of "?k 0 None In" 0 "?ph (Seen (conv server0))" "conv server0" ?ts "Put (Some ''t'') 0 Stop" "''''" server0 s' "''''" Stop]
      d(1) by (simp add: at_pc_def s'_def)
  ultimately have "locked_step\<^sup>*\<^sup>* (?k 1 None Out, server0, ?ts, \<lambda>_. Done) (?k 0 None In, s', [(Stop, '''')], ?ph Done)"
    by (meson rtranclp.rtrancl_into_rtrancl)
  from lock_atomic [OF init this] show ?thesis using d(2) by (intro exI [of _ s']) (simp add: s'_def)
qed

end
