(* ===== verification/Spec2Isabelle.thy ===== *)
theory Spec2Isabelle
  imports C_Prelude Semaphore Timing Shell_Csapp Bomb Dictionary More_String Kernels Perf_Main Parse_Script MM_Free Mdriver_Util Whoosh Matchlab Inspect Csapp Tinychat Locked
begin

text \<open>
  A verification development for the programs of a systems course (CS 4400, Fall 2016). The
  repository holds independent C programs, one directory each; the development has a group of
  theories for each program and this theory imports them all.

  \<^bold>\<open>Conventions.\<close> A definition has the name of the C function or type it translates. Undefined
  behaviour - an access outside an object, a byte read before it is written, a use of \<open>NULL\<close>, signed
  overflow, a failed assertion - is \<open>None\<close>. Where the program ends by an error or \<open>exit\<close>, the result is a
  sum: \<open>Inl\<close> the message or the status, \<open>Inr\<close> the result. A loop whose end is not evident is a
  \<open>function\<close> with a termination proof; the loops that need not end (\<open>find_fit\<close>, \<open>hdr_loop\<close>, \<open>callib_loop\<close>) are
  partial functions, and what they return, or that they do not return, is proved. Machine integers
  are \<open>int\<close> or \<open>nat\<close> with the wrap-around written out (\<open>to_int\<close>, \<open>to_size\<close>, \<open>sz_sub\<close>) or words where the
  program works on bits. Strings are lists of characters without the terminator; a buffer whose bytes
  may be unwritten is a list of options (\<open>C_Prelude.cbuf\<close>). Steps that may be undefined or may end the
  program are chained by \<open>C_Prelude.andthen\<close>. \<open>malloc\<close> and \<open>calloc\<close> of small objects
  succeed. System calls, files, clocks and peers are parameters.

  \<^bold>\<open>Theories.\<close>

  \<^item> \<open>C_Prelude\<close>: buffers, character classes, string functions and decimal numbers of the C library.

  \<^item> Malloc lab. \<open>Pagemap\<close> (pagemap.c: the three-level page table and its list, over the list lemmas of
    \<open>DList\<close>; the locale \<open>page_table\<close> is its interface), \<open>Memlib\<close> (memlib.c over a parameter \<open>mmap\<close>),
    \<open>MM\<close> (mm.c: boundary tags, free list, first fit, coalescing, over a memory of 4 byte cells),
    \<open>Free_List\<close> and \<open>Heap_Layout\<close> (the invariant: tags, free list and page table agree, segments of a row
    of blocks can be replaced), \<open>MM_Alloc\<close>, \<open>MM_Free\<close> (the operations keep it), \<open>Allocator\<close> (the locale
    \<open>allocator\<close>, what clients rely on; interpreted on mm.c in \<open>MM_Free\<close>), \<open>MM_Pages\<close> (use of the
    counters, payloads lie on mapped pages), \<open>Mdriver\<close> (mdriver.c: range list, trace files, the
    evaluation routines and \<open>main\<close>), \<open>Mdriver_Valid\<close> and \<open>Mdriver_Util\<close> (the driver on mm.c), \<open>Clock\<close> (clock.c: the
    cycle counter over the readings of the time stamp counter, and its calibration), \<open>Timing\<close> (fcyc.c of
    this lab: the K-best scheme of \<open>Fcyc\<close> run on the counters of \<open>Clock\<close>, and the branch of fsecs.c that uses it).

  \<^item> Server lab. \<open>Dictionary\<close> (dictionary.c), \<open>More_String\<close> (more_string.c), \<open>Csapp\<close> (the rio and sio
    packages of csapp.c), \<open>Wrappers\<close> (its wrappers of system functions, over the function they wrap), \<open>Net\<close>
    (\<open>open_clientfd\<close> and \<open>open_listenfd\<close>, with the table of open descriptors), \<open>Semaphore\<close> (the semaphore it makes
    of a mutex and a condition variable: \<open>P_step\<close> and \<open>V_step\<close> are the steps of a thread inside \<open>P\<close> and \<open>V\<close>,
    \<open>asem\<close> is the counting semaphore they implement), \<open>Tinychat\<close> (tinychat.c; handlers are actions over
    the shared dictionary and the heap of conversations, threads interleave in the step relation \<open>step\<close>; its \<open>main\<close>
    opens the port with \<open>Net\<close>), \<open>Locked\<close> (the same server with its lock spelled out: a dictionary is read and
    written back between the \<open>P\<close> and \<open>V\<close> of \<open>Semaphore\<close>; its runs are runs of \<open>step\<close>).

  \<^item> Shell lab. \<open>Parse_Script\<close> (parse.c and ast.h), \<open>Whoosh\<close> (whoosh.c: a process is a copy of the shell's
    state, the system and the programs are the parameter \<open>os\<close>),
    \<open>Shell_Csapp\<close> (the wrappers of this lab's copy of csapp.c, which agree with those of the server lab as
    long as errors end the process).

  \<^item> Performance lab. \<open>Kernels\<close> (kernels.c), \<open>Perf_Driver\<close> (the images and the checks of driver.c), \<open>Fcyc\<close>
    (fcyc.c over the readings of a counter), \<open>Perf_Main\<close> (the rest of driver.c).

  \<^item> \<open>Matchlab\<close> (matchlab.c), \<open>Inspect\<close> (Linkinglab/inspect.c over the bytes of an ELF file) and \<open>Bomb\<close> (bomb.c over
    a parameter for the phases).

  \<^bold>\<open>What is shown.\<close> For the allocator, as long as no request is above \<open>MAX_REQUEST\<close> = 134217464 bytes
  (larger ones overflow the block size kept in an \<open>int\<close>, \<open>mm_malloc_truncates\<close>) and the counters of pages and of
  calls are far from overflow (\<open>mm_ok\<close>, \<open>mem_room\<close>): a client's blocks stay apart and keep their contents, all
  calls are defined, requests are served or \<open>mmap\<close> refused, a range of pages is returned exactly when its last
  allocated block is released (the page table holds the pages of the heap and no others, \<open>heap_pages\<close>), and the driver passes every well formed
  trace whose requests need at most \<open>B\<close> pages (\<open>fits\<close>; for the utilization the heap size must fit into
  an \<open>int\<close>). Below it, \<open>mem_map\<close> and \<open>mem_unmap\<close> record and release exactly the pages they are asked for. For the server:
  the codecs of more_string.c are defined exactly when the encoded text has fewer than \<open>INT_MAX\<close> bytes, and then they are inverse and
  stay in their buffers; no schedule frees a conversation that is in use by the
  dictionary, a message is appended when a request runs alone, and what goes wrong when requests run
  concurrently or a client hangs up; the semaphore lets at most its initial number of threads in and loses
  no wake-up, and with it an access to the dictionary behaves as a single step; sockets are opened at the first address that works. For the timers: a count of cycles is exact
  up to \<open>2 ^ 53\<close> and the nearest \<open>double\<close> below \<open>2 ^ 64\<close>, calibration returns exactly when the user time advances often enough, and \<open>fcyc\<close> returns
  the least of the counts of its runs. For the parser: printing and parsing are inverse, parsed
  groups are well formed, and the inputs with undefined behaviour are characterised. For the shell:
  what every parsed script comes to. The arrays that hold the children have no room and are never given any, so a script
  that runs a command has undefined behaviour at its first \<open>fork\<close>, and only a script whose groups are all repeated
  0 times ends; nothing is assumed of what a block of no bytes can hold. For the
  kernels: the tiled versions equal the naive ones and pass the checks of the driver, whose run ends with
  the best scores of what it measured if the image files it is asked for can be created, and is undefined if one cannot. For the
  matcher: the recognisers decide three languages given explicitly, that of model C as long as its buffer of 255 bytes is
  large enough. For the inspector: the decoder
  stays in step with the machine code. Where a theorem has the alternative that \<open>mmap\<close> failed, it
  is the only way for the program to stop.

  \<^bold>\<open>Fuel.\<close> \<open>pagemap_for_each\<close> takes a fuel; its caller passes the page count, which the invariant of \<open>Memlib\<close>
  shows to be enough.

  \<^bold>\<open>Not modelled.\<close> The copies of code that is modelled once: the sampler in the fcyc.c of the malloc lab, the clock.c of the
  performance lab, the rio, sio and socket routines in the csapp.c of the shell lab; the wrappers of csapp.c that
  have no test and return what they call; process groups in the shell; printing of tables and usage texts; the
  phases of the two bombs, which are present as binaries only; the inputs of the linking lab and the
  Racket and Perl scripts.
  \<open>double\<close> is read as the real or rational numbers, without rounding; for the weights of the motion
  kernel and the pixel arithmetic the values are exact in binary. The counts of the cycle counters are rounded (\<open>Clock.to_double\<close>),
  and the quotient 0 / 0 in the driver's index is not a number (\<open>None\<close>).
\<close>

end
